(* ===== verification/Dev_Prelude.thy ===== *)
theory Dev_Prelude
  imports Main "HOL-Library.Multiset" "HOL-Library.Monad_Syntax" "HOL-Library.Product_Lexorder"
    "HOL-Library.Code_Target_Nat"
begin

text \<open>
  Shared groundwork of the development: unsigned 64-bit and 32-bit arithmetic written out over
  the natural numbers, assertions as values of an option type, and the generic facts on lists
  that the components use.

  A C++ \<open>uint64_t\<close> is a natural number below \<open>W64\<close>. Addition and subtraction wrap,
  as the language defines them for unsigned types. A \<open>ZX_ASSERT\<close>, \<open>ZX_DEBUG_ASSERT\<close> or
  \<open>ZX_PANIC\<close> that fires is the value \<open>None\<close> of the operation that contains it.
\<close>

named_theorems range_simps \<open>rewrite rules on ranges that do not wrap\<close>
named_theorems covers_simps \<open>rewrite rules for the offsets a list of ranges covers\<close>

section \<open>Status codes\<close>

text \<open>The values of \<open>zx_status_t\<close> that the code names; any other one is \<open>OtherStatus\<close>.\<close>

datatype zx_status =
  ZX_OK | ZX_ERR_NOT_SUPPORTED | ZX_ERR_NO_MEMORY | ZX_ERR_NOT_FOUND | ZX_ERR_BAD_STATE | ZX_ERR_INVALID_ARGS |
  ZX_ERR_PEER_CLOSED | ZX_ERR_UNAVAILABLE | ZX_ERR_INTERNAL | ZX_ERR_OUT_OF_RANGE | ZX_ERR_NO_RESOURCES |
  ZX_ERR_IO_DATA_INTEGRITY | OtherStatus nat

section \<open>Unsigned machine arithmetic\<close>

definition W64 :: nat where
  "W64 = 2 ^ 64"

definition W32 :: nat where
  "W32 = 2 ^ 32"

definition u64_add :: "nat \<Rightarrow> nat \<Rightarrow> nat" where
  "u64_add a b = (a + b) mod W64"

definition u64_sub :: "nat \<Rightarrow> nat \<Rightarrow> nat" where
  "u64_sub a b = (a + W64 - b) mod W64"

definition u64_mul :: "nat \<Rightarrow> nat \<Rightarrow> nat" where
  "u64_mul a b = (a * b) mod W64"

definition u32_add :: "nat \<Rightarrow> nat \<Rightarrow> nat" where
  "u32_add a b = (a + b) mod W32"

definition u32_sub :: "nat \<Rightarrow> nat \<Rightarrow> nat" where
  "u32_sub a b = (a + W32 - b) mod W32"

definition u32_mul :: "nat \<Rightarrow> nat \<Rightarrow> nat" where
  "u32_mul a b = (a * b) mod W32"

definition u64_max :: nat where
  "u64_max = W64 - 1"

definition u32_max :: nat where
  "u32_max = W32 - 1"

lemma W64_gt [simp]: "0 < W64" "1 < W64" "W64 \<noteq> 0"
  by (simp_all add: W64_def)

lemma W32_gt [simp]: "0 < W32" "1 < W32" "W32 \<noteq> 0"
  by (simp_all add: W32_def)

lemma u64_add_id [range_simps]: "a + b < W64 \<Longrightarrow> u64_add a b = a + b"
  by (simp add: u64_add_def)

lemma u64_add_less [simp]: "u64_add a b < W64"
  by (simp add: u64_add_def)

lemma u64_sub_id [range_simps]: "b \<le> a \<Longrightarrow> a < W64 \<Longrightarrow> u64_sub a b = a - b"
proof -
  assume "b \<le> a" "a < W64"
  then have "a + W64 - b = (a - b) + W64" by simp
  then have "u64_sub a b = ((a - b) + W64) mod W64" by (simp only: u64_sub_def)
  also have "\<dots> = a - b" using \<open>a < W64\<close> by simp
  finally show ?thesis .
qed

lemma u64_sub_less [simp]: "u64_sub a b < W64"
  by (simp add: u64_sub_def)

lemma u64_add_sub_cancel: "b \<le> W64 \<Longrightarrow> a < W64 \<Longrightarrow> u64_add b (u64_sub a b) = a"
proof -
  assume "b \<le> W64" "a < W64"
  have "u64_add b (u64_sub a b) = (b + (a + W64 - b)) mod W64"
    by (simp add: u64_add_def u64_sub_def mod_add_right_eq)
  also have "\<dots> = (a + W64) mod W64" using \<open>b \<le> W64\<close> by simp
  finally show ?thesis using \<open>a < W64\<close> by simp
qed

text \<open>Code equations that avoid the division when nothing wraps.\<close>

lemma W64_code [code]: "W64 = 18446744073709551616"
  by (simp add: W64_def)

lemma u64_add_code [code]: "u64_add a b = (if a + b < W64 then a + b else (a + b) mod W64)"
  by (simp add: u64_add_def)

lemma u64_sub_code [code]:
  "u64_sub a b = (if b \<le> a \<and> a < W64 then a - b else (a + W64 - b) mod W64)"
  by (cases "b \<le> a \<and> a < W64") (simp_all add: u64_sub_id, simp_all add: u64_sub_def)

lemma W32_code [code]: "W32 = 4294967296"
  by (simp add: W32_def)

lemma u32_add_code [code]: "u32_add a b = (if a + b < W32 then a + b else (a + b) mod W32)"
  by (simp add: u32_add_def)

lemma u32_sub_id: "b \<le> a \<Longrightarrow> a < W32 \<Longrightarrow> u32_sub a b = a - b"
proof -
  assume "b \<le> a" "a < W32"
  then have "a + W32 - b = (a - b) + W32" by simp
  then have "u32_sub a b = ((a - b) + W32) mod W32" by (simp only: u32_sub_def)
  also have "\<dots> = a - b" using \<open>a < W32\<close> by simp
  finally show ?thesis .
qed

lemma u32_sub_code [code]:
  "u32_sub a b = (if b \<le> a \<and> a < W32 then a - b else (a + W32 - b) mod W32)"
  by (cases "b \<le> a \<and> a < W32") (simp_all add: u32_sub_id, simp_all add: u32_sub_def)

lemma u32_mul_code [code]: "u32_mul a b = (if a * b < W32 then a * b else (a * b) mod W32)"
  by (simp add: u32_mul_def)

section \<open>Assertions\<close>

definition zx_assert :: "bool \<Rightarrow> unit option" where
  "zx_assert b = (if b then Some () else None)"

lemma zx_assert_eq_Some [simp]: "zx_assert b = Some u \<longleftrightarrow> b"
  by (simp add: zx_assert_def)

lemma zx_assert_True [simp]: "zx_assert True = Some ()"
  by (simp add: zx_assert_def)

lemma zx_assert_False [simp]: "zx_assert False = None"
  by (simp add: zx_assert_def)

lemma bind_zx_assert [simp]: "b \<Longrightarrow> zx_assert b \<bind> f = f ()"
  by (simp add: zx_assert_def)

text \<open>
  Operations that may also report a failure have the type \<open>'a option option\<close>: \<^term>\<open>Some None\<close> is a failure that
  the code returns. These rules take a successful run apart, step by step.
\<close>

lemma bind_SomeE: "x \<bind> f = Some y \<Longrightarrow> (\<And>z. x = Some z \<Longrightarrow> f z = Some y \<Longrightarrow> P) \<Longrightarrow> P"
  by (auto simp: bind_eq_Some_conv)

lemma bind_pairE:
  "x \<bind> (\<lambda>(a, b). f a b) = Some y \<Longrightarrow> (\<And>a b. x = Some (a, b) \<Longrightarrow> f a b = Some y \<Longrightarrow> P) \<Longrightarrow> P"
  by (auto simp: bind_eq_Some_conv)

lemma case_failE:
  "(case x of None \<Rightarrow> Some None | Some z \<Rightarrow> f z) = Some (Some y) \<Longrightarrow>
   (\<And>z. x = Some z \<Longrightarrow> f z = Some (Some y) \<Longrightarrow> P) \<Longrightarrow> P"
  by (cases x) auto

lemma if_failE:
  "(if b then Some None else e) = Some (Some y) \<Longrightarrow> (\<not> b \<Longrightarrow> e = Some (Some y) \<Longrightarrow> P) \<Longrightarrow> P"
  by (cases b) auto

lemmas succeedE = bind_SomeE case_failE if_failE

text \<open>The same for operations that return an error value.\<close>

lemma case_sum_InrE:
  "(case x of Inl e \<Rightarrow> Some (Inl e) | Inr z \<Rightarrow> f z) = Some (Inr y) \<Longrightarrow>
   (\<And>z. x = Inr z \<Longrightarrow> f z = Some (Inr y) \<Longrightarrow> P) \<Longrightarrow> P"
  by (cases x) auto

lemma case_option_InrE:
  "(case x of None \<Rightarrow> Some (Inl e) | Some z \<Rightarrow> f z) = Some (Inr y) \<Longrightarrow>
   (\<And>z. x = Some z \<Longrightarrow> f z = Some (Inr y) \<Longrightarrow> P) \<Longrightarrow> P"
  by (cases x) auto

lemma if_InrE:
  "(if b then Some (Inl e) else x) = Some (Inr y) \<Longrightarrow> (\<not> b \<Longrightarrow> x = Some (Inr y) \<Longrightarrow> P) \<Longrightarrow> P"
  by (cases b) auto

lemmas succeed_InrE = bind_SomeE case_sum_InrE case_option_InrE if_InrE

text \<open>And these show that no assertion fires.\<close>

lemma bind_totalI: "x \<noteq> None \<Longrightarrow> (\<And>z. x = Some z \<Longrightarrow> f z \<noteq> None) \<Longrightarrow> x \<bind> f \<noteq> None"
  by (cases x) auto

lemma case_totalI:
  "(\<And>z. x = Some z \<Longrightarrow> f z \<noteq> None) \<Longrightarrow> (case x of None \<Rightarrow> Some None | Some z \<Rightarrow> f z) \<noteq> None"
  by (cases x) auto

lemma if_totalI: "(b \<Longrightarrow> x \<noteq> None) \<Longrightarrow> (\<not> b \<Longrightarrow> y \<noteq> None) \<Longrightarrow> (if b then x else y) \<noteq> None"
  by simp

lemmas totalI = bind_totalI case_totalI if_totalI

section \<open>Lists\<close>

definition slice :: "nat \<Rightarrow> nat \<Rightarrow> 'a list \<Rightarrow> 'a list" where
  "slice i j xs = take (j - i) (drop i xs)"

lemma list_all2_set1: "list_all2 R xs ys \<Longrightarrow> x \<in> set xs \<Longrightarrow> \<exists>y\<in>set ys. R x y"
  by (induction rule: list_all2_induct) auto

lemma list_all2_set2: "list_all2 R xs ys \<Longrightarrow> y \<in> set ys \<Longrightarrow> \<exists>x\<in>set xs. R x y"
  by (induction rule: list_all2_induct) auto

text \<open>Folding a partial step over a list: the first \<open>None\<close> ends the loop.\<close>

fun foldM :: "('s \<Rightarrow> 'a \<Rightarrow> 's option) \<Rightarrow> 's \<Rightarrow> 'a list \<Rightarrow> 's option" where
  "foldM f s [] = Some s"
| "foldM f s (x # xs) = (case f s x of None \<Rightarrow> None | Some t \<Rightarrow> foldM f t xs)"

lemma slice_append_split:
  assumes "i \<le> j"
  shows "take i xs @ slice i j xs @ drop j xs = xs"
proof -
  have "slice i j xs @ drop j xs = drop i xs"
    using assms append_take_drop_id [of "j - i" "drop i xs"] by (simp add: slice_def)
  then show ?thesis by simp
qed

lemma set_slice_subset: "set (slice i j xs) \<subseteq> set xs"
  unfolding slice_def by (rule subset_trans [OF set_take_subset set_drop_subset])

lemma slice_Cons_Suc [simp]: "slice (Suc i) (Suc j) (x # xs) = slice i j xs"
  by (simp add: slice_def)

lemma takeWhile_eq_filter_sorted_wrt:
  assumes "sorted_wrt R xs" and "\<And>x y. R x y \<Longrightarrow> P y \<Longrightarrow> P x"
  shows "takeWhile P xs = filter P xs"
  using assms(1)
proof (induction xs)
  case (Cons x xs)
  show ?case
  proof (cases "P x")
    case True
    then show ?thesis using Cons by simp
  next
    case False
    then have "\<forall>y\<in>set xs. \<not> P y" using Cons.prems assms(2) by auto
    then show ?thesis using False by (simp add: filter_empty_conv)
  qed
qed simp

lemma dropWhile_eq_filter_sorted_wrt:
  assumes "sorted_wrt R xs" and "\<And>x y. R x y \<Longrightarrow> P y \<Longrightarrow> P x"
  shows "dropWhile P xs = filter (\<lambda>x. \<not> P x) xs"
  using assms(1)
proof (induction xs)
  case (Cons x xs)
  show ?case
  proof (cases "P x")
    case True
    then show ?thesis using Cons by simp
  next
    case False
    then have "\<forall>y\<in>set xs. \<not> P y" using Cons.prems assms(2) by auto
    then show ?thesis using False by (simp add: filter_id_conv)
  qed
qed simp

end
