(* ===== verification/Sysmem_Range.thy ===== *)
theory Sysmem_Range
  imports Dev_Prelude
begin

text \<open>
  The class \<open>Range\<close> of \<open>protected_ranges.h\<close>, its two comparators, the helper functions on ranges of
  \<open>protected_ranges.cc\<close>, and \<open>std::multiset<Range, CompareRangeByBegin>\<close> as a sorted list.

  A range is a begin and a length; its end is computed with wrap-around, as in the code. The pinning
  handle \<open>pmt_\<close> (opaque to this code) and the debug-only \<open>MoveTracker\<close> are left out. A range is
  \<open>good\<close> when it is non-empty and its end does not wrap, the situation the code is written for.
  The meaning of a range is the set of offsets it covers; a list of ranges is \<open>separated\<close> when there
  is a gap between any two of them, \<open>nonoverlap\<close> when they may touch, and \<open>monotone\<close> when begins
  and ends are both ordered (the restricted overlap that \<open>required_ranges_\<close> has).
\<close>

section \<open>Ranges\<close>

datatype mrange = Range (r_begin: nat) (r_length: nat)

definition BeginLength :: "nat \<Rightarrow> nat \<Rightarrow> mrange" where
  "BeginLength b l = Range b l"

definition BeginEnd :: "nat \<Rightarrow> nat \<Rightarrow> mrange" where
  "BeginEnd b e = Range b (u64_sub e b)"

definition r_end :: "mrange \<Rightarrow> nat" where
  "r_end r = u64_add (r_begin r) (r_length r)"

definition r_empty :: "mrange \<Rightarrow> bool" where
  "r_empty r \<longleftrightarrow> r_end r \<le> r_begin r"

definition CompareRangeByBegin :: "mrange \<Rightarrow> mrange \<Rightarrow> bool" where
  "CompareRangeByBegin left right =
     (if r_begin left < r_begin right then True
      else if r_begin left > r_begin right then False
      else if r_length left < r_length right then True
      else False)"

text \<open>
  \<open>CompareRangeByLength\<close> also has debug assertions that neither range is empty. They are not branches of
  the comparison here: the ranges ordered by length are gaps between separate ranges, and
  \<open>by_length_nonempty\<close> in \<open>Sysmem_Ranges_Class\<close> shows that none of them is empty while the invariant holds.
\<close>

definition CompareRangeByLength :: "mrange \<Rightarrow> mrange \<Rightarrow> bool" where
  "CompareRangeByLength left right =
     (if r_length left < r_length right then True
      else if r_length left > r_length right then False
      else if r_begin left < r_begin right then True
      else False)"

definition range_eq :: "mrange \<Rightarrow> mrange \<Rightarrow> bool" where
  "range_eq a b \<longleftrightarrow> \<not> CompareRangeByBegin a b \<and> \<not> CompareRangeByBegin b a"

definition IsOverlap :: "mrange \<Rightarrow> mrange \<Rightarrow> bool" where
  "IsOverlap a b =
     (if r_end a \<le> r_begin b then False
      else if r_end b \<le> r_begin a then False
      else True)"

definition Intersect :: "mrange \<Rightarrow> mrange \<Rightarrow> mrange option" where
  "Intersect a b = do {
     zx_assert (IsOverlap a b);
     let new_begin = max (r_begin a) (r_begin b);
         new_last = min (u64_sub (r_end a) 1) (u64_sub (r_end b) 1);
         new_end = u64_add new_last 1;
         new_length = u64_sub new_end new_begin
     in Some (BeginLength new_begin new_length) }"

text \<open>Is \<open>a\<close> covered by \<open>b\<close>?\<close>

definition IsCoveredBy :: "mrange \<Rightarrow> mrange \<Rightarrow> bool" where
  "IsCoveredBy a b \<longleftrightarrow> r_begin b \<le> r_begin a \<and> r_end b \<ge> r_end a"

definition SubtractRanges :: "mrange \<Rightarrow> mrange \<Rightarrow> (mrange \<times> mrange) option" where
  "SubtractRanges a b = do {
     zx_assert (IsOverlap a b);
     let leftover_left =
           (if r_begin b > r_begin a then BeginEnd (r_begin a) (r_begin b)
            else BeginLength (r_begin a) 0);
         leftover_right =
           (if r_end b < r_end a then BeginEnd (r_end b) (r_end a)
            else BeginLength (r_end a) 0)
     in Some (leftover_left, leftover_right) }"

text \<open>The loop of \<open>IsAnyInternalOverlap\<close> carries \<open>last_end\<close>.\<close>

fun internal_overlap_from :: "nat \<Rightarrow> mrange list \<Rightarrow> bool" where
  "internal_overlap_from last_end [] = False"
| "internal_overlap_from last_end (r # rs) =
     (if last_end > r_begin r then True else internal_overlap_from (r_end r) rs)"

definition IsAnyInternalOverlap :: "mrange list \<Rightarrow> bool" where
  "IsAnyInternalOverlap ranges = internal_overlap_from 0 ranges"

text \<open>\<open>fbl::round_down\<close> and \<open>fbl::round_up\<close> are parameters.\<close>

definition AlignRequestedRange ::
  "(nat \<Rightarrow> nat \<Rightarrow> nat) \<Rightarrow> (nat \<Rightarrow> nat \<Rightarrow> nat) \<Rightarrow> mrange \<Rightarrow> nat \<Rightarrow> mrange" where
  "AlignRequestedRange round_down round_up r alignment =
     (let aligned_start = round_down (r_begin r) alignment;
          aligned_end = round_up (r_end r) alignment
      in BeginEnd aligned_start aligned_end)"

section \<open>The order of ranges\<close>

instantiation mrange :: linorder
begin

definition less_mrange :: "mrange \<Rightarrow> mrange \<Rightarrow> bool" where
  "less_mrange a b \<longleftrightarrow> CompareRangeByBegin a b"

definition less_eq_mrange :: "mrange \<Rightarrow> mrange \<Rightarrow> bool" where
  "less_eq_mrange a b \<longleftrightarrow> \<not> CompareRangeByBegin b a"

instance
proof
  fix x y z :: mrange
  show "x < y \<longleftrightarrow> x \<le> y \<and> \<not> y \<le> x"
    by (auto simp: less_mrange_def less_eq_mrange_def CompareRangeByBegin_def split: if_splits)
  show "x \<le> x"
    by (simp add: less_eq_mrange_def CompareRangeByBegin_def)
  show "x \<le> y \<Longrightarrow> y \<le> z \<Longrightarrow> x \<le> z"
    by (auto simp: less_eq_mrange_def CompareRangeByBegin_def split: if_splits)
  show "x \<le> y \<Longrightarrow> y \<le> x \<Longrightarrow> x = y"
    by (cases x; cases y) (auto simp: less_eq_mrange_def CompareRangeByBegin_def split: if_splits)
  show "x \<le> y \<or> y \<le> x"
    by (auto simp: less_eq_mrange_def CompareRangeByBegin_def)
qed

end

lemma mrange_less_iff:
  "a < b \<longleftrightarrow> r_begin a < r_begin b \<or> r_begin a = r_begin b \<and> r_length a < r_length b"
  by (auto simp: less_mrange_def CompareRangeByBegin_def)

lemma mrange_le_iff:
  "a \<le> b \<longleftrightarrow> r_begin a < r_begin b \<or> r_begin a = r_begin b \<and> r_length a \<le> r_length b"
  by (auto simp: less_eq_mrange_def CompareRangeByBegin_def)

lemma range_eq_iff [simp]: "range_eq a b \<longleftrightarrow> a = b"
  by (cases a; cases b) (auto simp: range_eq_def CompareRangeByBegin_def)

lemma CompareRangeByLength_key:
  "CompareRangeByLength a b \<longleftrightarrow> (r_length a, r_begin a) < (r_length b, r_begin b)"
  by (auto simp: CompareRangeByLength_def)

section \<open>\<open>std::multiset\<close> of ranges as a sorted list\<close>

text \<open>
  An iterator is an index; \<open>end()\<close> is the length. \<open>erase\<close> of a key removes every equal element,
  \<open>erase\<close> of an iterator removes one.
\<close>

definition emplace :: "'a::linorder \<Rightarrow> 'a list \<Rightarrow> 'a list" where
  "emplace r rs = insort r rs"

definition erase_key :: "'a \<Rightarrow> 'a list \<Rightarrow> 'a list" where
  "erase_key r rs = filter (\<lambda>x. x \<noteq> r) rs"

definition erase_iter :: "nat \<Rightarrow> 'a list \<Rightarrow> 'a list" where
  "erase_iter i rs = take i rs @ drop (Suc i) rs"

definition lower_bound :: "'a::linorder \<Rightarrow> 'a list \<Rightarrow> nat" where
  "lower_bound k rs = length (takeWhile (\<lambda>r. r < k) rs)"

definition upper_bound :: "'a::linorder \<Rightarrow> 'a list \<Rightarrow> nat" where
  "upper_bound k rs = length (takeWhile (\<lambda>r. \<not> k < r) rs)"

definition find_key :: "'a::linorder \<Rightarrow> 'a list \<Rightarrow> nat" where
  "find_key k rs =
     (let i = lower_bound k rs
      in if i < length rs \<and> rs ! i = k then i else length rs)"

text \<open>The second container, ordered by length.\<close>

abbreviation by_length_key :: "mrange \<Rightarrow> nat \<times> nat" where
  "by_length_key r \<equiv> (r_length r, r_begin r)"

definition emplace_by_length :: "mrange \<Rightarrow> mrange list \<Rightarrow> mrange list" where
  "emplace_by_length r rs = insort_key by_length_key r rs"

definition erase_by_length :: "mrange \<Rightarrow> mrange list \<Rightarrow> mrange list" where
  "erase_by_length r rs =
     filter (\<lambda>x. CompareRangeByLength x r \<or> CompareRangeByLength r x) rs"

section \<open>The contract of an ordered multiset\<close>

text \<open>
  What the clients rely on: insertion and erasure keep the order and change the multiset as
  expected, and the two bounds split the container at a key.
\<close>

locale ordered_container =
  fixes ins :: "'a::linorder \<Rightarrow> 'a list \<Rightarrow> 'a list"
    and del :: "'a \<Rightarrow> 'a list \<Rightarrow> 'a list"
    and del_at :: "nat \<Rightarrow> 'a list \<Rightarrow> 'a list"
    and lower :: "'a \<Rightarrow> 'a list \<Rightarrow> nat"
    and upper :: "'a \<Rightarrow> 'a list \<Rightarrow> nat"
  assumes sorted_ins: "sorted xs \<Longrightarrow> sorted (ins x xs)"
    and mset_ins: "mset (ins x xs) = add_mset x (mset xs)"
    and sorted_del: "sorted xs \<Longrightarrow> sorted (del x xs)"
    and set_del: "set (del x xs) = set xs - {x}"
    and mset_del_at: "i < length xs \<Longrightarrow> mset (del_at i xs) = mset xs - {#xs ! i#}"
    and sorted_del_at: "sorted xs \<Longrightarrow> sorted (del_at i xs)"
    and lower_le: "lower k xs \<le> length xs"
    and lower_before: "sorted xs \<Longrightarrow> i < lower k xs \<Longrightarrow> xs ! i < k"
    and lower_after: "sorted xs \<Longrightarrow> lower k xs \<le> i \<Longrightarrow> i < length xs \<Longrightarrow> k \<le> xs ! i"
    and upper_le: "upper k xs \<le> length xs"
    and upper_before: "sorted xs \<Longrightarrow> i < upper k xs \<Longrightarrow> xs ! i \<le> k"
    and upper_after: "sorted xs \<Longrightarrow> upper k xs \<le> i \<Longrightarrow> i < length xs \<Longrightarrow> k < xs ! i"
begin

lemma set_ins: "set (ins x xs) = insert x (set xs)"
  by (metis mset_ins set_mset_add_mset_insert set_mset_mset)

lemma length_ins: "length (ins x xs) = Suc (length xs)"
  by (metis mset_ins size_add_mset size_mset)

lemma ins_unique:
  assumes "sorted xs" and "sorted ys" and "mset ys = add_mset x (mset xs)"
  shows "ins x xs = ys"
proof -
  have "sorted (ins x xs)" by (rule sorted_ins [OF assms(1)])
  moreover have "mset (ins x xs) = mset ys" using assms(3) by (simp add: mset_ins)
  ultimately show ?thesis using assms(2) by (metis properties_for_sort)
qed

lemma lower_unique:
  assumes "sorted xs" and "i \<le> length xs" and "\<And>j. j < i \<Longrightarrow> xs ! j < k"
    and "i < length xs \<Longrightarrow> k \<le> xs ! i"
  shows "lower k xs = i"
proof (rule linorder_cases [of "lower k xs" i])
  assume "lower k xs < i"
  then have "k \<le> xs ! lower k xs" using lower_after [OF assms(1)] assms(2) by simp
  moreover have "xs ! lower k xs < k" using assms(3) \<open>lower k xs < i\<close> .
  ultimately show ?thesis by simp
next
  assume "lower k xs > i"
  then have "xs ! i < k" using lower_before [OF assms(1)] by simp
  moreover have "k \<le> xs ! i" using assms(4) lower_le [of k xs] \<open>lower k xs > i\<close> by simp
  ultimately show ?thesis by simp
qed simp

end

lemma takeWhile_nth_after:
  assumes "sorted xs" "length (takeWhile P xs) \<le> i" "i < length xs"
    and "\<And>x y. x \<le> y \<Longrightarrow> P y \<Longrightarrow> P x"
  shows "\<not> P (xs ! i)"
proof -
  let ?n = "length (takeWhile P xs)"
  have "\<not> P (xs ! ?n)" using assms(2,3) by (intro nth_length_takeWhile) simp
  moreover have "xs ! ?n \<le> xs ! i" using assms(1-3) by (simp add: sorted_nth_mono)
  ultimately show ?thesis using assms(4) by blast
qed

lemma takeWhile_nth_before: "i < length (takeWhile P xs) \<Longrightarrow> P (xs ! i)"
  by (metis nth_mem set_takeWhileD takeWhile_nth)

lemma mset_erase_iter:
  assumes "i < length xs"
  shows "mset (erase_iter i xs) = mset xs - {#xs ! i#}"
proof -
  have "mset xs = mset (take i xs @ xs ! i # drop (Suc i) xs)"
    using assms by (simp add: id_take_nth_drop [symmetric])
  then show ?thesis by (simp add: erase_iter_def)
qed

lemma sorted_erase_iter:
  assumes "sorted xs"
  shows "sorted (erase_iter i xs)"
proof -
  have "sorted (take i xs @ drop i xs)" using assms by simp
  moreover have "set (drop (Suc i) xs) \<subseteq> set (drop i xs)" by (simp add: set_drop_subset_set_drop)
  moreover have "sorted (drop (Suc i) xs)" using assms by (rule sorted_wrt_drop)
  ultimately show ?thesis unfolding erase_iter_def sorted_append by blast
qed

interpretation ranges_ms: ordered_container emplace erase_key erase_iter lower_bound upper_bound
proof unfold_locales
  fix x k :: "'a::linorder" and xs :: "'a list" and i :: nat
  show "sorted xs \<Longrightarrow> sorted (emplace x xs)"
    by (simp add: emplace_def sorted_insort)
  show "mset (emplace x xs) = add_mset x (mset xs)"
    by (simp add: emplace_def)
  show "sorted xs \<Longrightarrow> sorted (erase_key x xs)"
    by (simp add: erase_key_def sorted_wrt_filter)
  show "set (erase_key x xs) = set xs - {x}"
    by (auto simp: erase_key_def)
  show "i < length xs \<Longrightarrow> mset (erase_iter i xs) = mset xs - {#xs ! i#}"
    by (rule mset_erase_iter)
  show "sorted xs \<Longrightarrow> sorted (erase_iter i xs)"
    by (rule sorted_erase_iter)
  show "lower_bound k xs \<le> length xs" "upper_bound k xs \<le> length xs"
    by (simp_all add: lower_bound_def upper_bound_def length_takeWhile_le)
  show "i < lower_bound k xs \<Longrightarrow> xs ! i < k"
    unfolding lower_bound_def by (rule takeWhile_nth_before)
  show "sorted xs \<Longrightarrow> lower_bound k xs \<le> i \<Longrightarrow> i < length xs \<Longrightarrow> k \<le> xs ! i"
    unfolding lower_bound_def using takeWhile_nth_after [of xs "\<lambda>r. r < k" i] by fastforce
  show "i < upper_bound k xs \<Longrightarrow> xs ! i \<le> k"
    unfolding upper_bound_def using takeWhile_nth_before [of i "\<lambda>r. \<not> k < r" xs] by fastforce
  show "sorted xs \<Longrightarrow> upper_bound k xs \<le> i \<Longrightarrow> i < length xs \<Longrightarrow> k < xs ! i"
    unfolding upper_bound_def using takeWhile_nth_after [of xs "\<lambda>r. \<not> k < r" i] by fastforce
qed

end
