(* ===== verification/Sysmem_Range_Sets.thy ===== *)
theory Sysmem_Range_Sets
  imports Sysmem_Range
begin

text \<open>
  The meaning of ranges: the offsets a range or a list of ranges covers, the three degrees of
  order a list can have, and the fact the incremental algorithms rest on: a separated list is
  determined by the offsets it covers.
\<close>

section \<open>Offsets\<close>

definition good :: "mrange \<Rightarrow> bool" where
  "good r \<longleftrightarrow> 0 < r_length r \<and> r_begin r + r_length r < W64"

definition pts :: "mrange \<Rightarrow> nat set" where
  "pts r = {r_begin r ..< r_end r}"

definition covers :: "mrange list \<Rightarrow> nat set" where
  "covers rs = (\<Union>r\<in>set rs. pts r)"

definition separated :: "mrange list \<Rightarrow> bool" where
  "separated rs \<longleftrightarrow> (\<forall>r\<in>set rs. good r) \<and> sorted_wrt (\<lambda>a b. r_end a < r_begin b) rs"

definition nonoverlap :: "mrange list \<Rightarrow> bool" where
  "nonoverlap rs \<longleftrightarrow> (\<forall>r\<in>set rs. good r) \<and> sorted_wrt (\<lambda>a b. r_end a \<le> r_begin b) rs"

definition monotone_ranges :: "mrange list \<Rightarrow> bool" where
  "monotone_ranges rs \<longleftrightarrow> (\<forall>r\<in>set rs. good r) \<and>
     sorted_wrt (\<lambda>a b. r_begin a \<le> r_begin b \<and> r_end a \<le> r_end b) rs"

lemma good_end [range_simps]: "good r \<Longrightarrow> r_end r = r_begin r + r_length r"
  by (simp add: good_def r_end_def u64_add_id)

lemma good_begin_less_end: "good r \<Longrightarrow> r_begin r < r_end r"
  by (simp add: good_end) (simp add: good_def)

lemma good_end_less: "good r \<Longrightarrow> r_end r < W64"
  by (simp add: r_end_def)

lemma good_not_empty: "good r \<Longrightarrow> \<not> r_empty r"
  by (simp add: r_empty_def good_begin_less_end not_le)

lemma BeginEnd_begin [simp]: "r_begin (BeginEnd b e) = b"
  by (simp add: BeginEnd_def)

lemma BeginLength_sel [simp]: "r_begin (BeginLength b l) = b" "r_length (BeginLength b l) = l"
  by (simp_all add: BeginLength_def)

lemma BeginEnd_end [range_simps]: "b \<le> W64 \<Longrightarrow> e < W64 \<Longrightarrow> r_end (BeginEnd b e) = e"
  by (simp add: BeginEnd_def r_end_def u64_add_sub_cancel)

lemma BeginEnd_length [range_simps]: "b \<le> e \<Longrightarrow> e < W64 \<Longrightarrow> r_length (BeginEnd b e) = e - b"
  by (simp add: BeginEnd_def u64_sub_id)

lemma BeginEnd_good [range_simps]: "b < e \<Longrightarrow> e < W64 \<Longrightarrow> good (BeginEnd b e)"
  by (simp add: good_def BeginEnd_length)

lemma BeginEnd_empty_iff: "b \<le> W64 \<Longrightarrow> e < W64 \<Longrightarrow> r_empty (BeginEnd b e) \<longleftrightarrow> e \<le> b"
  by (simp add: r_empty_def BeginEnd_end)

lemma BeginLength0_end [simp]: "b < W64 \<Longrightarrow> r_end (BeginLength b 0) = b"
  by (simp add: r_end_def u64_add_id)

lemma good_eqI:
  "good a \<Longrightarrow> good b \<Longrightarrow> r_begin a = r_begin b \<Longrightarrow> r_end a = r_end b \<Longrightarrow> a = b"
  by (cases a; cases b) (simp add: good_end)

lemma good_BeginEnd_eq: "good r \<Longrightarrow> BeginEnd (r_begin r) (r_end r) = r"
  by (rule good_eqI)
    (simp_all add: BeginEnd_end BeginEnd_good good_begin_less_end good_end_less
       less_imp_le [OF less_trans [OF good_begin_less_end good_end_less]])

lemma good_less_iff:
  assumes "good a" "good b"
  shows "a < b \<longleftrightarrow> r_begin a < r_begin b \<or> r_begin a = r_begin b \<and> r_end a < r_end b"
  using assms by (auto simp: mrange_less_iff good_end)

lemma pts_BeginEnd [covers_simps]: "e < W64 \<Longrightarrow> b \<le> W64 \<Longrightarrow> pts (BeginEnd b e) = {b..<e}"
  by (simp add: pts_def BeginEnd_end)

lemma pts_nonempty: "good r \<Longrightarrow> r_begin r \<in> pts r"
  by (simp add: pts_def good_begin_less_end)

lemma pts_last: "good r \<Longrightarrow> r_end r - 1 \<in> pts r"
  using good_begin_less_end [of r] by (auto simp: pts_def)

lemma finite_pts [simp]: "finite (pts r)"
  by (simp add: pts_def)

lemma card_pts: "good r \<Longrightarrow> card (pts r) = r_length r"
  by (simp add: pts_def good_end)

lemma IsOverlap_iff: "IsOverlap a b \<longleftrightarrow> r_begin a < r_end b \<and> r_begin b < r_end a"
  by (auto simp: IsOverlap_def)

lemma IsOverlap_sym: "IsOverlap a b \<longleftrightarrow> IsOverlap b a"
  by (auto simp: IsOverlap_iff)

lemma IsOverlap_pts:
  assumes "good a" "good b"
  shows "IsOverlap a b \<longleftrightarrow> pts a \<inter> pts b \<noteq> {}"
proof
  assume "IsOverlap a b"
  then have "max (r_begin a) (r_begin b) \<in> pts a \<inter> pts b"
    using assms by (auto simp: IsOverlap_iff pts_def good_begin_less_end)
  then show "pts a \<inter> pts b \<noteq> {}" by blast
qed (auto simp: IsOverlap_iff pts_def)

lemma IsCoveredBy_pts:
  assumes "good a"
  shows "IsCoveredBy a b \<longleftrightarrow> pts a \<subseteq> pts b"
  using good_begin_less_end [OF assms]
  by (auto simp: IsCoveredBy_def pts_def)

section \<open>Lists of ranges\<close>

lemma covers_Nil [simp, covers_simps]: "covers [] = {}"
  by (simp add: covers_def)

lemma covers_Cons [simp, covers_simps]: "covers (r # rs) = pts r \<union> covers rs"
  by (simp add: covers_def)

lemma covers_append [simp, covers_simps]: "covers (xs @ ys) = covers xs \<union> covers ys"
  by (auto simp: covers_def)

lemma covers_mono: "set xs \<subseteq> set ys \<Longrightarrow> covers xs \<subseteq> covers ys"
  by (auto simp: covers_def)

lemma covers_cong_mset: "mset xs = mset ys \<Longrightarrow> covers xs = covers ys"
  by (metis covers_def mset_eq_setD)

lemma covers_emplace [simp, covers_simps]: "covers (emplace r rs) = pts r \<union> covers rs"
  by (auto simp: covers_def ranges_ms.set_ins)

lemma covers_iff: "x \<in> covers rs \<longleftrightarrow> (\<exists>r\<in>set rs. x \<in> pts r)"
  by (auto simp: covers_def)

lemma pts_subset_covers: "r \<in> set rs \<Longrightarrow> pts r \<subseteq> covers rs"
  by (auto simp: covers_def)

lemma finite_covers [simp]: "finite (covers rs)"
  by (simp add: covers_def)

lemma separated_Nil [simp]: "separated []"
  by (simp add: separated_def)

lemma separated_Cons:
  "separated (r # rs) \<longleftrightarrow> good r \<and> (\<forall>q\<in>set rs. r_end r < r_begin q) \<and> separated rs"
  by (auto simp: separated_def)

lemma separated_append:
  "separated (xs @ ys) \<longleftrightarrow>
     separated xs \<and> separated ys \<and> (\<forall>a\<in>set xs. \<forall>b\<in>set ys. r_end a < r_begin b)"
  by (auto simp: separated_def sorted_wrt_append)

lemma separated_singleton [simp]: "separated [r] \<longleftrightarrow> good r"
  by (simp add: separated_Cons)

lemma nonoverlap_Nil [simp]: "nonoverlap []"
  by (simp add: nonoverlap_def)

lemma nonoverlap_Cons:
  "nonoverlap (r # rs) \<longleftrightarrow> good r \<and> (\<forall>q\<in>set rs. r_end r \<le> r_begin q) \<and> nonoverlap rs"
  by (auto simp: nonoverlap_def)

lemma nonoverlap_append:
  "nonoverlap (xs @ ys) \<longleftrightarrow>
     nonoverlap xs \<and> nonoverlap ys \<and> (\<forall>a\<in>set xs. \<forall>b\<in>set ys. r_end a \<le> r_begin b)"
  by (auto simp: nonoverlap_def sorted_wrt_append)

lemma separated_nonoverlap: "separated rs \<Longrightarrow> nonoverlap rs"
  unfolding separated_def nonoverlap_def by (auto elim!: sorted_wrt_mono_rel [rotated])

lemma nonoverlap_monotone: "nonoverlap rs \<Longrightarrow> monotone_ranges rs"
proof -
  assume *: "nonoverlap rs"
  have "sorted_wrt (\<lambda>a b. r_begin a \<le> r_begin b \<and> r_end a \<le> r_end b) rs"
  proof (rule sorted_wrt_mono_rel [where P = "\<lambda>a b. r_end a \<le> r_begin b"])
    fix x y assume "x \<in> set rs" "y \<in> set rs" "r_end x \<le> r_begin y"
    then show "r_begin x \<le> r_begin y \<and> r_end x \<le> r_end y"
      using * good_begin_less_end [of x] good_begin_less_end [of y] by (auto simp: nonoverlap_def)
  qed (use * in \<open>simp add: nonoverlap_def\<close>)
  then show ?thesis using * by (simp add: nonoverlap_def monotone_ranges_def)
qed

lemma separated_monotone: "separated rs \<Longrightarrow> monotone_ranges rs"
  by (rule nonoverlap_monotone [OF separated_nonoverlap])

lemma monotone_sorted: "monotone_ranges rs \<Longrightarrow> sorted rs"
proof -
  assume *: "monotone_ranges rs"
  show ?thesis
  proof (rule sorted_wrt_mono_rel [where P = "\<lambda>a b. r_begin a \<le> r_begin b \<and> r_end a \<le> r_end b"])
    fix x y assume "x \<in> set rs" "y \<in> set rs" "r_begin x \<le> r_begin y \<and> r_end x \<le> r_end y"
    then show "x \<le> y" using * by (auto simp: monotone_ranges_def mrange_le_iff good_end)
  qed (use * in \<open>simp add: monotone_ranges_def\<close>)
qed

lemmas separated_sorted = monotone_sorted [OF separated_monotone]
lemmas nonoverlap_sorted = monotone_sorted [OF nonoverlap_monotone]

lemma separated_good: "separated rs \<Longrightarrow> r \<in> set rs \<Longrightarrow> good r"
  by (simp add: separated_def)

lemma nonoverlap_good: "nonoverlap rs \<Longrightarrow> r \<in> set rs \<Longrightarrow> good r"
  by (simp add: nonoverlap_def)

lemma nonoverlap_two:
  assumes "nonoverlap rs" "a \<in> set rs" "b \<in> set rs" "IsOverlap a b"
  shows "a = b"
  using assms
proof (induction rs)
  case (Cons r rs)
  then show ?case by (auto simp: nonoverlap_Cons IsOverlap_iff)
qed simp

lemma nonoverlap_disjoint_pts:
  assumes "nonoverlap rs" "a \<in> set rs" "b \<in> set rs" "a \<noteq> b"
  shows "pts a \<inter> pts b = {}"
  using assms nonoverlap_two [of rs a b] nonoverlap_good [of rs] IsOverlap_pts by blast

lemma nonoverlap_distinct: "nonoverlap rs \<Longrightarrow> distinct rs"
proof (induction rs)
  case (Cons r rs)
  then show ?case using good_begin_less_end [of r] by (fastforce simp: nonoverlap_Cons)
qed simp

lemmas separated_distinct = nonoverlap_distinct [OF separated_nonoverlap]

lemma separated_two:
  assumes "separated rs" "a \<in> set rs" "b \<in> set rs"
  shows "a = b \<or> r_end a < r_begin b \<or> r_end b < r_begin a"
  using assms by (induction rs) (auto simp: separated_Cons)

lemma separated_subset:
  assumes "separated rs" "sorted ss" "distinct ss" "set ss \<subseteq> set rs"
  shows "separated ss"
  using assms(2-)
proof (induction ss)
  case (Cons s ss)
  have "r_end s < r_begin q" if "q \<in> set ss" for q
  proof -
    have "s \<noteq> q" "s \<le> q" "s \<in> set rs" "q \<in> set rs" using Cons.prems that by auto
    then have "s < q" by simp
    have "good s" "good q" using separated_good [OF assms(1)] \<open>s \<in> set rs\<close> \<open>q \<in> set rs\<close> by auto
    have "r_end s < r_begin q \<or> r_end q < r_begin s"
      using separated_two [OF assms(1) \<open>s \<in> set rs\<close> \<open>q \<in> set rs\<close>] \<open>s \<noteq> q\<close> by blast
    then show ?thesis
      using \<open>s < q\<close> good_begin_less_end [OF \<open>good q\<close>] by (auto simp: mrange_less_iff)
  qed
  then show ?case using Cons assms(1) by (auto simp: separated_Cons separated_def)
qed simp

lemma separated_filter: "separated rs \<Longrightarrow> separated (filter P rs)"
  by (auto simp: separated_def sorted_wrt_filter)

lemma nonoverlap_filter: "nonoverlap rs \<Longrightarrow> nonoverlap (filter P rs)"
  by (auto simp: nonoverlap_def sorted_wrt_filter)

lemma card_covers: "nonoverlap rs \<Longrightarrow> card (covers rs) = sum_list (map r_length rs)"
proof (induction rs)
  case (Cons r rs)
  have "pts r \<inter> covers rs = {}"
    using Cons.prems by (fastforce simp: nonoverlap_Cons covers_iff pts_def)
  then show ?case
    using Cons by (simp add: nonoverlap_Cons card_Un_disjoint card_pts)
qed simp

lemma covers_less_W64: "(\<And>r. r \<in> set rs \<Longrightarrow> good r) \<Longrightarrow> covers rs \<subseteq> {..<W64}"
  using good_end_less by (fastforce simp: covers_def pts_def)

lemma sum_length_less:
  assumes "nonoverlap rs"
  shows "sum_list (map r_length rs) \<le> W64"
proof -
  have "card (covers rs) \<le> card {..<W64}"
    by (intro card_mono covers_less_W64) (use assms nonoverlap_good in auto)
  then show ?thesis using assms by (simp add: card_covers)
qed

section \<open>A separated list is determined by what it covers\<close>

lemma separated_hd_begin:
  assumes "separated (r # rs)"
  shows "r_begin r = (LEAST x. x \<in> covers (r # rs))"
proof (rule Least_equality [symmetric])
  show "r_begin r \<in> covers (r # rs)" using assms by (simp add: separated_Cons pts_nonempty)
next
  fix y assume "y \<in> covers (r # rs)"
  then show "r_begin r \<le> y"
    using assms good_begin_less_end [of r] by (fastforce simp: separated_Cons covers_iff pts_def)
qed

lemma separated_hd_end:
  assumes "separated (r # rs)"
  shows "r_end r = (LEAST x. r_begin r \<le> x \<and> x \<notin> covers (r # rs))"
proof (rule Least_equality [symmetric])
  show "r_begin r \<le> r_end r \<and> r_end r \<notin> covers (r # rs)"
    using assms good_begin_less_end [of r] by (fastforce simp: separated_Cons covers_iff pts_def)
next
  fix y assume "r_begin r \<le> y \<and> y \<notin> covers (r # rs)"
  then show "r_end r \<le> y" by (auto simp: pts_def)
qed

theorem separated_unique:
  "separated xs \<Longrightarrow> separated ys \<Longrightarrow> covers xs = covers ys \<Longrightarrow> xs = ys"
proof (induction xs arbitrary: ys)
  case Nil
  then show ?case using pts_nonempty by (cases ys) (auto simp: separated_Cons)
next
  case (Cons x xs)
  then obtain y ys' where ys: "ys = y # ys'"
    using pts_nonempty by (cases ys) (auto simp: separated_Cons)
  have sep: "separated (x # xs)" "separated (y # ys')" and eq: "covers (x # xs) = covers (y # ys')"
    using Cons.prems ys by simp_all
  have "r_begin x = r_begin y"
    using separated_hd_begin [OF sep(1)] separated_hd_begin [OF sep(2)] by (simp only: eq)
  moreover from this have "r_end x = r_end y"
    using separated_hd_end [OF sep(1)] separated_hd_end [OF sep(2)] by (simp only: eq)
  ultimately have xy: "x = y"
    using Cons.prems ys by (auto simp: separated_Cons intro: good_eqI)
  have "pts x \<inter> covers xs = {}" "pts y \<inter> covers ys' = {}"
    using Cons.prems ys by (fastforce simp: separated_Cons covers_iff pts_def)+
  then have "covers xs = covers ys'" using Cons.prems(3) ys xy by auto
  then have "xs = ys'" using Cons ys by (simp add: separated_Cons)
  then show ?case using xy ys by simp
qed

section \<open>Gaps between neighbours\<close>

text \<open>
  The loops that walk a container while remembering \<open>prev_end\<close> produce the gaps between
  neighbouring ranges.
\<close>

fun gaps_from :: "nat option \<Rightarrow> mrange list \<Rightarrow> mrange list" where
  "gaps_from prev_end [] = []"
| "gaps_from None (r # rs) = gaps_from (Some (r_end r)) rs"
| "gaps_from (Some pe) (r # rs) = BeginEnd pe (r_begin r) # gaps_from (Some (r_end r)) rs"

definition gaps :: "mrange list \<Rightarrow> mrange list" where
  "gaps rs = gaps_from None rs"

definition adjacent :: "'a list \<Rightarrow> 'a \<Rightarrow> 'a \<Rightarrow> bool" where
  "adjacent xs a b \<longleftrightarrow> (\<exists>us vs. xs = us @ a # b # vs)"

definition hull :: "mrange list \<Rightarrow> nat set" where
  "hull rs = (if rs = [] then {} else {r_begin (hd rs)..<r_end (last rs)})"

lemma gaps_Nil [simp]: "gaps [] = []"
  by (simp add: gaps_def)

lemma gaps_single [simp]: "gaps [r] = []"
  by (simp add: gaps_def)

lemma gaps_Cons2 [simp]: "gaps (a # b # rs) = BeginEnd (r_end a) (r_begin b) # gaps (b # rs)"
  by (simp add: gaps_def)

lemma gaps_from_Some: "gaps_from (Some (r_end a)) rs = gaps (a # rs)"
  by (simp add: gaps_def)

lemma adjacent_Nil [simp]: "\<not> adjacent [] a b"
  by (simp add: adjacent_def)

lemma adjacent_single [simp]: "\<not> adjacent [x] a b"
  by (simp add: adjacent_def Cons_eq_append_conv)

lemma adjacent_Cons2 [simp]:
  "adjacent (x # y # zs) a b \<longleftrightarrow> x = a \<and> y = b \<or> adjacent (y # zs) a b"
  unfolding adjacent_def by (auto simp: Cons_eq_append_conv)

lemma adjacent_append: "adjacent ys a b \<Longrightarrow> adjacent (xs @ ys @ zs) a b"
  unfolding adjacent_def by (metis append.assoc append_Cons)

lemma adjacent_set: "adjacent xs a b \<Longrightarrow> a \<in> set xs \<and> b \<in> set xs"
  by (auto simp: adjacent_def)

lemma length_gaps: "length (gaps rs) = length rs - 1"
  by (induction rs rule: induct_list012) auto

lemma set_gaps: "set (gaps rs) = {BeginEnd (r_end a) (r_begin b) | a b. adjacent rs a b}"
  by (induction rs rule: induct_list012) auto

lemma adjacent_separated:
  assumes "separated xs" "adjacent xs a b"
  shows "r_end a < r_begin b" "good a" "good b"
    and "q \<in> set xs \<Longrightarrow> q = a \<or> q = b \<or> r_end q < r_begin a \<or> r_end b < r_begin q"
proof -
  obtain us vs where xs: "xs = us @ a # b # vs" using assms(2) by (auto simp: adjacent_def)
  then show "r_end a < r_begin b" "good a" "good b"
    using assms(1) by (auto simp: separated_append separated_Cons)
  show "q = a \<or> q = b \<or> r_end q < r_begin a \<or> r_end b < r_begin q" if "q \<in> set xs"
    using assms(1) that xs by (auto simp: separated_append separated_Cons)
qed

lemma gap_begin_end:
  assumes "separated rs" "adjacent rs a b" "g = BeginEnd (r_end a) (r_begin b)"
  shows "r_begin g = r_end a" "r_end g = r_begin b" "good g"
proof -
  have "r_end a < r_begin b" "good a" "good b" using adjacent_separated [OF assms(1,2)] by auto
  then have "r_begin b < W64" "r_end a \<le> W64"
    using good_end_less [of b] good_begin_less_end [of b] good_end_less [of a] by linarith+
  then show "r_begin g = r_end a" "r_end g = r_begin b" "good g"
    using assms(3) \<open>r_end a < r_begin b\<close> by (simp_all add: range_simps)
qed

lemma gap_good: "separated rs \<Longrightarrow> g \<in> set (gaps rs) \<Longrightarrow> good g"
  using gap_begin_end(3) by (auto simp: set_gaps)

lemma separated_gaps_hd:
  assumes "separated (r # rs)" "g \<in> set (gaps (r # rs))"
  shows "r_end r \<le> r_begin g"
proof -
  obtain a b where ab: "adjacent (r # rs) a b" "g = BeginEnd (r_end a) (r_begin b)"
    using assms(2) by (auto simp: set_gaps)
  have "a \<in> set (r # rs)" using adjacent_set [OF ab(1)] by simp
  then show ?thesis
    using assms(1) gap_begin_end [OF assms(1) ab] good_begin_less_end [of a]
    by (auto simp: separated_Cons separated_def)
qed

lemma separated_gaps: "separated rs \<Longrightarrow> separated (gaps rs)"
proof (induction rs rule: induct_list012)
  case (3 a b rs)
  let ?g = "BeginEnd (r_end a) (r_begin b)"
  have g: "r_end ?g = r_begin b" "good ?g"
    using gap_begin_end [OF 3(3), of a b ?g] by auto
  have "r_begin b < r_end b" using 3(3) good_begin_less_end [of b] by (simp add: separated_Cons)
  then have "\<forall>q\<in>set (gaps (b # rs)). r_end ?g < r_begin q"
    using separated_gaps_hd [of b rs] 3(3) g(1) by (fastforce simp: separated_Cons)
  then show ?case using 3 g by (simp add: separated_Cons)
qed simp_all

lemma separated_last_end:
  assumes "separated rs" "rs \<noteq> []" "q \<in> set rs"
  shows "r_end q \<le> r_end (last rs)"
  using assms
proof (induction rs)
  case (Cons r rs)
  show ?case
  proof (cases "rs = []")
    case False
    then have "r_end r < r_begin (last rs)" "good (last rs)"
      using Cons.prems(1) last_in_set [OF False] by (auto simp: separated_Cons separated_def)
    then have "r_end r \<le> r_end (last rs)" using good_begin_less_end [of "last rs"] by simp
    then show ?thesis using Cons False by (auto simp: separated_Cons)
  qed (use Cons.prems in simp)
qed simp

lemma separated_hd_begin_le:
  assumes "separated rs" "q \<in> set rs"
  shows "r_begin (hd rs) \<le> r_begin q"
  using assms good_begin_less_end by (cases rs) (fastforce simp: separated_Cons)+

lemma covers_hull: "separated rs \<Longrightarrow> covers rs \<subseteq> hull rs"
proof
  fix x assume *: "separated rs" "x \<in> covers rs"
  then obtain q where "q \<in> set rs" "x \<in> pts q" by (auto simp: covers_iff)
  then show "x \<in> hull rs"
    using separated_hd_begin_le [OF *(1)] separated_last_end [OF *(1), of q]
    by (fastforce simp: hull_def pts_def)
qed

lemma covers_gaps:
  assumes "separated rs"
  shows "covers (gaps rs) = hull rs - covers rs"
  using assms
proof (induction rs rule: induct_list012)
  case 1
  then show ?case by (simp add: hull_def)
next
  case (2 r)
  then show ?case by (simp add: hull_def pts_def)
next
  case (3 a b rs)
  have sep: "separated (b # rs)" and ab: "r_end a < r_begin b" "good a" "good b"
    using 3(3) by (auto simp: separated_Cons)
  have g: "pts (BeginEnd (r_end a) (r_begin b)) = {r_end a..<r_begin b}"
    using ab good_end_less [of a] good_begin_less_end [of b] good_end_less [of b]
    by (intro pts_BeginEnd) linarith+
  have le: "r_begin b \<le> r_end (last (b # rs))"
    using separated_last_end [OF sep, of b] good_begin_less_end [OF ab(3)] by simp
  have H: "hull (a # b # rs) = pts a \<union> {r_end a..<r_begin b} \<union> hull (b # rs)"
    using ab(1) good_begin_less_end [OF ab(2)] le by (auto simp: hull_def pts_def)
  have "covers (b # rs) \<subseteq> hull (b # rs)" by (rule covers_hull [OF sep])
  then have C: "covers (b # rs) \<inter> {r_end a..<r_begin b} = {}"
    by (auto simp: hull_def)
  have D: "pts a \<inter> hull (b # rs) = {}" using ab by (auto simp: hull_def pts_def)
  have "pts a \<inter> {r_end a..<r_begin b} = {}" by (auto simp: pts_def)
  then have "hull (a # b # rs) - covers (a # b # rs) =
      {r_end a..<r_begin b} \<union> (hull (b # rs) - covers (b # rs))"
    using H C D by (auto simp: covers_Cons [of a])
  then show ?case using 3(2) [OF sep] by (simp add: g)
qed

lemma hull_Cons: "separated (a # b # rs) \<Longrightarrow> hull (b # rs) \<subseteq> hull (a # b # rs)"
  using good_begin_less_end [of a] by (fastforce simp: hull_def separated_Cons)

text \<open>A range under separated ranges is under one of them.\<close>

lemma separated_contains:
  assumes R: "separated R" and r: "good r" "pts r \<subseteq> covers R"
  shows "\<exists>q\<in>set R. pts r \<subseteq> pts q"
proof -
  have "r_begin r \<in> covers R" using pts_nonempty [OF r(1)] r(2) by blast
  then obtain q where q: "q \<in> set R" "r_begin r \<in> pts q" by (auto simp: covers_iff)
  have "r_end r \<le> r_end q"
  proof (rule ccontr)
    assume "\<not> ?thesis"
    then have "r_end q \<in> pts r" using q(2) by (auto simp: pts_def)
    then have "r_end q \<in> covers R" using r(2) by blast
    then obtain p where p: "p \<in> set R" "r_end q \<in> pts p" by (auto simp: covers_iff)
    then show False using separated_two [OF R p(1) q(1)] q(2) by (auto simp: pts_def)
  qed
  then show ?thesis using q by (auto simp: pts_def)
qed

end
