(* ===== verification/Sysmem_Range_Search.thy ===== *)
theory Sysmem_Range_Search
  imports Sysmem_Range_Sets
begin

text \<open>
  The searches of \<open>protected_ranges.cc\<close>: the iterator pair that brackets the ranges overlapping a
  given range, and the four functions that choose the next operation (delete, shorten, split, merge)
  from the current ranges and the goal ranges. Pointers into a container are modelled by the range
  pointed to; a null pointer is \<open>None\<close>.
\<close>

section \<open>Definitions\<close>

text \<open>The loop \<open>while (look_begin != begin() && ...) --look_begin\<close>.\<close>

fun look_back :: "mrange list \<Rightarrow> nat \<Rightarrow> nat \<Rightarrow> nat" where
  "look_back ranges b 0 = 0"
| "look_back ranges b (Suc i) =
     (if Suc i = length ranges \<or> r_end (ranges ! Suc i) > b then look_back ranges b i else Suc i)"

definition IteratorsCoveringPotentialOverlapsOfRangeWithRanges ::
  "mrange \<Rightarrow> mrange list \<Rightarrow> nat \<times> nat" where
  "IteratorsCoveringPotentialOverlapsOfRangeWithRanges r ranges =
     (let first_ge_begin = lower_bound (BeginLength (r_begin r) 0) ranges;
          look_begin = look_back ranges (r_begin r) first_ge_begin;
          look_begin' =
            (if look_begin \<noteq> length ranges \<and> r_end (ranges ! look_begin) \<le> r_begin r
             then look_begin + 1 else look_begin);
          first_begin_ge_range_end = lower_bound (BeginLength (r_end r) 0) ranges
      in (look_begin', first_begin_ge_range_end))"

text \<open>The ranges between the two iterators.\<close>

definition potential_overlaps :: "mrange \<Rightarrow> mrange list \<Rightarrow> mrange list" where
  "potential_overlaps r ranges =
     (case IteratorsCoveringPotentialOverlapsOfRangeWithRanges r ranges of
        (look_start, look_end) \<Rightarrow> slice look_start look_end ranges)"

fun FindRangeToDelete :: "mrange list \<Rightarrow> mrange list \<Rightarrow> mrange option" where
  "FindRangeToDelete [] new_ranges = None"
| "FindRangeToDelete (old_range # old_ranges) new_ranges =
     (if list_ex (IsOverlap old_range) (potential_overlaps old_range new_ranges)
      then FindRangeToDelete old_ranges new_ranges
      else Some old_range)"

text \<open>
  The inner loop of \<open>FindRangeToShorten\<close> carries the two optional bounds, which are set in lockstep.
\<close>

fun shorten_scan :: "mrange \<Rightarrow> nat option \<times> nat option \<Rightarrow> mrange list \<Rightarrow> nat option \<times> nat option" where
  "shorten_scan old_range (min_begin, max_end) [] = (min_begin, max_end)"
| "shorten_scan old_range (min_begin, max_end) (look # looks) =
     (if \<not> IsOverlap old_range look then shorten_scan old_range (min_begin, max_end) looks
      else shorten_scan old_range
        (case min_begin of
           None \<Rightarrow> Some (r_begin look)
         | Some m \<Rightarrow> if r_begin look < m then Some (r_begin look) else Some m,
         case max_end of
           None \<Rightarrow> Some (r_end look)
         | Some m \<Rightarrow> if r_end look > m then Some (r_end look) else Some m) looks)"

fun FindRangeToShorten :: "mrange list \<Rightarrow> mrange list \<Rightarrow> (mrange \<times> mrange) option" where
  "FindRangeToShorten [] new_ranges = None"
| "FindRangeToShorten (old_range # old_ranges) new_ranges =
     (case shorten_scan old_range (None, None) (potential_overlaps old_range new_ranges) of
        (min_overlapping_range_begin, max_overlapping_range_end) \<Rightarrow>
          (if (case min_overlapping_range_begin of None \<Rightarrow> False | Some m \<Rightarrow> m > r_begin old_range)
           then Some (old_range, BeginEnd (the min_overlapping_range_begin) (r_end old_range))
           else if (case max_overlapping_range_end of None \<Rightarrow> False | Some m \<Rightarrow> m < r_end old_range)
           then Some (old_range, BeginEnd (r_begin old_range) (the max_overlapping_range_end))
           else FindRangeToShorten old_ranges new_ranges))"

text \<open>
  \<open>FindBestSplit\<close>: the best gap so far is kept together with the old range it lies in.
\<close>

fun split_scan ::
  "mrange \<Rightarrow> nat option \<Rightarrow> mrange list \<Rightarrow> (mrange \<times> mrange) option \<Rightarrow> (mrange \<times> mrange) option" where
  "split_scan old_range prev_end [] best = best"
| "split_scan old_range prev_end (look # looks) best =
     split_scan old_range (Some (r_end look)) looks
       (case prev_end of
          None \<Rightarrow> best
        | Some pe \<Rightarrow>
            (let new_gap = BeginEnd pe (r_begin look);
                 old_interior = BeginEnd (u64_add (r_begin old_range) 1) (u64_sub (r_end old_range) 1)
             in if (case best of None \<Rightarrow> False
                    | Some (best_gap, _) \<Rightarrow> r_length new_gap \<le> r_length best_gap)
                then best
                else if IsCoveredBy new_gap old_interior then Some (new_gap, old_range)
                else best))"

fun best_split_from ::
  "mrange list \<Rightarrow> mrange list \<Rightarrow> (mrange \<times> mrange) option \<Rightarrow> (mrange \<times> mrange) option" where
  "best_split_from [] new_ranges best = best"
| "best_split_from (old_range # old_ranges) new_ranges best =
     best_split_from old_ranges new_ranges
       (split_scan old_range None (potential_overlaps old_range new_ranges) best)"

text \<open>The result is the range to split with the gap to stop using.\<close>

definition FindBestSplit :: "mrange list \<Rightarrow> mrange list \<Rightarrow> (mrange \<times> mrange) option" where
  "FindBestSplit old_ranges new_ranges =
     (case best_split_from old_ranges new_ranges None of
        None \<Rightarrow> None
      | Some (best_gap, best_gap_old_range) \<Rightarrow> Some (best_gap_old_range, best_gap))"

text \<open>
  \<open>FindBestMerge\<close>: the smallest gap between neighbours of \<open>old_ranges\<close> that one range of
  \<open>new_ranges\<close> covers. The assertion in the inner loop fires if two of them cover it.
\<close>

fun merge_look ::
  "mrange \<Rightarrow> mrange \<Rightarrow> mrange \<Rightarrow> (nat \<times> mrange \<times> mrange) option \<Rightarrow> mrange list
     \<Rightarrow> (nat \<times> mrange \<times> mrange) option option" where
  "merge_look old_gap prev_range old_range best [] = Some best"
| "merge_look old_gap prev_range old_range best (look # looks) =
     (if IsCoveredBy old_gap look
      then do {
        zx_assert (case best of None \<Rightarrow> True | Some (best_gap_size, _) \<Rightarrow> r_length old_gap < best_gap_size);
        merge_look old_gap prev_range old_range
          (Some (r_length old_gap, prev_range, old_range)) looks }
      else merge_look old_gap prev_range old_range best looks)"

fun merge_scan ::
  "mrange option \<Rightarrow> mrange list \<Rightarrow> mrange list \<Rightarrow> (nat \<times> mrange \<times> mrange) option
     \<Rightarrow> (nat \<times> mrange \<times> mrange) option option" where
  "merge_scan prev_range [] new_ranges best = Some best"
| "merge_scan None (old_range # old_ranges) new_ranges best =
     merge_scan (Some old_range) old_ranges new_ranges best"
| "merge_scan (Some prev_range) (old_range # old_ranges) new_ranges best =
     (let old_gap = BeginEnd (r_end prev_range) (r_begin old_range)
      in if (case best of None \<Rightarrow> False | Some (best_gap_size, _) \<Rightarrow> r_length old_gap \<ge> best_gap_size)
         then merge_scan (Some old_range) old_ranges new_ranges best
         else do {
           best' \<leftarrow> merge_look old_gap prev_range old_range best (potential_overlaps old_gap new_ranges);
           merge_scan (Some old_range) old_ranges new_ranges best' })"

definition FindBestMerge :: "mrange list \<Rightarrow> mrange list \<Rightarrow> (mrange \<times> mrange) option option" where
  "FindBestMerge old_ranges new_ranges =
     map_option (\<lambda>best. case best of None \<Rightarrow> None | Some (_, left, right) \<Rightarrow> Some (left, right))
       (merge_scan None old_ranges new_ranges None)"

section \<open>The iterator pair brackets exactly the overlapping ranges\<close>

lemma lower_bound_BeginLength0:
  "lower_bound (BeginLength b 0) rs = length (takeWhile (\<lambda>r. r_begin r < b) rs)"
  by (simp add: lower_bound_def mrange_less_iff)

lemma look_back_reaches:
  assumes "\<And>i. i < n \<Longrightarrow> r_end (rs ! i) \<le> b" and "\<And>i. n \<le> i \<Longrightarrow> i < length rs \<Longrightarrow> b < r_end (rs ! i)"
    and "n \<le> i" and "i \<le> length rs"
  shows "look_back rs b i = n - 1"
  using assms(3,4)
proof (induction i)
  case (Suc i)
  show ?case
  proof (cases "n = Suc i")
    case True
    have "look_back rs b i = i"
      using assms(1) [of i] True Suc.prems(2) by (cases i) auto
    moreover have "Suc i = length rs \<or> b < r_end (rs ! Suc i)"
      using assms(2) [of "Suc i"] True Suc.prems(2) by (cases "Suc i < length rs") auto
    ultimately show ?thesis using True by simp
  next
    case False
    then have "n \<le> i" using Suc.prems by simp
    moreover have "Suc i = length rs \<or> b < r_end (rs ! Suc i)"
      using assms(2) [of "Suc i"] Suc.prems by (cases "Suc i < length rs") auto
    ultimately show ?thesis using Suc by simp
  qed
qed simp

lemma monotone_takeWhile_end:
  assumes "monotone_ranges rs"
  shows "takeWhile (\<lambda>r. r_end r \<le> b) rs = filter (\<lambda>r. r_end r \<le> b) rs"
    "dropWhile (\<lambda>r. r_end r \<le> b) rs = filter (\<lambda>r. \<not> r_end r \<le> b) rs"
    "takeWhile (\<lambda>r. r_begin r < b) rs = filter (\<lambda>r. r_begin r < b) rs"
  using assms unfolding monotone_ranges_def
  by (auto intro!: takeWhile_eq_filter_sorted_wrt dropWhile_eq_filter_sorted_wrt)

lemma monotone_filter: "monotone_ranges rs \<Longrightarrow> monotone_ranges (filter P rs)"
  by (auto simp: monotone_ranges_def sorted_wrt_filter)

lemma iterators_eq:
  assumes m: "monotone_ranges rs" and b: "r_begin r < r_end r"
  shows "IteratorsCoveringPotentialOverlapsOfRangeWithRanges r rs =
    (length (takeWhile (\<lambda>q. r_end q \<le> r_begin r) rs), length (takeWhile (\<lambda>q. r_begin q < r_end r) rs))"
proof -
  let ?n = "length (takeWhile (\<lambda>q. r_end q \<le> r_begin r) rs)"
  let ?f = "length (takeWhile (\<lambda>q. r_begin q < r_begin r) rs)"
  have before: "r_end (rs ! i) \<le> r_begin r" if "i < ?n" for i
    using takeWhile_nth_before [OF that] .
  have after: "r_begin r < r_end (rs ! i)" if "?n \<le> i" "i < length rs" for i
  proof -
    have "r_begin r < r_end (rs ! ?n)"
      using nth_length_takeWhile [of "\<lambda>q. r_end q \<le> r_begin r" rs] that by simp
    moreover have "r_end (rs ! ?n) \<le> r_end (rs ! i)"
      using m that unfolding monotone_ranges_def
      by (cases "?n = i") (auto dest: sorted_wrt_nth_less [of _ rs ?n i])
    ultimately show ?thesis by simp
  qed
  have le: "?n \<le> ?f"
  proof -
    have "set (takeWhile (\<lambda>q. r_end q \<le> r_begin r) rs) \<subseteq> {q. r_begin q < r_begin r}"
      using m by (auto simp: monotone_ranges_def dest!: set_takeWhileD good_begin_less_end)
    then have "takeWhile (\<lambda>q. r_begin q < r_begin r) (takeWhile (\<lambda>q. r_end q \<le> r_begin r) rs) =
        takeWhile (\<lambda>q. r_end q \<le> r_begin r) rs"
      by (auto simp: takeWhile_eq_all_conv)
    moreover have "length (takeWhile P (takeWhile Q rs)) \<le> length (takeWhile P rs)" for P Q
      by (induction rs) auto
    ultimately show ?thesis by metis
  qed
  have lb: "look_back rs (r_begin r) ?f = ?n - 1"
    by (rule look_back_reaches [OF before after le]) (simp_all add: length_takeWhile_le)
  have "(if ?n - 1 \<noteq> length rs \<and> r_end (rs ! (?n - 1)) \<le> r_begin r then ?n - 1 + 1 else ?n - 1) = ?n"
  proof (cases "?n = 0")
    case True
    then show ?thesis using after [of 0] by (cases "length rs = 0") auto
  next
    case False
    then show ?thesis
      using before [of "?n - 1"] length_takeWhile_le [of "\<lambda>q. r_end q \<le> r_begin r" rs] by auto
  qed
  then show ?thesis
    unfolding IteratorsCoveringPotentialOverlapsOfRangeWithRanges_def lower_bound_BeginLength0 lb Let_def
    by simp
qed

lemma potential_overlaps_eq:
  assumes m: "monotone_ranges rs" and b: "r_begin r < r_end r"
  shows "potential_overlaps r rs = filter (IsOverlap r) rs"
proof -
  let ?P = "\<lambda>q. r_end q \<le> r_begin r" and ?Q = "\<lambda>q. r_begin q < r_end r"
  have pq: "?P q \<longrightarrow> ?Q q" if "q \<in> set rs" for q
    using m that b good_begin_less_end [of q] by (auto simp: monotone_ranges_def)
  have n: "length (takeWhile ?P (takeWhile ?Q rs)) = length (takeWhile ?P rs)"
    using pq by (induction rs) auto
  have "slice (length (takeWhile ?P rs)) (length (takeWhile ?Q rs)) rs =
      drop (length (takeWhile ?P rs)) (take (length (takeWhile ?Q rs)) rs)"
    by (simp add: slice_def drop_take)
  also have "\<dots> = drop (length (takeWhile ?P (takeWhile ?Q rs))) (takeWhile ?Q rs)"
    by (simp add: n takeWhile_eq_take [symmetric])
  also have "\<dots> = dropWhile ?P (takeWhile ?Q rs)"
    by (simp add: dropWhile_eq_drop)
  also have "\<dots> = filter (\<lambda>q. \<not> ?P q) (filter ?Q rs)"
    by (simp add: monotone_takeWhile_end(3) [OF m] monotone_takeWhile_end(2) [OF monotone_filter [OF m]])
  also have "\<dots> = filter (IsOverlap r) rs"
    by (auto simp: IsOverlap_iff intro!: filter_cong)
  finally show ?thesis
    unfolding potential_overlaps_def iterators_eq [OF m b] by simp
qed

lemma potential_overlaps_good:
  "monotone_ranges rs \<Longrightarrow> good r \<Longrightarrow> potential_overlaps r rs = filter (IsOverlap r) rs"
  by (simp add: potential_overlaps_eq good_begin_less_end)

lemma adjacent_potential_overlaps:
  assumes "monotone_ranges rs" "good r" "adjacent (potential_overlaps r rs) a b"
  shows "adjacent rs a b"
proof -
  obtain i j where ij: "IteratorsCoveringPotentialOverlapsOfRangeWithRanges r rs = (i, j)"
    by fastforce
  then have po: "potential_overlaps r rs = slice i j rs" by (simp add: potential_overlaps_def)
  show ?thesis
  proof (cases "i \<le> j")
    case True
    then have "take i rs @ slice i j rs @ drop j rs = rs" by (rule slice_append_split)
    then show ?thesis using adjacent_append [of "slice i j rs" a b "take i rs" "drop j rs"] assms(3) po
      by simp
  next
    case False
    then show ?thesis using assms(3) po by (simp add: slice_def)
  qed
qed

section \<open>Deletion\<close>

lemma FindRangeToDelete_Some:
  assumes "FindRangeToDelete old new = Some r" "monotone_ranges new" "\<forall>q\<in>set old. good q"
  shows "r \<in> set old \<and> (\<forall>g\<in>set new. \<not> IsOverlap r g)"
  using assms
proof (induction old)
  case (Cons q old)
  then show ?case
    by (auto simp: potential_overlaps_good list_ex_iff split: if_splits)
qed simp

lemma FindRangeToDelete_None:
  assumes "FindRangeToDelete old new = None" "monotone_ranges new" "\<forall>q\<in>set old. good q"
  shows "\<forall>q\<in>set old. \<exists>g\<in>set new. IsOverlap q g"
  using assms
proof (induction old)
  case (Cons q old)
  then show ?case
    by (auto simp: potential_overlaps_good list_ex_iff split: if_splits)
qed simp

section \<open>Shortening\<close>

lemma shorten_scan_spec:
  assumes "separated looks" "\<forall>l\<in>set looks. IsOverlap r l"
    and "(mb = None) = (me = None)"
    and "\<forall>m. mb = Some m \<longrightarrow> (\<forall>l\<in>set looks. m \<le> r_begin l)"
    and "\<forall>m. me = Some m \<longrightarrow> (\<forall>l\<in>set looks. m \<le> r_end l)"
  shows "shorten_scan r (mb, me) looks =
    (if looks = [] then (mb, me)
     else (Some (case mb of None \<Rightarrow> r_begin (hd looks) | Some m \<Rightarrow> m), Some (r_end (last looks))))"
  using assms
proof (induction looks arbitrary: mb me)
  case (Cons l looks)
  let ?mb = "case mb of None \<Rightarrow> Some (r_begin l) | Some m \<Rightarrow> if r_begin l < m then Some (r_begin l) else Some m"
  let ?me = "case me of None \<Rightarrow> Some (r_end l) | Some m \<Rightarrow> if r_end l > m then Some (r_end l) else Some m"
  have mb: "?mb = Some (case mb of None \<Rightarrow> r_begin l | Some m \<Rightarrow> m)"
    using Cons.prems(4) by (auto split: option.splits)
  have me: "?me = Some (r_end l)" using Cons.prems(5) by (auto split: option.splits)
  have "\<forall>q\<in>set looks. r_begin l \<le> r_begin q \<and> r_end l \<le> r_end q"
    using separated_monotone [OF Cons.prems(1)] by (auto simp: monotone_ranges_def)
  then have "shorten_scan r (?mb, ?me) looks =
      (if looks = [] then (?mb, ?me)
       else (Some (case ?mb of None \<Rightarrow> r_begin (hd looks) | Some m \<Rightarrow> m), Some (r_end (last looks))))"
    using Cons.prems by (intro Cons.IH) (auto simp: mb me separated_Cons split: option.splits)
  then show ?case using Cons.prems(2) mb me by (cases mb) simp_all
qed simp

lemma shorten_scan_eq:
  assumes "separated new" "good r"
  shows "shorten_scan r (None, None) (potential_overlaps r new) =
    (let ls = filter (IsOverlap r) new
     in if ls = [] then (None, None) else (Some (r_begin (hd ls)), Some (r_end (last ls))))"
  using assms
  by (simp add: potential_overlaps_good separated_monotone Let_def
      shorten_scan_spec separated_filter)

definition shortens :: "mrange \<Rightarrow> mrange \<Rightarrow> bool" where
  "shortens r s \<longleftrightarrow> good s \<and> r_length s < r_length r \<and> pts s \<subseteq> pts r \<and>
     (r_begin s = r_begin r \<or> r_end s = r_end r)"

lemma shorten_front:
  assumes "separated new" "good r" "ls = filter (IsOverlap r) new" "ls \<noteq> []"
    and "r_begin r < r_begin (hd ls)"
  shows "shortens r (BeginEnd (r_begin (hd ls)) (r_end r))"
    and "(pts r - pts (BeginEnd (r_begin (hd ls)) (r_end r))) \<inter> covers new = {}"
proof -
  let ?h = "hd ls" and ?s = "BeginEnd (r_begin (hd ls)) (r_end r)"
  have h: "IsOverlap r ?h" "?h \<in> set new" using assms(3) hd_in_set [OF assms(4)] by auto
  then have lt: "r_begin ?h < r_end r" by (simp add: IsOverlap_iff)
  have w: "r_end r < W64" "r_begin ?h \<le> W64" using good_end_less [OF assms(2)] lt by simp_all
  then show "shortens r ?s"
    using assms(2,5) lt by (auto simp: shortens_def range_simps pts_def)
  show "(pts r - pts ?s) \<inter> covers new = {}"
  proof (rule ccontr)
    assume "(pts r - pts ?s) \<inter> covers new \<noteq> {}"
    then obtain x g where x: "x \<in> pts r" "x \<notin> pts ?s" "g \<in> set new" "x \<in> pts g"
      by (auto simp: covers_iff)
    have "x < r_begin ?h" using x(1,2) pts_BeginEnd [OF w] by (auto simp: pts_def)
    note x = x(1) this x(3,4)
    from x have "g \<in> set ls" using assms(3) by (auto simp: IsOverlap_iff pts_def)
    then have "r_begin ?h \<le> r_begin g"
      using separated_hd_begin_le [of ls g] separated_filter [OF assms(1)] assms(3) by simp
    then show False using x by (simp add: pts_def)
  qed
qed

lemma shorten_back:
  assumes "separated new" "good r" "ls = filter (IsOverlap r) new" "ls \<noteq> []"
    and "r_end (last ls) < r_end r"
  shows "shortens r (BeginEnd (r_begin r) (r_end (last ls)))"
    and "(pts r - pts (BeginEnd (r_begin r) (r_end (last ls)))) \<inter> covers new = {}"
proof -
  let ?h = "last ls" and ?s = "BeginEnd (r_begin r) (r_end (last ls))"
  have h: "IsOverlap r ?h" "?h \<in> set new" using assms(3) last_in_set [OF assms(4)] by auto
  then have lt: "r_begin r < r_end ?h" by (simp add: IsOverlap_iff)
  have w: "r_end ?h < W64" "r_begin r \<le> W64" using good_end_less [OF assms(2)] lt assms(5) by simp_all
  then show "shortens r ?s"
    using assms(2,5) lt by (auto simp: shortens_def range_simps pts_def)
  show "(pts r - pts ?s) \<inter> covers new = {}"
  proof (rule ccontr)
    assume "(pts r - pts ?s) \<inter> covers new \<noteq> {}"
    then obtain x g where x: "x \<in> pts r" "x \<notin> pts ?s" "g \<in> set new" "x \<in> pts g"
      by (auto simp: covers_iff)
    have "r_end ?h \<le> x" using x(1,2) pts_BeginEnd [OF w] by (auto simp: pts_def)
    note x = x(1) this x(3,4)
    from x have "g \<in> set ls" using assms(3) by (auto simp: IsOverlap_iff pts_def)
    then have "r_end g \<le> r_end ?h"
      using separated_last_end [of ls g] separated_filter [OF assms(1)] assms(3,4) by simp
    then show False using x by (simp add: pts_def)
  qed
qed

lemma FindRangeToShorten_Some:
  assumes "FindRangeToShorten old new = Some (r, s)" "separated new" "\<forall>q\<in>set old. good q"
  shows "r \<in> set old \<and> shortens r s \<and> (pts r - pts s) \<inter> covers new = {}"
  using assms
proof (induction old)
  case (Cons q old)
  let ?ls = "filter (IsOverlap q) new"
  have q: "good q" using Cons.prems(3) by simp
  consider "?ls = []" | "?ls \<noteq> []" "r_begin q < r_begin (hd ?ls)"
    | "?ls \<noteq> []" "\<not> r_begin q < r_begin (hd ?ls)" "r_end (last ?ls) < r_end q"
    | "?ls \<noteq> []" "\<not> r_begin q < r_begin (hd ?ls)" "\<not> r_end (last ?ls) < r_end q" by blast
  then show ?case
  proof cases
    case 2
    then show ?thesis
      using Cons.prems shorten_front [OF Cons.prems(2) q refl] by (auto simp: shorten_scan_eq Let_def)
  next
    case 3
    then show ?thesis
      using Cons.prems shorten_back [OF Cons.prems(2) q refl] by (auto simp: shorten_scan_eq Let_def)
  qed (use Cons in \<open>auto simp: shorten_scan_eq Let_def\<close>)
qed simp

text \<open>The end that moves goes to an end of a new range.\<close>

lemma FindRangeToShorten_ends:
  assumes "FindRangeToShorten old new = Some (r, s)" "separated new" "\<forall>q\<in>set old. good q"
  shows "\<exists>g\<in>set new. r_begin s = r_begin g \<and> r_end s = r_end r \<or> r_end s = r_end g \<and> r_begin s = r_begin r"
  using assms
proof (induction old)
  case (Cons q old)
  let ?ls = "filter (IsOverlap q) new"
  have q: "good q" "r_end q < W64" using Cons.prems(3) good_end_less by auto
  have mem: "hd ?ls \<in> set new \<and> last ?ls \<in> set new \<and> r_begin (hd ?ls) < r_end q" if "?ls \<noteq> []"
    using hd_in_set [OF that] last_in_set [OF that] by (auto simp: IsOverlap_iff)
  consider "?ls = []" | "?ls \<noteq> []" "r_begin q < r_begin (hd ?ls)"
    | "?ls \<noteq> []" "\<not> r_begin q < r_begin (hd ?ls)" "r_end (last ?ls) < r_end q"
    | "?ls \<noteq> []" "\<not> r_begin q < r_begin (hd ?ls)" "\<not> r_end (last ?ls) < r_end q" by blast
  then show ?case
  proof cases
    case 2
    then have "s = BeginEnd (r_begin (hd ?ls)) (r_end q)" "r = q"
      using Cons.prems(1,2) q by (auto simp: shorten_scan_eq Let_def)
    then show ?thesis using mem [OF 2(1)] q by (intro bexI [of _ "hd ?ls"]) (simp_all add: BeginEnd_end)
  next
    case 3
    then have "s = BeginEnd (r_begin q) (r_end (last ?ls))" "r = q"
      using Cons.prems(1,2) q by (auto simp: shorten_scan_eq Let_def)
    moreover have "r_begin q < W64" using good_begin_less_end [OF q(1)] q(2) by simp
    ultimately show ?thesis
      using mem [OF 3(1)] q 3(3) by (intro bexI [of _ "last ?ls"]) (simp_all add: BeginEnd_end)
  qed (use Cons in \<open>auto simp: shorten_scan_eq Let_def\<close>)
qed simp

lemma FindRangeToShorten_None:
  assumes "FindRangeToShorten old new = None" "separated new" "\<forall>q\<in>set old. good q"
    and "q \<in> set old" "g \<in> set new" "IsOverlap q g"
  shows "r_begin q \<in> covers new \<and> r_end q - 1 \<in> covers new"
  using assms
proof (induction old)
  case (Cons p old)
  show ?case
  proof (cases "q = p")
    case True
    let ?ls = "filter (IsOverlap q) new"
    have q: "good q" using Cons.prems(3) True by simp
    have ne: "?ls \<noteq> []" using Cons.prems(5,6) by (auto simp: filter_empty_conv)
    then have bounds: "r_begin (hd ?ls) \<le> r_begin q" "r_end q \<le> r_end (last ?ls)"
      using Cons.prems(1,2) q True by (auto simp: shorten_scan_eq Let_def split: if_splits)
    have hl: "hd ?ls \<in> set new" "IsOverlap q (hd ?ls)" "last ?ls \<in> set new" "IsOverlap q (last ?ls)"
      using hd_in_set [OF ne] last_in_set [OF ne] by auto
    have "r_begin q \<in> pts (hd ?ls)" "r_end q - 1 \<in> pts (last ?ls)"
      using bounds hl good_begin_less_end [OF q] by (auto simp: pts_def IsOverlap_iff)
    then show ?thesis using hl by (auto simp: covers_iff)
  next
    case False
    then have "FindRangeToShorten old new = None"
      using Cons.prems(1) by (auto split: prod.splits if_splits)
    then show ?thesis using Cons False by simp
  qed
qed simp

section \<open>Splitting\<close>

definition interior :: "mrange \<Rightarrow> mrange" where
  "interior r = BeginEnd (u64_add (r_begin r) 1) (u64_sub (r_end r) 1)"

definition split_update :: "mrange \<Rightarrow> mrange \<Rightarrow> (mrange \<times> mrange) option \<Rightarrow> (mrange \<times> mrange) option" where
  "split_update old_range new_gap best =
     (if (case best of None \<Rightarrow> False | Some (best_gap, _) \<Rightarrow> r_length new_gap \<le> r_length best_gap) then best
      else if IsCoveredBy new_gap (interior old_range) then Some (new_gap, old_range) else best)"

lemma split_scan_fold:
  "split_scan r pe looks best = fold (split_update r) (gaps_from pe looks) best"
  by (induction looks arbitrary: pe best)
    (auto simp: split_update_def interior_def Let_def split: option.splits)

definition split_candidate :: "mrange list \<Rightarrow> mrange \<Rightarrow> mrange \<Rightarrow> bool" where
  "split_candidate new r g \<longleftrightarrow> g \<in> set (gaps (potential_overlaps r new)) \<and> IsCoveredBy g (interior r)"

text \<open>The best choice so far is one of the candidates seen, and at least as long as all of them.\<close>

definition split_best_of :: "(mrange \<times> mrange) set \<Rightarrow> (mrange \<times> mrange) option \<Rightarrow> bool" where
  "split_best_of C best \<longleftrightarrow>
     (case best of None \<Rightarrow> C = {} | Some b \<Rightarrow> b \<in> C \<and> (\<forall>c\<in>C. r_length (fst c) \<le> r_length (fst b)))"

lemma split_best_of_update:
  assumes "split_best_of C best"
  shows "split_best_of (C \<union> (if IsCoveredBy g (interior r) then {(g, r)} else {})) (split_update r g best)"
  using assms by (fastforce simp: split_best_of_def split_update_def split: option.splits)

lemma split_best_of_fold:
  assumes "split_best_of C best"
  shows "split_best_of (C \<union> {(g, r) | g. g \<in> set gs \<and> IsCoveredBy g (interior r)})
    (fold (split_update r) gs best)"
  using assms
proof (induction gs arbitrary: C best)
  case (Cons g gs)
  let ?C = "C \<union> (if IsCoveredBy g (interior r) then {(g, r)} else {})"
  have "split_best_of (?C \<union> {(g, r) | g. g \<in> set gs \<and> IsCoveredBy g (interior r)})
      (fold (split_update r) gs (split_update r g best))"
    by (rule Cons.IH [OF split_best_of_update [OF Cons.prems]])
  moreover have "?C \<union> {(g, r) | g. g \<in> set gs \<and> IsCoveredBy g (interior r)} =
      C \<union> {(g', r) | g'. g' \<in> set (g # gs) \<and> IsCoveredBy g' (interior r)}" by auto
  ultimately show ?case by simp
qed simp

lemma split_best_of_from:
  assumes "split_best_of C best"
  shows "split_best_of (C \<union> {(g, r) | g r. r \<in> set old \<and> split_candidate new r g})
    (best_split_from old new best)"
  using assms
proof (induction old arbitrary: C best)
  case (Cons r old)
  let ?C = "C \<union> {(g, r) | g. g \<in> set (gaps (potential_overlaps r new)) \<and> IsCoveredBy g (interior r)}"
  have "split_best_of ?C (split_scan r None (potential_overlaps r new) best)"
    unfolding split_scan_fold gaps_def [symmetric] by (rule split_best_of_fold [OF Cons.prems])
  then have "split_best_of (?C \<union> {(g, r) | g r. r \<in> set old \<and> split_candidate new r g})
      (best_split_from (r # old) new best)"
    unfolding best_split_from.simps by (rule Cons.IH)
  moreover have "?C \<union> {(g, r) | g r. r \<in> set old \<and> split_candidate new r g} =
      C \<union> {(g, q) | g q. q \<in> set (r # old) \<and> split_candidate new q g}"
    by (auto simp: split_candidate_def)
  ultimately show ?case by simp
qed simp

lemma FindBestSplit_best:
  "case FindBestSplit old new of
     None \<Rightarrow> \<forall>r\<in>set old. \<forall>g. \<not> split_candidate new r g
   | Some (r, g) \<Rightarrow> r \<in> set old \<and> split_candidate new r g \<and>
       (\<forall>q\<in>set old. \<forall>h. split_candidate new q h \<longrightarrow> r_length h \<le> r_length g)"
proof -
  have "split_best_of {} None" by (simp add: split_best_of_def)
  from split_best_of_from [OF this, of old new]
  show ?thesis
    by (force simp: split_best_of_def FindBestSplit_def split: option.splits)
qed

text \<open>A gap of the goal between two goal ranges that both overlap a range is strictly inside it.\<close>

lemma split_candidate_iff:
  assumes "separated new" "good r"
  shows "split_candidate new r g \<longleftrightarrow>
    (\<exists>a b. adjacent (filter (IsOverlap r) new) a b \<and> g = BeginEnd (r_end a) (r_begin b))"
    (is "_ \<longleftrightarrow> ?R")
proof
  assume ?R
  then obtain a b where ab: "adjacent (filter (IsOverlap r) new) a b" and g: "g = BeginEnd (r_end a) (r_begin b)"
    by blast
  have sep: "separated (filter (IsOverlap r) new)" by (rule separated_filter [OF assms(1)])
  have "r_begin r < r_end a" "r_begin b < r_end r"
    using adjacent_set [OF ab] by (auto simp: IsOverlap_iff)
  moreover have "r_end r < W64" by (rule good_end_less [OF assms(2)])
  moreover have "r_begin (interior r) = r_begin r + 1" "r_end (interior r) = r_end r - 1"
    using calculation good_begin_less_end [OF assms(2)]
    by (simp_all add: interior_def range_simps)
  ultimately have "IsCoveredBy g (interior r)"
    using gap_begin_end [OF sep ab g] by (simp add: IsCoveredBy_def)
  then show "split_candidate new r g"
    using ab g by (auto simp: split_candidate_def potential_overlaps_good assms separated_monotone set_gaps)
qed (auto simp: split_candidate_def potential_overlaps_good assms separated_monotone set_gaps)

lemma split_candidate_bounds:
  assumes "separated new" "good r" "split_candidate new r g"
  shows "good g" "r_begin r < r_begin g" "r_end g < r_end r" "g \<in> set (gaps new)"
    "r_begin g - 1 \<in> covers new" "r_end g \<in> covers new"
proof -
  obtain a b where ab: "adjacent (filter (IsOverlap r) new) a b" and g: "g = BeginEnd (r_end a) (r_begin b)"
    using assms split_candidate_iff by blast
  have sep: "separated (filter (IsOverlap r) new)" by (rule separated_filter [OF assms(1)])
  have mem: "a \<in> set new" "b \<in> set new" and ov: "r_begin r < r_end a" "r_begin b < r_end r"
    using adjacent_set [OF ab] by (auto simp: IsOverlap_iff)
  then have "good a" "good b" using assms(1) separated_good by blast+
  show "good g" "r_begin r < r_begin g" "r_end g < r_end r"
    using gap_begin_end [OF sep ab g] ov by simp_all
  have "adjacent new a b"
    using adjacent_potential_overlaps [OF separated_monotone [OF assms(1)] assms(2)] ab
    by (simp add: potential_overlaps_good assms separated_monotone)
  then show "g \<in> set (gaps new)" using g by (auto simp: set_gaps)
  have "r_begin g - 1 \<in> pts a" "r_end g \<in> pts b"
    using gap_begin_end [OF sep ab g] pts_last [OF \<open>good a\<close>] pts_nonempty [OF \<open>good b\<close>] by simp_all
  then show "r_begin g - 1 \<in> covers new" "r_end g \<in> covers new" using mem by (auto simp: covers_iff)
qed

lemma no_split_candidate:
  assumes "separated new" "good r" "\<forall>g. \<not> split_candidate new r g"
  shows "length (filter (IsOverlap r) new) \<le> 1"
proof (rule ccontr)
  assume "\<not> ?thesis"
  then obtain a b ls where "filter (IsOverlap r) new = a # b # ls"
    by (cases "filter (IsOverlap r) new"; cases "tl (filter (IsOverlap r) new)") auto
  then have "adjacent (filter (IsOverlap r) new) a b" by simp
  then show False using assms split_candidate_iff by blast
qed

section \<open>Merging\<close>

lemma covering_unique:
  assumes "nonoverlap new" "good g" "a \<in> set new" "b \<in> set new" "IsCoveredBy g a" "IsCoveredBy g b"
  shows "a = b"
proof (rule nonoverlap_two [OF assms(1,3,4)])
  show "IsOverlap a b"
    using assms(5,6) good_begin_less_end [OF assms(2)] by (auto simp: IsOverlap_iff IsCoveredBy_def)
qed

lemma merge_look_spec:
  assumes "nonoverlap looks" "good gap"
    and "case best of None \<Rightarrow> True | Some (n, _) \<Rightarrow> r_length gap < n"
  shows "merge_look gap p q best looks =
    Some (if \<exists>l\<in>set looks. IsCoveredBy gap l then Some (r_length gap, p, q) else best)"
  using assms
proof (induction looks arbitrary: best)
  case (Cons l looks)
  show ?case
  proof (cases "IsCoveredBy gap l")
    case True
    have none: "\<not> IsCoveredBy gap k" if "k \<in> set looks" for k
    proof
      assume "IsCoveredBy gap k"
      then have "l = k" using covering_unique [OF Cons.prems(1,2), of l k] that True by simp
      then show False using that nonoverlap_distinct [OF Cons.prems(1)] by simp
    qed
    have "merge_look gap p q b looks = Some b" for b
      using none by (induction looks) auto
    then show ?thesis using True Cons.prems(3) by (auto split: option.splits)
  next
    case False
    then show ?thesis using Cons by (simp add: nonoverlap_Cons)
  qed
qed simp

definition merge_candidate :: "mrange list \<Rightarrow> mrange list \<Rightarrow> mrange \<Rightarrow> mrange \<Rightarrow> bool" where
  "merge_candidate old new a b \<longleftrightarrow>
     adjacent old a b \<and> (\<exists>g\<in>set new. IsCoveredBy (BeginEnd (r_end a) (r_begin b)) g)"

definition merge_best_of :: "(mrange \<times> mrange) set \<Rightarrow> (nat \<times> mrange \<times> mrange) option \<Rightarrow> bool" where
  "merge_best_of C best \<longleftrightarrow>
     (case best of
        None \<Rightarrow> C = {}
      | Some (n, a, b) \<Rightarrow> (a, b) \<in> C \<and> n = r_length (BeginEnd (r_end a) (r_begin b)) \<and>
          (\<forall>(c, d)\<in>C. n \<le> r_length (BeginEnd (r_end c) (r_begin d))))"

lemma covered_overlaps:
  assumes "monotone_ranges new" "good g"
  shows "(\<exists>l\<in>set (potential_overlaps g new). IsCoveredBy g l) \<longleftrightarrow> (\<exists>l\<in>set new. IsCoveredBy g l)"
  using good_begin_less_end [OF assms(2)] assms
  by (fastforce simp: potential_overlaps_good IsCoveredBy_def IsOverlap_iff)

lemma merge_scan_spec:
  assumes "separated new" "separated (p # old)" "merge_best_of C best"
  shows "\<exists>res. merge_scan (Some p) old new best = Some res \<and>
    merge_best_of (C \<union> {(a, b). merge_candidate (p # old) new a b}) res"
  using assms(2,3)
proof (induction old arbitrary: p C best)
  case Nil
  have "{(a, b). merge_candidate [p] new a b} = {}" by (auto simp: merge_candidate_def)
  then show ?case using Nil by simp
next
  case (Cons q old)
  let ?gap = "BeginEnd (r_end p) (r_begin q)"
  let ?D = "if \<exists>g\<in>set new. IsCoveredBy ?gap g then {(p, q)} else {}"
  have gap: "good ?gap" using gap_begin_end [OF Cons.prems(1), of p q ?gap] by simp
  have sep: "separated (q # old)" using Cons.prems(1) by (simp add: separated_Cons)
  have D: "C \<union> {(a, b). merge_candidate (p # q # old) new a b} =
      (C \<union> ?D) \<union> {(a, b). merge_candidate (q # old) new a b}"
    by (auto simp: merge_candidate_def)
  show ?case
  proof (cases "case best of None \<Rightarrow> False | Some (n, _) \<Rightarrow> r_length ?gap \<ge> n")
    case True
    then have "merge_best_of (C \<union> ?D) best"
      using Cons.prems(2) by (auto simp: merge_best_of_def split: option.splits)
    from Cons.IH [OF sep this] show ?thesis using True D by (simp add: Let_def)
  next
    case False
    let ?best = "if \<exists>g\<in>set new. IsCoveredBy ?gap g then Some (r_length ?gap, p, q) else best"
    have "case best of None \<Rightarrow> True | Some (n, _) \<Rightarrow> r_length ?gap < n"
      using False by (auto split: option.splits)
    moreover have "nonoverlap (potential_overlaps ?gap new)"
      using assms(1) gap
      by (simp add: potential_overlaps_good separated_monotone separated_nonoverlap nonoverlap_filter)
    ultimately have look: "merge_look ?gap p q best (potential_overlaps ?gap new) = Some ?best"
      using merge_look_spec [OF _ gap]
      by (simp only: covered_overlaps [OF separated_monotone [OF assms(1)] gap])
    have "merge_best_of (C \<union> ?D) ?best"
      using Cons.prems(2) False by (fastforce simp: merge_best_of_def split: option.splits)
    from Cons.IH [OF sep this] show ?thesis using False look D by (simp add: Let_def)
  qed
qed

lemma FindBestMerge_best:
  assumes "separated old" "separated new"
  shows "\<exists>res. FindBestMerge old new = Some res \<and>
    (case res of
       None \<Rightarrow> \<forall>a b. \<not> merge_candidate old new a b
     | Some (a, b) \<Rightarrow> merge_candidate old new a b \<and>
         (\<forall>c d. merge_candidate old new c d \<longrightarrow>
            r_length (BeginEnd (r_end a) (r_begin b)) \<le> r_length (BeginEnd (r_end c) (r_begin d))))"
proof (cases old)
  case Nil
  then show ?thesis by (simp add: FindBestMerge_def merge_candidate_def)
next
  case (Cons p ps)
  have "merge_best_of {} None" by (simp add: merge_best_of_def)
  from merge_scan_spec [OF assms(2) assms(1) [unfolded Cons] this]
  obtain res where "merge_scan (Some p) ps new None = Some res"
    "merge_best_of {(a, b). merge_candidate (p # ps) new a b} res" by auto
  then show ?thesis
    using Cons by (fastforce simp: FindBestMerge_def merge_best_of_def split: option.splits)
qed

end
