(* ===== verification/Sysmem_Range_Goal.thy ===== *)
theory Sysmem_Range_Goal
  imports Sysmem_Range_Search
begin

text \<open>
  The chain of derived containers of \<open>ProtectedRanges\<close>: from the required ranges to the coalesced
  required ranges, the interior unused ranges (by position and by length), the largest of them, and
  the goal ranges. Every function updates its container the way the code does, incrementally around
  \<open>diff_range\<close> for the first two. The lemmas show that the incremental updates equal a computation
  from scratch: the coalesced ranges are the separated list that covers what the required ranges
  cover, the unused ranges are its gaps, and the goal is what remains of its hull without the
  largest gaps.
\<close>

section \<open>Definitions\<close>

text \<open>
  \<open>TryCoalesceAdjacentRangesAt\<close>: the decision (the index of the second block, if two blocks touch
  at the location) and the replacement of the two blocks by one.
\<close>

definition coalesce_point :: "mrange list \<Rightarrow> nat \<Rightarrow> nat option option" where
  "coalesce_point ranges location =
     (if length ranges < 2 then Some None
      else let second_block = lower_bound (BeginLength location 0) ranges
      in if second_block = length ranges then Some None
      else if r_begin (ranges ! second_block) \<noteq> location
      then do { zx_assert (r_begin (ranges ! second_block) > location); Some None }
      else if second_block = 0 then Some None
      else let first_block = second_block - 1
      in if r_end (ranges ! first_block) \<noteq> location
      then do { zx_assert (r_end (ranges ! first_block) < location); Some None }
      else Some (Some second_block))"

definition coalesce_blocks :: "mrange list \<Rightarrow> nat \<Rightarrow> mrange list" where
  "coalesce_blocks ranges second_block =
     emplace (BeginEnd (r_begin (ranges ! (second_block - 1))) (r_end (ranges ! second_block)))
       (erase_iter (second_block - 1) (erase_iter second_block ranges))"

definition TryCoalesceAdjacentRangesAt :: "mrange list \<Rightarrow> nat \<Rightarrow> mrange list option" where
  "TryCoalesceAdjacentRangesAt ranges location = do {
     p \<leftarrow> coalesce_point ranges location;
     Some (case p of None \<Rightarrow> ranges | Some second_block \<Rightarrow> coalesce_blocks ranges second_block) }"

text \<open>
  \<open>UpdateCoalescedRequiredRanges\<close>. The first loop visits the ranges that were in the container
  between the two iterators; the leftovers it inserts do not overlap \<open>diff_range\<close>, so meeting one of
  them would have no effect.
\<close>

definition subtract_step :: "mrange \<Rightarrow> mrange list \<Rightarrow> mrange \<Rightarrow> mrange list option" where
  "subtract_step diff_range coalesced existing_range =
     (if \<not> IsOverlap existing_range diff_range then Some coalesced
      else do {
        (leftover_left, leftover_right) \<leftarrow> SubtractRanges existing_range diff_range;
        let c1 = erase_key existing_range coalesced;
            c2 = (if \<not> r_empty leftover_left then emplace leftover_left c1 else c1);
            c3 = (if \<not> r_empty leftover_right then emplace leftover_right c2 else c2)
        in Some c3 })"

definition flush_in_progress ::
  "mrange \<Rightarrow> nat \<Rightarrow> mrange \<times> mrange list \<Rightarrow> (mrange \<times> mrange list) option" where
  "flush_in_progress diff_range gap_end st =
     (case st of (in_progress, coalesced) \<Rightarrow> do {
        zx_assert (gap_end > r_end in_progress \<or> gap_end = r_end diff_range);
        Some (BeginLength gap_end 0,
              if \<not> r_empty in_progress then emplace in_progress coalesced else coalesced) })"

definition scan_step ::
  "mrange \<Rightarrow> mrange \<times> mrange list \<Rightarrow> mrange \<Rightarrow> (mrange \<times> mrange list) option" where
  "scan_step diff_range st it = do {
     (in_progress, coalesced) \<leftarrow>
       (if r_begin it > r_end (fst st) then flush_in_progress diff_range (r_begin it) st else Some st);
     zx_assert (r_begin it < r_end diff_range);
     zx_assert (r_begin it \<le> r_end in_progress);
     if r_end it \<le> r_end in_progress then Some (in_progress, coalesced)
     else Some (BeginEnd (r_begin in_progress) (min (r_end diff_range) (r_end it)), coalesced) }"

definition UpdateCoalescedRequiredRanges ::
  "mrange \<Rightarrow> mrange list \<Rightarrow> mrange list \<Rightarrow> mrange list option" where
  "UpdateCoalescedRequiredRanges diff_range required coalesced = do {
     zx_assert (\<not> r_empty diff_range);
     c1 \<leftarrow> foldM (subtract_step diff_range) coalesced (potential_overlaps diff_range coalesced);
     st \<leftarrow> foldM (scan_step diff_range) (BeginLength (r_begin diff_range) 0, c1)
            (potential_overlaps diff_range required);
     (_, c2) \<leftarrow> flush_in_progress diff_range (r_end diff_range) st;
     c3 \<leftarrow> TryCoalesceAdjacentRangesAt c2 (r_begin diff_range);
     TryCoalesceAdjacentRangesAt c3 (r_end diff_range) }"

text \<open>\<open>UpdateInteriorUnusedRanges\<close> keeps the two containers of unused ranges together.\<close>

definition carve_step ::
  "mrange \<Rightarrow> mrange list \<times> mrange list \<Rightarrow> mrange \<Rightarrow> (mrange list \<times> mrange list) option" where
  "carve_step carve_range st it =
     (case st of (unused, by_length) \<Rightarrow> do {
        zx_assert (IsCoveredBy it carve_range);
        Some (remove1 it unused, erase_by_length it by_length) })"

definition carve_unused ::
  "nat option \<Rightarrow> nat option \<Rightarrow> mrange list \<times> mrange list \<Rightarrow> (mrange list \<times> mrange list) option" where
  "carve_unused maybe_carve_begin maybe_carve_end st =
     (if fst st = [] then Some st
      else
        (let carve_begin = (case maybe_carve_begin of Some b \<Rightarrow> b | None \<Rightarrow> r_begin (hd (fst st)));
             carve_end = (case maybe_carve_end of Some e \<Rightarrow> e | None \<Rightarrow> r_end (last (fst st)))
         in if carve_begin < carve_end
            then let carve_range = BeginEnd carve_begin carve_end
                 in foldM (carve_step carve_range) st (potential_overlaps carve_range (fst st))
            else Some st))"

definition UpdateInteriorUnusedRanges ::
  "mrange \<Rightarrow> mrange list \<Rightarrow> mrange list \<times> mrange list \<Rightarrow> (mrange list \<times> mrange list) option" where
  "UpdateInteriorUnusedRanges diff_range coalesced st =
     (if length coalesced < 2 then Some ([], [])
      else case IteratorsCoveringPotentialOverlapsOfRangeWithRanges diff_range coalesced of
        (rebuild_begin, rebuild_end) \<Rightarrow>
        (let rb = (if rebuild_begin \<noteq> 0 \<and>
                     (rebuild_begin = length coalesced \<or>
                      r_end (coalesced ! rebuild_begin) > r_begin diff_range)
                   then rebuild_begin - 1 else rebuild_begin)
         in do {
           zx_assert (rb = 0 \<or> r_end (coalesced ! rb) \<le> r_begin diff_range);
           zx_assert (rebuild_end = length coalesced \<or>
             r_begin (coalesced ! rebuild_end) \<ge> r_end diff_range);
           let maybe_carve_begin = (if rb = 0 then None else Some (r_end (coalesced ! rb)));
               maybe_carve_end =
                 (if rebuild_end = length coalesced then None
                  else Some (r_begin (coalesced ! rebuild_end)));
               re = (if rebuild_end \<noteq> length coalesced then rebuild_end + 1 else rebuild_end)
           in do {
             (unused, by_length) \<leftarrow> carve_unused maybe_carve_begin maybe_carve_end st;
             let gap_ranges = gaps_from None (slice rb re coalesced)
             in Some (fold emplace gap_ranges unused, fold emplace_by_length gap_ranges by_length) } }))"

definition BuildLargestInteriorUnusedRanges :: "nat \<Rightarrow> mrange list \<Rightarrow> mrange list" where
  "BuildLargestInteriorUnusedRanges max_logical_range_count by_length =
     (let ranges_to_use = min (u64_sub max_logical_range_count 1) (length by_length)
      in fold emplace (take ranges_to_use (rev by_length)) [])"

definition BuildGoalRanges :: "mrange list \<Rightarrow> mrange list \<Rightarrow> mrange list option" where
  "BuildGoalRanges coalesced largest =
     (if coalesced = [] then Some []
      else if length coalesced = 1 then Some (emplace (hd coalesced) [])
      else do {
        zx_assert (length coalesced \<ge> 2);
        zx_assert (length largest \<ge> 1);
        let goal = fold emplace (gaps_from None largest) [];
            left_range = BeginEnd (r_begin (hd coalesced)) (r_begin (hd largest));
            right_range = BeginEnd (r_end (last largest)) (r_end (last coalesced))
        in Some (emplace right_range (emplace left_range goal)) })"

section \<open>Lists of ranges as sets\<close>

lemma nonoverlapI:
  assumes "sorted rs" "distinct rs" "\<And>r. r \<in> set rs \<Longrightarrow> good r"
    and "\<And>a b. a \<in> set rs \<Longrightarrow> b \<in> set rs \<Longrightarrow> a \<noteq> b \<Longrightarrow> \<not> IsOverlap a b"
  shows "nonoverlap rs"
  using assms
proof (induction rs)
  case (Cons r rs)
  have "r_end r \<le> r_begin q" if "q \<in> set rs" for q
  proof -
    have "r \<noteq> q" "r \<le> q" using Cons.prems(1,2) that by auto
    then have "r_begin r \<le> r_begin q" by (auto simp: mrange_le_iff)
    moreover have "\<not> IsOverlap r q" using Cons.prems(4) [of r q] that \<open>r \<noteq> q\<close> by simp
    ultimately show ?thesis
      using good_begin_less_end [OF Cons.prems(3) [of q]] that by (auto simp: IsOverlap_iff)
  qed
  then show ?case using Cons by (simp add: nonoverlap_Cons)
qed simp

definition touch :: "mrange list \<Rightarrow> nat set" where
  "touch rs = {x. \<exists>a\<in>set rs. \<exists>b\<in>set rs. r_end a = x \<and> r_begin b = x}"

lemma separated_iff: "separated rs \<longleftrightarrow> nonoverlap rs \<and> touch rs = {}"
proof
  assume *: "separated rs"
  have "r_end a \<noteq> r_begin b" if "a \<in> set rs" "b \<in> set rs" for a b
    using separated_two [OF * that] good_begin_less_end [OF separated_good [OF * that(1)]]
      good_begin_less_end [OF separated_good [OF * that(2)]] by auto
  then show "nonoverlap rs \<and> touch rs = {}" using separated_nonoverlap [OF *] by (auto simp: touch_def)
next
  assume *: "nonoverlap rs \<and> touch rs = {}"
  then have ne: "r_end a \<noteq> r_begin b" if "a \<in> set rs" "b \<in> set rs" for a b
    using that by (auto simp: touch_def)
  have "sorted_wrt (\<lambda>a b. r_end a < r_begin b) rs"
  proof (rule sorted_wrt_mono_rel [where P = "\<lambda>a b. r_end a \<le> r_begin b"])
    show "sorted_wrt (\<lambda>a b. r_end a \<le> r_begin b) rs" using * by (simp add: nonoverlap_def)
  qed (use ne in force)
  then show "separated rs" using * by (simp add: separated_def nonoverlap_def)
qed

lemma sorted_distinct_set_eq:
  "sorted xs \<Longrightarrow> sorted ys \<Longrightarrow> distinct xs \<Longrightarrow> distinct ys \<Longrightarrow> set xs = set ys \<Longrightarrow> (xs :: mrange list) = ys"
  by (simp add: sorted_distinct_set_unique)

lemma distinct_emplace: "distinct (emplace x xs) \<longleftrightarrow> x \<notin> set xs \<and> distinct xs"
  by (simp add: emplace_def distinct_insort)

lemma distinct_erase_key: "distinct xs \<Longrightarrow> distinct (erase_key x xs)"
  by (simp add: erase_key_def)

lemma fold_emplace_props:
  "mset (fold emplace gs xs) = mset gs + mset xs"
  "sorted xs \<Longrightarrow> sorted (fold emplace gs xs)"
  by (induction gs arbitrary: xs) (simp_all add: ranges_ms.mset_ins ranges_ms.sorted_ins)

lemma set_fold_emplace [simp]: "set (fold emplace gs xs) = set gs \<union> set xs"
  by (metis fold_emplace_props(1) set_mset_mset set_mset_union)

lemma distinct_fold_emplace:
  "distinct gs \<Longrightarrow> distinct xs \<Longrightarrow> set gs \<inter> set xs = {} \<Longrightarrow> distinct (fold emplace gs xs)"
  by (metis distinct_append fold_emplace_props(1) mset_append mset_eq_imp_distinct_iff)

lemma fold_emplace_sorted:
  assumes "sorted gs"
  shows "fold emplace gs [] = gs"
proof -
  have "sort gs = fold emplace gs []"
    by (rule properties_for_sort) (simp_all add: fold_emplace_props)
  then show ?thesis using assms by (simp add: sorted_sort_id)
qed

section \<open>Coalescing two blocks\<close>

lemma nonoverlap_nth: "nonoverlap rs \<Longrightarrow> i < j \<Longrightarrow> j < length rs \<Longrightarrow> r_end (rs ! i) \<le> r_begin (rs ! j)"
  unfolding nonoverlap_def by (auto dest: sorted_wrt_nth_less)

lemma nonoverlap_nth_good: "nonoverlap rs \<Longrightarrow> i < length rs \<Longrightarrow> r_begin (rs ! i) < r_end (rs ! i)"
  by (simp add: good_begin_less_end nonoverlap_good)

lemma lower_bound_BeginLength0_nth:
  assumes "nonoverlap rs"
  shows "i < lower_bound (BeginLength b 0) rs \<Longrightarrow> r_begin (rs ! i) < b"
    and "lower_bound (BeginLength b 0) rs \<le> i \<Longrightarrow> i < length rs \<Longrightarrow> b \<le> r_begin (rs ! i)"
proof -
  show "i < lower_bound (BeginLength b 0) rs \<Longrightarrow> r_begin (rs ! i) < b"
    unfolding lower_bound_BeginLength0 by (rule takeWhile_nth_before)
  show "lower_bound (BeginLength b 0) rs \<le> i \<Longrightarrow> i < length rs \<Longrightarrow> b \<le> r_begin (rs ! i)"
    using takeWhile_nth_after [OF nonoverlap_sorted [OF assms], of "\<lambda>r. r_begin r < b" i]
    unfolding lower_bound_BeginLength0 by (fastforce simp: mrange_le_iff)
qed

lemma touch_index:
  assumes n: "nonoverlap rs" and t: "loc \<in> touch rs"
  defines "k \<equiv> lower_bound (BeginLength loc 0) rs"
  shows "0 < k" "k < length rs" "r_begin (rs ! k) = loc" "r_end (rs ! (k - 1)) = loc"
proof -
  obtain l j where l: "l < length rs" "r_end (rs ! l) = loc" and j: "j < length rs" "r_begin (rs ! j) = loc"
    using t unfolding touch_def by (auto simp: in_set_conv_nth)
  have kj: "k \<le> j"
  proof (rule ccontr)
    assume "\<not> k \<le> j"
    then show False using lower_bound_BeginLength0_nth(1) [OF n, of j loc] j(2) unfolding k_def by simp
  qed
  then have kl: "k < length rs" using j(1) by simp
  have "\<not> k < j"
  proof
    assume "k < j"
    then have "r_end (rs ! k) \<le> loc" using nonoverlap_nth [OF n \<open>k < j\<close> j(1)] j(2) by simp
    moreover have "loc \<le> r_begin (rs ! k)"
      using lower_bound_BeginLength0_nth(2) [OF n, of loc k] kl unfolding k_def by simp
    ultimately show False using nonoverlap_nth_good [OF n kl] by simp
  qed
  then have "j = k" using kj by simp
  then show "k < length rs" "r_begin (rs ! k) = loc" using j by simp_all
  have "r_begin (rs ! l) < loc" using nonoverlap_nth_good [OF n l(1)] l(2) by simp
  then have lk: "l < k"
    using lower_bound_BeginLength0_nth(2) [OF n, of loc l] l(1) unfolding k_def by (meson leD leI)
  then show "0 < k" by simp
  have "\<not> l < k - 1"
  proof
    assume "l < k - 1"
    then have "loc \<le> r_begin (rs ! (k - 1))" using nonoverlap_nth [OF n, of l "k - 1"] l(2) kl by simp
    moreover have "r_begin (rs ! (k - 1)) < loc"
      using lower_bound_BeginLength0_nth(1) [OF n, of "k - 1" loc] lk unfolding k_def by simp
    ultimately show False by simp
  qed
  then have "l = k - 1" using lk by simp
  then show "r_end (rs ! (k - 1)) = loc" using l(2) by simp
qed

lemma coalesce_point_touch:
  assumes "nonoverlap rs" "loc \<in> touch rs"
  obtains i where "coalesce_point rs loc = Some (Some i)" "0 < i" "i < length rs"
    "r_begin (rs ! i) = loc" "r_end (rs ! (i - 1)) = loc"
proof -
  note k = touch_index [OF assms]
  have "coalesce_point rs loc = Some (Some (lower_bound (BeginLength loc 0) rs))"
    using k unfolding coalesce_point_def by (auto simp: Let_def)
  then show thesis using that k by blast
qed

lemma coalesce_point_no_touch:
  assumes n: "nonoverlap rs" and t: "loc \<notin> touch rs"
  shows "coalesce_point rs loc = Some None"
proof -
  define k where "k = lower_bound (BeginLength loc 0) rs"
  have ge: "loc \<le> r_begin (rs ! k)" if "k < length rs"
    using lower_bound_BeginLength0_nth(2) [OF n, of loc k] that unfolding k_def by simp
  have "k \<le> length rs" unfolding k_def by (rule ranges_ms.lower_le)
  moreover have "r_end (rs ! (k - 1)) < loc" if "k < length rs" "k \<noteq> 0" "r_begin (rs ! k) = loc"
  proof -
    have "r_end (rs ! (k - 1)) \<le> loc" using nonoverlap_nth [OF n, of "k - 1" k] that by simp
    moreover have "r_end (rs ! (k - 1)) \<noteq> loc"
    proof
      assume "r_end (rs ! (k - 1)) = loc"
      moreover have "rs ! (k - 1) \<in> set rs" "rs ! k \<in> set rs" using that by simp_all
      ultimately have "loc \<in> touch rs" using that by (auto simp: touch_def)
      then show False using t by simp
    qed
    ultimately show ?thesis by simp
  qed
  ultimately show ?thesis using ge unfolding coalesce_point_def k_def [symmetric]
    by (cases "k = length rs") (auto simp: Let_def)
qed

lemma coalesce_blocks_eq:
  assumes n: "nonoverlap rs" and i: "0 < i" "i < length rs"
    and t: "r_begin (rs ! i) = r_end (rs ! (i - 1))"
  defines "a \<equiv> rs ! (i - 1)" and "b \<equiv> rs ! i"
  defines "c \<equiv> BeginEnd (r_begin a) (r_end b)"
  shows "coalesce_blocks rs i = take (i - 1) rs @ c # drop (Suc i) rs"
    and "rs = take (i - 1) rs @ a # b # drop (Suc i) rs"
    and "good c" "pts c = pts a \<union> pts b" "nonoverlap (take (i - 1) rs @ c # drop (Suc i) rs)"
proof -
  let ?us = "take (i - 1) rs" and ?vs = "drop (Suc i) rs"
  have "drop (i - 1) rs = a # drop i rs"
    using i Cons_nth_drop_Suc [of "i - 1" rs] unfolding a_def by simp
  moreover have "drop i rs = b # ?vs" using i Cons_nth_drop_Suc [of i rs] unfolding b_def by simp
  ultimately have split: "?us @ a # b # ?vs = rs" by (metis append_take_drop_id)
  then show "rs = ?us @ a # b # ?vs" by simp
  have no: "nonoverlap (?us @ a # b # ?vs)" using n split by simp
  then have g: "good a" "good b" by (simp_all add: nonoverlap_append nonoverlap_Cons)
  have ab: "r_begin b = r_end a" using t by (simp add: a_def b_def)
  have lt: "r_begin a < r_end b" using good_begin_less_end [OF g(1)] good_begin_less_end [OF g(2)] ab by simp
  then show c: "good c" unfolding c_def using good_end_less [OF g(2)] by (simp add: BeginEnd_good)
  have ce: "r_begin c = r_begin a" "r_end c = r_end b"
    unfolding c_def using lt good_end_less [OF g(2)] by (simp_all add: BeginEnd_end)
  show "pts c = pts a \<union> pts b"
    using ce ab good_begin_less_end [OF g(1)] good_begin_less_end [OF g(2)] by (auto simp: pts_def)
  show no': "nonoverlap (?us @ c # ?vs)"
    using no c ce by (auto simp: nonoverlap_append nonoverlap_Cons)
  let ?e = "erase_iter (i - 1) (erase_iter i rs)"
  have len: "length ?us = i - 1" using i by simp
  have e1: "erase_iter i rs = ?us @ a # ?vs"
    using i len unfolding erase_iter_def by (subst (1) split [symmetric]) (simp add: take_Cons')
  have e2: "?e = ?us @ ?vs"
    unfolding e1 unfolding erase_iter_def using len by simp
  show "coalesce_blocks rs i = ?us @ c # ?vs"
    unfolding coalesce_blocks_def e2 a_def [symmetric] b_def [symmetric] c_def [symmetric]
  proof (rule ranges_ms.ins_unique)
    show "sorted (?us @ c # ?vs)" by (rule nonoverlap_sorted [OF no'])
    then show "sorted (?us @ ?vs)" by (simp add: sorted_append)
  qed simp
qed

lemma TryCoalesceAdjacentRangesAt_spec:
  assumes n: "nonoverlap rs"
  shows "\<exists>rs'. TryCoalesceAdjacentRangesAt rs loc = Some rs' \<and> nonoverlap rs' \<and>
    covers rs' = covers rs \<and> touch rs' = touch rs - {loc}"
proof (cases "loc \<in> touch rs")
  case False
  then show ?thesis using n
    by (auto simp: TryCoalesceAdjacentRangesAt_def coalesce_point_no_touch)
next
  case True
  then obtain i where i: "coalesce_point rs loc = Some (Some i)" "0 < i" "i < length rs"
    "r_begin (rs ! i) = loc" "r_end (rs ! (i - 1)) = loc"
    using coalesce_point_touch [OF n] by blast
  define a b us vs where "a = rs ! (i - 1)" and "b = rs ! i"
    and "us = take (i - 1) rs" and "vs = drop (Suc i) rs"
  define c where "c = BeginEnd (r_begin a) (r_end b)"
  have "r_begin (rs ! i) = r_end (rs ! (i - 1))" using i by simp
  note cb = coalesce_blocks_eq [OF n i(2,3) this, folded a_def b_def us_def vs_def, folded c_def]
  have t: "TryCoalesceAdjacentRangesAt rs loc = Some (us @ c # vs)"
    using i(1) cb(1) by (simp add: TryCoalesceAdjacentRangesAt_def)
  have no: "nonoverlap (us @ a # b # vs)" using n cb(2) by simp
  have cv: "covers (us @ c # vs) = covers rs" unfolding cb(2) using cb(4) by auto
  have bc: "r_begin c = r_begin a" "r_end c = r_end b" "good b"
    using no good_end_less [of b] good_begin_less_end [of a] good_end_less [of a]
    by (simp_all add: c_def nonoverlap_append nonoverlap_Cons BeginEnd_end)
  have "r_end a = loc" "r_begin b = loc" using i by (simp_all add: a_def b_def)
  moreover have "r_begin a < loc" "loc < r_end b"
    using no good_begin_less_end [of a] good_begin_less_end [of b] calculation
    by (auto simp: nonoverlap_append nonoverlap_Cons)
  moreover have "r_begin q \<noteq> loc \<and> r_end q \<noteq> loc" if "q \<in> set us \<union> set vs" for q
  proof -
    have "good q" using that nonoverlap_good [OF no] by auto
    moreover have "r_end q \<le> r_begin a \<or> r_end b \<le> r_begin q"
      using that no by (auto simp: nonoverlap_append nonoverlap_Cons)
    ultimately show ?thesis
      using good_begin_less_end [of q] \<open>r_begin a < loc\<close> \<open>loc < r_end b\<close> by auto
  qed
  ultimately have "touch (us @ c # vs) = touch (us @ a # b # vs) - {loc}"
    unfolding touch_def using bc by fastforce
  then show ?thesis using t cb(2,5) cv by auto
qed

section \<open>The coalesced required ranges\<close>

lemma good_disjoint_order:
  assumes "good a" "good b" "pts a \<inter> pts b = {}"
  shows "r_end a \<le> r_begin b \<or> r_end b \<le> r_begin a"
  using assms IsOverlap_pts [of a b] by (auto simp: IsOverlap_iff)

text \<open>Replacing a range of a separated list by separated pieces of it.\<close>

lemma separated_replace:
  assumes c: "separated c" "e \<in> set c" and ps: "separated ps" "covers ps \<subseteq> pts e"
    and z: "sorted zs" "distinct zs" "set zs = (set c - {e}) \<union> set ps"
  shows "separated zs"
proof -
  have g: "good r" if "r \<in> set zs" for r
    using that z(3) separated_good [OF c(1)] separated_good [OF ps(1)] by auto
  have sub: "r_begin e \<le> r_begin p \<and> r_end p \<le> r_end e" if "p \<in> set ps" for p
  proof -
    have "pts p \<subseteq> pts e" using pts_subset_covers [OF that] ps(2) by blast
    then have "IsCoveredBy p e" using IsCoveredBy_pts separated_good [OF ps(1) that] by blast
    then show ?thesis by (simp add: IsCoveredBy_def)
  qed
  have two: "a = b \<or> r_end a < r_begin b \<or> r_end b < r_begin a" if "a \<in> set zs" "b \<in> set zs" for a b
    using that z(3) separated_two [OF c(1), of a b] separated_two [OF ps(1), of a b]
      separated_two [OF c(1,2), of a] separated_two [OF c(1,2), of b] sub [of a] sub [of b]
    by auto
  have "nonoverlap zs"
    by (rule nonoverlapI [OF z(1,2) g]) (use two g good_begin_less_end in \<open>fastforce simp: IsOverlap_iff\<close>)+
  moreover have "touch zs = {}"
  proof -
    have "r_end a \<noteq> r_begin b" if "a \<in> set zs" "b \<in> set zs" for a b
      using two [OF that] good_begin_less_end [OF g [OF that(1)]] good_begin_less_end [OF g [OF that(2)]]
      by auto
    then show ?thesis by (auto simp: touch_def)
  qed
  ultimately show ?thesis by (simp add: separated_iff)
qed

lemma SubtractRanges_spec:
  assumes "good e" "good d" "IsOverlap e d" "SubtractRanges e d = Some (l, r)"
  defines "ps \<equiv> (if r_empty l then [] else [l]) @ (if r_empty r then [] else [r])"
  shows "separated ps" "covers ps = pts e - pts d"
proof -
  have w: "r_end e < W64" "r_end d < W64" "r_begin e < r_end e" "r_begin d < r_end d"
    using assms(1,2) good_end_less good_begin_less_end by auto
  have ov: "r_begin d < r_end e" "r_begin e < r_end d" using assms(3) by (auto simp: IsOverlap_iff)
  have lr: "l = (if r_begin d > r_begin e then BeginEnd (r_begin e) (r_begin d) else BeginLength (r_begin e) 0)"
    "r = (if r_end d < r_end e then BeginEnd (r_end d) (r_end e) else BeginLength (r_end e) 0)"
    using assms(3,4) by (auto simp: SubtractRanges_def)
  have L: "(if r_empty l then [] else [l]) = (if r_begin e < r_begin d then [BeginEnd (r_begin e) (r_begin d)] else [])"
    using w ov unfolding lr(1) by (auto simp: r_empty_def BeginEnd_end)
  have R: "(if r_empty r then [] else [r]) = (if r_end d < r_end e then [BeginEnd (r_end d) (r_end e)] else [])"
    using w ov unfolding lr(2) by (auto simp: r_empty_def BeginEnd_end)
  show "separated ps" unfolding ps_def L R
    using w ov by (auto simp: separated_Cons BeginEnd_good BeginEnd_end)
  show "covers ps = pts e - pts d" unfolding ps_def L R
    using w ov by (auto simp: pts_BeginEnd pts_def BeginEnd_end)
qed

lemma subtract_step_spec:
  assumes "separated c" "e \<in> set c" "good d" "IsOverlap e d"
  shows "\<exists>c'. subtract_step d c e = Some c' \<and> separated c' \<and>
    covers c' = covers c - (pts e \<inter> pts d) \<and> set c - {e} \<subseteq> set c'"
proof -
  have e: "good e" by (rule separated_good [OF assms(1,2)])
  obtain l r where lr: "SubtractRanges e d = Some (l, r)"
    using assms(4) by (simp add: SubtractRanges_def)
  define ps where "ps = (if r_empty l then [] else [l]) @ (if r_empty r then [] else [r])"
  note ps = SubtractRanges_spec [OF e assms(3,4) lr, folded ps_def]
  define c' where "c' = fold emplace ps (erase_key e c)"
  have step: "subtract_step d c e = Some c'"
    using assms(4) lr by (simp add: subtract_step_def c'_def ps_def)
  have notin: "p \<notin> set c - {e}" if "p \<in> set ps" for p
  proof
    assume "p \<in> set c - {e}"
    moreover have "pts p \<subseteq> pts e" using ps(2) pts_subset_covers [OF that] by blast
    moreover have "good p" using separated_good [OF ps(1) that] .
    ultimately show False
      using nonoverlap_disjoint_pts [OF separated_nonoverlap [OF assms(1)] _ assms(2), of p] pts_nonempty
      by blast
  qed
  have st: "set c' = (set c - {e}) \<union> set ps"
    unfolding c'_def by (auto simp: ranges_ms.set_del)
  have "separated c'"
  proof (rule separated_replace [OF assms(1,2) ps(1) _ _ _ st])
    show "covers ps \<subseteq> pts e" using ps(2) by blast
    show "sorted c'" unfolding c'_def
      by (intro fold_emplace_props(2) ranges_ms.sorted_del separated_sorted assms(1))
    show "distinct c'" unfolding c'_def
      using notin separated_distinct [OF ps(1)] separated_distinct [OF assms(1)]
      by (intro distinct_fold_emplace distinct_erase_key) (auto simp: ranges_ms.set_del)
  qed
  moreover have "covers c' = covers c - (pts e \<inter> pts d)"
  proof -
    define A where "A = \<Union> (pts ` (set c - {e}))"
    have "covers c' = A \<union> covers ps"
      unfolding covers_def st A_def by auto
    moreover have "A \<inter> pts e = {}"
      using nonoverlap_disjoint_pts [OF separated_nonoverlap [OF assms(1)] _ assms(2)] A_def by blast
    moreover have "covers c = A \<union> pts e"
      unfolding covers_def A_def using assms(2) by blast
    ultimately show ?thesis unfolding ps(2) by blast
  qed
  ultimately show ?thesis using step st by auto
qed

lemma subtract_all_spec:
  assumes "separated c" "set es \<subseteq> set c" "distinct es" "good d"
  shows "\<exists>c'. foldM (subtract_step d) c es = Some c' \<and> separated c' \<and>
    covers c' = covers c - (covers (filter (\<lambda>e. IsOverlap e d) es) \<inter> pts d)"
  using assms(1-3)
proof (induction es arbitrary: c)
  case (Cons e es)
  show ?case
  proof (cases "IsOverlap e d")
    case True
    then obtain c1 where c1: "subtract_step d c e = Some c1" "separated c1"
      "covers c1 = covers c - (pts e \<inter> pts d)" "set c - {e} \<subseteq> set c1"
      using subtract_step_spec [OF Cons.prems(1) _ assms(4), of e] Cons.prems(2) by auto
    have "set es \<subseteq> set c1" using c1(4) Cons.prems(2,3) by auto
    from Cons.IH [OF c1(2) this] Cons.prems(3) obtain c' where
      "foldM (subtract_step d) c1 es = Some c'" "separated c'"
      "covers c' = covers c1 - (covers (filter (\<lambda>e. IsOverlap e d) es) \<inter> pts d)" by auto
    then show ?thesis using c1 True by auto
  next
    case False
    then have "subtract_step d c e = Some c" by (simp add: subtract_step_def)
    then show ?thesis using Cons False by simp
  qed
qed simp

lemma BeginLength0_eq: "b < W64 \<Longrightarrow> BeginLength b 0 = BeginEnd b b"
  by (simp add: BeginLength_def BeginEnd_def u64_sub_id)

text \<open>
  The scan over the required ranges: with \<open>in_progress\<close> the interval from \<open>b\<close> to \<open>x\<close>, the pieces
  flushed and the final \<open>in_progress\<close> are separated and cover exactly what it covered before and what
  the scanned ranges cover within \<open>diff_range\<close>.
\<close>

lemma scan_spec:
  assumes d: "good d" and "monotone_ranges es" "\<forall>e\<in>set es. IsOverlap d e"
    and "r_begin d \<le> b" "b \<le> x" "x \<le> r_end d" "b = r_begin d \<or> (\<forall>e\<in>set es. b \<le> r_begin e)"
  shows "\<exists>ps b' x'. foldM (scan_step d) (BeginEnd b x, c) es = Some (BeginEnd b' x', fold emplace ps c) \<and>
    b' \<le> x' \<and> x' \<le> r_end d \<and>
    separated (ps @ (if b' < x' then [BeginEnd b' x'] else [])) \<and>
    covers (ps @ (if b' < x' then [BeginEnd b' x'] else [])) = {b..<x} \<union> (covers es \<inter> pts d) \<and>
    (\<forall>p\<in>set (ps @ (if b' < x' then [BeginEnd b' x'] else [])). b \<le> r_begin p)"
  using assms(2-)
proof (induction es arbitrary: b x c)
  case Nil
  have "x < W64" using Nil(5) good_end_less [OF d] by simp
  then show ?case using Nil
    by (intro exI [of _ "[]"] exI [of _ b] exI [of _ x]) (auto simp: range_simps pts_BeginEnd)
next
  case (Cons e es)
  let ?d1 = "r_end d"
  let ?n = "min ?d1 (r_end e)"
  have w: "?d1 < W64" "x < W64" "b < W64" using Cons.prems(4,5) good_end_less [OF d] by linarith+
  have xe: "r_end (BeginEnd b x) = x" using w by (simp add: BeginEnd_end)
  have mono: "monotone_ranges es" and ge: "\<forall>q\<in>set es. r_begin e \<le> r_begin q" and good: "good e"
    using Cons.prems(1) by (auto simp: monotone_ranges_def)
  have ov: "r_begin d < r_end e" "r_begin e < ?d1" using Cons.prems(2) by (auto simp: IsOverlap_iff)
  have eb: "r_begin e < r_end e" by (rule good_begin_less_end [OF good])
  show ?case
  proof (cases "r_begin e > x")
    case True
    have fl: "scan_step d (BeginEnd b x, c) e =
        Some (BeginEnd (r_begin e) ?n, fold emplace (if b < x then [BeginEnd b x] else []) c)"
      using True w eb ov xe
      by (auto simp: scan_step_def flush_in_progress_def r_empty_def)
    have "\<exists>ps b' x'. foldM (scan_step d) (BeginEnd (r_begin e) ?n, fold emplace (if b < x then [BeginEnd b x] else []) c) es =
        Some (BeginEnd b' x', fold emplace ps (fold emplace (if b < x then [BeginEnd b x] else []) c)) \<and>
        b' \<le> x' \<and> x' \<le> ?d1 \<and>
        separated (ps @ (if b' < x' then [BeginEnd b' x'] else [])) \<and>
        covers (ps @ (if b' < x' then [BeginEnd b' x'] else [])) = {r_begin e..<?n} \<union> (covers es \<inter> pts d) \<and>
        (\<forall>p\<in>set (ps @ (if b' < x' then [BeginEnd b' x'] else [])). r_begin e \<le> r_begin p)"
      using Cons.prems True mono ge eb ov by (intro Cons.IH) auto
    then obtain ps b' x' where IH: "foldM (scan_step d) (BeginEnd (r_begin e) ?n, fold emplace (if b < x then [BeginEnd b x] else []) c) es =
        Some (BeginEnd b' x', fold emplace ps (fold emplace (if b < x then [BeginEnd b x] else []) c))"
      "b' \<le> x'" "x' \<le> ?d1" "separated (ps @ (if b' < x' then [BeginEnd b' x'] else []))"
      "covers (ps @ (if b' < x' then [BeginEnd b' x'] else [])) = {r_begin e..<?n} \<union> (covers es \<inter> pts d)"
      "\<forall>p\<in>set (ps @ (if b' < x' then [BeginEnd b' x'] else [])). r_begin e \<le> r_begin p" by blast
    let ?full = "ps @ (if b' < x' then [BeginEnd b' x'] else [])"
    let ?pre = "if b < x then [BeginEnd b x] else []"
    have "separated (?pre @ ?full)"
    proof (cases "b < x")
      case lt: True
      have "good (BeginEnd b x)" using lt w by (simp add: BeginEnd_good)
      moreover have "\<forall>p\<in>set ?full. r_end (BeginEnd b x) < r_begin p"
        unfolding xe using bspec [OF IH(6)] less_le_trans [OF True] by blast
      ultimately show ?thesis using IH(4) lt by (simp only: if_True append_Cons append_Nil separated_Cons)
    qed (use IH(4) in simp)
    moreover have "covers (?pre @ ?full) = {b..<x} \<union> (covers (e # es) \<inter> pts d)"
    proof -
      have "pts e \<inter> pts d = {r_begin e..<?n}" using True Cons.prems(3,4) by (auto simp: pts_def)
      moreover have "covers ?pre = {b..<x}" using w by (auto simp: pts_BeginEnd)
      ultimately show ?thesis unfolding covers_append covers_Cons [of e] using IH(5) by auto
    qed
    moreover have "\<forall>p\<in>set (?pre @ ?full). b \<le> r_begin p"
    proof
      have b: "b \<le> r_begin e" using True Cons.prems(4) by simp
      fix p assume "p \<in> set (?pre @ ?full)"
      then consider "p \<in> set ?full" | "p = BeginEnd b x" by (auto split: if_splits)
      then show "b \<le> r_begin p"
      proof cases
        case 1
        show ?thesis by (rule order_trans [OF b bspec [OF IH(6) 1]])
      qed simp
    qed
    ultimately show ?thesis using fl IH(1-3)
      by (intro exI [of _ "?pre @ ps"] exI [of _ b'] exI [of _ x']) simp
  next
    case False
    have be: "b = r_begin d \<or> b \<le> r_begin e" using Cons.prems(6) by auto
    define y where "y = (if r_end e \<le> x then x else ?n)"
    have y: "x \<le> y" "y \<le> ?d1" using Cons.prems(5) by (auto simp: y_def)
    have st: "scan_step d (BeginEnd b x, c) e = Some (BeginEnd b y, c)"
      using False ov xe by (auto simp: scan_step_def y_def)
    have "{b..<y} = {b..<x} \<union> (pts e \<inter> pts d)"
      using be False Cons.prems(3-5) unfolding y_def by (auto simp: pts_def)
    then have eq: "{b..<y} \<union> (covers es \<inter> pts d) = {b..<x} \<union> (covers (e # es) \<inter> pts d)"
      by (auto simp: covers_Cons)
    have "\<exists>ps b' x'. foldM (scan_step d) (BeginEnd b y, c) es = Some (BeginEnd b' x', fold emplace ps c) \<and>
        b' \<le> x' \<and> x' \<le> ?d1 \<and>
        separated (ps @ (if b' < x' then [BeginEnd b' x'] else [])) \<and>
        covers (ps @ (if b' < x' then [BeginEnd b' x'] else [])) = {b..<y} \<union> (covers es \<inter> pts d) \<and>
        (\<forall>p\<in>set (ps @ (if b' < x' then [BeginEnd b' x'] else [])). b \<le> r_begin p)"
      using Cons.prems mono y be ge by (intro Cons.IH) auto
    then show ?thesis using st eq by simp
  qed
qed

text \<open>
  The incremental update around \<open>diff_range\<close> rebuilds the coalesced ranges, whatever changed inside
  \<open>diff_range\<close>, as long as nothing changed outside it.
\<close>

lemma pieces_around_diff:
  assumes d: "good d" and c: "separated c" "covers c \<inter> pts d = {}"
    and p: "separated ps" "covers ps \<subseteq> pts d"
  defines "zs \<equiv> fold emplace ps c"
  shows "nonoverlap zs" "covers zs = covers c \<union> covers ps" "touch zs \<subseteq> {r_begin d, r_end d}"
proof -
  have st: "set zs = set c \<union> set ps" by (auto simp: zs_def)
  have g: "good r" if "r \<in> set zs" for r
    using that st separated_good [OF c(1)] separated_good [OF p(1)] by auto
  have out: "r_end a \<le> r_begin d \<or> r_end d \<le> r_begin a" if "a \<in> set c" for a
    using good_disjoint_order [OF separated_good [OF c(1) that] d] pts_subset_covers [OF that] c(2) by blast
  have ins: "r_begin d \<le> r_begin q \<and> r_end q \<le> r_end d" if "q \<in> set ps" for q
  proof -
    have "IsCoveredBy q d"
      using IsCoveredBy_pts separated_good [OF p(1) that] pts_subset_covers [OF that] p(2) by blast
    then show ?thesis by (simp add: IsCoveredBy_def)
  qed
  have w: "r_begin r < r_end r" if "r \<in> set zs" for r by (rule good_begin_less_end [OF g [OF that]])
  have two: "a = b \<or> r_end a < r_begin b \<or> r_end b < r_begin a \<or>
      (r_end a \<le> r_begin d \<and> r_begin d \<le> r_begin b \<or> r_end d \<le> r_begin a \<and> r_end b \<le> r_end d) \<or>
      (r_end b \<le> r_begin d \<and> r_begin d \<le> r_begin a \<or> r_end d \<le> r_begin b \<and> r_end a \<le> r_end d)"
    if "a \<in> set zs" "b \<in> set zs" for a b
    using that st separated_two [OF c(1), of a b] separated_two [OF p(1), of a b]
      out [of a] out [of b] ins [of a] ins [of b] by auto
  have dis: "set ps \<inter> set c = {}"
  proof -
    have "pts q \<inter> pts q = {}" if "q \<in> set ps" "q \<in> set c" for q
      using pts_subset_covers [OF that(1)] pts_subset_covers [OF that(2)] c(2) p(2) by blast
    then show ?thesis using pts_nonempty separated_good [OF p(1)] by blast
  qed
  show "nonoverlap zs"
  proof (rule nonoverlapI [OF _ _ g])
    show "sorted zs" unfolding zs_def by (intro fold_emplace_props(2) separated_sorted c(1))
    show "distinct zs" unfolding zs_def
      using dis by (intro distinct_fold_emplace separated_distinct c(1) p(1)) auto
    show "\<not> IsOverlap a b" if "a \<in> set zs" "b \<in> set zs" "a \<noteq> b" for a b
      using two [OF that(1,2)] that(3) by (auto simp: IsOverlap_iff)
  qed
  show "covers zs = covers c \<union> covers ps" by (auto simp: covers_def st)
  show "touch zs \<subseteq> {r_begin d, r_end d}"
  proof
    fix y assume "y \<in> touch zs"
    then obtain a b where ab: "a \<in> set zs" "b \<in> set zs" "r_end a = y" "r_begin b = y"
      unfolding touch_def by blast
    show "y \<in> {r_begin d, r_end d}"
      using two [OF ab(1,2)] ab(3,4) w [OF ab(1)] w [OF ab(2)] good_begin_less_end [OF d] by auto
  qed
qed

lemma coalesce_both_spec:
  assumes "nonoverlap z" "touch z \<subseteq> {a, b}"
  shows "\<exists>c. TryCoalesceAdjacentRangesAt z a \<bind> (\<lambda>c3. TryCoalesceAdjacentRangesAt c3 b) = Some c \<and>
    separated c \<and> covers c = covers z"
proof -
  obtain c3 where c3: "TryCoalesceAdjacentRangesAt z a = Some c3"
    "nonoverlap c3" "covers c3 = covers z" "touch c3 = touch z - {a}"
    using TryCoalesceAdjacentRangesAt_spec [OF assms(1), of a] by blast
  obtain c4 where c4: "TryCoalesceAdjacentRangesAt c3 b = Some c4"
    "nonoverlap c4" "covers c4 = covers c3" "touch c4 = touch c3 - {b}"
    using TryCoalesceAdjacentRangesAt_spec [OF c3(2), of b] by blast
  have "touch c4 = {}" using c4(4) c3(4) assms(2) by blast
  then show ?thesis using c3 c4 by (simp add: separated_iff)
qed

lemma UpdateCoalescedRequiredRanges_spec:
  assumes d: "good d" and c: "separated c" and r: "monotone_ranges req"
    and same: "covers c - pts d = covers req - pts d"
  shows "\<exists>c'. UpdateCoalescedRequiredRanges d req c = Some c' \<and> separated c' \<and> covers c' = covers req"
proof -
  have w: "r_begin d < r_end d" "r_end d < W64" "r_begin d < W64"
    using good_begin_less_end [OF d] good_end_less [OF d] by auto
  have po: "potential_overlaps d c = filter (IsOverlap d) c"
    "potential_overlaps d req = filter (IsOverlap d) req"
    using potential_overlaps_good [OF separated_monotone [OF c] d] potential_overlaps_good [OF r d] by auto
  have sym: "filter (\<lambda>e. IsOverlap e d) (filter (IsOverlap d) c) = filter (IsOverlap d) c"
    by (rule filter_True) (auto simp: IsOverlap_iff)
  have cut: "covers (filter (IsOverlap d) xs) \<inter> pts d = covers xs \<inter> pts d"
    if "\<And>x. x \<in> set xs \<Longrightarrow> good x" for xs
    using that IsOverlap_pts [OF d] by (auto simp: covers_iff) blast
  obtain c1 where c1: "foldM (subtract_step d) c (filter (IsOverlap d) c) = Some c1" "separated c1"
    "covers c1 = covers c - (covers (filter (IsOverlap d) c) \<inter> pts d)"
    using subtract_all_spec [OF c _ _ d, of "filter (IsOverlap d) c"] separated_distinct [OF c] sym by auto
  have cov1: "covers c1 = covers c - pts d" unfolding c1(3) using cut separated_good [OF c] by blast
  have "monotone_ranges (filter (IsOverlap d) req)" by (rule monotone_filter [OF r])
  from scan_spec [OF d this, of "r_begin d" "r_begin d" c1] w obtain ps b' x' where
    sc: "foldM (scan_step d) (BeginEnd (r_begin d) (r_begin d), c1) (filter (IsOverlap d) req) =
      Some (BeginEnd b' x', fold emplace ps c1)" "b' \<le> x'" "x' \<le> r_end d"
    "separated (ps @ (if b' < x' then [BeginEnd b' x'] else []))"
    "covers (ps @ (if b' < x' then [BeginEnd b' x'] else [])) =
      covers (filter (IsOverlap d) req) \<inter> pts d" by auto
  define full where "full = ps @ (if b' < x' then [BeginEnd b' x'] else [])"
  note sf = sc(4,5) [folded full_def]
  have covf: "covers full = covers req \<inter> pts d"
    unfolding sf(2) using cut r by (auto simp: monotone_ranges_def)
  have fl: "flush_in_progress d (r_end d) (BeginEnd b' x', fold emplace ps c1) =
      Some (BeginLength (r_end d) 0, fold emplace full c1)"
    using sc(2,3) w by (auto simp: full_def flush_in_progress_def r_empty_def BeginEnd_end)
  define z where "z = fold emplace full c1"
  have z: "nonoverlap z" "covers z = covers c1 \<union> covers full" "touch z \<subseteq> {r_begin d, r_end d}"
    using pieces_around_diff [OF d c1(2) _ sf(1)] covf cov1 unfolding z_def by blast+
  have "covers z = covers req" using z(2) covf cov1 same by blast
  moreover have "UpdateCoalescedRequiredRanges d req c =
      TryCoalesceAdjacentRangesAt z (r_begin d) \<bind> (\<lambda>c3. TryCoalesceAdjacentRangesAt c3 (r_end d))"
    using c1(1) sc(1) fl w
    by (simp add: UpdateCoalescedRequiredRanges_def po BeginLength0_eq r_empty_def z_def)
  ultimately show ?thesis using coalesce_both_spec [OF z(1,3)] by simp
qed

section \<open>The interior unused ranges\<close>

text \<open>A gap of a separated list, by offsets only: uncovered, between two covered offsets.\<close>

lemma gap_offsets:
  assumes R: "separated R" and g: "g \<in> set (gaps R)"
  shows "good g \<and> pts g \<inter> covers R = {} \<and> 0 < r_begin g \<and>
    r_begin g - 1 \<in> covers R \<and> r_end g \<in> covers R"
proof -
  obtain a b where ab: "adjacent R a b" "g = BeginEnd (r_end a) (r_begin b)"
    using g by (auto simp: set_gaps)
  note be = gap_begin_end [OF R ab]
  have m: "a \<in> set R" "b \<in> set R" "good a" "good b"
    using adjacent_set [OF ab(1)] separated_good [OF R] by auto
  have "pts g \<inter> covers R = {}"
    using pts_subset_covers [OF g] covers_gaps [OF R] by blast
  moreover have "r_end a - 1 \<in> covers R" "r_begin b \<in> covers R"
    using pts_last pts_nonempty pts_subset_covers m by blast+
  ultimately show ?thesis using be good_begin_less_end [OF m(3)] by simp
qed

lemma gap_char:
  assumes R: "separated R"
  shows "g \<in> set (gaps R) \<longleftrightarrow> good g \<and> pts g \<inter> covers R = {} \<and> 0 < r_begin g \<and>
    r_begin g - 1 \<in> covers R \<and> r_end g \<in> covers R" (is "?l \<longleftrightarrow> ?r")
proof
  show "?r" if "?l" by (rule gap_offsets [OF R that])
  assume r: "?r"
  have lt: "r_begin g < r_end g" using good_begin_less_end r by blast
  have "r_begin g - 1 \<in> hull R" "r_end g \<in> hull R" using r covers_hull [OF R] by auto
  then have "r_begin g \<in> hull R" using lt by (auto simp: hull_def split: if_splits)
  moreover have "r_begin g \<notin> covers R" using r pts_nonempty by blast
  ultimately have "r_begin g \<in> covers (gaps R)" by (simp add: covers_gaps [OF R])
  then obtain h where h: "h \<in> set (gaps R)" "r_begin g \<in> pts h" by (auto simp: covers_iff)
  note rh = gap_offsets [OF R h(1)]
  have "\<not> r_begin h < r_begin g"
  proof
    assume "r_begin h < r_begin g"
    then have "r_begin g - 1 \<in> pts h" using h(2) by (auto simp: pts_def)
    then show False using rh r by blast
  qed
  then have b: "r_begin h = r_begin g" using h(2) by (auto simp: pts_def)
  have "\<not> r_end h < r_end g"
  proof
    assume "r_end h < r_end g"
    then have "r_end h \<in> pts g" using b good_begin_less_end [of h] rh by (auto simp: pts_def)
    then show False using rh r by blast
  qed
  moreover have "\<not> r_end g < r_end h"
  proof
    assume "r_end g < r_end h"
    then have "r_end g \<in> pts h" using b lt by (auto simp: pts_def)
    then show False using rh r by blast
  qed
  ultimately have "h = g" using b rh r by (intro good_eqI) auto
  then show "?l" using h(1) by simp
qed

lemma adjacent_nth: "adjacent xs a b \<longleftrightarrow> (\<exists>i. Suc i < length xs \<and> xs ! i = a \<and> xs ! Suc i = b)"
proof
  assume "adjacent xs a b"
  then obtain us vs where "xs = us @ a # b # vs" by (auto simp: adjacent_def)
  then show "\<exists>i. Suc i < length xs \<and> xs ! i = a \<and> xs ! Suc i = b"
    by (intro exI [of _ "length us"]) (simp add: nth_append)
next
  assume "\<exists>i. Suc i < length xs \<and> xs ! i = a \<and> xs ! Suc i = b"
  then obtain i where i: "Suc i < length xs" "xs ! i = a" "xs ! Suc i = b" by blast
  then have "xs = take i xs @ a # b # drop (Suc (Suc i)) xs"
    by (metis Cons_nth_drop_Suc Suc_lessD append_take_drop_id)
  then show "adjacent xs a b" by (auto simp: adjacent_def)
qed

lemma adjacent_slice:
  "adjacent (slice i j xs) a b \<longleftrightarrow>
    (\<exists>k\<ge>i. Suc k < j \<and> Suc k < length xs \<and> xs ! k = a \<and> xs ! Suc k = b)"
proof
  assume "adjacent (slice i j xs) a b"
  then obtain k where "Suc k < length (slice i j xs)" "slice i j xs ! k = a" "slice i j xs ! Suc k = b"
    by (auto simp: adjacent_nth)
  then show "\<exists>k\<ge>i. Suc k < j \<and> Suc k < length xs \<and> xs ! k = a \<and> xs ! Suc k = b"
    by (intro exI [of _ "i + k"]) (auto simp: slice_def)
next
  assume "\<exists>k\<ge>i. Suc k < j \<and> Suc k < length xs \<and> xs ! k = a \<and> xs ! Suc k = b"
  then obtain k where "i \<le> k" "Suc k < j" "Suc k < length xs" "xs ! k = a" "xs ! Suc k = b" by blast
  then show "adjacent (slice i j xs) a b"
    unfolding adjacent_nth by (intro exI [of _ "k - i"]) (auto simp: slice_def)
qed

lemma separated_nth: "separated rs \<Longrightarrow> i < j \<Longrightarrow> j < length rs \<Longrightarrow> r_end (rs ! i) < r_begin (rs ! j)"
  unfolding separated_def by (auto intro: sorted_wrt_nth_less)

lemma separated_slice: "separated rs \<Longrightarrow> separated (slice i j rs)"
  unfolding slice_def separated_def
  by (auto simp: sorted_wrt_take sorted_wrt_drop dest: in_set_takeD in_set_dropD)

lemma gaps_slice:
  assumes N: "separated N" and "rb < length N" "e \<le> length N"
  defines "re \<equiv> (if e \<noteq> length N then e + 1 else e)"
  shows "set (gaps (slice rb re N)) = {g \<in> set (gaps N).
    (rb = 0 \<or> r_end (N ! rb) \<le> r_begin g) \<and> (e = length N \<or> r_end g \<le> r_begin (N ! e))}"
proof -
  have gap: "r_begin (BeginEnd (r_end (N ! k)) (r_begin (N ! Suc k))) = r_end (N ! k)"
    "r_end (BeginEnd (r_end (N ! k)) (r_begin (N ! Suc k))) = r_begin (N ! Suc k)"
    if "Suc k < length N" for k
    using gap_begin_end [OF N _ refl, of "N ! k" "N ! Suc k"] that by (auto simp: adjacent_nth)
  have good: "r_begin (N ! i) < r_end (N ! i)" if "i < length N" for i
    using that separated_good [OF N] good_begin_less_end by simp
  have lo: "rb \<le> k \<longleftrightarrow> rb = 0 \<or> r_end (N ! rb) \<le> r_end (N ! k)" if "Suc k < length N" for k
    using separated_nth [OF N, of rb k] separated_nth [OF N, of k rb] good [of k] good [of rb] assms(2) that
    by (cases rb k rule: linorder_cases) auto
  have hi: "Suc k < re \<longleftrightarrow> e = length N \<or> r_begin (N ! Suc k) \<le> r_begin (N ! e)" if "Suc k < length N" for k
    using separated_nth [OF N, of "Suc k" e] separated_nth [OF N, of e "Suc k"] good [of "Suc k"] good [of e]
      assms(3) that unfolding re_def
    by (cases e "Suc k" rule: linorder_cases) auto
  have "set (gaps (slice rb re N)) = {BeginEnd (r_end (N ! k)) (r_begin (N ! Suc k)) | k.
      rb \<le> k \<and> Suc k < re \<and> Suc k < length N}"
    by (auto simp: set_gaps adjacent_slice)
  also have "\<dots> = {g \<in> {BeginEnd (r_end (N ! k)) (r_begin (N ! Suc k)) | k. Suc k < length N}.
      (rb = 0 \<or> r_end (N ! rb) \<le> r_begin g) \<and> (e = length N \<or> r_end g \<le> r_begin (N ! e))}"
    using lo hi gap by auto
  also have "{BeginEnd (r_end (N ! k)) (r_begin (N ! Suc k)) | k. Suc k < length N} = set (gaps N)"
    by (auto simp: set_gaps adjacent_nth)
  finally show ?thesis .
qed

text \<open>The two containers under the carving loop and under the insertions.\<close>

lemma inj_by_length_key: "inj (\<lambda>r. by_length_key r)"
  by (rule injI) (metis mrange.collapse prod.inject)

lemma sort_by_length_eqI:
  assumes "sorted (map (\<lambda>r. by_length_key r) xs)" "distinct xs" "distinct ys" "set xs = set ys"
  shows "xs = sort_key (\<lambda>r. by_length_key r) ys"
proof -
  have i: "inj_on (\<lambda>r. by_length_key r) A" for A
    using inj_by_length_key inj_on_subset by blast
  have "map (\<lambda>r. by_length_key r) xs = map (\<lambda>r. by_length_key r) (sort_key (\<lambda>r. by_length_key r) ys)"
    using assms by (intro sorted_distinct_set_unique) (auto simp: distinct_map i)
  then show ?thesis by (rule map_injective) (rule inj_by_length_key)
qed

lemma set_erase_by_length: "set (erase_by_length x xs) = set xs - {x}"
proof -
  have "CompareRangeByLength a x \<or> CompareRangeByLength x a \<longleftrightarrow> a \<noteq> x" for a
    unfolding CompareRangeByLength_def by (cases a; cases x) auto
  then show ?thesis unfolding erase_by_length_def by auto
qed

lemma erase_by_length_props:
  "distinct xs \<Longrightarrow> distinct (erase_by_length x xs)"
  "sorted (map (\<lambda>r. by_length_key r) xs) \<Longrightarrow> sorted (map (\<lambda>r. by_length_key r) (erase_by_length x xs))"
  unfolding erase_by_length_def by (simp_all add: sorted_filter)

lemma fold_erase_by_length:
  assumes "distinct b" "sorted (map (\<lambda>r. by_length_key r) b)"
  shows "set (fold erase_by_length es b) = set b - set es \<and> distinct (fold erase_by_length es b) \<and>
    sorted (map (\<lambda>r. by_length_key r) (fold erase_by_length es b))"
  using assms
  by (induction es arbitrary: b) (auto simp: set_erase_by_length erase_by_length_props)

lemma fold_emplace_by_length:
  assumes "distinct b" "sorted (map (\<lambda>r. by_length_key r) b)" "distinct gs" "set gs \<inter> set b = {}"
  shows "set (fold emplace_by_length gs b) = set gs \<union> set b \<and> distinct (fold emplace_by_length gs b) \<and>
    sorted (map (\<lambda>r. by_length_key r) (fold emplace_by_length gs b))"
  using assms
proof (induction gs arbitrary: b)
  case (Cons g gs)
  have "set (emplace_by_length g b) = insert g (set b)" "distinct (emplace_by_length g b)"
    "sorted (map (\<lambda>r. by_length_key r) (emplace_by_length g b))"
    using Cons.prems unfolding emplace_by_length_def
    by (auto simp: set_insort_key sorted_insort_key distinct_insort)
  then show ?case using Cons.IH [of "emplace_by_length g b"] Cons.prems by auto
qed simp

lemma fold_remove1:
  assumes "distinct (u :: mrange list)" "sorted u"
  shows "set (fold remove1 es u) = set u - set es \<and> distinct (fold remove1 es u) \<and> sorted (fold remove1 es u)"
  using assms by (induction es arbitrary: u) (auto simp: sorted_remove1)

lemma carve_all:
  "\<forall>e\<in>set es. IsCoveredBy e cr \<Longrightarrow>
    foldM (carve_step cr) (u, b) es = Some (fold remove1 es u, fold erase_by_length es b)"
  by (induction es arbitrary: u b) (auto simp: carve_step_def)

definition in_carve :: "nat option \<Rightarrow> nat option \<Rightarrow> mrange \<Rightarrow> bool" where
  "in_carve mb me g \<longleftrightarrow> (case mb of None \<Rightarrow> True | Some b \<Rightarrow> b \<le> r_begin g) \<and>
     (case me of None \<Rightarrow> True | Some e \<Rightarrow> r_end g \<le> e)"

lemma carve_unused_spec:
  assumes u: "separated u"
    and mb: "\<And>b g. mb = Some b \<Longrightarrow> g \<in> set u \<Longrightarrow> r_end g \<le> b \<or> b \<le> r_begin g" "\<And>b. mb = Some b \<Longrightarrow> b < W64"
    and me: "\<And>e g. me = Some e \<Longrightarrow> g \<in> set u \<Longrightarrow> r_end g \<le> e \<or> e \<le> r_begin g" "\<And>e. me = Some e \<Longrightarrow> e < W64"
  shows "\<exists>es. carve_unused mb me (u, l) = Some (fold remove1 es u, fold erase_by_length es l) \<and>
    set es = {g \<in> set u. in_carve mb me g}"
proof (cases "u = []")
  case True
  then show ?thesis by (intro exI [of _ "[]"]) (simp add: carve_unused_def)
next
  case False
  define cb where "cb = (case mb of Some b \<Rightarrow> b | None \<Rightarrow> r_begin (hd u))"
  define ce where "ce = (case me of Some e \<Rightarrow> e | None \<Rightarrow> r_end (last u))"
  have good: "good g" if "g \<in> set u" for g by (rule separated_good [OF u that])
  have w: "cb < W64" "ce < W64"
    using mb(2) me(2) good [of "hd u"] good [of "last u"] False good_end_less good_begin_less_end
    unfolding cb_def ce_def by (fastforce split: option.splits)+
  have cb: "(r_end g \<le> cb \<or> cb \<le> r_begin g) \<and> (cb \<le> r_begin g \<longleftrightarrow> (case mb of None \<Rightarrow> True | Some b \<Rightarrow> b \<le> r_begin g))"
    if "g \<in> set u" for g
    using mb(1) that separated_hd_begin_le [OF u that] unfolding cb_def by (auto split: option.splits)
  have ce: "(r_end g \<le> ce \<or> ce \<le> r_begin g) \<and> (r_end g \<le> ce \<longleftrightarrow> (case me of None \<Rightarrow> True | Some e \<Rightarrow> r_end g \<le> e))"
    if "g \<in> set u" for g
    using me(1) that separated_last_end [OF u False that] unfolding ce_def by (auto split: option.splits)
  have L: "in_carve mb me g \<longleftrightarrow> cb \<le> r_begin g \<and> r_end g \<le> ce" if "g \<in> set u" for g
    using cb [OF that] ce [OF that] by (simp add: in_carve_def)
  have e: "carve_unused mb me (u, l) =
      (if cb < ce then foldM (carve_step (BeginEnd cb ce)) (u, l) (potential_overlaps (BeginEnd cb ce) u)
       else Some (u, l))"
    using False unfolding carve_unused_def Let_def fst_conv cb_def [symmetric] ce_def [symmetric] by simp
  show ?thesis
  proof (cases "cb < ce")
    case True
    have c: "good (BeginEnd cb ce)" "r_begin (BeginEnd cb ce) = cb" "r_end (BeginEnd cb ce) = ce"
      using True w by (simp_all add: BeginEnd_good BeginEnd_end)
    have po: "potential_overlaps (BeginEnd cb ce) u = filter (IsOverlap (BeginEnd cb ce)) u"
      by (rule potential_overlaps_good [OF separated_monotone [OF u] c(1)])
    have ov: "IsOverlap (BeginEnd cb ce) g \<longleftrightarrow> in_carve mb me g" if "g \<in> set u" for g
      using cb [OF that] ce [OF that] good_begin_less_end [OF good [OF that]]
      unfolding L [OF that] IsOverlap_iff c by auto
    have "IsCoveredBy g (BeginEnd cb ce)" if "g \<in> set u" "in_carve mb me g" for g
      using L [OF that(1)] that(2) c by (simp add: IsCoveredBy_def)
    then have "carve_unused mb me (u, l) = Some (fold remove1 (filter (in_carve mb me) u) u,
        fold erase_by_length (filter (in_carve mb me) u) l)"
      using ov True unfolding e po by (auto simp: carve_all cong: filter_cong)
    then show ?thesis by (intro exI [of _ "filter (in_carve mb me) u"]) auto
  next
    case False
    have "{g \<in> set u. in_carve mb me g} = {}"
      using L False good_begin_less_end [OF good] by fastforce
    then show ?thesis using e False by (intro exI [of _ "[]"]) simp
  qed
qed

text \<open>
  The gaps before the offset \<open>b\<close>, where \<open>b - 1\<close> is covered, or from the offset \<open>e\<close> on, where \<open>e\<close> is
  covered, do not depend on the coverage in between.
\<close>

lemma gap_bounds:
  assumes "separated R" "g \<in> set (gaps R)"
  shows "0 < b \<Longrightarrow> b - 1 \<in> covers R \<Longrightarrow> r_end g < b \<or> b \<le> r_begin g"
    and "e \<in> covers R \<Longrightarrow> r_end g \<le> e \<or> e < r_begin g"
proof -
  note g = gap_offsets [OF assms]
  show "r_end g < b \<or> b \<le> r_begin g" if "0 < b" "b - 1 \<in> covers R"
  proof (rule ccontr)
    assume "\<not> ?thesis"
    then have "b - 1 \<in> pts g" using that(1) by (auto simp: pts_def)
    then show False using g that by blast
  qed
  show "r_end g \<le> e \<or> e < r_begin g" if "e \<in> covers R"
  proof (rule ccontr)
    assume "\<not> ?thesis"
    then have "e \<in> pts g" by (auto simp: pts_def)
    then show False using g that by blast
  qed
qed

lemma gap_outside:
  assumes "separated R" "separated S" "covers R - D = covers S - D" "g \<in> set (gaps R)"
    and "{r_begin g - 1..r_end g} \<inter> D = {}"
  shows "g \<in> set (gaps S)"
proof -
  note g = gap_offsets [OF assms(1,4)]
  have same: "x \<in> covers S \<longleftrightarrow> x \<in> covers R" if "x \<in> {r_begin g - 1..r_end g}" for x
    using that assms(3,5) by blast
  have lt: "r_begin g < r_end g" using g good_begin_less_end by blast
  have "pts g \<inter> covers S = {}" using g same unfolding pts_def by fastforce
  then show ?thesis using g same lt by (simp add: gap_char [OF assms(2)])
qed

lemma UpdateInteriorUnusedRanges_spec:
  assumes d: "good d" and O: "separated Old" and N: "separated N"
    and same: "covers Old - pts d = covers N - pts d"
  shows "UpdateInteriorUnusedRanges d N (gaps Old, sort_key (\<lambda>r. by_length_key r) (gaps Old)) =
    Some (gaps N, sort_key (\<lambda>r. by_length_key r) (gaps N))"
proof (cases "length N < 2")
  case True
  then have "length (gaps N) = 0" unfolding length_gaps by simp
  then have "gaps N = []" by simp
  then show ?thesis using True by (simp add: UpdateInteriorUnusedRanges_def)
next
  case False
  let ?k = "\<lambda>r. by_length_key r"
  have lt: "r_begin d < r_end d" by (rule good_begin_less_end [OF d])
  define n1 where "n1 = length (takeWhile (\<lambda>q. r_end q \<le> r_begin d) N)"
  define e where "e = length (takeWhile (\<lambda>q. r_begin q < r_end d) N)"
  define rb where "rb = n1 - 1"
  have it: "IteratorsCoveringPotentialOverlapsOfRangeWithRanges d N = (n1, e)"
    unfolding n1_def e_def by (rule iterators_eq [OF separated_monotone [OF N] lt])
  have n1: "n1 \<le> length N" "n1 < length N \<Longrightarrow> r_begin d < r_end (N ! n1)"
    unfolding n1_def using nth_length_takeWhile [of "\<lambda>q. r_end q \<le> r_begin d" N]
    by (auto simp: length_takeWhile_le)
  have rb: "rb < length N" "rb = 0 \<or> r_end (N ! rb) \<le> r_begin d"
    using False n1(1) takeWhile_nth_before [of rb "\<lambda>q. r_end q \<le> r_begin d" N, folded n1_def]
    unfolding rb_def by (cases n1; auto)+
  have rb_eq: "(if n1 \<noteq> 0 \<and> (n1 = length N \<or> r_begin d < r_end (N ! n1)) then n1 - 1 else n1) = rb"
    using n1 unfolding rb_def by auto
  have e: "e \<le> length N" "e = length N \<or> r_end d \<le> r_begin (N ! e)"
  proof -
    show le: "e \<le> length N" by (simp add: e_def length_takeWhile_le)
    then show "e = length N \<or> r_end d \<le> r_begin (N ! e)"
      using nth_length_takeWhile [of "\<lambda>q. r_begin q < r_end d" N, folded e_def] by linarith
  qed
  define mb where "mb = (if rb = 0 then None else Some (r_end (N ! rb)))"
  define me where "me = (if e = length N then None else Some (r_begin (N ! e)))"
  define re where "re = (if e \<noteq> length N then e + 1 else e)"
  have gN: "good (N ! i)" "N ! i \<in> set N" if "i < length N" for i
    using that separated_good [OF N] by auto
  have MB: "0 < b \<and> b < W64 \<and> b \<le> r_begin d \<and> b - 1 \<in> covers N \<and> b - 1 \<in> covers Old" if "mb = Some b" for b
  proof -
    have b: "b = r_end (N ! rb)" "b \<le> r_begin d" using that rb(2) by (auto simp: mb_def split: if_splits)
    note g = gN [OF rb(1)]
    have "b - 1 \<in> covers N" using pts_last [OF g(1)] pts_subset_covers [OF g(2)] b(1) by blast
    moreover have "0 < b" "b < W64" using good_begin_less_end [OF g(1)] good_end_less [OF g(1)] b(1) by auto
    moreover then have "b - 1 \<notin> pts d" using b(2) by (auto simp: pts_def)
    ultimately show ?thesis using same b(2) by blast
  qed
  have ME: "f < W64 \<and> r_end d \<le> f \<and> f \<in> covers N \<and> f \<in> covers Old" if "me = Some f" for f
  proof -
    have f: "f = r_begin (N ! e)" "r_end d \<le> f" "e < length N"
      using that e by (auto simp: me_def split: if_splits)
    note g = gN [OF f(3)]
    have "f \<in> covers N" using pts_nonempty [OF g(1)] pts_subset_covers [OF g(2)] f(1) by blast
    moreover have "f < W64" using good_begin_less_end [OF g(1)] good_end_less [OF g(1)] f(1) by auto
    moreover have "f \<notin> pts d" using f(2) by (auto simp: pts_def)
    ultimately show ?thesis using same f(2) by blast
  qed
  obtain es where es: "carve_unused mb me (gaps Old, sort_key ?k (gaps Old)) =
      Some (fold remove1 es (gaps Old), fold erase_by_length es (sort_key ?k (gaps Old)))"
    "set es = {g \<in> set (gaps Old). in_carve mb me g}"
  proof -
    have "r_end g \<le> b \<or> b \<le> r_begin g" if "mb = Some b" "g \<in> set (gaps Old)" for b g
      using gap_bounds(1) [OF O that(2), of b] MB [OF that(1)] by auto
    moreover have "r_end g \<le> f \<or> f \<le> r_begin g" if "me = Some f" "g \<in> set (gaps Old)" for f g
      using gap_bounds(2) [OF O that(2), of f] ME [OF that(1)] by auto
    ultimately have "\<exists>es. carve_unused mb me (gaps Old, sort_key ?k (gaps Old)) =
        Some (fold remove1 es (gaps Old), fold erase_by_length es (sort_key ?k (gaps Old))) \<and>
        set es = {g \<in> set (gaps Old). in_carve mb me g}"
      using MB ME by (intro carve_unused_spec [OF separated_gaps [OF O]]) auto
    then show thesis using that by blast
  qed
  have out: "{r_begin g - 1..r_end g} \<inter> pts d = {}"
    if "\<not> in_carve mb me g" and R: "separated R" "g \<in> set (gaps R)" "covers R = covers N \<or> covers R = covers Old" for g R
  proof -
    from that(1) consider b where "mb = Some b" "r_begin g < b" | f where "me = Some f" "f < r_end g"
      by (auto simp: in_carve_def split: option.splits)
    then show ?thesis
    proof cases
      case 1
      then have "r_end g < r_begin d" using gap_bounds(1) [OF R(1,2), of b] MB [OF 1(1)] R(3) by auto
      then show ?thesis by (auto simp: pts_def)
    next
      case 2
      then have "r_end d < r_begin g" using gap_bounds(2) [OF R(1,2), of f] ME [OF 2(1)] R(3) by auto
      then show ?thesis by (auto simp: pts_def)
    qed
  qed
  have moved: "{g \<in> set (gaps Old). \<not> in_carve mb me g} = {g \<in> set (gaps N). \<not> in_carve mb me g}"
    using gap_outside [OF O N same _ out [OF _ O]] gap_outside [OF N O same [symmetric] _ out [OF _ N]]
    by blast
  define G where "G = gaps (slice rb re N)"
  have G: "set G = {g \<in> set (gaps N). in_carve mb me g}"
    unfolding G_def re_def gaps_slice [OF N rb(1) e(1)] in_carve_def mb_def me_def by auto
  have sepG: "separated G" unfolding G_def
    by (intro separated_gaps separated_slice N)
  note dG = separated_distinct [OF sepG]
  note go = separated_distinct [OF separated_gaps [OF O]] separated_sorted [OF separated_gaps [OF O]]
  note gn = separated_distinct [OF separated_gaps [OF N]] separated_sorted [OF separated_gaps [OF N]]
  note u1 = fold_remove1 [OF go, of es]
  have l1: "set (fold erase_by_length es (sort_key ?k (gaps Old))) = set (gaps Old) - set es"
    "distinct (fold erase_by_length es (sort_key ?k (gaps Old)))"
    "sorted (map ?k (fold erase_by_length es (sort_key ?k (gaps Old))))"
    using fold_erase_by_length [of "sort_key ?k (gaps Old)" es] go by auto
  have all: "set G \<union> (set (gaps Old) - set es) = set (gaps N)" "set G \<inter> (set (gaps Old) - set es) = {}"
    using G es(2) moved by blast+
  have "fold emplace G (fold remove1 es (gaps Old)) = gaps N"
    using u1 all gn dG by (intro sorted_distinct_set_eq fold_emplace_props(2) distinct_fold_emplace) auto
  moreover have "fold emplace_by_length G (fold erase_by_length es (sort_key ?k (gaps Old))) = sort_key ?k (gaps N)"
    using fold_emplace_by_length [OF l1(2,3) dG] l1(1) all gn(1) by (intro sort_by_length_eqI) auto
  moreover have "UpdateInteriorUnusedRanges d N (gaps Old, sort_key ?k (gaps Old)) =
      Some (fold emplace G (fold remove1 es (gaps Old)),
        fold emplace_by_length G (fold erase_by_length es (sort_key ?k (gaps Old))))"
    unfolding UpdateInteriorUnusedRanges_def it prod.case Let_def rb_eq mb_def [symmetric]
      me_def [symmetric] re_def [symmetric] gaps_def [symmetric] G_def [symmetric]
    using False rb(2) e(2) es(1) by simp
  ultimately show ?thesis by simp
qed

section \<open>The largest unused ranges and the goal\<close>

text \<open>The ranges left of the interval from \<open>lo\<close> to \<open>hi\<close> when the gaps \<open>L\<close> are cut out.\<close>

fun fill :: "nat \<Rightarrow> mrange list \<Rightarrow> nat \<Rightarrow> mrange list" where
  "fill lo [] hi = [BeginEnd lo hi]"
| "fill lo (g # L) hi = BeginEnd lo (r_begin g) # fill (r_end g) L hi"

lemma fill_not_Nil [simp]: "fill lo L hi \<noteq> []"
  by (cases L) auto

lemma length_fill [simp]: "length (fill lo L hi) = Suc (length L)"
  by (induction L arbitrary: lo) auto

lemma hd_fill_begin [simp]: "r_begin (hd (fill lo L hi)) = lo"
  by (cases L) auto

lemma fill_gaps_from:
  "fill (r_end g) L hi = gaps_from (Some (r_end g)) L @ [BeginEnd (r_end (last (g # L))) hi]"
  by (induction L arbitrary: g) auto

lemma fill_props:
  assumes "separated L" "\<forall>g\<in>set L. lo < r_begin g \<and> r_end g < hi" "lo < hi" "hi < W64"
  shows "separated (fill lo L hi) \<and> gaps (fill lo L hi) = L \<and> r_end (last (fill lo L hi)) = hi \<and>
    (\<forall>q\<in>set (fill lo L hi). lo \<le> r_begin q)"
  using assms
proof (induction L arbitrary: lo)
  case Nil
  then show ?case by (simp add: separated_Cons BeginEnd_good BeginEnd_end)
next
  case (Cons g L)
  have g: "good g" "r_begin g < r_end g" "lo < r_begin g" "r_end g < hi" "separated L"
    using Cons.prems(1,2) good_begin_less_end [of g] by (auto simp: separated_Cons)
  have IH: "separated (fill (r_end g) L hi)" "gaps (fill (r_end g) L hi) = L"
    "r_end (last (fill (r_end g) L hi)) = hi" "\<forall>q\<in>set (fill (r_end g) L hi). r_end g \<le> r_begin q"
    using Cons.IH [of "r_end g"] Cons.prems g by (auto simp: separated_Cons)
  let ?a = "BeginEnd lo (r_begin g)"
  have a: "good ?a" "r_end ?a = r_begin g" "r_begin ?a = lo"
    using g Cons.prems(4) by (simp_all add: BeginEnd_good BeginEnd_end)
  obtain b F where F: "fill (r_end g) L hi = b # F" by (cases "fill (r_end g) L hi") auto
  have b: "r_begin b = r_end g" using hd_fill_begin [of "r_end g" L hi] F by simp
  have "BeginEnd (r_begin g) (r_end g) = g"
    using g Cons.prems(4) by (intro good_eqI) (simp_all add: BeginEnd_good BeginEnd_end)
  then have "gaps (fill lo (g # L) hi) = g # L" using IH(2) a(2) b F by simp
  moreover have "separated (fill lo (g # L) hi)"
    using IH(1,4) a g(2) by (auto simp: separated_Cons)
  moreover have "r_end (last (fill lo (g # L) hi)) = hi" using IH(3) by simp
  ultimately show ?case using IH(4) g a(3) by auto
qed

definition largest_of :: "nat \<Rightarrow> mrange list \<Rightarrow> mrange list" where
  "largest_of n cs = BuildLargestInteriorUnusedRanges n (sort_key (\<lambda>r. by_length_key r) (gaps cs))"

definition goal_of :: "nat \<Rightarrow> mrange list \<Rightarrow> mrange list" where
  "goal_of n cs = (if cs = [] then [] else fill (r_begin (hd cs)) (largest_of n cs) (r_end (last cs)))"

lemma largest_of_props:
  assumes cs: "separated cs" and n: "1 \<le> n" "n < W64"
  shows "separated (largest_of n cs)" "set (largest_of n cs) \<subseteq> set (gaps cs)"
    "length (largest_of n cs) = min (n - 1) (length cs - 1)"
    and "g \<in> set (largest_of n cs) \<Longrightarrow> h \<in> set (gaps cs) \<Longrightarrow> h \<notin> set (largest_of n cs) \<Longrightarrow>
      r_length h \<le> r_length g"
proof -
  let ?k = "\<lambda>r. by_length_key r"
  define s where "s = sort_key ?k (gaps cs)"
  define m where "m = min (n - 1) (length s)"
  have L: "largest_of n cs = fold emplace (take m (rev s)) []"
    using n by (simp add: largest_of_def BuildLargestInteriorUnusedRanges_def s_def m_def u64_sub_id)
  have s: "set s = set (gaps cs)" "distinct s" "sorted (map ?k s)" "length s = length cs - 1"
    using separated_distinct [OF separated_gaps [OF cs]] by (simp_all add: s_def length_gaps)
  have st: "set (largest_of n cs) = set (take m (rev s))" unfolding L by simp
  show sub: "set (largest_of n cs) \<subseteq> set (gaps cs)"
    unfolding st using s(1) set_take_subset by fastforce
  have dist: "distinct (largest_of n cs)"
    unfolding L using s(2) by (intro distinct_fold_emplace) simp_all
  show "separated (largest_of n cs)"
    by (rule separated_subset [OF separated_gaps [OF cs] _ dist sub]) (simp add: L fold_emplace_props(2))
  have "length (largest_of n cs) = length (take m (rev s))"
    unfolding L by (metis fold_emplace_props(1) mset.simps(1) add_0_right size_mset)
  then show "length (largest_of n cs) = min (n - 1) (length cs - 1)" using s(4) by (simp add: m_def)
  show "r_length h \<le> r_length g" if g: "g \<in> set (largest_of n cs)" and h: "h \<in> set (gaps cs)" "h \<notin> set (largest_of n cs)"
  proof -
    have "rev s = take m (rev s) @ drop m (rev s)" by simp
    then have "s = rev (drop m (rev s)) @ rev (take m (rev s))" by (metis rev_append rev_rev_ident)
    moreover have "h \<in> set (drop m (rev s))"
      using h s(1) unfolding st by (metis Un_iff append_take_drop_id set_append set_rev)
    moreover obtain A B where "A = rev (drop m (rev s))" "B = rev (take m (rev s))" by blast
    ultimately have "s = A @ B" "h \<in> set A" "g \<in> set B" using g unfolding st by simp_all
    then have "?k h \<le> ?k g" using s(3) by (simp add: sorted_append)
    then show ?thesis by auto
  qed
qed

text \<open>The functions of the code build \<open>goal_of\<close>.\<close>

lemma separated_hull_bounds:
  assumes "separated cs" "cs \<noteq> []"
  shows "r_begin (hd cs) < r_end (last cs)" "r_end (last cs) < W64"
    "g \<in> set (gaps cs) \<Longrightarrow> r_begin (hd cs) < r_begin g \<and> r_end g < r_end (last cs)"
proof -
  have hl: "good (hd cs)" "good (last cs)" using assms separated_good by auto
  show "r_begin (hd cs) < r_end (last cs)"
    using separated_last_end [OF assms, of "hd cs"] good_begin_less_end [OF hl(1)] assms(2) by simp
  show "r_end (last cs) < W64" by (rule good_end_less [OF hl(2)])
  show "r_begin (hd cs) < r_begin g \<and> r_end g < r_end (last cs)" if "g \<in> set (gaps cs)"
  proof -
    note g = gap_offsets [OF assms(1) that]
    have "r_begin g - 1 \<in> hull cs" "r_end g \<in> hull cs" using g covers_hull [OF assms(1)] by auto
    then show ?thesis using g assms(2) by (auto simp: hull_def)
  qed
qed

lemma goal_of_fill:
  assumes "separated cs" "cs \<noteq> []" "1 \<le> n" "n < W64"
  shows "separated (goal_of n cs)" "gaps (goal_of n cs) = largest_of n cs" "hull (goal_of n cs) = hull cs"
    "length (goal_of n cs) = min n (length cs)"
proof -
  note L = largest_of_props [OF assms(1,3,4)]
  have "\<forall>g\<in>set (largest_of n cs). r_begin (hd cs) < r_begin g \<and> r_end g < r_end (last cs)"
    using separated_hull_bounds(3) [OF assms(1,2)] L(2) by blast
  note F = fill_props [OF L(1) this separated_hull_bounds(1,2) [OF assms(1,2)]]
  show "separated (goal_of n cs)" "gaps (goal_of n cs) = largest_of n cs" "hull (goal_of n cs) = hull cs"
    using F assms(2) by (auto simp: goal_of_def hull_def)
  show "length (goal_of n cs) = min n (length cs)"
    using L(3) assms(2,3) by (cases cs) (auto simp: goal_of_def)
qed

lemma BuildGoalRanges_eq:
  assumes cs: "separated cs" and n: "1 \<le> n" "n < W64" "2 \<le> n \<or> length cs \<le> 1"
  shows "BuildGoalRanges cs (largest_of n cs) = Some (goal_of n cs)"
proof (cases "length cs \<le> 1")
  case True
  then consider "cs = []" | c where "cs = [c]" by (cases cs rule: remdups_adj.cases) auto
  then show ?thesis
  proof cases
    case 2
    then have "largest_of n cs = []" using largest_of_props(3) [OF cs n(1,2)] by simp
    moreover have "BeginEnd (r_begin c) (r_end c) = c"
      using cs 2 good_end_less [of c] good_begin_less_end [of c]
      by (intro good_eqI) (simp_all add: separated_Cons BeginEnd_good BeginEnd_end)
    ultimately show ?thesis using 2 by (simp add: BuildGoalRanges_def goal_of_def emplace_def)
  qed (simp add: BuildGoalRanges_def goal_of_def)
next
  case False
  then have ne: "cs \<noteq> []" by auto
  define L where "L = largest_of n cs"
  have len: "length L = min (n - 1) (length cs - 1)"
    unfolding L_def by (rule largest_of_props(3) [OF cs n(1,2)])
  then obtain g L' where gL: "L = g # L'" using False n(3) by (cases L) auto
  define lo where "lo = r_begin (hd cs)"
  define hi where "hi = r_end (last cs)"
  have F: "goal_of n cs = fill lo L hi" using ne by (simp add: goal_of_def L_def lo_def hi_def)
  also have fe: "\<dots> = BeginEnd lo (r_begin (hd L)) # gaps_from None L @ [BeginEnd (r_end (last L)) hi]"
    unfolding gL by (simp add: fill_gaps_from)
  finally have G: "goal_of n cs =
    BeginEnd lo (r_begin (hd L)) # gaps_from None L @ [BeginEnd (r_end (last L)) hi]" .
  define Z where "Z = fold emplace (gaps_from None L @ [BeginEnd lo (r_begin (hd L)), BeginEnd (r_end (last L)) hi]) []"
  have "Z = goal_of n cs"
  proof -
    note s = goal_of_fill(1) [OF cs ne n(1,2)]
    have "mset Z = mset (goal_of n cs)" unfolding Z_def G fold_emplace_props(1) by simp
    moreover have "sorted Z" unfolding Z_def by (rule fold_emplace_props(2)) simp
    ultimately show ?thesis using separated_sorted [OF s] by (metis properties_for_sort sorted_sort_id)
  qed
  moreover have "BuildGoalRanges cs L = Some Z"
    using False gL unfolding BuildGoalRanges_def Z_def lo_def hi_def by (auto simp: Let_def)
  ultimately show ?thesis by (simp add: L_def)
qed

lemma fill_ends:
  assumes "q \<in> set (fill lo L hi)" "hi < W64" "lo < W64" "\<forall>g\<in>set L. good g"
  shows "(r_begin q = lo \<or> (\<exists>g\<in>set L. r_begin q = r_end g)) \<and> (r_end q = hi \<or> (\<exists>g\<in>set L. r_end q = r_begin g))"
  using assms
proof (induction L arbitrary: lo)
  case (Cons g L)
  have w: "r_end g < W64" "r_begin g < W64"
    using Cons.prems(4) good_end_less [of g] good_begin_less_end [of g] by auto
  consider "q = BeginEnd lo (r_begin g)" | "q \<in> set (fill (r_end g) L hi)" using Cons.prems(1) by auto
  then show ?case
  proof cases
    case 1
    then show ?thesis using w Cons.prems(3) by (simp add: BeginEnd_end)
  next
    case 2
    then show ?thesis using Cons.IH [OF 2 Cons.prems(2) w(1)] Cons.prems(4) by auto
  qed
qed (simp add: BeginEnd_end)

lemma goal_of_ends:
  assumes cs: "separated cs" and n: "1 \<le> n" "n < W64" and q: "q \<in> set (goal_of n cs)"
  shows "r_begin q \<in> covers cs \<and> r_end q - 1 \<in> covers cs"
proof -
  have ne: "cs \<noteq> []" using q by (auto simp: goal_of_def)
  note L = largest_of_props(2) [OF cs n]
  have w: "r_end (last cs) < W64" "r_begin (hd cs) < W64"
    using separated_hull_bounds(1,2) [OF cs ne] by auto
  have hl: "r_begin (hd cs) \<in> covers cs" "r_end (last cs) - 1 \<in> covers cs"
    using ne pts_subset_covers pts_nonempty pts_last separated_good [OF cs] by (meson hd_in_set last_in_set subsetD)+
  have "(r_begin q = r_begin (hd cs) \<or> (\<exists>g\<in>set (gaps cs). r_begin q = r_end g)) \<and>
      (r_end q = r_end (last cs) \<or> (\<exists>g\<in>set (gaps cs). r_end q = r_begin g))"
    using fill_ends [of q "r_begin (hd cs)" "largest_of n cs" "r_end (last cs)"] q ne w L gap_good [OF cs]
    by (auto simp: goal_of_def)
  then show ?thesis using hl gap_offsets [OF cs] by auto
qed

lemma goal_of_props:
  assumes cs: "separated cs" and n: "1 \<le> n" "n < W64"
  shows "separated (goal_of n cs)" "covers (goal_of n cs) = hull cs - covers (largest_of n cs)"
    "covers cs \<subseteq> covers (goal_of n cs)" "length (goal_of n cs) \<le> n"
    "length (goal_of n cs) < n \<Longrightarrow> goal_of n cs = cs"
    "q \<in> set (goal_of n cs) \<Longrightarrow> r_begin q \<in> covers cs \<and> r_end q - 1 \<in> covers cs"
proof -
  have s: "separated (goal_of n cs)"
    using goal_of_fill(1) [OF cs _ n] by (cases "cs = []") (simp_all add: goal_of_def)
  have g: "gaps (goal_of n cs) = largest_of n cs" "hull (goal_of n cs) = hull cs"
    using goal_of_fill(2,3) [OF cs _ n] largest_of_props(3) [OF cs n]
    by (cases "cs = []"; simp add: goal_of_def)+
  have l: "length (goal_of n cs) = min n (length cs)"
    using goal_of_fill(4) [OF cs _ n] by (cases "cs = []") (simp_all add: goal_of_def)
  show "separated (goal_of n cs)" "length (goal_of n cs) \<le> n" using s l by auto
  show c: "covers (goal_of n cs) = hull cs - covers (largest_of n cs)"
    using covers_gaps [OF s] covers_hull [OF s] unfolding g by blast
  have sub: "covers (largest_of n cs) \<subseteq> hull cs - covers cs"
    unfolding covers_gaps [OF cs, symmetric] by (rule covers_mono [OF largest_of_props(2) [OF cs n]])
  then show "covers cs \<subseteq> covers (goal_of n cs)" using c covers_hull [OF cs] by blast
  show "goal_of n cs = cs" if "length (goal_of n cs) < n"
  proof (rule separated_unique [OF s cs])
    have "card (set (gaps cs)) \<le> card (set (largest_of n cs))"
      using that l largest_of_props(3) [OF cs n] length_gaps [of cs] separated_distinct separated_gaps [OF cs]
        largest_of_props(1) [OF cs n] by (simp add: distinct_card)
    then have "set (largest_of n cs) = set (gaps cs)"
      using largest_of_props(2) [OF cs n] by (intro card_seteq) auto
    then have "covers (largest_of n cs) = hull cs - covers cs"
      using covers_gaps [OF cs] by (simp add: covers_def)
    then show "covers (goal_of n cs) = covers cs" using c covers_hull [OF cs] by blast
  qed
  show "r_begin q \<in> covers cs \<and> r_end q - 1 \<in> covers cs" if q: "q \<in> set (goal_of n cs)"
    using goal_of_ends [OF cs n q] .
qed

end
