(* ===== verification/Sysmem_Range_Optimal.thy ===== *)
theory Sysmem_Range_Optimal
  imports Sysmem_Range_Goal
begin

text \<open>
  What the goal ranges promise, as the contract of a goal builder: a bounded number of separated
  ranges over the required ones, every one of them delimited by required offsets, covering no more
  offsets than any other such choice. The client lemmas are the counting arguments behind
  \<open>StepTowardOptimalRangesInternal\<close> and \<open>FixupRangesDuringAdd\<close>: when a delete, a shorten, a split or
  a merge exists.
\<close>

section \<open>The goal covers as little as possible\<close>

lemma sum_top:
  fixes f :: "'a \<Rightarrow> nat"
  assumes "finite S" "T \<subseteq> S" "L \<subseteq> S" "card T \<le> card L"
    and top: "\<And>g h. g \<in> L \<Longrightarrow> h \<in> S \<Longrightarrow> h \<notin> L \<Longrightarrow> f h \<le> f g"
  shows "sum f T \<le> sum f L"
proof -
  have fin: "finite T" "finite L" using assms(1-3) finite_subset by auto
  have "sum f (T - L) \<le> sum f (L - T)"
  proof (cases "L - T = {}")
    case True
    then have "L = T" using fin assms(4) by (intro card_seteq) auto
    then show ?thesis by simp
  next
    case False
    define m where "m = Min (f ` (L - T))"
    have "f h \<le> m" if "h \<in> T - L" for h
      using that False fin top assms(2) unfolding m_def by (intro Min.boundedI) auto
    then have "sum f (T - L) \<le> card (T - L) * m" using sum_bounded_above [of "T - L" f m] by simp
    also have "card (T - L) \<le> card (L - T)"
      using fin assms(4) by (simp add: card_le_sym_Diff)
    then have "card (T - L) * m \<le> card (L - T) * m" by simp
    also have "\<dots> \<le> sum f (L - T)"
      using sum_bounded_below [of "L - T" m f] fin unfolding m_def by simp
    finally show ?thesis .
  qed
  moreover have "sum f T = sum f (T \<inter> L) + sum f (T - L)" "sum f L = sum f (T \<inter> L) + sum f (L - T)"
    using fin by (metis sum.Int_Diff, metis Int_commute sum.Int_Diff)
  ultimately show ?thesis by simp
qed

text \<open>
  The gaps of \<open>cs\<close> that a covering list \<open>X\<close> leaves open in part: two of them are in different gaps of
  \<open>X\<close>, since required offsets lie between them.
\<close>

lemma open_gaps_card:
  assumes cs: "separated cs" and X: "separated X" "covers cs \<subseteq> covers X"
  shows "card {g \<in> set (gaps cs). \<not> pts g \<subseteq> covers X} \<le> length X - 1"
proof -
  define T where "T = {g \<in> set (gaps cs). \<not> pts g \<subseteq> covers X}"
  have "\<forall>g\<in>T. \<exists>h x. h \<in> set (gaps X) \<and> x \<in> pts g \<and> x \<in> pts h"
  proof
    fix g assume "g \<in> T"
    then obtain x where x: "g \<in> set (gaps cs)" "x \<in> pts g" "x \<notin> covers X" by (auto simp: T_def)
    note g = gap_offsets [OF cs x(1)]
    have "r_begin g - 1 \<in> hull X" "r_end g \<in> hull X" using g X(2) covers_hull [OF X(1)] by blast+
    then have "x \<in> hull X" using x(2) by (auto simp: hull_def pts_def split: if_splits)
    then have "x \<in> covers (gaps X)" using x(3) by (simp add: covers_gaps [OF X(1)])
    then show "\<exists>h x. h \<in> set (gaps X) \<and> x \<in> pts g \<and> x \<in> pts h" using x(2) by (auto simp: covers_iff)
  qed
  then obtain h x where hx: "\<And>g. g \<in> T \<Longrightarrow> h g \<in> set (gaps X) \<and> x g \<in> pts g \<and> x g \<in> pts (h g)" by metis
  have "inj_on h T"
  proof (rule inj_onI)
    have no: False if "a \<in> T" "b \<in> T" "h a = h b" "r_end a < r_begin b" for a b
    proof -
      have "r_end a \<in> covers cs" using gap_offsets [OF cs, of a] that(1) by (auto simp: T_def)
      moreover have "r_end a \<in> pts (h a)"
        using hx [OF that(1)] hx [OF that(2)] that(3,4) by (auto simp: pts_def)
      ultimately show False using gap_offsets [OF X(1), of "h a"] hx [OF that(1)] X(2) by blast
    qed
    fix a b assume ab: "a \<in> T" "b \<in> T" "h a = h b"
    then show "a = b"
      using separated_two [OF separated_gaps [OF cs], of a b] no [OF ab] no [OF ab(2,1) ab(3) [symmetric]]
      by (auto simp: T_def)
  qed
  moreover have "h ` T \<subseteq> set (gaps X)" using hx by blast
  ultimately have "card T \<le> card (set (gaps X))" by (meson List.finite_set card_inj_on_le)
  also have "\<dots> \<le> length X - 1" using card_length [of "gaps X"] by (simp add: length_gaps)
  finally show ?thesis by (simp add: T_def)
qed

lemma goal_of_optimal:
  assumes cs: "separated cs" and n: "1 \<le> n" "n < W64"
    and X: "separated X" "covers cs \<subseteq> covers X" "length X \<le> n"
  shows "card (covers (goal_of n cs)) \<le> card (covers X)"
proof -
  define S where "S = set (gaps cs)"
  define L where "L = set (largest_of n cs)"
  define T where "T = {g \<in> S. \<not> pts g \<subseteq> covers X}"
  note P = largest_of_props [OF cs n]
  have sepg: "separated (gaps cs)" by (rule separated_gaps [OF cs])
  have "card T \<le> length X - 1" unfolding T_def S_def by (rule open_gaps_card [OF cs X(1,2)])
  moreover have "card T \<le> card S" unfolding T_def S_def by (intro card_mono) auto
  moreover have "card L = min (n - 1) (length cs - 1)" "card S = length cs - 1"
    using P(3) separated_distinct [OF P(1)] separated_distinct [OF sepg]
    by (simp_all add: L_def S_def distinct_card length_gaps)
  ultimately have "card T \<le> card L" using X(3) by linarith
  then have "sum r_length T \<le> sum r_length L"
    using P(2,4) unfolding L_def S_def T_def by (intro sum_top [of "set (gaps cs)"]) auto
  moreover have cl: "card (covers (largest_of n cs)) = sum r_length L"
    using card_covers [OF separated_nonoverlap [OF P(1)]] separated_distinct [OF P(1)]
    by (simp add: L_def sum_list_distinct_conv_sum_set)
  moreover have "hull cs - covers X \<subseteq> \<Union> (pts ` T)"
  proof
    fix x assume x: "x \<in> hull cs - covers X"
    then have "x \<in> covers (gaps cs)" using X(2) by (auto simp: covers_gaps [OF cs])
    then obtain g where "g \<in> S" "x \<in> pts g" by (auto simp: covers_iff S_def)
    then show "x \<in> \<Union> (pts ` T)" using x by (auto simp: T_def)
  qed
  then have "card (hull cs - covers X) \<le> sum r_length T"
  proof -
    assume *: "hull cs - covers X \<subseteq> \<Union> (pts ` T)"
    have f: "finite T" by (simp add: T_def S_def)
    have "card (hull cs - covers X) \<le> card (\<Union> (pts ` T))" using f by (intro card_mono * ) auto
    also have "\<dots> \<le> (\<Sum>g\<in>T. card (pts g))" by (rule card_UN_le [OF f])
    also have "\<dots> = sum r_length T"
      using separated_good [OF sepg] by (intro sum.cong) (auto simp: T_def S_def card_pts)
    finally show ?thesis .
  qed
  moreover have "card (covers (goal_of n cs)) = card (hull cs) - card (covers (largest_of n cs))"
  proof -
    have "covers (largest_of n cs) \<subseteq> hull cs"
      using covers_mono [OF P(2)] covers_gaps [OF cs] by blast
    then show ?thesis unfolding goal_of_props(2) [OF cs n] by (simp add: card_Diff_subset)
  qed
  moreover have "card (hull cs) - card (hull cs - covers X) \<le> card (covers X)"
  proof -
    have fh: "finite (hull cs)" by (simp add: hull_def)
    have "hull cs \<subseteq> (hull cs - covers X) \<union> covers X" by blast
    then have "card (hull cs) \<le> card ((hull cs - covers X) \<union> covers X)" using fh by (intro card_mono) auto
    also have "\<dots> \<le> card (hull cs - covers X) + card (covers X)" by (rule card_Un_le)
    finally show ?thesis by simp
  qed
  ultimately show ?thesis by linarith
qed

section \<open>Counting ranges against goal ranges\<close>

lemma adjacent_succ:
  assumes "separated R" "r \<in> set R" "q \<in> set R" "r_end r < r_begin q"
  shows "\<exists>s. adjacent R r s \<and> r_begin s \<le> r_begin q"
proof -
  obtain us vs where R: "R = us @ r # vs" using assms(2) by (auto simp: in_set_conv_decomp)
  have "r_begin r < r_end r" "r_begin q < r_end q"
    using separated_good [OF assms(1)] assms(2,3) good_begin_less_end by auto
  then have "q \<in> set vs"
    using assms(1,3,4) by (auto simp: R separated_append)
  then obtain s ws where vs: "vs = s # ws" by (cases vs) auto
  have "separated vs" using assms(1) by (simp add: R separated_append separated_Cons)
  then have "r_begin s \<le> r_begin q" using separated_hd_begin_le [of vs q] \<open>q \<in> set vs\<close> vs by simp
  then show ?thesis using R vs by (auto simp: adjacent_def)
qed

lemma no_merge_distinct:
  assumes R: "separated R" and no: "\<And>a b. \<not> merge_candidate R G a b"
    and r: "r \<in> set R" "q \<in> set R" and g: "g \<in> set G" "IsOverlap r g" "IsOverlap q g"
  shows "r = q"
proof -
  have no': False if o: "r \<in> set R" "q \<in> set R" "IsOverlap r g" "IsOverlap q g" "r_end r < r_begin q" for r q
  proof -
    obtain s where s: "adjacent R r s" "r_begin s \<le> r_begin q"
      using adjacent_succ [OF R o(1,2,5)] by blast
    have "IsCoveredBy (BeginEnd (r_end r) (r_begin s)) g"
      using gap_begin_end [OF R s(1) refl] s(2) o(3,4) by (auto simp: IsCoveredBy_def IsOverlap_iff)
    then show False using no s(1) g(1) by (auto simp: merge_candidate_def)
  qed
  show ?thesis
    using separated_two [OF R r] no' [OF r g(2,3)] no' [OF r(2,1) g(3,2)] by blast
qed

lemma no_merge_card:
  assumes R: "separated R" "separated G" and no: "\<And>a b. \<not> merge_candidate R G a b"
    and meets: "\<forall>r\<in>set R. \<exists>g\<in>set G. IsOverlap r g"
  shows "length R \<le> length G"
    and "r \<in> set R \<Longrightarrow> g1 \<in> set G \<Longrightarrow> g2 \<in> set G \<Longrightarrow> g1 \<noteq> g2 \<Longrightarrow> IsOverlap r g1 \<Longrightarrow> IsOverlap r g2 \<Longrightarrow>
      length R < length G"
proof -
  have len: "card (set R) = length R" "card (set G) = length G"
    using separated_distinct R by (auto simp: distinct_card)
  obtain f where f: "\<forall>r\<in>set R. f r \<in> set G \<and> IsOverlap r (f r)" using meets by metis
  have inj: "inj_on f (set R)"
    using no_merge_distinct [OF R(1) no] f by (metis inj_onI)
  have "f ` set R \<subseteq> set G" using f by blast
  then have "card (set R) \<le> card (set G)" by (rule card_inj_on_le [OF inj]) simp
  then show "length R \<le> length G" using len by simp
  assume r: "r \<in> set R" "g1 \<in> set G" "g2 \<in> set G" "g1 \<noteq> g2" "IsOverlap r g1" "IsOverlap r g2"
  define f' where "f' = f(r := g1)"
  have f': "\<forall>q\<in>set R. f' q \<in> set G \<and> IsOverlap q (f' q)" using f r by (auto simp: f'_def)
  have inj': "inj_on f' (set R)" using no_merge_distinct [OF R(1) no] f' by (metis inj_onI)
  have "f' q \<noteq> g2" if "q \<in> set R" for q
    using no_merge_distinct [OF R(1) no that r(1,3) _ r(6)] f' that r(4) by (auto simp: f'_def)
  then have "f' ` set R \<subseteq> set G - {g2}" using f' by blast
  then have "card (set R) \<le> card (set G - {g2})" by (rule card_inj_on_le [OF inj']) simp
  also have "\<dots> < card (set G)" using r(3) by (intro psubset_card_mono) auto
  finally show "length R < length G" using len by simp
qed

lemma FindBestMerge_finds:
  assumes "separated R" "separated G" "\<not> (\<forall>a b. \<not> merge_candidate R G a b)"
  shows "\<exists>a b. FindBestMerge R G = Some (Some (a, b)) \<and> merge_candidate R G a b"
  using FindBestMerge_best [OF assms(1,2)] assms(3) by (fastforce split: option.splits)

section \<open>The contract of a goal builder\<close>

locale goal_builder =
  fixes goal :: "nat \<Rightarrow> mrange list \<Rightarrow> mrange list"
  assumes goal_separated: "separated cs \<Longrightarrow> 1 \<le> n \<Longrightarrow> n < W64 \<Longrightarrow> separated (goal n cs)"
    and goal_covers: "separated cs \<Longrightarrow> 1 \<le> n \<Longrightarrow> n < W64 \<Longrightarrow> covers cs \<subseteq> covers (goal n cs)"
    and goal_bounded: "separated cs \<Longrightarrow> 1 \<le> n \<Longrightarrow> n < W64 \<Longrightarrow> length (goal n cs) \<le> n"
    and goal_exact: "separated cs \<Longrightarrow> 1 \<le> n \<Longrightarrow> n < W64 \<Longrightarrow> length (goal n cs) < n \<Longrightarrow> goal n cs = cs"
    and goal_delimited: "separated cs \<Longrightarrow> 1 \<le> n \<Longrightarrow> n < W64 \<Longrightarrow> q \<in> set (goal n cs) \<Longrightarrow>
      r_begin q \<in> covers cs \<and> r_end q - 1 \<in> covers cs"
begin

text \<open>With more ranges than the goal may have, each over a goal range, two of them can be merged.\<close>

lemma overfull_has_merge:
  assumes "separated cs" "1 \<le> n" "n < W64" "separated R" "n < length R"
    and "\<forall>r\<in>set R. \<exists>g\<in>set (goal n cs). IsOverlap r g"
  obtains a b where "FindBestMerge R (goal n cs) = Some (Some (a, b))" "merge_candidate R (goal n cs) a b"
proof -
  let ?G = "goal n cs"
  have G: "separated ?G" "length ?G \<le> n" using goal_separated goal_bounded assms(1-3) by auto
  have "\<not> (\<forall>a b. \<not> merge_candidate R ?G a b)"
    using no_merge_card(1) [OF assms(4) G(1) _ assms(6)] G(2) assms(5) by fastforce
  then show thesis using FindBestMerge_finds [OF assms(4) G(1)] that by blast
qed

text \<open>
  With as many ranges as allowed, each over a goal range, and one of them with a goal gap inside, two
  of them can be merged.
\<close>

lemma split_has_merge:
  assumes "separated cs" "1 \<le> n" "n < W64" "separated R" "length R = n"
    and meets: "\<forall>r\<in>set R. \<exists>g\<in>set (goal n cs). IsOverlap r g"
    and r: "r \<in> set R" "split_candidate (goal n cs) r h"
  obtains a b where "FindBestMerge R (goal n cs) = Some (Some (a, b))" "merge_candidate R (goal n cs) a b"
proof -
  let ?G = "goal n cs"
  have G: "separated ?G" "length ?G \<le> n" using goal_separated goal_bounded assms(1-3) by auto
  obtain a b where ab: "adjacent (filter (IsOverlap r) ?G) a b"
    using split_candidate_iff [OF G(1) separated_good [OF assms(4) r(1)]] r(2) by blast
  have sep: "separated (filter (IsOverlap r) ?G)" by (rule separated_filter [OF G(1)])
  have ne: "a \<noteq> b" using adjacent_separated(1,2) [OF sep ab] good_begin_less_end by fastforce
  have "length R < length ?G" if "\<And>a b. \<not> merge_candidate R ?G a b"
    using adjacent_set [OF ab] ne
    by (intro no_merge_card(2) [OF assms(4) G(1) that meets r(1), of a b]) auto
  then have "\<not> (\<forall>a b. \<not> merge_candidate R ?G a b)" using G(2) assms(5) by fastforce
  then show thesis using FindBestMerge_finds [OF assms(4) G(1)] that by blast
qed

text \<open>Ranges with nothing to delete, to shorten or to split are the goal ranges.\<close>

lemma stuck_is_goal:
  assumes cs: "separated cs" "1 \<le> n" "n < W64" and R: "separated R" "length R \<le> n" "covers cs \<subseteq> covers R"
    and d: "FindRangeToDelete R (goal n cs) = None" and s: "FindRangeToShorten R (goal n cs) = None"
    and p: "FindBestSplit R (goal n cs) = None"
  shows "R = goal n cs"
proof -
  let ?G = "goal n cs"
  have G: "separated ?G" "length ?G \<le> n" using goal_separated goal_bounded cs by auto
  have good: "\<forall>q\<in>set R. good q" using separated_good [OF R(1)] by blast
  have one: "\<exists>g\<in>set ?G. pts r \<subseteq> pts g \<and> (\<forall>h\<in>set ?G. IsOverlap r h \<longrightarrow> h = g)" if r: "r \<in> set R" for r
  proof -
    have gr: "good r" using good r by blast
    have "\<forall>g. \<not> split_candidate ?G r g" using FindBestSplit_best [of R ?G] p r by simp
    then have le: "length (filter (IsOverlap r) ?G) \<le> 1" by (rule no_split_candidate [OF G(1) gr])
    obtain g where g: "g \<in> set ?G" "IsOverlap r g"
      using FindRangeToDelete_None [OF d separated_monotone [OF G(1)] good] r by blast
    have only: "h = g" if "h \<in> set ?G" "IsOverlap r h" for h
    proof -
      have "h \<in> set (filter (IsOverlap r) ?G)" "g \<in> set (filter (IsOverlap r) ?G)" using that g by auto
      then show ?thesis using le by (cases "filter (IsOverlap r) ?G" rule: remdups_adj.cases) auto
    qed
    have ends: "r_begin r \<in> covers ?G" "r_end r - 1 \<in> covers ?G"
      using FindRangeToShorten_None [OF s G(1) good r g] by auto
    have into: "x \<in> pts g" if x: "x \<in> covers ?G" "x \<in> pts r" for x
    proof -
      obtain h where h: "h \<in> set ?G" "x \<in> pts h" using x(1) by (auto simp: covers_iff)
      then have "IsOverlap r h" using x(2) by (auto simp: IsOverlap_iff pts_def)
      then show ?thesis using only [OF h(1)] h(2) by simp
    qed
    have "pts r \<subseteq> pts g"
      using into [OF ends(1) pts_nonempty [OF gr]] into [OF ends(2) pts_last [OF gr]] by (auto simp: pts_def)
    then show ?thesis using g(1) only by blast
  qed
  have sub: "covers R \<subseteq> covers ?G" using one by (fastforce simp: covers_iff)
  have "covers ?G \<subseteq> covers R"
  proof (cases "length ?G < n")
    case True
    then show ?thesis using goal_exact [OF cs] R(3) by simp
  next
    case False
    then have len: "length ?G = n" using G(2) by simp
    obtain f where f: "\<forall>r\<in>set R. f r \<in> set ?G \<and> pts r \<subseteq> pts (f r) \<and> (\<forall>h\<in>set ?G. IsOverlap r h \<longrightarrow> h = f r)"
      using one by metis
    have hit: "\<exists>r\<in>set R. x \<in> pts r \<and> f r = g" if x: "g \<in> set ?G" "x \<in> pts g" "x \<in> covers cs" for g x
    proof -
      have "x \<in> covers R" using x(3) R(3) by blast
      then obtain r where r: "r \<in> set R" "x \<in> pts r" by (auto simp: covers_iff)
      then have "IsOverlap r g" using x(2) by (auto simp: IsOverlap_iff pts_def)
      then show ?thesis using r f x(1) by blast
    qed
    have ends: "r_begin g \<in> pts g \<and> r_begin g \<in> covers cs \<and> r_end g - 1 \<in> pts g \<and> r_end g - 1 \<in> covers cs"
      if "g \<in> set ?G" for g
      using goal_delimited [OF cs that] separated_good [OF G(1) that] pts_nonempty pts_last by blast
    have "set ?G \<subseteq> f ` set R" using hit ends by blast
    then have "card (set ?G) \<le> card (f ` set R)" by (intro card_mono) auto
    moreover have "card (set ?G) = n" "card (set R) \<le> n"
      using len R(2) separated_distinct [OF G(1)] card_length [of R] by (auto simp: distinct_card)
    ultimately have "card (f ` set R) = card (set R)" using card_image_le [of "set R" f] by simp
    then have inj: "inj_on f (set R)" by (intro eq_card_imp_inj_on) auto
    show ?thesis
    proof
      fix x assume "x \<in> covers ?G"
      then obtain g where g: "g \<in> set ?G" "x \<in> pts g" by (auto simp: covers_iff)
      note e = ends [OF g(1)]
      obtain r where r: "r \<in> set R" "r_begin g \<in> pts r" "f r = g" using hit [OF g(1)] e by blast
      obtain q where q: "q \<in> set R" "r_end g - 1 \<in> pts q" "f q = g" using hit [OF g(1)] e by blast
      have "r = q" using inj r q by (auto dest: inj_onD)
      then have "x \<in> pts r" using g(2) r(2) q(2) by (auto simp: pts_def)
      then show "x \<in> covers R" using r(1) by (auto simp: covers_iff)
    qed
  qed
  then show ?thesis using sub by (intro separated_unique [OF R(1) G(1)]) blast
qed

end

interpretation goal_ranges_of: goal_builder goal_of
proof
  fix cs :: "mrange list" and n q
  assume "separated cs" "1 \<le> n" "n < W64"
  note p = goal_of_props [OF this]
  show "separated (goal_of n cs)" "covers cs \<subseteq> covers (goal_of n cs)" "length (goal_of n cs) \<le> n"
    using p by auto
  show "length (goal_of n cs) < n \<Longrightarrow> goal_of n cs = cs"
    "q \<in> set (goal_of n cs) \<Longrightarrow> r_begin q \<in> covers cs \<and> r_end q - 1 \<in> covers cs"
    using p by auto
qed

end
