(* ===== verification/Sysmem_Range_Hw.thy ===== *)
theory Sysmem_Range_Hw
  imports Sysmem_Range_Optimal
begin

text \<open>
  The state of a \<open>ProtectedRanges\<close> object, the calls it makes on its \<open>ProtectedRangesControl\<close>, and the
  operations that change \<open>ranges_\<close> together with the hardware: \<open>DoOpAddRange\<close>, \<open>DoOpDelRange\<close>,
  \<open>DoOpShortenRange\<close>, \<open>DoOpMergeRanges\<close>, \<open>DoOpSplitRange\<close>, \<open>DoOpExtendRangeEnd\<close> and
  \<open>TryCoalesceAdjacentRangesAt\<close> on \<open>ranges_\<close>.

  The calls are logged in order. The contract of the interface (its comments in the header) is the
  predicate \<open>calls_ok\<close> over the log: the number of extant ranges, the uniqueness of a range, the
  offsets that must stay continuously protected, the balance of \<open>UseRange\<close> and \<open>UnUseRange\<close>. The lemmas
  show of each operation what it does to \<open>ranges_\<close> and that its calls keep the contract.
\<close>

section \<open>State and interface\<close>

datatype ctrl_call =
    UseRange_call mrange bool
  | UnUseRange mrange
  | AddProtectedRange mrange
  | DelProtectedRange mrange
  | ModProtectedRange mrange mrange
  | ZeroProtectedSubRange bool mrange

text \<open>
  The control object is not part of the component. Its queries are constants, and whether
  \<open>UseRange\<close> succeeds is a function of the calls made before and of the range. The rounding functions
  of \<open>fbl\<close> are parameters as well.
\<close>

record pr_control =
  IsDynamic :: bool
  MaxRangeCount :: nat
  GetRangeGranularity :: nat
  HasModProtectedRange :: bool
  GetBase :: nat
  GetSize :: nat
  UseRange :: "ctrl_call list \<Rightarrow> mrange \<Rightarrow> bool"
  round_down :: "nat \<Rightarrow> nat \<Rightarrow> nat"
  round_up :: "nat \<Rightarrow> nat \<Rightarrow> nat"

record pr_state =
  requested_ranges :: "mrange list"
  requested_bytes :: nat
  required_ranges :: "mrange list"
  coalesced_required_ranges :: "mrange list"
  interior_unused_ranges :: "mrange list"
  interior_unused_ranges_by_length :: "mrange list"
  largest_interior_unused_ranges :: "mrange list"
  goal_ranges :: "mrange list"
  ranges :: "mrange list"
  ranges_bytes :: nat
  is_dynamic :: bool
  max_range_count :: nat
  is_mod_available :: bool
  max_logical_range_count :: nat
  range_granularity :: nat
  calls :: "ctrl_call list"

definition emit :: "ctrl_call list \<Rightarrow> pr_state \<Rightarrow> pr_state" where
  "emit cs s = s\<lparr>calls := calls s @ cs\<rparr>"

section \<open>Operations on the hardware ranges\<close>

definition call_UseRange :: "pr_control \<Rightarrow> mrange \<Rightarrow> pr_state \<Rightarrow> bool \<times> pr_state" where
  "call_UseRange c r s =
     (let ok = UseRange c (calls s) r in (ok, emit [UseRange_call r ok] s))"

definition TryCoalesceRangesAt :: "nat \<Rightarrow> pr_state \<Rightarrow> pr_state option" where
  "TryCoalesceRangesAt location s = do {
     p \<leftarrow> coalesce_point (ranges s) location;
     Some (case p of
         None \<Rightarrow> s
       | Some second_block \<Rightarrow>
           (let first = ranges s ! (second_block - 1);
                second = ranges s ! second_block;
                new_range = BeginEnd (r_begin first) (r_end second);
                s1 = emit (if is_mod_available s
                           then [ModProtectedRange first new_range, DelProtectedRange second]
                           else [AddProtectedRange new_range, DelProtectedRange first,
                                 DelProtectedRange second]) s
            in s1\<lparr>ranges := coalesce_blocks (ranges s) second_block\<rparr>)) }"

definition DoOpAddRange :: "pr_control \<Rightarrow> mrange \<Rightarrow> pr_state \<Rightarrow> (bool \<times> pr_state) option" where
  "DoOpAddRange c new_range s =
     (case call_UseRange c new_range s of (ok, s1) \<Rightarrow>
        if \<not> ok then Some (False, s1)
        else do {
          let s2 = (emit [AddProtectedRange new_range] s1)
                \<lparr>ranges := emplace new_range (ranges s1),
                 ranges_bytes := u64_add (ranges_bytes s1) (r_length new_range)\<rparr>;
          s3 \<leftarrow> TryCoalesceRangesAt (r_begin new_range) s2;
          s4 \<leftarrow> TryCoalesceRangesAt (r_end new_range) s3;
          Some (True, s4) })"

definition DoOpDelRange :: "mrange \<Rightarrow> pr_state \<Rightarrow> pr_state option" where
  "DoOpDelRange old_range s = do {
     zx_assert (find_key old_range (ranges s) \<noteq> length (ranges s));
     Some (emit [DelProtectedRange old_range, UnUseRange old_range]
       (s\<lparr>ranges_bytes := u64_sub (ranges_bytes s) (r_length old_range),
          ranges := erase_key old_range (ranges s)\<rparr>)) }"

definition DoOpShortenRange :: "mrange \<Rightarrow> mrange \<Rightarrow> pr_state \<Rightarrow> pr_state option" where
  "DoOpShortenRange old_range new_range s = do {
     zx_assert (find_key old_range (ranges s) \<noteq> length (ranges s));
     zx_assert (\<not> r_empty old_range);
     zx_assert (\<not> r_empty new_range);
     zx_assert (r_begin old_range = r_begin new_range \<or> r_end old_range = r_end new_range);
     zx_assert (r_length new_range < r_length old_range);
     zx_assert (length (ranges s) \<le> max_logical_range_count s);
     zx_assert (u64_sub (max_range_count s) (max_logical_range_count s) \<ge>
       (if is_mod_available s then 1 else 2));
     let temp_range =
           (if r_begin old_range = r_begin new_range
            then BeginEnd (r_end new_range) (r_end old_range)
            else BeginEnd (r_begin old_range) (r_begin new_range))
     in Some (emit
       ([AddProtectedRange temp_range] @
        (if is_mod_available s then [ModProtectedRange old_range new_range]
         else [AddProtectedRange new_range, DelProtectedRange old_range]) @
        [DelProtectedRange temp_range, UnUseRange temp_range])
       (s\<lparr>ranges_bytes :=
            u64_add (u64_sub (ranges_bytes s) (r_length old_range)) (r_length new_range),
          ranges := emplace new_range (erase_key old_range (ranges s))\<rparr>)) }"

definition DoOpMergeRanges ::
  "pr_control \<Rightarrow> mrange \<Rightarrow> mrange \<Rightarrow> pr_state \<Rightarrow> (bool \<times> pr_state) option" where
  "DoOpMergeRanges c first_range second_range s = do {
     zx_assert (\<not> r_empty first_range);
     zx_assert (\<not> r_empty second_range);
     zx_assert (r_end first_range < r_begin second_range);
     zx_assert (u64_sub (max_range_count s) (max_logical_range_count s) \<ge>
       (if is_mod_available s then 0 else 1));
     case call_UseRange c (BeginEnd (r_end first_range) (r_begin second_range)) s of (ok, s1) \<Rightarrow>
       if \<not> ok then Some (False, s1)
       else
         let new_range = BeginEnd (r_begin first_range) (r_end second_range)
         in Some (True, emit
           (if is_mod_available s1
            then [ModProtectedRange first_range new_range, DelProtectedRange second_range]
            else [AddProtectedRange new_range, DelProtectedRange first_range,
                  DelProtectedRange second_range])
           (s1\<lparr>ranges_bytes :=
                 u64_add (u64_sub (u64_sub (ranges_bytes s1) (r_length first_range))
                   (r_length second_range)) (r_length new_range),
               ranges := emplace new_range
                 (erase_key second_range (erase_key first_range (ranges s1)))\<rparr>)) }"

definition DoOpSplitRange :: "mrange \<Rightarrow> mrange \<Rightarrow> pr_state \<Rightarrow> pr_state option" where
  "DoOpSplitRange range_to_split new_gap_to_stop_using s = do {
     zx_assert (\<not> r_empty range_to_split);
     zx_assert (\<not> r_empty new_gap_to_stop_using);
     zx_assert (r_begin range_to_split < r_begin new_gap_to_stop_using);
     zx_assert (r_end new_gap_to_stop_using < r_end range_to_split);
     zx_assert (length (ranges s) \<le> u64_sub (max_logical_range_count s) 1);
     zx_assert (u64_sub (max_range_count s) (max_logical_range_count s) \<ge>
       (if is_mod_available s then 1 else 2));
     let new_left_range = BeginEnd (r_begin range_to_split) (r_begin new_gap_to_stop_using);
         new_right_range = BeginEnd (r_end new_gap_to_stop_using) (r_end range_to_split)
     in Some (emit
       ([AddProtectedRange new_left_range, AddProtectedRange new_gap_to_stop_using] @
        (if is_mod_available s then [ModProtectedRange range_to_split new_right_range]
         else [AddProtectedRange new_right_range, DelProtectedRange range_to_split]) @
        [DelProtectedRange new_gap_to_stop_using, UnUseRange new_gap_to_stop_using])
       (s\<lparr>ranges_bytes :=
            u64_add (u64_add (u64_sub (ranges_bytes s) (r_length range_to_split))
              (r_length new_left_range)) (r_length new_right_range),
          ranges := emplace new_right_range
            (emplace new_left_range (erase_key range_to_split (ranges s)))\<rparr>)) }"

definition DoOpExtendRangeEnd ::
  "pr_control \<Rightarrow> mrange \<Rightarrow> mrange \<Rightarrow> pr_state \<Rightarrow> (bool \<times> pr_state) option" where
  "DoOpExtendRangeEnd c old_range new_range s = do {
     zx_assert (r_begin old_range = r_begin new_range);
     zx_assert (r_end new_range > r_end old_range);
     case call_UseRange c (BeginEnd (r_end old_range) (r_end new_range)) s of (ok, s1) \<Rightarrow>
       if \<not> ok then Some (False, s1)
       else do {
         let s2 = (emit [AddProtectedRange new_range, DelProtectedRange old_range] s1)
               \<lparr>ranges_bytes :=
                  u64_add (u64_sub (ranges_bytes s1) (r_length old_range)) (r_length new_range),
                ranges := emplace new_range (erase_key old_range (ranges s1))\<rparr>;
         s3 \<leftarrow> TryCoalesceRangesAt (r_end new_range) s2;
         Some (True, s3) } }"

section \<open>The contract of the interface\<close>

text \<open>
  The hardware as the calls leave it: the extant protected ranges and the offsets in use.
\<close>

type_synonym hw = "mrange multiset \<times> nat set"

definition mcovers :: "mrange multiset \<Rightarrow> nat set" where
  "mcovers P = \<Union> (pts ` set_mset P)"

fun hw_step :: "ctrl_call \<Rightarrow> hw \<Rightarrow> hw" where
  "hw_step (UseRange_call r ok) (P, U) = (P, if ok then U \<union> pts r else U)"
| "hw_step (UnUseRange r) (P, U) = (P, U - pts r)"
| "hw_step (AddProtectedRange r) (P, U) = (add_mset r P, U)"
| "hw_step (DelProtectedRange r) (P, U) = (P - {#r#}, U)"
| "hw_step (ModProtectedRange a b) (P, U) = (add_mset b (P - {#a#}), U)"
| "hw_step (ZeroProtectedSubRange e r) (P, U) = (P, U)"

text \<open>
  When a call is allowed, with at most \<open>n\<close> extant ranges, \<open>ModProtectedRange\<close> available or not, and the
  offsets \<open>K\<close> that must not be disrupted: a range is unique among the extant ones and over offsets in
  use; offsets leave a range only if the other ranges cover all of them or the range has no offset of
  \<open>K\<close>; a modification moves one end; \<open>UseRange\<close> is for offsets not in use, \<open>UnUseRange\<close> for offsets in use
  under no range; a zeroed range lies in exactly one extant range.
\<close>

fun call_ok :: "nat \<Rightarrow> bool \<Rightarrow> nat set \<Rightarrow> ctrl_call \<Rightarrow> hw \<Rightarrow> bool" where
  "call_ok n md K (UseRange_call r ok) (P, U) \<longleftrightarrow> good r \<and> pts r \<inter> U = {}"
| "call_ok n md K (UnUseRange r) (P, U) \<longleftrightarrow> good r \<and> pts r \<subseteq> U \<and> pts r \<inter> mcovers P = {}"
| "call_ok n md K (AddProtectedRange r) (P, U) \<longleftrightarrow> good r \<and> r \<notin># P \<and> size P < n \<and> pts r \<subseteq> U"
| "call_ok n md K (DelProtectedRange r) (P, U) \<longleftrightarrow>
     r \<in># P \<and> (pts r \<subseteq> mcovers (P - {#r#}) \<or> pts r \<inter> K = {})"
| "call_ok n md K (ModProtectedRange a b) (P, U) \<longleftrightarrow>
     md \<and> a \<in># P \<and> good b \<and> b \<notin># P \<and> pts b \<subseteq> U \<and> (r_begin a = r_begin b \<or> r_end a = r_end b) \<and>
     (pts a - pts b \<subseteq> mcovers (P - {#a#}) \<or> pts a \<inter> K = {})"
| "call_ok n md K (ZeroProtectedSubRange e r) (P, U) \<longleftrightarrow>
     (\<exists>p. filter_mset (\<lambda>q. pts q \<inter> pts r \<noteq> {}) P = {#p#} \<and> pts r \<subseteq> pts p)"

fun calls_ok :: "nat \<Rightarrow> bool \<Rightarrow> nat set \<Rightarrow> ctrl_call list \<Rightarrow> hw \<Rightarrow> bool" where
  "calls_ok n md K [] h = True"
| "calls_ok n md K (c # cs) h \<longleftrightarrow> call_ok n md K c h \<and> calls_ok n md K cs (hw_step c h)"

definition hw_of :: "pr_state \<Rightarrow> hw" where
  "hw_of s = (mset (ranges s), covers (ranges s))"

definition emits :: "nat set \<Rightarrow> pr_state \<Rightarrow> pr_state \<Rightarrow> bool" where
  "emits K s s' \<longleftrightarrow> (\<exists>cs. calls s' = calls s @ cs \<and>
     calls_ok (max_range_count s) (is_mod_available s) K cs (hw_of s) \<and>
     fold hw_step cs (hw_of s) = hw_of s')"

lemma calls_ok_append [simp]:
  "calls_ok n md K (xs @ ys) h \<longleftrightarrow> calls_ok n md K xs h \<and> calls_ok n md K ys (fold hw_step xs h)"
  by (induction xs arbitrary: h) auto

lemma call_ok_mono: "call_ok n md K c h \<Longrightarrow> K' \<subseteq> K \<Longrightarrow> call_ok n md K' c h"
  by (cases c; cases h) auto

lemma calls_ok_mono: "calls_ok n md K cs h \<Longrightarrow> K' \<subseteq> K \<Longrightarrow> calls_ok n md K' cs h"
  by (induction cs arbitrary: h) (auto intro: call_ok_mono)

lemma emits_mono: "emits K s s' \<Longrightarrow> K' \<subseteq> K \<Longrightarrow> emits K' s s'"
  unfolding emits_def using calls_ok_mono by blast

lemma emits_trans:
  assumes "emits K s s'" "emits K s' s''" "max_range_count s' = max_range_count s"
    "is_mod_available s' = is_mod_available s"
  shows "emits K s s''"
  using assms unfolding emits_def by (fastforce simp: append_assoc)

section \<open>Hardware ranges and bytes\<close>

definition total_bytes :: "mrange list \<Rightarrow> nat" where
  "total_bytes rs = sum_list (map r_length rs)"

text \<open>What an operation leaves alone, and what it keeps of the hardware ranges.\<close>

definition hw_frame :: "pr_state \<Rightarrow> pr_state \<Rightarrow> bool" where
  "hw_frame s s' \<longleftrightarrow>
     s' = s\<lparr>ranges := ranges s', ranges_bytes := ranges_bytes s', calls := calls s'\<rparr>"

definition hw_inv :: "pr_state \<Rightarrow> bool" where
  "hw_inv s \<longleftrightarrow> separated (ranges s) \<and> ranges_bytes s = total_bytes (ranges s)"

lemma hw_frame_refl [simp]: "hw_frame s s"
  by (simp add: hw_frame_def)

lemma hw_frame_trans: "hw_frame s s' \<Longrightarrow> hw_frame s' s'' \<Longrightarrow> hw_frame s s''"
  unfolding hw_frame_def by (cases s; cases s'; cases s'') simp

lemma hw_frame_fields:
  assumes "hw_frame s s'"
  shows "requested_ranges s' = requested_ranges s" "requested_bytes s' = requested_bytes s"
    "required_ranges s' = required_ranges s" "coalesced_required_ranges s' = coalesced_required_ranges s"
    "interior_unused_ranges s' = interior_unused_ranges s"
    "interior_unused_ranges_by_length s' = interior_unused_ranges_by_length s"
    "largest_interior_unused_ranges s' = largest_interior_unused_ranges s" "goal_ranges s' = goal_ranges s"
    "is_dynamic s' = is_dynamic s" "max_range_count s' = max_range_count s"
    "is_mod_available s' = is_mod_available s" "max_logical_range_count s' = max_logical_range_count s"
    "range_granularity s' = range_granularity s"
  using assms unfolding hw_frame_def by (cases s; cases s'; simp)+

lemma total_nonoverlap:
  assumes "nonoverlap rs"
  shows "total_bytes rs = card (covers rs)" "total_bytes rs < W64"
proof -
  show t: "total_bytes rs = card (covers rs)" using card_covers [OF assms] by (simp add: total_bytes_def)
  have "covers rs \<subseteq> {..<W64 - 1}"
  proof
    fix x assume "x \<in> covers rs"
    then obtain r where "r \<in> set rs" "x < r_end r" by (auto simp: covers_iff pts_def)
    then show "x \<in> {..<W64 - 1}"
      using good_end_less [OF nonoverlap_good [OF assms]] by fastforce
  qed
  then have "card (covers rs) \<le> card {..<W64 - 1}" by (intro card_mono) auto
  then have "card (covers rs) \<le> W64 - 1" by simp
  then show "total_bytes rs < W64" unfolding t using W64_gt(1) by linarith
qed

lemma total_mset: "mset xs = mset ys \<Longrightarrow> total_bytes xs = total_bytes ys"
  unfolding total_bytes_def by (metis mset_map sum_mset_sum_list)

lemma total_emplace: "total_bytes (emplace x xs) = r_length x + total_bytes xs"
proof -
  have "total_bytes (emplace x xs) = total_bytes (x # xs)" by (rule total_mset) (simp add: ranges_ms.mset_ins)
  then show ?thesis by (simp add: total_bytes_def)
qed

lemma mset_erase_key: "distinct xs \<Longrightarrow> mset (erase_key x xs) = mset xs - {#x#}"
proof -
  assume "distinct xs"
  have "erase_key x xs = removeAll x xs" unfolding erase_key_def by (induction xs) auto
  then show ?thesis using \<open>distinct xs\<close> by (metis distinct_remove1_removeAll mset_remove1)
qed

lemma total_erase:
  assumes "distinct xs" "x \<in> set xs"
  shows "total_bytes (erase_key x xs) + r_length x = total_bytes xs"
proof -
  have "mset (x # erase_key x xs) = mset xs" using assms by (simp add: mset_erase_key)
  then have "total_bytes (x # erase_key x xs) = total_bytes xs" by (rule total_mset)
  then show ?thesis by (simp add: total_bytes_def)
qed

lemma find_key_iff:
  assumes "sorted rs"
  shows "find_key k rs \<noteq> length rs \<longleftrightarrow> k \<in> set rs"
proof
  assume "k \<in> set rs"
  then obtain j where j: "j < length rs" "rs ! j = k" by (auto simp: in_set_conv_nth)
  define i where "i = lower_bound k rs"
  have "i \<le> j" using ranges_ms.lower_before [OF assms, of j k] j unfolding i_def by force
  then have "rs ! i \<le> k" using assms j by (metis sorted_nth_mono)
  moreover have "k \<le> rs ! i" using ranges_ms.lower_after [OF assms, of k i] \<open>i \<le> j\<close> j unfolding i_def by simp
  ultimately show "find_key k rs \<noteq> length rs"
    using \<open>i \<le> j\<close> j by (simp add: find_key_def Let_def i_def [symmetric])
qed (auto simp: find_key_def Let_def in_set_conv_nth split: if_splits)

lemma mcovers_add [simp]: "mcovers (add_mset r P) = pts r \<union> mcovers P"
  by (simp add: mcovers_def)

lemma mcovers_mset [simp]: "mcovers (mset rs) = covers rs"
  by (simp add: mcovers_def covers_def)

lemma mcovers_in: "r \<in># P \<Longrightarrow> pts r \<subseteq> mcovers P"
  by (auto simp: mcovers_def)

lemma erase_key_covers:
  assumes "nonoverlap R" "r \<in> set R"
  shows "covers (erase_key r R) = covers R - pts r"
proof -
  have "covers R = covers (erase_key r R) \<union> pts r"
    using assms(2) by (auto simp: covers_def ranges_ms.set_del)
  moreover have "covers (erase_key r R) \<inter> pts r = {}"
    using nonoverlap_disjoint_pts [OF assms(1) _ assms(2)] by (auto simp: covers_def ranges_ms.set_del)
  ultimately show ?thesis by blast
qed

text \<open>A proper part of a range is not one of the ranges.\<close>

lemma not_in_ranges:
  assumes "nonoverlap R" "r \<in> set R" "good t" "pts t \<subseteq> pts r" "t \<noteq> r"
  shows "t \<notin> set R"
  using nonoverlap_disjoint_pts [OF assms(1) _ assms(2), of t] assms(4,5) pts_nonempty [OF assms(3)] by blast

section \<open>Delete, shorten and split\<close>

lemma total_fold_emplace: "total_bytes X \<le> total_bytes (fold emplace ps X)"
  by (induction ps arbitrary: X) (simp_all, metis add_leE total_emplace)

lemma u64_bytes_replace:
  assumes "distinct R" "r \<in> set R" "total_bytes R < W64" "total_bytes (fold emplace ps (erase_key r R)) < W64"
  shows "fold (\<lambda>p b. u64_add b (r_length p)) ps (u64_sub (total_bytes R) (r_length r)) =
    total_bytes (fold emplace ps (erase_key r R))"
proof -
  have "fold (\<lambda>p b. u64_add b (r_length p)) ps (total_bytes X) = total_bytes (fold emplace ps X)"
    if "total_bytes (fold emplace ps X) < W64" for X
    using that
  proof (induction ps arbitrary: X)
    case (Cons p ps)
    have "u64_add (total_bytes X) (r_length p) = total_bytes (emplace p X)"
      using Cons.prems total_fold_emplace [of "emplace p X" ps] by (simp add: total_emplace u64_add_id)
    then show ?case using Cons by simp
  qed simp
  moreover have "u64_sub (total_bytes R) (r_length r) = total_bytes (erase_key r R)"
    using total_erase [OF assms(1,2)] assms(3) by (simp add: u64_sub_id)
  ultimately show ?thesis using assms(4) by simp
qed

text \<open>
  Replacing a hardware range by separated pieces of it: the ranges stay separated, and exactly the
  offsets of no piece are given up.
\<close>

lemma replace_range:
  assumes R: "separated R" "r \<in> set R" and ps: "separated ps" "covers ps \<subseteq> pts r"
  defines "Z \<equiv> fold emplace ps (erase_key r R)"
  shows "separated Z" "covers Z = covers R - (pts r - covers ps)" "set Z = (set R - {r}) \<union> set ps"
    "mset Z = mset ps + (mset R - {#r#})"
    "fold (\<lambda>p b. u64_add b (r_length p)) ps (u64_sub (total_bytes R) (r_length r)) = total_bytes Z"
proof -
  note n = separated_nonoverlap [OF R(1)]
  show st: "set Z = (set R - {r}) \<union> set ps" by (auto simp: Z_def ranges_ms.set_del)
  have "set ps \<inter> (set R - {r}) = {}"
  proof -
    have "p \<notin> set R - {r}" if p: "p \<in> set ps" for p
    proof
      assume "p \<in> set R - {r}"
      moreover have "pts p \<subseteq> pts r" using pts_subset_covers [OF p] ps(2) by blast
      ultimately show False
        using nonoverlap_disjoint_pts [OF n _ R(2), of p] pts_nonempty separated_good [OF ps(1) p] by blast
    qed
    then show ?thesis by blast
  qed
  then have "distinct Z" unfolding Z_def
    using separated_distinct [OF ps(1)] separated_distinct [OF R(1)]
    by (intro distinct_fold_emplace distinct_erase_key) (auto simp: ranges_ms.set_del)
  moreover have "sorted Z" unfolding Z_def
    by (intro fold_emplace_props(2) ranges_ms.sorted_del separated_sorted R(1))
  ultimately show sz: "separated Z" using st by (intro separated_replace [OF R ps])
  have "covers Z = covers (erase_key r R) \<union> covers ps" by (auto simp: covers_def st ranges_ms.set_del)
  then show "covers Z = covers R - (pts r - covers ps)"
    using erase_key_covers [OF n R(2)] ps(2) pts_subset_covers [OF R(2)] by blast
  show "mset Z = mset ps + (mset R - {#r#})"
    unfolding Z_def using separated_distinct [OF R(1)] by (simp add: fold_emplace_props(1) mset_erase_key)
  show "fold (\<lambda>p b. u64_add b (r_length p)) ps (u64_sub (total_bytes R) (r_length r)) = total_bytes Z"
    unfolding Z_def using R(2) separated_distinct [OF R(1)] total_nonoverlap(2) [OF n]
      total_nonoverlap(2) [OF separated_nonoverlap [OF sz]] unfolding Z_def
    by (intro u64_bytes_replace)
qed

lemma DoOpDelRange_spec:
  assumes inv: "hw_inv s" and r: "r \<in> set (ranges s)" "pts r \<inter> K = {}"
  shows "\<exists>s'. DoOpDelRange r s = Some s' \<and> hw_frame s s' \<and> hw_inv s' \<and> emits K s s' \<and>
    ranges s' = erase_key r (ranges s) \<and> covers (ranges s') = covers (ranges s) - pts r"
proof -
  have R: "separated (ranges s)" "ranges_bytes s = total_bytes (ranges s)" using inv by (auto simp: hw_inv_def)
  have "covers [] \<subseteq> pts r" by simp
  note Z = replace_range [OF R(1) r(1) _ this, simplified]
  have f: "find_key r (ranges s) \<noteq> length (ranges s)"
    using find_key_iff [OF separated_sorted [OF R(1)]] r(1) by simp
  have c: "covers (erase_key r (ranges s)) = covers (ranges s) - pts r"
    by (rule erase_key_covers [OF separated_nonoverlap [OF R(1)] r(1)])
  define s' where "s' = emit [DelProtectedRange r, UnUseRange r]
    (s\<lparr>ranges_bytes := u64_sub (ranges_bytes s) (r_length r), ranges := erase_key r (ranges s)\<rparr>)"
  have op: "DoOpDelRange r s = Some s'" using f by (simp add: DoOpDelRange_def s'_def)
  have m: "mset (erase_key r (ranges s)) = mset (ranges s) - {#r#}"
    by (rule mset_erase_key [OF separated_distinct [OF R(1)]])
  have mc: "mcovers (mset (ranges s) - {#r#}) = covers (ranges s) - pts r"
    unfolding m [symmetric] c [symmetric] by simp
  have "emits K s s'"
    unfolding emits_def
    by (rule exI [of _ "[DelProtectedRange r, UnUseRange r]"])
      (use r m mc c separated_good [OF R(1) r(1)] pts_subset_covers [OF r(1)] in
        \<open>auto simp: s'_def emit_def hw_of_def\<close>)
  moreover have "hw_frame s s'" by (simp add: hw_frame_def s'_def emit_def)
  moreover have "hw_inv s'" using Z R by (simp add: hw_inv_def s'_def emit_def separated_def)
  ultimately show ?thesis using op c by (simp add: s'_def emit_def)
qed

text \<open>
  The calls that give up a part of a range: the part gets a range of its own first, so that the
  shortening uncovers nothing, and only then goes away.
\<close>

lemma drop_calls_ok:
  assumes "old \<in># P" "good dr" "good tgt" "dr \<notin># P" "tgt \<notin># P" "tgt \<noteq> dr"
    and n: "size P + (if md then 1 else 2) \<le> n" and U: "pts old \<subseteq> U"
    and p: "pts dr \<subseteq> pts old" "pts tgt \<subseteq> pts old" "pts old - pts tgt \<subseteq> pts dr \<union> mcovers (P - {#old#})"
    and e: "r_begin old = r_begin tgt \<or> r_end old = r_end tgt"
    and K: "pts dr \<inter> K = {}" and d: "pts dr \<inter> (pts tgt \<union> mcovers (P - {#old#})) = {}"
  defines "cs \<equiv> [AddProtectedRange dr] @
    (if md then [ModProtectedRange old tgt] else [AddProtectedRange tgt, DelProtectedRange old]) @
    [DelProtectedRange dr, UnUseRange dr]"
  shows "calls_ok n md K cs (P, U)" "fold hw_step cs (P, U) = (add_mset tgt (P - {#old#}), U - pts dr)"
proof -
  have ne: "old \<noteq> dr" "old \<noteq> tgt" using assms(1,4,5) by auto
  have a: "add_mset dr P - {#old#} = add_mset dr (P - {#old#})" using assms(1) by simp
  have b: "add_mset tgt (add_mset dr P) - {#old#} = add_mset tgt (add_mset dr (P - {#old#}))"
    using assms(1) by (simp add: a)
  have c: "add_mset tgt (add_mset dr (P - {#old#})) - {#dr#} = add_mset tgt (P - {#old#})"
    using assms(6) by simp
  have sub: "pts dr \<subseteq> U" "pts tgt \<subseteq> U" using p U by auto
  have old: "pts old \<subseteq> pts tgt \<union> (pts dr \<union> mcovers (P - {#old#}))" using p(3) by blast
  show "calls_ok n md K cs (P, U)"
    unfolding cs_def using assms(1-6) n sub ne e K d p(3) old a b c by (cases md) auto
  show "fold hw_step cs (P, U) = (add_mset tgt (P - {#old#}), U - pts dr)"
    unfolding cs_def using a b c by (cases md) auto
qed

lemma DoOpShortenRange_spec:
  assumes inv: "hw_inv s" and r: "r \<in> set (ranges s)" "shortens r t" "(pts r - pts t) \<inter> K = {}"
    and n: "length (ranges s) \<le> max_logical_range_count s" "max_range_count s < W64"
      "max_range_count s = max_logical_range_count s + (if is_mod_available s then 1 else 2)"
  shows "\<exists>s'. DoOpShortenRange r t s = Some s' \<and> hw_frame s s' \<and> hw_inv s' \<and> emits K s s' \<and>
    ranges s' = emplace t (erase_key r (ranges s)) \<and> covers (ranges s') = covers (ranges s) - (pts r - pts t)"
proof -
  have R: "separated (ranges s)" "ranges_bytes s = total_bytes (ranges s)" using inv by (auto simp: hw_inv_def)
  note no = separated_nonoverlap [OF R(1)]
  have t: "good t" "r_length t < r_length r" "pts t \<subseteq> pts r" "r_begin t = r_begin r \<or> r_end t = r_end r"
    using r(2) by (auto simp: shortens_def)
  have gr: "good r" by (rule separated_good [OF R(1) r(1)])
  define d where "d = (if r_begin r = r_begin t then BeginEnd (r_end t) (r_end r) else BeginEnd (r_begin r) (r_begin t))"
  have bounds: "r_begin r \<le> r_begin t" "r_begin t < r_end t" "r_end t \<le> r_end r" "r_end r < W64"
    using t IsCoveredBy_pts [OF t(1), of r] good_begin_less_end [OF t(1)] good_end_less [OF gr]
    by (auto simp: IsCoveredBy_def)
  have lens: "r_end r = r_begin r + r_length r" "r_end t = r_begin t + r_length t"
    using good_end gr t(1) by auto
  have d: "good d" "pts d = pts r - pts t" "d \<noteq> t" "d \<noteq> r"
  proof -
    have "good d \<and> pts d = pts r - pts t"
    proof (cases "r_begin r = r_begin t")
      case True
      then have "r_end t < r_end r" using t(2) lens by simp
      then have "good (BeginEnd (r_end t) (r_end r))" "pts (BeginEnd (r_end t) (r_end r)) = {r_end t..<r_end r}"
        using bounds by (simp_all add: BeginEnd_good pts_BeginEnd)
      moreover have "{r_end t..<r_end r} = pts r - pts t" unfolding pts_def True using bounds by auto
      ultimately show ?thesis using True by (simp add: d_def)
    next
      case False
      then have lt: "r_begin r < r_begin t" "r_end t = r_end r" using bounds t(4) by auto
      then have "good (BeginEnd (r_begin r) (r_begin t))" "pts (BeginEnd (r_begin r) (r_begin t)) = {r_begin r..<r_begin t}"
        using bounds by (simp_all add: BeginEnd_good pts_BeginEnd)
      moreover have "{r_begin r..<r_begin t} = pts r - pts t" unfolding pts_def lt(2) using lt(1) bounds by auto
      ultimately show ?thesis using False by (simp add: d_def)
    qed
    then show "good d" "pts d = pts r - pts t" by auto
    then show "d \<noteq> t" "d \<noteq> r" using pts_nonempty [OF t(1)] t(3) by auto
  qed
  have pr: "separated [t]" "covers [t] \<subseteq> pts r" using t by (auto simp: separated_def)
  note Z = replace_range [OF R(1) r(1) pr, simplified]
  define cs where "cs = [AddProtectedRange d] @
    (if is_mod_available s then [ModProtectedRange r t] else [AddProtectedRange t, DelProtectedRange r]) @
    [DelProtectedRange d, UnUseRange d]"
  define s' where "s' = emit cs (s\<lparr>ranges_bytes := u64_add (u64_sub (ranges_bytes s) (r_length r)) (r_length t),
    ranges := emplace t (erase_key r (ranges s))\<rparr>)"
  have op: "DoOpShortenRange r t s = Some s'"
    unfolding DoOpShortenRange_def d_def [symmetric] cs_def [symmetric] Let_def
    using find_key_iff [OF separated_sorted [OF R(1)], of r] r(1) good_not_empty gr t n bounds
    by (auto simp: s'_def cs_def u64_sub_id)
  have mc: "mcovers (mset (ranges s) - {#r#}) = covers (ranges s) - pts r"
    using mset_erase_key [OF separated_distinct [OF R(1)], of r] erase_key_covers [OF no r(1)]
    by (metis mcovers_mset)
  have cc: "calls_ok (max_range_count s) (is_mod_available s) K cs (mset (ranges s), covers (ranges s))"
    "fold hw_step cs (mset (ranges s), covers (ranges s)) =
      (add_mset t (mset (ranges s) - {#r#}), covers (ranges s) - pts d)"
  proof -
    have "d \<notin> set (ranges s)" "t \<notin> set (ranges s)"
      using not_in_ranges [OF no r(1) d(1)] not_in_ranges [OF no r(1) t(1)] d t by auto
    then show "calls_ok (max_range_count s) (is_mod_available s) K cs (mset (ranges s), covers (ranges s))"
      "fold hw_step cs (mset (ranges s), covers (ranges s)) =
      (add_mset t (mset (ranges s) - {#r#}), covers (ranges s) - pts d)"
      unfolding cs_def using r d t n mc pts_subset_covers [OF r(1)]
      by (intro drop_calls_ok [where n = "max_range_count s" and K = K]; auto)+
  qed
  have "emits K s s'"
    unfolding emits_def using cc Z(2,4) d(2)
    by (intro exI [of _ cs]) (simp add: s'_def emit_def hw_of_def)
  moreover have "hw_frame s s'" by (simp add: hw_frame_def s'_def emit_def)
  moreover have "hw_inv s'" using Z R by (simp add: hw_inv_def s'_def emit_def)
  ultimately show ?thesis using op Z(2) by (simp add: s'_def emit_def)
qed

lemma DoOpSplitRange_spec:
  assumes inv: "hw_inv s" and r: "r \<in> set (ranges s)"
    and g: "good g" "r_begin r < r_begin g" "r_end g < r_end r" "pts g \<inter> K = {}"
    and n: "length (ranges s) < max_logical_range_count s" "max_range_count s < W64"
      "max_range_count s = max_logical_range_count s + (if is_mod_available s then 1 else 2)"
  defines "a \<equiv> BeginEnd (r_begin r) (r_begin g)" and "b \<equiv> BeginEnd (r_end g) (r_end r)"
  shows "\<exists>s'. DoOpSplitRange r g s = Some s' \<and> hw_frame s s' \<and> hw_inv s' \<and> emits K s s' \<and>
    set (ranges s') = (set (ranges s) - {r}) \<union> {a, b} \<and> length (ranges s') = Suc (length (ranges s)) \<and>
    covers (ranges s') = covers (ranges s) - pts g"
proof -
  have R: "separated (ranges s)" "ranges_bytes s = total_bytes (ranges s)" using inv by (auto simp: hw_inv_def)
  note no = separated_nonoverlap [OF R(1)]
  have gr: "good r" by (rule separated_good [OF R(1) r])
  have w: "r_begin g < r_end g" "r_end r < W64"
    using good_begin_less_end [OF g(1)] good_end_less [OF gr] by auto
  have ab: "good a" "pts a = {r_begin r..<r_begin g}" "r_begin a = r_begin r" "r_end a = r_begin g"
    "good b" "pts b = {r_end g..<r_end r}" "r_begin b = r_end g" "r_end b = r_end r"
    using g w by (simp_all add: a_def b_def BeginEnd_good pts_BeginEnd BeginEnd_end)
  have ne: "a \<noteq> g" "b \<noteq> g" "a \<noteq> b" "a \<noteq> r" "b \<noteq> r" "g \<noteq> r" using ab g w by auto
  have sub: "pts a \<subseteq> pts r" "pts b \<subseteq> pts r" "pts g \<subseteq> pts r" using ab g w by (auto simp: pts_def)
  have dis: "pts a \<inter> pts b = {}" "pts a \<inter> pts g = {}" "pts g \<inter> pts b = {}"
    "pts r = pts a \<union> pts g \<union> pts b" using ab g w by (auto simp: pts_def)
  have ps: "separated [a, b]" "covers [a, b] \<subseteq> pts r"
    using ab g w sub by (auto simp: separated_def)
  note Z = replace_range [OF R(1) r ps, simplified]
  have notin: "a \<notin> set (ranges s)" "b \<notin> set (ranges s)" "g \<notin> set (ranges s)"
    using not_in_ranges [OF no r] ab(1,5) g(1) ne sub by simp_all
  have mc: "mcovers (mset (ranges s) - {#r#}) = covers (ranges s) - pts r"
    using mset_erase_key [OF separated_distinct [OF R(1)], of r] erase_key_covers [OF no r]
    by (metis mcovers_mset)
  have ma: "add_mset a (mset (ranges s)) - {#r#} = add_mset a (mset (ranges s) - {#r#})" using r by simp
  have cutg: "covers (ranges s) - (pts r - (pts a \<union> pts b)) = covers (ranges s) - pts g"
    unfolding dis(4) using dis(2,3) by blast
  define P where "P = add_mset a (mset (ranges s))"
  have mP: "mcovers (P - {#r#}) = pts a \<union> (covers (ranges s) - pts r)" by (simp add: P_def ma mc)
  have p: "r \<in># P" "g \<notin># P" "b \<notin># P" "size P + (if is_mod_available s then 1 else 2) \<le> max_range_count s"
    using r notin ne n by (auto simp: P_def)
  have q: "pts r - pts b \<subseteq> pts g \<union> mcovers (P - {#r#})" unfolding mP dis(4) by blast
  have q2: "pts g \<inter> (pts b \<union> mcovers (P - {#r#})) = {}" unfolding mP using dis(2,3) sub(3) by blast
  have q3: "r_begin r = r_begin b \<or> r_end r = r_end b" using ab(8) by simp
  define cs where "cs = [AddProtectedRange g] @
    (if is_mod_available s then [ModProtectedRange r b] else [AddProtectedRange b, DelProtectedRange r]) @
    [DelProtectedRange g, UnUseRange g]"
  note cc = drop_calls_ok [OF p(1) g(1) ab(5) p(2,3) ne(2) p(4) pts_subset_covers [OF r] sub(3,2) q q3 g(4) q2,
      folded cs_def]
  define s' where "s' = emit (AddProtectedRange a # cs) (s\<lparr>ranges_bytes :=
      u64_add (u64_add (u64_sub (ranges_bytes s) (r_length r)) (r_length a)) (r_length b),
    ranges := emplace b (emplace a (erase_key r (ranges s)))\<rparr>)"
  have op: "DoOpSplitRange r g s = Some s'"
    unfolding DoOpSplitRange_def a_def [symmetric] b_def [symmetric] Let_def
    using good_not_empty gr g n by (auto simp: s'_def cs_def u64_sub_id)
  have "emits K s s'"
  proof -
    have "call_ok (max_range_count s) (is_mod_available s) K (AddProtectedRange a) (mset (ranges s), covers (ranges s))"
      using ab(1) notin(1) n sub(1) pts_subset_covers [OF r] by (auto split: if_splits)
    moreover have "add_mset b (P - {#r#}) = mset (emplace b (emplace a (erase_key r (ranges s))))"
      using Z(4) ma by (simp add: P_def)
    ultimately show ?thesis
      unfolding emits_def using cc Z(2) cutg
      by (intro exI [of _ "AddProtectedRange a # cs"]) (simp add: s'_def emit_def hw_of_def P_def)
  qed
  moreover have "hw_frame s s'" by (simp add: hw_frame_def s'_def emit_def)
  moreover have "hw_inv s'" using Z R by (simp add: hw_inv_def s'_def emit_def)
  moreover have "covers (ranges s') = covers (ranges s) - pts g" using Z(2) cutg by (simp add: s'_def emit_def)
  moreover have "length (ranges s') = Suc (length (ranges s))"
  proof -
    have "length (ranges s') = size (mset (ranges s'))" by simp
    also have "\<dots> = Suc (Suc (size (mset (ranges s) - {#r#})))" using Z(4) by (simp add: s'_def emit_def)
    also have "\<dots> = Suc (length (ranges s))" using r length_pos_if_in_set [OF r] by (simp add: size_Diff_singleton)
    finally show ?thesis .
  qed
  ultimately show ?thesis using op Z(3) by (auto simp: s'_def emit_def)
qed

section \<open>Coalesce, merge, extend and add\<close>

text \<open>The calls that put one range in the place of two neighbours: at no moment is an offset uncovered.\<close>

definition weld_calls :: "bool \<Rightarrow> mrange \<Rightarrow> mrange \<Rightarrow> mrange \<Rightarrow> ctrl_call list" where
  "weld_calls md a b c =
     (if md then [ModProtectedRange a c, DelProtectedRange b]
      else [AddProtectedRange c, DelProtectedRange a, DelProtectedRange b])"

lemma weld_calls_ok:
  assumes "a \<in># P" "b \<in># P" "a \<noteq> b" "good c" "c \<notin># P" "pts c \<subseteq> U" "pts a \<subseteq> pts c" "pts b \<subseteq> pts c"
    and "r_begin a = r_begin c" "md \<or> size P < n"
  shows "calls_ok n md K (weld_calls md a b c) (P, U)"
    and "fold hw_step (weld_calls md a b c) (P, U) = (add_mset c (P - {#a#} - {#b#}), U)"
proof -
  have ne: "c \<noteq> a" "c \<noteq> b" using assms(1,2,5) by auto
  have e: "add_mset c P - {#a#} = add_mset c (P - {#a#})" "b \<in># P - {#a#}"
    "add_mset c (P - {#a#}) - {#b#} = add_mset c (P - {#a#} - {#b#})"
    using ne assms(1-3) by (auto simp: in_diff_count)
  show "calls_ok n md K (weld_calls md a b c) (P, U)"
    unfolding weld_calls_def using assms ne e by (cases md) auto
  show "fold hw_step (weld_calls md a b c) (P, U) = (add_mset c (P - {#a#} - {#b#}), U)"
    unfolding weld_calls_def using e by (cases md) auto
qed

lemma TryCoalesceRangesAt_spec:
  assumes no: "nonoverlap (ranges s)" and n: "is_mod_available s \<or> length (ranges s) < max_range_count s"
  shows "\<exists>s'. TryCoalesceRangesAt loc s = Some s' \<and> hw_frame s s' \<and> ranges_bytes s' = ranges_bytes s \<and>
    nonoverlap (ranges s') \<and> covers (ranges s') = covers (ranges s) \<and> touch (ranges s') = touch (ranges s) - {loc} \<and>
    emits K s s' \<and> (loc \<notin> touch (ranges s) \<longrightarrow> s' = s) \<and>
    length (ranges s') = length (ranges s) - (if loc \<in> touch (ranges s) then 1 else 0)"
proof (cases "loc \<in> touch (ranges s)")
  case False
  then have "TryCoalesceRangesAt loc s = Some s"
    using coalesce_point_no_touch [OF no False] by (simp add: TryCoalesceRangesAt_def)
  moreover have "emits K s s" unfolding emits_def by (intro exI [of _ "[]"]) simp
  ultimately show ?thesis using False no by auto
next
  case True
  let ?R = "ranges s"
  obtain i where i: "coalesce_point ?R loc = Some (Some i)" "0 < i" "i < length ?R"
    "r_begin (?R ! i) = loc" "r_end (?R ! (i - 1)) = loc"
    using coalesce_point_touch [OF no True] by blast
  define a b us vs where "a = ?R ! (i - 1)" and "b = ?R ! i"
    and "us = take (i - 1) ?R" and "vs = drop (Suc i) ?R"
  define c where "c = BeginEnd (r_begin a) (r_end b)"
  have "r_begin (?R ! i) = r_end (?R ! (i - 1))" using i by simp
  note cb = coalesce_blocks_eq [OF no i(2,3) this, folded a_def b_def us_def vs_def, folded c_def]
  define s' where "s' = (emit (weld_calls (is_mod_available s) a b c) s)\<lparr>ranges := coalesce_blocks ?R i\<rparr>"
  have op: "TryCoalesceRangesAt loc s = Some s'"
    using i(1) unfolding TryCoalesceRangesAt_def s'_def weld_calls_def
    by (simp add: Let_def a_def b_def c_def)
  have Z: "nonoverlap (coalesce_blocks ?R i)" "covers (coalesce_blocks ?R i) = covers ?R"
    "touch (coalesce_blocks ?R i) = touch ?R - {loc}"
    using TryCoalesceAdjacentRangesAt_spec [OF no, of loc] i(1)
    by (auto simp: TryCoalesceAdjacentRangesAt_def)
  have mem: "a \<in> set ?R" "b \<in> set ?R" using i by (auto simp: a_def b_def)
  have dis: "pts a \<inter> pts b = {}"
    using i nonoverlap_distinct [OF no] by (intro nonoverlap_disjoint_pts [OF no mem]) (auto simp: a_def b_def nth_eq_iff_index_eq)
  have gab: "good a" "good b" using nonoverlap_good [OF no] mem by auto
  have ne: "a \<noteq> b" using dis pts_nonempty [OF gab(1)] by auto
  have "c \<notin> set ?R"
    using nonoverlap_disjoint_pts [OF no _ mem(1), of c] nonoverlap_disjoint_pts [OF no _ mem(2), of c]
      cb(4) pts_nonempty [OF gab(1)] pts_nonempty [OF gab(2)] ne by blast
  moreover have "pts c \<subseteq> covers ?R" using cb(4) pts_subset_covers [OF mem(1)] pts_subset_covers [OF mem(2)] by simp
  moreover have "r_begin a = r_begin c" by (simp add: c_def BeginEnd_def)
  ultimately have ok: "calls_ok (max_range_count s) (is_mod_available s) K (weld_calls (is_mod_available s) a b c)
      (mset ?R, covers ?R)"
    "fold hw_step (weld_calls (is_mod_available s) a b c) (mset ?R, covers ?R) =
      (add_mset c (mset ?R - {#a#} - {#b#}), covers ?R)"
    using mem ne cb(3,4) n by (intro weld_calls_ok [where n = "max_range_count s"]; simp)+
  have m: "mset (coalesce_blocks ?R i) = add_mset c (mset ?R - {#a#} - {#b#})"
  proof -
    have "mset ?R = add_mset a (add_mset b (mset us + mset vs))" using arg_cong [OF cb(2), of mset] by simp
    then show ?thesis unfolding cb(1) by simp
  qed
  have "emits K s s'" unfolding emits_def using ok m Z(2)
    by (intro exI [of _ "weld_calls (is_mod_available s) a b c"]) (simp add: s'_def emit_def hw_of_def)
  moreover have "hw_frame s s'" by (simp add: hw_frame_def s'_def emit_def)
  moreover have "length (coalesce_blocks ?R i) = length ?R - 1" unfolding cb(1) using arg_cong [OF cb(2), of length] by simp
  ultimately show ?thesis using op True Z by (auto simp: s'_def emit_def)
qed

lemma weld_separated:
  assumes R: "separated R" and ab: "adjacent R a b"
  defines "c \<equiv> BeginEnd (r_begin a) (r_end b)"
  defines "Z \<equiv> emplace c (erase_key b (erase_key a R))"
  shows "separated Z" "covers Z = covers R \<union> {r_end a..<r_begin b}" "mset Z = add_mset c (mset R - {#a#} - {#b#})"
    "Suc (length Z) = length R" "good c" "pts c = pts a \<union> {r_end a..<r_begin b} \<union> pts b" "c \<notin> set R"
    "a \<noteq> b" "set Z = (set R - {a, b}) \<union> {c}"
proof -
  note lt = adjacent_separated [OF R ab]
  obtain us vs where uv: "R = us @ a # b # vs" using ab by (auto simp: adjacent_def)
  have w: "r_begin a < r_end a" "r_begin b < r_end b" "r_end b < W64"
    using lt good_begin_less_end good_end_less by auto
  have c: "r_begin c = r_begin a" "r_end c = r_end b"
    unfolding c_def using w lt(1) by (simp_all add: BeginEnd_end)
  show gc: "good c" unfolding c_def using w lt by (simp add: BeginEnd_good)
  show pc: "pts c = pts a \<union> {r_end a..<r_begin b} \<union> pts b" using c w lt(1) by (auto simp: pts_def)
  show "a \<noteq> b" using lt(1) w by auto
  have mem: "a \<in> set R" "b \<in> set R" using uv by auto
  show nc: "c \<notin> set R"
  proof
    assume "c \<in> set R"
    then have "pts c \<inter> pts a = {} \<or> c = a" "pts c \<inter> pts b = {} \<or> c = b"
      using nonoverlap_disjoint_pts [OF separated_nonoverlap [OF R]] mem by blast+
    then show False using pc pts_nonempty [OF lt(2)] pts_nonempty [OF lt(3)] \<open>a \<noteq> b\<close> by blast
  qed
  have d: "distinct (us @ a # b # vs)" using separated_distinct [OF R] uv by simp
  have sep: "separated (us @ c # vs)"
    using R unfolding uv by (auto simp: separated_append separated_Cons gc c)
  have e: "erase_key b (erase_key a R) = us @ vs"
  proof -
    have "filter (\<lambda>x. x \<noteq> a \<and> x \<noteq> b) us = us" "filter (\<lambda>x. x \<noteq> a \<and> x \<noteq> b) vs = vs"
      using d by (auto intro!: filter_True)
    then show ?thesis unfolding uv erase_key_def using \<open>a \<noteq> b\<close> by auto
  qed
  have Z: "Z = us @ c # vs"
    unfolding Z_def e
  proof (rule ranges_ms.ins_unique)
    show s: "sorted (us @ c # vs)" by (rule separated_sorted [OF sep])
    then show "sorted (us @ vs)" by (simp add: sorted_append)
  qed simp
  show "separated Z" "Suc (length Z) = length R" using sep Z uv by auto
  show "covers Z = covers R \<union> {r_end a..<r_begin b}" unfolding Z uv using pc by auto
  show "mset Z = add_mset c (mset R - {#a#} - {#b#})" unfolding Z uv by simp
  show "set Z = (set R - {a, b}) \<union> {c}" unfolding Z uv using d nc uv by auto
qed

lemma u64_bytes_merge:
  assumes "distinct R" "a \<in> set R" "b \<in> set R" "a \<noteq> b" "total_bytes R < W64"
    "total_bytes (emplace c (erase_key b (erase_key a R))) < W64"
  shows "u64_add (u64_sub (u64_sub (total_bytes R) (r_length a)) (r_length b)) (r_length c) =
    total_bytes (emplace c (erase_key b (erase_key a R)))"
proof -
  have 1: "u64_sub (total_bytes R) (r_length a) = total_bytes (erase_key a R)"
    using total_erase [OF assms(1,2)] assms(5) by (simp add: u64_sub_id)
  have b: "b \<in> set (erase_key a R)" using assms(3,4) by (simp add: ranges_ms.set_del)
  have lt: "total_bytes (erase_key a R) < W64" using total_erase [OF assms(1,2)] assms(5) by simp
  have 2: "u64_sub (total_bytes (erase_key a R)) (r_length b) = total_bytes (erase_key b (erase_key a R))"
    using total_erase [OF distinct_erase_key [OF assms(1)] b] lt by (simp add: u64_sub_id)
  show ?thesis unfolding 1 2 using assms(6) by (simp add: total_emplace u64_add_id add.commute)
qed

lemma DoOpMergeRanges_spec:
  fixes c :: pr_control
  assumes inv: "hw_inv s" and ab: "adjacent (ranges s) a b"
    and n: "length (ranges s) + (if is_mod_available s then 0 else 1) \<le> max_range_count s" "max_range_count s < W64"
      "max_range_count s = max_logical_range_count s + (if is_mod_available s then 1 else 2)"
  defines "gap \<equiv> BeginEnd (r_end a) (r_begin b)"
  defines "ok \<equiv> UseRange c (calls s) gap"
  shows "\<exists>s'. DoOpMergeRanges c a b s = Some (ok, s') \<and> hw_frame s s' \<and> hw_inv s' \<and> emits K s s' \<and>
    (if ok then covers (ranges s') = covers (ranges s) \<union> pts gap \<and> Suc (length (ranges s')) = length (ranges s) \<and>
       set (ranges s') = (set (ranges s) - {a, b}) \<union> {BeginEnd (r_begin a) (r_end b)}
     else s' = emit [UseRange_call gap False] s)"
proof -
  have R: "separated (ranges s)" "ranges_bytes s = total_bytes (ranges s)" using inv by (auto simp: hw_inv_def)
  note lt = adjacent_separated [OF R(1) ab]
  note W = weld_separated [OF R(1) ab]
  note g = gap_begin_end [OF R(1) ab, of gap, unfolded gap_def, OF refl, folded gap_def]
  have mem: "a \<in> set (ranges s)" "b \<in> set (ranges s)" using adjacent_set [OF ab] by auto
  have "gap \<in> set (gaps (ranges s))" using ab by (auto simp: set_gaps gap_def)
  then have free: "pts gap \<inter> covers (ranges s) = {}" using gap_offsets [OF R(1)] by blast
  have pg: "pts gap = {r_end a..<r_begin b}" using g by (simp add: pts_def)
  define d where "d = BeginEnd (r_begin a) (r_end b)"
  note W' = W [folded d_def]
  have asserts: "\<not> r_empty a" "\<not> r_empty b" "r_end a < r_begin b"
    "(if is_mod_available s then 0 else 1) \<le> u64_sub (max_range_count s) (max_logical_range_count s)"
    using lt good_not_empty n by (auto simp: u64_sub_id)
  show ?thesis
  proof (cases ok)
    case False
    define s' where "s' = emit [UseRange_call gap False] s"
    have "DoOpMergeRanges c a b s = Some (ok, s')"
      using False asserts by (simp add: DoOpMergeRanges_def call_UseRange_def Let_def s'_def gap_def ok_def)
    moreover have "emits K s s'" unfolding emits_def using g(3) free
      by (intro exI [of _ "[UseRange_call gap False]"]) (simp add: s'_def emit_def hw_of_def)
    moreover have "hw_frame s s'" by (simp add: hw_frame_def s'_def emit_def)
    moreover have "hw_inv s'" using inv by (simp add: hw_inv_def s'_def emit_def)
    ultimately show ?thesis using False by (auto simp: s'_def emit_def)
  next
    case True
    define cs where "cs = UseRange_call gap True # weld_calls (is_mod_available s) a b d"
    define s' where "s' = emit cs (s\<lparr>ranges_bytes := u64_add (u64_sub (u64_sub (ranges_bytes s) (r_length a))
        (r_length b)) (r_length d), ranges := emplace d (erase_key b (erase_key a (ranges s)))\<rparr>)"
    have op: "DoOpMergeRanges c a b s = Some (ok, s')"
      using True asserts
      by (simp add: DoOpMergeRanges_def call_UseRange_def Let_def s'_def cs_def gap_def ok_def d_def
          weld_calls_def emit_def)
    have ok: "calls_ok (max_range_count s) (is_mod_available s) K (weld_calls (is_mod_available s) a b d)
        (mset (ranges s), covers (ranges s) \<union> pts gap)"
      "fold hw_step (weld_calls (is_mod_available s) a b d) (mset (ranges s), covers (ranges s) \<union> pts gap) =
        (add_mset d (mset (ranges s) - {#a#} - {#b#}), covers (ranges s) \<union> pts gap)"
    proof -
      have "pts d \<subseteq> covers (ranges s) \<union> pts gap"
        using W'(6) pg pts_subset_covers [OF mem(1)] pts_subset_covers [OF mem(2)] by blast
      moreover have sub: "pts a \<subseteq> pts d" "pts b \<subseteq> pts d" unfolding W'(6) by blast+
      moreover have "r_begin a = r_begin d" by (simp add: d_def BeginEnd_def)
      moreover have "is_mod_available s \<or> size (mset (ranges s)) < max_range_count s"
        using n(1) by (simp split: if_splits)
      ultimately show "calls_ok (max_range_count s) (is_mod_available s) K (weld_calls (is_mod_available s) a b d)
          (mset (ranges s), covers (ranges s) \<union> pts gap)"
        "fold hw_step (weld_calls (is_mod_available s) a b d) (mset (ranges s), covers (ranges s) \<union> pts gap) =
          (add_mset d (mset (ranges s) - {#a#} - {#b#}), covers (ranges s) \<union> pts gap)"
        using W'(5,7,8) mem sub by (intro weld_calls_ok [where n = "max_range_count s"]; simp)+
    qed
    have "emits K s s'" unfolding emits_def using ok g(3) free W'(2,3) pg
      by (intro exI [of _ cs]) (simp add: s'_def emit_def hw_of_def cs_def)
    moreover have "hw_frame s s'" by (simp add: hw_frame_def s'_def emit_def)
    moreover have "hw_inv s'"
      using W'(1) R u64_bytes_merge [OF separated_distinct [OF R(1)] mem W'(8), of d]
        total_nonoverlap(2) [OF separated_nonoverlap [OF R(1)]] total_nonoverlap(2) [OF separated_nonoverlap [OF W'(1)]]
      by (simp add: hw_inv_def s'_def emit_def)
    ultimately show ?thesis using op True W'(2,4,9) pg by (auto simp: s'_def emit_def d_def)
  qed
qed

text \<open>Two coalescings, at the ends of a new range, restore a separated list.\<close>

lemma coalesce_ends_spec:
  assumes no: "nonoverlap (ranges s)" and b: "ranges_bytes s = total_bytes (ranges s)"
    and n: "is_mod_available s \<or> length (ranges s) < max_range_count s"
    and t: "touch (ranges s) \<subseteq> {x, y}"
  shows "\<exists>s'. TryCoalesceRangesAt x s \<bind> TryCoalesceRangesAt y = Some s' \<and> hw_frame s s' \<and> hw_inv s' \<and>
    emits K s s' \<and> covers (ranges s') = covers (ranges s) \<and> length (ranges s') \<le> length (ranges s) \<and>
    (touch (ranges s) = {} \<longrightarrow> s' = s) \<and> (touch (ranges s) \<noteq> {} \<longrightarrow> length (ranges s') < length (ranges s))"
proof -
  obtain s1 where s1: "TryCoalesceRangesAt x s = Some s1" "hw_frame s s1" "ranges_bytes s1 = ranges_bytes s"
    "nonoverlap (ranges s1)" "covers (ranges s1) = covers (ranges s)" "touch (ranges s1) = touch (ranges s) - {x}"
    "emits K s s1" "x \<notin> touch (ranges s) \<longrightarrow> s1 = s"
    "length (ranges s1) = length (ranges s) - (if x \<in> touch (ranges s) then 1 else 0)"
    using TryCoalesceRangesAt_spec [OF no n, of x K] by blast
  note f1 = hw_frame_fields [OF s1(2)]
  have n1: "is_mod_available s1 \<or> length (ranges s1) < max_range_count s1" using n s1(9) f1 by auto
  obtain s2 where s2: "TryCoalesceRangesAt y s1 = Some s2" "hw_frame s1 s2" "ranges_bytes s2 = ranges_bytes s1"
    "nonoverlap (ranges s2)" "covers (ranges s2) = covers (ranges s1)" "touch (ranges s2) = touch (ranges s1) - {y}"
    "emits K s1 s2" "y \<notin> touch (ranges s1) \<longrightarrow> s2 = s1"
    "length (ranges s2) = length (ranges s1) - (if y \<in> touch (ranges s1) then 1 else 0)"
    using TryCoalesceRangesAt_spec [OF s1(4) n1, of y K] by blast
  have "touch (ranges s2) = {}" using s1(6) s2(6) t by blast
  then have "separated (ranges s2)" using s2(4) by (simp add: separated_iff)
  moreover have "total_bytes (ranges s2) = total_bytes (ranges s)"
    using total_nonoverlap(1) no s2(4) s1(5) s2(5) by simp
  ultimately have "hw_inv s2" using s1(3) s2(3) b by (simp add: hw_inv_def)
  moreover have "emits K s s2" by (rule emits_trans [OF s1(7) s2(7)]) (simp_all add: f1)
  moreover have "touch (ranges s) \<noteq> {} \<longrightarrow> length (ranges s2) < length (ranges s)"
  proof
    assume ne: "touch (ranges s) \<noteq> {}"
    then have "ranges s \<noteq> []" by (auto simp: touch_def)
    then show "length (ranges s2) < length (ranges s)"
      using ne t s1(6,9) s2(9) by (cases "x \<in> touch (ranges s)") (auto split: if_splits)
  qed
  ultimately show ?thesis
    using s1 s2 hw_frame_trans [OF s1(2) s2(2)] by auto
qed

lemma DoOpAddRange_spec:
  fixes c :: pr_control
  assumes inv: "hw_inv s" and r: "good r" "pts r \<inter> covers (ranges s) = {}"
    and n: "length (ranges s) + (if is_mod_available s then 1 else 2) \<le> max_range_count s"
  defines "ok \<equiv> UseRange c (calls s) r"
  shows "\<exists>s'. DoOpAddRange c r s = Some (ok, s') \<and> hw_frame s s' \<and> hw_inv s' \<and> emits K s s' \<and>
    (if ok then covers (ranges s') = covers (ranges s) \<union> pts r \<and> length (ranges s') \<le> Suc (length (ranges s)) \<and>
       (length (ranges s') = Suc (length (ranges s)) \<longrightarrow> ranges s' = emplace r (ranges s))
     else s' = emit [UseRange_call r False] s)"
proof -
  have R: "separated (ranges s)" "ranges_bytes s = total_bytes (ranges s)" using inv by (auto simp: hw_inv_def)
  show ?thesis
  proof (cases ok)
    case False
    define s' where "s' = emit [UseRange_call r False] s"
    have "DoOpAddRange c r s = Some (ok, s')"
      using False by (simp add: DoOpAddRange_def call_UseRange_def Let_def s'_def ok_def)
    moreover have "emits K s s'" unfolding emits_def using r
      by (intro exI [of _ "[UseRange_call r False]"]) (simp add: s'_def emit_def hw_of_def)
    moreover have "hw_frame s s'" by (simp add: hw_frame_def s'_def emit_def)
    moreover have "hw_inv s'" using inv by (simp add: hw_inv_def s'_def emit_def)
    ultimately show ?thesis using False by (auto simp: s'_def emit_def)
  next
    case True
    define s2 where "s2 = (emit [UseRange_call r True, AddProtectedRange r] s)
      \<lparr>ranges := emplace r (ranges s), ranges_bytes := u64_add (ranges_bytes s) (r_length r)\<rparr>"
    have op: "DoOpAddRange c r s =
        TryCoalesceRangesAt (r_begin r) s2 \<bind> TryCoalesceRangesAt (r_end r) \<bind> (\<lambda>s'. Some (ok, s'))"
      using True by (simp add: DoOpAddRange_def call_UseRange_def Let_def s2_def ok_def emit_def)
    have sr: "separated [r]" "covers [r] \<subseteq> pts r" using r(1) by (auto simp: separated_def)
    have P: "nonoverlap (ranges s2)" "covers (ranges s2) = covers (ranges s) \<union> pts r"
      "touch (ranges s2) \<subseteq> {r_begin r, r_end r}"
      using pieces_around_diff [OF r(1) R(1) _ sr] r(2) by (auto simp: s2_def emit_def)
    have len: "length (ranges s2) = Suc (length (ranges s))" by (simp add: s2_def emit_def ranges_ms.length_ins)
    have b2: "ranges_bytes s2 = total_bytes (ranges s2)"
      using total_nonoverlap(2) [OF P(1)] R(2) by (simp add: s2_def emit_def total_emplace u64_add_id add.commute)
    have n2: "is_mod_available s2 \<or> length (ranges s2) < max_range_count s2"
      using n len by (simp add: s2_def emit_def split: if_splits)
    have fr: "hw_frame s s2" by (simp add: hw_frame_def s2_def emit_def)
    note f2 = hw_frame_fields [OF fr]
    have "r \<notin> set (ranges s)" using r pts_nonempty [OF r(1)] pts_subset_covers by blast
    then have "emits K s s2" unfolding emits_def using r n P(2)
      by (intro exI [of _ "[UseRange_call r True, AddProtectedRange r]"])
        (auto simp: s2_def emit_def hw_of_def ranges_ms.mset_ins split: if_splits)
    moreover obtain s' where s': "TryCoalesceRangesAt (r_begin r) s2 \<bind> TryCoalesceRangesAt (r_end r) = Some s'"
      "hw_frame s2 s'" "hw_inv s'" "emits K s2 s'" "covers (ranges s') = covers (ranges s2)"
      "length (ranges s') \<le> length (ranges s2)" "touch (ranges s2) = {} \<longrightarrow> s' = s2"
      "touch (ranges s2) \<noteq> {} \<longrightarrow> length (ranges s') < length (ranges s2)"
      using coalesce_ends_spec [OF P(1) b2 n2 P(3), of K] by blast
    ultimately have "emits K s s'" by (intro emits_trans [of K s s2 s']) (simp_all add: f2)
    moreover have "ranges s' = emplace r (ranges s)" if "length (ranges s') = Suc (length (ranges s))"
      using that s'(7,8) len by (auto simp: s2_def emit_def)
    ultimately show ?thesis
      using True op s' P(2) len hw_frame_trans [OF fr s'(2)] by auto
  qed
qed

lemma DoOpExtendRangeEnd_spec:
  fixes c :: pr_control
  assumes inv: "hw_inv s" and o: "old \<in> set (ranges s)" and e: "r_end old < e" "e < W64"
    and free: "{r_end old..<e} \<inter> covers (ranges s) = {}"
    and n: "length (ranges s) + (if is_mod_available s then 1 else 2) \<le> max_range_count s"
  defines "ext \<equiv> BeginEnd (r_end old) e"
  defines "ok \<equiv> UseRange c (calls s) ext"
  shows "\<exists>s'. DoOpExtendRangeEnd c old (BeginEnd (r_begin old) e) s = Some (ok, s') \<and> hw_frame s s' \<and> hw_inv s' \<and>
    emits K s s' \<and> (if ok then covers (ranges s') = covers (ranges s) \<union> pts ext \<and>
      length (ranges s') \<le> length (ranges s) else s' = emit [UseRange_call ext False] s)"
proof -
  have R: "separated (ranges s)" "ranges_bytes s = total_bytes (ranges s)" using inv by (auto simp: hw_inv_def)
  have go: "good old" "r_begin old < r_end old" using separated_good [OF R(1) o] good_begin_less_end by auto
  define new where "new = BeginEnd (r_begin old) e"
  have new: "good new" "r_begin new = r_begin old" "r_end new = e" "pts new = {r_begin old..<e}"
    using go e by (simp_all add: new_def BeginEnd_good BeginEnd_end pts_BeginEnd)
  have ext: "good ext" "pts ext = {r_end old..<e}" using e by (simp_all add: ext_def BeginEnd_good pts_BeginEnd)
  have pn: "pts new = pts old \<union> pts ext" unfolding new(4) ext(2) using go(2) e by (auto simp: pts_def)
  show ?thesis
  proof (cases ok)
    case False
    define s' where "s' = emit [UseRange_call ext False] s"
    have "DoOpExtendRangeEnd c old new s = Some (ok, s')"
      using False new e by (simp add: DoOpExtendRangeEnd_def call_UseRange_def Let_def s'_def ok_def ext_def)
    moreover have "emits K s s'" unfolding emits_def using ext free
      by (intro exI [of _ "[UseRange_call ext False]"]) (simp add: s'_def emit_def hw_of_def)
    moreover have "hw_frame s s'" by (simp add: hw_frame_def s'_def emit_def)
    moreover have "hw_inv s'" using inv by (simp add: hw_inv_def s'_def emit_def)
    ultimately show ?thesis using False by (auto simp: s'_def emit_def new_def)
  next
    case True
    define E where "E = erase_key old (ranges s)"
    define s2 where "s2 = (emit [UseRange_call ext True, AddProtectedRange new, DelProtectedRange old] s)
      \<lparr>ranges_bytes := u64_add (u64_sub (ranges_bytes s) (r_length old)) (r_length new),
       ranges := emplace new E\<rparr>"
    have op: "DoOpExtendRangeEnd c old new s = TryCoalesceRangesAt e s2 \<bind> (\<lambda>s'. Some (ok, s'))"
      using True new e
      by (simp add: DoOpExtendRangeEnd_def call_UseRange_def Let_def s2_def ok_def ext_def emit_def E_def)
    note no = separated_nonoverlap [OF R(1)]
    have sE: "separated E" unfolding E_def
      using separated_sorted [OF R(1)] separated_distinct [OF R(1)]
      by (intro separated_subset [OF R(1)] ranges_ms.sorted_del distinct_erase_key) (auto simp: ranges_ms.set_del)
    have cE: "covers E = covers (ranges s) - pts old" unfolding E_def by (rule erase_key_covers [OF no o])
    have sn: "separated [new]" "covers [new] \<subseteq> pts new" using new(1) by (auto simp: separated_def)
    have dn: "covers E \<inter> pts new = {}" unfolding cE pn ext(2) using free by blast
    have P: "nonoverlap (ranges s2)" "covers (ranges s2) = covers E \<union> pts new" "touch (ranges s2) \<subseteq> {r_begin new, r_end new}"
      using pieces_around_diff [OF new(1) sE dn sn] by (auto simp: s2_def emit_def)
    have "r_begin new \<notin> touch (ranges s2)"
    proof
      assume "r_begin new \<in> touch (ranges s2)"
      then obtain a where a: "a \<in> set (ranges s2)" "r_end a = r_begin old" using new(2) by (auto simp: touch_def)
      then have "a \<in> set (ranges s)" using go new e by (auto simp: s2_def emit_def E_def ranges_ms.set_ins ranges_ms.set_del)
      then show False using a(2) separated_two [OF R(1) _ o, of a] go separated_good [OF R(1)] good_begin_less_end by fastforce
    qed
    then have T: "touch (ranges s2) \<subseteq> {e}" using P(3) new by auto
    have len: "length (ranges s2) = length (ranges s)"
    proof -
      have "length (ranges s2) = Suc (size (mset E))" by (simp add: s2_def emit_def ranges_ms.length_ins)
      also have "\<dots> = length (ranges s)" unfolding E_def mset_erase_key [OF separated_distinct [OF R(1)]]
        using o length_pos_if_in_set [OF o] by (simp add: size_Diff_singleton)
      finally show ?thesis .
    qed
    have b2: "ranges_bytes s2 = total_bytes (ranges s2)"
      using u64_bytes_replace [OF separated_distinct [OF R(1)] o total_nonoverlap(2) [OF no], of "[new]"]
        total_nonoverlap(2) [OF P(1)] R(2) by (simp add: s2_def emit_def E_def)
    have n2: "is_mod_available s2 \<or> length (ranges s2) < max_range_count s2"
      using n len by (simp add: s2_def emit_def split: if_splits)
    have fr: "hw_frame s s2" by (simp add: hw_frame_def s2_def emit_def)
    have nn: "new \<notin> set (ranges s)" "new \<noteq> old"
    proof -
      show "new \<noteq> old" using new(3) e(1) by auto
      then show "new \<notin> set (ranges s)"
        using nonoverlap_disjoint_pts [OF no _ o, of new] pts_nonempty [OF go(1)] pn by blast
    qed
    have C: "covers (ranges s2) = covers (ranges s) \<union> pts ext"
      unfolding P(2) cE pn using pts_subset_covers [OF o] by blast
    have m2: "mset (ranges s2) = add_mset new (mset (ranges s) - {#old#})"
      unfolding s2_def E_def emit_def by (simp add: ranges_ms.mset_ins mset_erase_key [OF separated_distinct [OF R(1)]])
    have "emits K s s2" unfolding emits_def
    proof (intro exI [of _ "[UseRange_call ext True, AddProtectedRange new, DelProtectedRange old]"] conjI)
      show "calls s2 = calls s @ [UseRange_call ext True, AddProtectedRange new, DelProtectedRange old]"
        by (simp add: s2_def emit_def)
      show "calls_ok (max_range_count s) (is_mod_available s) K
          [UseRange_call ext True, AddProtectedRange new, DelProtectedRange old] (hw_of s)"
        using ext free new(1) nn n pn o pts_subset_covers [OF o]
        by (auto simp: hw_of_def split: if_splits)
      show "fold hw_step [UseRange_call ext True, AddProtectedRange new, DelProtectedRange old] (hw_of s) = hw_of s2"
        using nn(2) o m2 C by (simp add: hw_of_def)
    qed
    moreover obtain s' where s': "TryCoalesceRangesAt e s2 = Some s'" "hw_frame s2 s'" "ranges_bytes s' = ranges_bytes s2"
      "nonoverlap (ranges s')" "covers (ranges s') = covers (ranges s2)" "touch (ranges s') = touch (ranges s2) - {e}"
      "emits K s2 s'" "length (ranges s') = length (ranges s2) - (if e \<in> touch (ranges s2) then 1 else 0)"
      using TryCoalesceRangesAt_spec [OF P(1) n2, of e K] by blast
    ultimately have "emits K s s'"
      by (intro emits_trans [of K s s2 s']) (simp_all add: hw_frame_fields [OF fr])
    moreover have "hw_inv s'"
    proof -
      have "separated (ranges s')" using s'(4,6) T by (auto simp: separated_iff)
      moreover have "total_bytes (ranges s') = total_bytes (ranges s2)"
        using total_nonoverlap(1) s'(4,5) P(1) by simp
      ultimately show ?thesis using s'(3) b2 by (simp add: hw_inv_def)
    qed
    ultimately show ?thesis
      using True op s' C len hw_frame_trans [OF fr s'(2)] by (auto simp: new_def)
  qed
qed

end
