(* ===== verification/Sysmem_Protected_Ranges.thy ===== *)
theory Sysmem_Protected_Ranges
  imports Sysmem_Range_Hw
begin

text \<open>
  The class \<open>ProtectedRanges\<close>: construction, \<open>AddRange\<close>, \<open>DeleteRange\<close>, \<open>StepTowardOptimalRanges\<close> and the
  queries, over the derived containers and the hardware operations of the other theories. The
  lemmas give the class invariant, that every operation keeps it without an assertion firing, what
  an operation does to the protected offsets and to the goal, and that the optimisation steps end
  at the goal.
\<close>

section \<open>Definitions\<close>

definition ProtectedRanges_new :: "pr_control \<Rightarrow> pr_state option" where
  "ProtectedRanges_new c = do {
     zx_assert (MaxRangeCount c \<ge> 1);
     let max_logical =
           (if IsDynamic c
            then (if HasModProtectedRange c then u64_sub (MaxRangeCount c) 1
                  else u64_sub (MaxRangeCount c) 2)
            else 1);
     zx_assert (GetRangeGranularity c \<ge> 1);
     Some \<lparr>requested_ranges = [], requested_bytes = 0, required_ranges = [],
           coalesced_required_ranges = [], interior_unused_ranges = [],
           interior_unused_ranges_by_length = [], largest_interior_unused_ranges = [],
           goal_ranges = [], ranges = [], ranges_bytes = 0,
           is_dynamic = IsDynamic c, max_range_count = MaxRangeCount c,
           is_mod_available = HasModProtectedRange c, max_logical_range_count = max_logical,
           range_granularity = GetRangeGranularity c, calls = []\<rparr> }"

definition ProtectedRanges_delete :: "pr_state \<Rightarrow> unit option" where
  "ProtectedRanges_delete s = zx_assert (ranges s = [])"

definition max_logical_ranges :: "pr_state \<Rightarrow> nat" where
  "max_logical_ranges s = max_logical_range_count s"

definition PropagateRequiredRangesToGoalRanges :: "mrange \<Rightarrow> pr_state \<Rightarrow> pr_state option" where
  "PropagateRequiredRangesToGoalRanges diff_range s = do {
     coalesced \<leftarrow> UpdateCoalescedRequiredRanges diff_range (required_ranges s)
                   (coalesced_required_ranges s);
     (unused, by_length) \<leftarrow> UpdateInteriorUnusedRanges diff_range coalesced
                   (interior_unused_ranges s, interior_unused_ranges_by_length s);
     zx_assert (coalesced = [] \<or> length unused + 1 = length coalesced);
     let largest = BuildLargestInteriorUnusedRanges (max_logical_range_count s) by_length;
     zx_assert (length largest = min (u64_sub (max_logical_range_count s) 1) (length unused));
     goal \<leftarrow> BuildGoalRanges coalesced largest;
     zx_assert (largest = [] \<or> length goal = length largest + 1);
     zx_assert (length goal \<le> max_logical_range_count s);
     Some (s\<lparr>coalesced_required_ranges := coalesced, interior_unused_ranges := unused,
             interior_unused_ranges_by_length := by_length,
             largest_interior_unused_ranges := largest, goal_ranges := goal\<rparr>) }"

text \<open>
  \<open>FixupRangesDuringAdd\<close>; its last part, the merge that follows an added range beyond the limit, is a
  function of its own.
\<close>

definition FixupRangesDuringAdd_merge ::
  "pr_control \<Rightarrow> mrange \<Rightarrow> pr_state \<Rightarrow> (bool \<times> pr_state) option" where
  "FixupRangesDuringAdd_merge c adjusted s1 = do {
     zx_assert (length (ranges s1) = u64_add (max_logical_range_count s1) 1);
     zx_assert (find_key adjusted (ranges s1) \<noteq> length (ranges s1));
     best \<leftarrow> FindBestMerge (ranges s1) (goal_ranges s1);
     zx_assert (best \<noteq> None);
     (ok, s2) \<leftarrow> DoOpMergeRanges c (fst (the best)) (snd (the best)) s1;
     if \<not> ok then do { s3 \<leftarrow> DoOpDelRange adjusted s2; Some (False, s3) }
     else do {
       zx_assert (length (ranges s2) = max_logical_range_count s2);
       Some (True, s2) } }"

definition FixupRangesDuringAdd ::
  "pr_control \<Rightarrow> mrange \<Rightarrow> pr_state \<Rightarrow> (bool \<times> pr_state) option" where
  "FixupRangesDuringAdd c new_required_range s =
     (if ranges s = [] then DoOpAddRange c new_required_range s
      else
        let after = upper_bound (BeginLength (r_begin new_required_range) u64_max) (ranges s)
        in if after \<noteq> 0
           then
             let before_range = ranges s ! (after - 1)
             in if r_begin before_range \<le> r_begin new_required_range \<and>
                   r_end before_range \<ge> r_end new_required_range
                then Some (True, s)
                else
                  let new_end =
                        (if after \<noteq> length (ranges s)
                         then min (r_end new_required_range) (r_begin (ranges s ! after))
                         else r_end new_required_range)
                  in do {
                    (ok, s1) \<leftarrow> DoOpExtendRangeEnd c before_range
                                 (BeginEnd (r_begin before_range) new_end) s;
                    if \<not> ok then Some (False, s1)
                    else do { s2 \<leftarrow> TryCoalesceRangesAt new_end s1; Some (True, s2) } }
           else
             let new_end = min (r_end new_required_range) (r_begin (ranges s ! after));
                 adjusted = BeginEnd (r_begin new_required_range) new_end
             in do {
               (ok, s1) \<leftarrow> DoOpAddRange c adjusted s;
               if \<not> ok then Some (False, s1)
               else if length (ranges s1) \<le> max_logical_range_count s1 then Some (True, s1)
               else FixupRangesDuringAdd_merge c adjusted s1 })"

definition AddRange :: "pr_control \<Rightarrow> mrange \<Rightarrow> pr_state \<Rightarrow> (bool \<times> pr_state) option" where
  "AddRange c rng s =
     (if \<not> is_dynamic s \<and> requested_ranges s \<noteq> [] then Some (True, s)
      else do {
        let s1 = s\<lparr>requested_ranges := emplace rng (requested_ranges s),
                   requested_bytes := u64_add (requested_bytes s) (r_length rng)\<rparr>;
        zx_assert (\<not> IsAnyInternalOverlap (requested_ranges s1));
        let required_range =
              (if \<not> is_dynamic s1 then BeginLength (GetBase c) (GetSize c)
               else AlignRequestedRange (round_down c) (round_up c) rng (range_granularity s1));
        s2 \<leftarrow> PropagateRequiredRangesToGoalRanges required_range
               (s1\<lparr>required_ranges := emplace required_range (required_ranges s1)\<rparr>);
        (ok, s3) \<leftarrow> FixupRangesDuringAdd c required_range s2;
        if \<not> ok
        then do {
          zx_assert (is_dynamic s3);
          s4 \<leftarrow> PropagateRequiredRangesToGoalRanges required_range
            (s3\<lparr>requested_bytes := u64_sub (requested_bytes s3) (r_length rng),
                requested_ranges := erase_key rng (requested_ranges s3),
                required_ranges := erase_iter (find_key required_range (required_ranges s3))
                  (required_ranges s3)\<rparr>);
          Some (False, s4) }
        else Some (True, if is_dynamic s3 then emit [ZeroProtectedSubRange True rng] s3 else s3) })"

definition StepTowardOptimalRangesInternal ::
  "pr_control \<Rightarrow> bool \<Rightarrow> pr_state \<Rightarrow> (bool \<times> pr_state) option" where
  "StepTowardOptimalRangesInternal c allow_use_range s =
     (if ranges s = goal_ranges s then Some (True, s)
      else case FindRangeToDelete (ranges s) (goal_ranges s) of
        Some r \<Rightarrow> do { s1 \<leftarrow> DoOpDelRange r s; Some (False, s1) }
      | None \<Rightarrow>
      (case FindRangeToShorten (ranges s) (goal_ranges s) of
        Some (r, shorter_range) \<Rightarrow> do { s1 \<leftarrow> DoOpShortenRange r shorter_range s; Some (False, s1) }
      | None \<Rightarrow> do {
          zx_assert (length (ranges s) \<le> max_logical_range_count s);
          case FindBestSplit (ranges s) (goal_ranges s) of
            None \<Rightarrow> None
          | Some split \<Rightarrow>
              if length (ranges s) = max_logical_range_count s
              then
                if \<not> allow_use_range then Some (True, s)
                else do {
                  best \<leftarrow> FindBestMerge (ranges s) (goal_ranges s);
                  case best of
                    Some (first, second) \<Rightarrow> do {
                      (ok, s1) \<leftarrow> DoOpMergeRanges c first second s;
                      if \<not> ok then Some (False, s1)
                      else do {
                        (range_to_split, gap) \<leftarrow> FindBestSplit (ranges s1) (goal_ranges s1);
                        s2 \<leftarrow> DoOpSplitRange range_to_split gap s1;
                        Some (False, s2) } }
                  | None \<Rightarrow> do { s2 \<leftarrow> DoOpSplitRange (fst split) (snd split) s; Some (False, s2) } }
              else do { s2 \<leftarrow> DoOpSplitRange (fst split) (snd split) s; Some (False, s2) } }))"

definition StepTowardOptimalRanges :: "pr_control \<Rightarrow> pr_state \<Rightarrow> (bool \<times> pr_state) option" where
  "StepTowardOptimalRanges c s = StepTowardOptimalRangesInternal c True s"

text \<open>A loop that does not end, like an assertion that fires, has the value \<open>None\<close>.\<close>

partial_function (option) FixupRangesDuringDelete :: "pr_control \<Rightarrow> pr_state \<Rightarrow> pr_state option" where
  "FixupRangesDuringDelete c s = do {
     res \<leftarrow> StepTowardOptimalRangesInternal c False s;
     if fst res then Some (snd res) else FixupRangesDuringDelete c (snd res) }"

declare FixupRangesDuringDelete.simps [code]

definition DeleteRange :: "pr_control \<Rightarrow> mrange \<Rightarrow> pr_state \<Rightarrow> pr_state option" where
  "DeleteRange c rng s =
     (if \<not> is_dynamic s then Some s
      else do {
        zx_assert (find_key rng (requested_ranges s) \<noteq> length (requested_ranges s));
        let required_range =
              AlignRequestedRange (round_down c) (round_up c) rng (range_granularity s);
        s1 \<leftarrow> PropagateRequiredRangesToGoalRanges required_range
          (s\<lparr>requested_ranges := erase_key rng (requested_ranges s),
             requested_bytes := u64_sub (requested_bytes s) (r_length rng),
             required_ranges := erase_iter (find_key required_range (required_ranges s))
               (required_ranges s)\<rparr>);
        FixupRangesDuringDelete c s1 })"

text \<open>The queries. A callback is modelled by the list of ranges it is called with.\<close>

definition overlap_call :: "mrange \<Rightarrow> mrange \<Rightarrow> mrange list option" where
  "overlap_call gap rng =
     (if IsOverlap gap rng then do { r \<leftarrow> Intersect gap rng; Some [r] } else Some [])"

fun overlap_calls :: "mrange list \<Rightarrow> mrange \<Rightarrow> mrange list option" where
  "overlap_calls [] rng = Some []"
| "overlap_calls (gap # gs) rng = do {
     xs \<leftarrow> overlap_call gap rng;
     ys \<leftarrow> overlap_calls gs rng;
     Some (xs @ ys) }"

definition ForUnprotectedRangesOverlappingRange ::
  "pr_control \<Rightarrow> mrange \<Rightarrow> pr_state \<Rightarrow> mrange list option" where
  "ForUnprotectedRangesOverlappingRange c rng s =
     (let entire_range = BeginLength (GetBase c) (GetSize c)
      in if \<not> is_dynamic s then Some []
      else if ranges s = [] then do { r \<leftarrow> Intersect entire_range rng; Some [r] }
      else case IteratorsCoveringPotentialOverlapsOfRangeWithRanges rng (ranges s) of
        (b, e) \<Rightarrow>
        (let iter_begin = (if b \<noteq> 0 then b - 1 else b);
             iter_end = (if e \<noteq> length (ranges s) then e + 1 else e)
         in do {
           zx_assert (iter_begin \<noteq> iter_end);
           before \<leftarrow> (if iter_begin = 0
                    then overlap_call (BeginEnd (r_begin entire_range) (r_begin (ranges s ! iter_begin)))
                           rng
                    else Some []);
           between \<leftarrow> overlap_calls (gaps_from None (slice iter_begin iter_end (ranges s))) rng;
           behind \<leftarrow> (if iter_end = length (ranges s)
                   then overlap_call (BeginEnd (r_end (last (ranges s))) (r_end entire_range)) rng
                   else Some []);
           Some (before @ between @ behind) }))"

definition ForUnprotectedRanges :: "pr_control \<Rightarrow> pr_state \<Rightarrow> mrange list option" where
  "ForUnprotectedRanges c s =
     ForUnprotectedRangesOverlappingRange c (BeginLength (GetBase c) (GetSize c)) s"

text \<open>The operands of the quotients; the division is one of floating-point numbers.\<close>

definition GetEfficiency_operands :: "pr_control \<Rightarrow> pr_state \<Rightarrow> nat \<times> nat" where
  "GetEfficiency_operands c s =
     (u64_sub (GetSize c) (ranges_bytes s), u64_sub (GetSize c) (requested_bytes s))"

definition GetLoanableBytes :: "pr_control \<Rightarrow> pr_state \<Rightarrow> nat" where
  "GetLoanableBytes c s = u64_sub (GetSize c) (ranges_bytes s)"

definition GetLoanableRatio_operands :: "pr_control \<Rightarrow> pr_state \<Rightarrow> nat \<times> nat" where
  "GetLoanableRatio_operands c s = (GetLoanableBytes c s, GetSize c)"

section \<open>The invariant of the class\<close>

text \<open>
  What the code relies on of the rounding functions of \<open>fbl\<close>: the neighbouring multiples of the
  granularity, when they are representable.
\<close>

definition fbl_rounding :: "pr_control \<Rightarrow> bool" where
  "fbl_rounding c \<longleftrightarrow> (\<forall>x g. 1 \<le> g \<and> x + g < W64 \<longrightarrow>
     g dvd round_down c x g \<and> round_down c x g \<le> x \<and> x < round_down c x g + g \<and>
     g dvd round_up c x g \<and> x \<le> round_up c x g \<and> round_up c x g < x + g)"

text \<open>
  A dynamic control with room for two logical ranges. With one logical range the goal of two separate
  required ranges does not exist.
\<close>

definition control_ok :: "pr_control \<Rightarrow> bool" where
  "control_ok c \<longleftrightarrow> IsDynamic c \<and> MaxRangeCount c < W64 \<and>
     (if HasModProtectedRange c then 3 else 4) \<le> MaxRangeCount c \<and>
     1 \<le> GetRangeGranularity c \<and> fbl_rounding c"

definition request_ok :: "pr_control \<Rightarrow> mrange \<Rightarrow> bool" where
  "request_ok c r \<longleftrightarrow> good r \<and> r_end r + GetRangeGranularity c < W64"

definition align :: "pr_control \<Rightarrow> mrange \<Rightarrow> mrange" where
  "align c r = AlignRequestedRange (round_down c) (round_up c) r (GetRangeGranularity c)"

definition configured :: "pr_control \<Rightarrow> pr_state \<Rightarrow> bool" where
  "configured c s \<longleftrightarrow> is_dynamic s \<and> max_range_count s = MaxRangeCount c \<and>
     is_mod_available s = HasModProtectedRange c \<and> range_granularity s = GetRangeGranularity c \<and>
     max_range_count s = max_logical_range_count s + (if is_mod_available s then 1 else 2)"

text \<open>The requests and their alignment.\<close>

definition requests_inv :: "pr_control \<Rightarrow> pr_state \<Rightarrow> bool" where
  "requests_inv c s \<longleftrightarrow> nonoverlap (requested_ranges s) \<and> (\<forall>r\<in>set (requested_ranges s). request_ok c r) \<and>
     requested_bytes s = total_bytes (requested_ranges s) \<and> sorted (required_ranges s) \<and>
     mset (required_ranges s) = image_mset (align c) (mset (requested_ranges s))"

text \<open>The derived containers are what a computation from scratch gives for the offsets \<open>C\<close>.\<close>

definition derived :: "nat set \<Rightarrow> pr_state \<Rightarrow> bool" where
  "derived C s \<longleftrightarrow> separated (coalesced_required_ranges s) \<and> covers (coalesced_required_ranges s) = C \<and>
     interior_unused_ranges s = gaps (coalesced_required_ranges s) \<and>
     interior_unused_ranges_by_length s = sort_key (\<lambda>r. by_length_key r) (gaps (coalesced_required_ranges s)) \<and>
     largest_interior_unused_ranges s = largest_of (max_logical_range_count s) (coalesced_required_ranges s) \<and>
     goal_ranges s = goal_of (max_logical_range_count s) (coalesced_required_ranges s)"

definition aligned_ranges :: "nat \<Rightarrow> mrange list \<Rightarrow> bool" where
  "aligned_ranges g rs \<longleftrightarrow> (\<forall>r\<in>set rs. g dvd r_begin r \<and> g dvd r_end r)"

definition required_offsets :: "pr_state \<Rightarrow> nat set" where
  "required_offsets s = covers (required_ranges s)"

definition pr_inv :: "pr_control \<Rightarrow> pr_state \<Rightarrow> bool" where
  "pr_inv c s \<longleftrightarrow> configured c s \<and> requests_inv c s \<and> derived (required_offsets s) s \<and>
     hw_inv s \<and> length (ranges s) \<le> max_logical_range_count s \<and>
     required_offsets s \<subseteq> covers (ranges s) \<and> aligned_ranges (range_granularity s) (ranges s)"

lemma required_from_request:
  assumes "requests_inv c s" "q \<in> set (required_ranges s)"
  shows "\<exists>r\<in>set (requested_ranges s). request_ok c r \<and> q = align c r"
proof -
  have "q \<in># image_mset (align c) (mset (requested_ranges s))"
    using assms by (metis requests_inv_def set_mset_mset)
  then show ?thesis using assms(1) by (auto simp: requests_inv_def)
qed

lemma configured_bounds:
  assumes "control_ok c" "configured c s"
  shows "2 \<le> max_logical_range_count s" "max_logical_range_count s < W64" "max_range_count s < W64"
    "max_range_count s = max_logical_range_count s + (if is_mod_available s then 1 else 2)"
    "1 \<le> range_granularity s" "range_granularity s = GetRangeGranularity c" "is_dynamic s"
  using assms unfolding control_ok_def configured_def by (auto split: if_splits)

lemma align_props:
  assumes "control_ok c" "request_ok c r"
  shows "good (align c r)" "r_begin (align c r) = round_down c (r_begin r) (GetRangeGranularity c)"
    "r_end (align c r) = round_up c (r_end r) (GetRangeGranularity c)"
    "r_begin (align c r) \<le> r_begin r" "r_begin r < r_begin (align c r) + GetRangeGranularity c"
    "r_end r \<le> r_end (align c r)" "r_end (align c r) < r_end r + GetRangeGranularity c"
    "GetRangeGranularity c dvd r_begin (align c r)" "GetRangeGranularity c dvd r_end (align c r)"
    "pts r \<subseteq> pts (align c r)"
proof -
  let ?g = "GetRangeGranularity c"
  have r: "good r" "r_end r + ?g < W64" and g: "1 \<le> ?g" and fbl: "fbl_rounding c"
    using assms by (auto simp: request_ok_def control_ok_def)
  have lt: "r_begin r < r_end r" by (rule good_begin_less_end [OF r(1)])
  have d: "?g dvd round_down c (r_begin r) ?g" "round_down c (r_begin r) ?g \<le> r_begin r"
    "r_begin r < round_down c (r_begin r) ?g + ?g"
    using fbl g r(2) lt unfolding fbl_rounding_def by auto
  have u: "?g dvd round_up c (r_end r) ?g" "r_end r \<le> round_up c (r_end r) ?g"
    "round_up c (r_end r) ?g < r_end r + ?g"
    using fbl g r(2) unfolding fbl_rounding_def by auto
  have w: "round_up c (r_end r) ?g < W64" "round_down c (r_begin r) ?g < round_up c (r_end r) ?g"
    using d u r(2) lt by linarith+
  have a: "align c r = BeginEnd (round_down c (r_begin r) ?g) (round_up c (r_end r) ?g)"
    by (simp add: align_def AlignRequestedRange_def Let_def)
  show "good (align c r)" and b: "r_begin (align c r) = round_down c (r_begin r) ?g"
    and e: "r_end (align c r) = round_up c (r_end r) ?g"
    unfolding a using w by (simp_all add: BeginEnd_good BeginEnd_end)
  show "r_begin (align c r) \<le> r_begin r" "r_begin r < r_begin (align c r) + ?g" "r_end r \<le> r_end (align c r)"
    "r_end (align c r) < r_end r + ?g" "?g dvd r_begin (align c r)" "?g dvd r_end (align c r)"
    "pts r \<subseteq> pts (align c r)"
    unfolding pts_def b e using d u by auto
qed

lemma dvd_le_step: "(g :: nat) dvd a \<Longrightarrow> g dvd b \<Longrightarrow> a < b + g \<Longrightarrow> a \<le> b"
  by (metis add_diff_cancel_left' dvd_diff_nat dvd_imp_le leI less_imp_add_positive nat_add_left_cancel_less
      not_less)

text \<open>Requests in order have aligned ranges in order.\<close>

lemma align_mono:
  assumes "control_ok c" "request_ok c p" "request_ok c q" "r_end p \<le> r_begin q"
  shows "r_begin (align c p) \<le> r_begin (align c q)" "r_end (align c p) \<le> r_end (align c q)"
proof -
  let ?g = "GetRangeGranularity c"
  note p = align_props [OF assms(1,2)] and q = align_props [OF assms(1,3)]
  have lt: "r_begin p < r_end p" "r_begin q < r_end q"
    using assms(2,3) good_begin_less_end by (auto simp: request_ok_def)
  show "r_begin (align c p) \<le> r_begin (align c q)"
    by (rule dvd_le_step [of ?g]) (use p q lt assms(4) in auto)
  show "r_end (align c p) \<le> r_end (align c q)"
    by (rule dvd_le_step [of ?g]) (use p q lt assms(4) in auto)
qed

lemma required_monotone:
  assumes c: "control_ok c" and r: "\<forall>r\<in>set R. request_ok c r" "nonoverlap R"
    and q: "sorted Q" "mset Q = image_mset (align c) (mset R)"
  shows "monotone_ranges Q"
proof -
  have mem: "\<exists>p\<in>set R. a = align c p" if "a \<in> set Q" for a
    using that arg_cong [OF q(2), of set_mset] by auto
  have good: "good a" if "a \<in> set Q" for a using mem [OF that] align_props(1) [OF c] r(1) by auto
  have pair: "r_begin a \<le> r_begin b \<and> r_end a \<le> r_end b" if ab: "a \<in> set Q" "b \<in> set Q" "a \<le> b" for a b
  proof -
    obtain p p' where p: "p \<in> set R" "p' \<in> set R" "a = align c p" "b = align c p'" using mem ab(1,2) by blast
    have le: "r_begin a \<le> r_begin b" "r_begin a = r_begin b \<Longrightarrow> r_length a \<le> r_length b"
      using ab(3) by (auto simp: less_eq_mrange_def CompareRangeByBegin_def split: if_splits)
    consider "p = p'" | "r_end p \<le> r_begin p'" | "r_end p' \<le> r_begin p"
      using nonoverlap_two [OF r(2) p(1,2)] unfolding IsOverlap_iff by linarith
    then show ?thesis
    proof cases
      case 3
      then have "r_begin a = r_begin b" using align_mono(1) [OF c _ _ 3] r(1) p le(1) by auto
      then have "r_end a \<le> r_end b" using le(2) good ab good_end [of a] good_end [of b] by simp
      then show ?thesis using le(1) by simp
    qed (use align_mono [OF c] r(1) p in auto)
  qed
  have "sorted_wrt (\<lambda>a b. r_begin a \<le> r_begin b \<and> r_end a \<le> r_end b) Q"
    using q(1) pair by (rule sorted_wrt_mono_rel [rotated])
  then show ?thesis using good by (simp add: monotone_ranges_def)
qed

section \<open>From the required ranges to the goal\<close>

text \<open>Everything but the derived containers is left alone.\<close>

definition same_but_derived :: "pr_state \<Rightarrow> pr_state \<Rightarrow> bool" where
  "same_but_derived s s' \<longleftrightarrow>
     s' = s\<lparr>coalesced_required_ranges := coalesced_required_ranges s',
            interior_unused_ranges := interior_unused_ranges s',
            interior_unused_ranges_by_length := interior_unused_ranges_by_length s',
            largest_interior_unused_ranges := largest_interior_unused_ranges s',
            goal_ranges := goal_ranges s'\<rparr>"

lemma same_but_derived_fields:
  assumes "same_but_derived s s'"
  shows "requested_ranges s' = requested_ranges s" "requested_bytes s' = requested_bytes s"
    "required_ranges s' = required_ranges s" "ranges s' = ranges s" "ranges_bytes s' = ranges_bytes s"
    "is_dynamic s' = is_dynamic s" "max_range_count s' = max_range_count s"
    "is_mod_available s' = is_mod_available s" "max_logical_range_count s' = max_logical_range_count s"
    "range_granularity s' = range_granularity s" "calls s' = calls s"
  using assms unfolding same_but_derived_def by (cases s; cases s'; simp)+

lemma PropagateRequiredRangesToGoalRanges_spec:
  assumes d: "derived C s" and q: "monotone_ranges (required_ranges s)" and r: "good r"
    and same: "C - pts r = covers (required_ranges s) - pts r"
    and n: "2 \<le> max_logical_range_count s" "max_logical_range_count s < W64"
  shows "\<exists>s'. PropagateRequiredRangesToGoalRanges r s = Some s' \<and> same_but_derived s s' \<and>
    derived (covers (required_ranges s)) s'"
proof -
  let ?n = "max_logical_range_count s" and ?k = "\<lambda>r. by_length_key r"
  have D: "separated (coalesced_required_ranges s)" "covers (coalesced_required_ranges s) = C"
    "interior_unused_ranges s = gaps (coalesced_required_ranges s)"
    "interior_unused_ranges_by_length s = sort_key ?k (gaps (coalesced_required_ranges s))"
    using d by (auto simp: derived_def)
  obtain co where co: "UpdateCoalescedRequiredRanges r (required_ranges s) (coalesced_required_ranges s) = Some co"
    "separated co" "covers co = covers (required_ranges s)"
    using UpdateCoalescedRequiredRanges_spec [OF r D(1) q] D(2) same by auto
  have un: "UpdateInteriorUnusedRanges r co (interior_unused_ranges s, interior_unused_ranges_by_length s) =
      Some (gaps co, sort_key ?k (gaps co))"
    unfolding D(3,4) using UpdateInteriorUnusedRanges_spec [OF r D(1) co(2)] D(2) co(3) same by simp
  have n1: "1 \<le> ?n" using n by simp
  have L: "length (largest_of ?n co) = min (?n - 1) (length co - 1)"
    by (rule largest_of_props(3) [OF co(2) n1 n(2)])
  have G: "BuildGoalRanges co (largest_of ?n co) = Some (goal_of ?n co)"
    using BuildGoalRanges_eq [OF co(2) n1 n(2)] n(1) by simp
  have len: "length (goal_of ?n co) = min ?n (length co)"
    using goal_of_fill(4) [OF co(2) _ n1 n(2)] by (cases "co = []") (simp_all add: goal_of_def)
  define s' where "s' = s\<lparr>coalesced_required_ranges := co, interior_unused_ranges := gaps co,
    interior_unused_ranges_by_length := sort_key ?k (gaps co),
    largest_interior_unused_ranges := largest_of ?n co, goal_ranges := goal_of ?n co\<rparr>"
  have a1: "co = [] \<or> length (gaps co) + 1 = length co" by (cases co) (simp_all add: length_gaps)
  have a2: "length (largest_of ?n co) = min (u64_sub ?n 1) (length (gaps co))"
    using L n by (simp add: u64_sub_id length_gaps)
  have a3: "largest_of ?n co = [] \<or> length (goal_of ?n co) = length (largest_of ?n co) + 1"
    using L len n(1) by (cases "largest_of ?n co"; cases co) (auto simp: min_def split: if_splits)
  have "PropagateRequiredRangesToGoalRanges r s = Some s'"
    unfolding PropagateRequiredRangesToGoalRanges_def using co(1) un G a1 a2 a3 len
    by (simp add: largest_of_def [symmetric] Let_def s'_def)
  moreover have "derived (covers (required_ranges s)) s'" using co by (simp add: derived_def s'_def)
  moreover have "same_but_derived s s'" by (simp add: same_but_derived_def s'_def)
  ultimately show ?thesis by blast
qed

lemma derived_unique:
  assumes "derived C s" "derived C s'" "max_logical_range_count s' = max_logical_range_count s"
  shows "coalesced_required_ranges s' = coalesced_required_ranges s"
    "interior_unused_ranges s' = interior_unused_ranges s"
    "interior_unused_ranges_by_length s' = interior_unused_ranges_by_length s"
    "largest_interior_unused_ranges s' = largest_interior_unused_ranges s" "goal_ranges s' = goal_ranges s"
proof -
  show c: "coalesced_required_ranges s' = coalesced_required_ranges s"
    using assms(1,2) by (intro separated_unique) (auto simp: derived_def)
  show "interior_unused_ranges s' = interior_unused_ranges s"
    "interior_unused_ranges_by_length s' = interior_unused_ranges_by_length s"
    "largest_interior_unused_ranges s' = largest_interior_unused_ranges s" "goal_ranges s' = goal_ranges s"
    using assms c by (auto simp: derived_def)
qed

lemma derived_goal:
  assumes "derived C s" "1 \<le> max_logical_range_count s" "max_logical_range_count s < W64"
  shows "separated (goal_ranges s)" "C \<subseteq> covers (goal_ranges s)"
    "length (goal_ranges s) \<le> max_logical_range_count s" "goal_ranges s \<noteq> [] \<Longrightarrow> C \<noteq> {}"
    "g \<in> set (goal_ranges s) \<Longrightarrow> r_begin g \<in> C \<and> r_end g - 1 \<in> C"
proof -
  have D: "separated (coalesced_required_ranges s)" "covers (coalesced_required_ranges s) = C"
    "goal_ranges s = goal_of (max_logical_range_count s) (coalesced_required_ranges s)"
    using assms(1) by (auto simp: derived_def)
  note g = goal_of_props [OF D(1) assms(2,3), folded D(3)]
  show "separated (goal_ranges s)" "C \<subseteq> covers (goal_ranges s)" "length (goal_ranges s) \<le> max_logical_range_count s"
    using g(1,3,4) D(2) by auto
  show e: "g \<in> set (goal_ranges s) \<Longrightarrow> r_begin g \<in> C \<and> r_end g - 1 \<in> C" for g using g(6) D(2) by auto
  show "goal_ranges s \<noteq> [] \<Longrightarrow> C \<noteq> {}" using e by (metis empty_iff list.set_sel(1))
qed

end
