(* ===== verification/Sysmem_Ranges_Step.thy ===== *)
theory Sysmem_Ranges_Step
  imports Sysmem_Protected_Ranges
begin

text \<open>
  \<open>StepTowardOptimalRangesInternal\<close> and \<open>DeleteRange\<close>: one step keeps the invariant and the contract of
  the control interface, no assertion and no panic is reached, and a step that is not refused
  strictly reduces the offsets protected outside the goal. So the loop of \<open>DeleteRange\<close> ends, and
  repeated steps end at the goal.
\<close>

section \<open>Alignment of the goal\<close>

lemma coalesced_aligned:
  assumes cs: "separated cs" and Q: "\<forall>q\<in>set Q. good q \<and> g dvd r_begin q \<and> g dvd r_end q" "covers cs = covers Q"
  shows "aligned_ranges g cs"
  unfolding aligned_ranges_def
proof
  fix r assume r: "r \<in> set cs"
  have gr: "good r" "r_begin r < r_end r" using separated_good [OF cs r] good_begin_less_end by auto
  have other: "x \<in> pts r" if "x \<in> covers cs" "r_begin r - 1 \<le> x" "x \<le> r_end r" for x
  proof -
    obtain p where p: "p \<in> set cs" "x \<in> pts p" using \<open>x \<in> covers cs\<close> by (auto simp: covers_iff)
    then have "p = r" using separated_two [OF cs p(1) r] that(2,3) gr(2) by (auto simp: pts_def)
    then show ?thesis using p(2) by simp
  qed
  have "r_begin r \<in> covers Q" "r_end r - 1 \<in> covers Q"
    using pts_nonempty [OF gr(1)] pts_last [OF gr(1)] pts_subset_covers [OF r] Q(2) by auto
  then obtain q p where q: "q \<in> set Q" "r_begin r \<in> pts q" and p: "p \<in> set Q" "r_end r - 1 \<in> pts p"
    by (auto simp: covers_iff)
  have "\<not> r_begin q < r_begin r"
  proof
    assume lt: "r_begin q < r_begin r"
    then have "r_begin r - 1 \<in> pts q" using q(2) by (auto simp: pts_def)
    then have "r_begin r - 1 \<in> covers cs" using q(1) Q(2) by (auto simp: covers_iff)
    moreover have "r_begin r - 1 \<le> r_end r" "r_begin r - 1 < r_begin r" using gr(2) lt by simp_all
    ultimately show False using other [of "r_begin r - 1"] by (simp add: pts_def)
  qed
  then have "r_begin q = r_begin r" using q(2) by (auto simp: pts_def)
  moreover have "\<not> r_end r < r_end p"
  proof
    assume "r_end r < r_end p"
    then have "r_end r \<in> pts p" using p(2) gr(2) by (auto simp: pts_def)
    then have "r_end r \<in> covers cs" using p(1) Q(2) by (auto simp: covers_iff)
    moreover have "r_begin r - 1 \<le> r_end r" using gr(2) by simp
    ultimately show False using other [of "r_end r"] by (simp add: pts_def)
  qed
  then have "r_end p = r_end r" using p(2) gr(2) by (auto simp: pts_def)
  ultimately show "g dvd r_begin r \<and> g dvd r_end r" using q(1) p(1) Q(1) by metis
qed

lemma gaps_aligned:
  assumes "separated rs" "aligned_ranges g rs"
  shows "aligned_ranges g (gaps rs)"
  unfolding aligned_ranges_def
proof
  fix h assume "h \<in> set (gaps rs)"
  then obtain a b where ab: "adjacent rs a b" "h = BeginEnd (r_end a) (r_begin b)" by (auto simp: set_gaps)
  then show "g dvd r_begin h \<and> g dvd r_end h"
    using gap_begin_end [OF assms(1) ab] adjacent_set [OF ab(1)] assms(2) by (auto simp: aligned_ranges_def)
qed

lemma goal_aligned:
  assumes cs: "separated cs" "aligned_ranges g cs" and n: "1 \<le> n" "n < W64"
  shows "aligned_ranges g (goal_of n cs)"
  unfolding aligned_ranges_def
proof
  fix q assume q: "q \<in> set (goal_of n cs)"
  then have ne: "cs \<noteq> []" by (auto simp: goal_of_def)
  note b = separated_hull_bounds [OF cs(1) ne]
  have L: "\<forall>h\<in>set (largest_of n cs). good h \<and> g dvd r_begin h \<and> g dvd r_end h"
    using largest_of_props(2) [OF cs(1) n] gaps_aligned [OF cs] gap_good [OF cs(1)] by (auto simp: aligned_ranges_def)
  have "r_begin (hd cs) < W64" using b(1,2) by simp
  then have "(r_begin q = r_begin (hd cs) \<or> (\<exists>h\<in>set (largest_of n cs). r_begin q = r_end h)) \<and>
      (r_end q = r_end (last cs) \<or> (\<exists>h\<in>set (largest_of n cs). r_end q = r_begin h))"
    using fill_ends [of q "r_begin (hd cs)" "largest_of n cs" "r_end (last cs)"] q ne b(2) L by (simp add: goal_of_def)
  then show "g dvd r_begin q \<and> g dvd r_end q" using L cs(2) ne by (auto simp: aligned_ranges_def)
qed

lemma pr_goal_aligned:
  assumes c: "control_ok c" and s: "configured c s" "requests_inv c s" "derived (required_offsets s) s"
  shows "aligned_ranges (range_granularity s) (goal_ranges s)"
proof -
  note b = configured_bounds [OF c s(1)]
  have Q: "\<forall>q\<in>set (required_ranges s). good q \<and> range_granularity s dvd r_begin q \<and> range_granularity s dvd r_end q"
  proof
    fix q assume "q \<in> set (required_ranges s)"
    then obtain r where "request_ok c r" "q = align c r" using required_from_request [OF s(2)] by blast
    then show "good q \<and> range_granularity s dvd r_begin q \<and> range_granularity s dvd r_end q"
      using align_props [OF c] b(6) by simp
  qed
  have D: "separated (coalesced_required_ranges s)"
    "covers (coalesced_required_ranges s) = covers (required_ranges s)"
    "goal_ranges s = goal_of (max_logical_range_count s) (coalesced_required_ranges s)"
    using s(3) by (auto simp: derived_def required_offsets_def)
  show ?thesis unfolding D(3)
    using b by (intro goal_aligned coalesced_aligned [OF D(1) Q D(2)] D(1)) auto
qed

section \<open>One step\<close>

text \<open>Every hardware range holds a required offset.\<close>

definition fresh :: "pr_state \<Rightarrow> bool" where
  "fresh s \<longleftrightarrow> (\<forall>r\<in>set (ranges s). pts r \<inter> required_offsets s \<noteq> {})"

definition excess :: "pr_state \<Rightarrow> nat" where
  "excess s = card (covers (ranges s) - covers (goal_ranges s))"

definition step_ok :: "pr_control \<Rightarrow> pr_state \<Rightarrow> pr_state \<Rightarrow> bool" where
  "step_ok c s s' \<longleftrightarrow> hw_frame s s' \<and> pr_inv c s' \<and> emits (required_offsets s) s s' \<and> (fresh s \<longrightarrow> fresh s')"

lemma pr_inv_hw:
  assumes "pr_inv c s" "hw_frame s s'" "hw_inv s'" "length (ranges s') \<le> max_logical_range_count s"
    "required_offsets s \<subseteq> covers (ranges s')" "aligned_ranges (range_granularity s) (ranges s')"
  shows "pr_inv c s'"
  using assms unfolding pr_inv_def configured_def requests_inv_def derived_def required_offsets_def
  by (auto simp: hw_frame_fields [OF assms(2)])

lemma hw_frame_offsets: "hw_frame s s' \<Longrightarrow> required_offsets s' = required_offsets s"
  by (simp add: required_offsets_def hw_frame_fields)

lemma excess_less:
  assumes "hw_frame s s'" "covers (ranges s') \<subseteq> covers (ranges s) \<union> covers (goal_ranges s)"
    "x \<in> covers (ranges s)" "x \<notin> covers (goal_ranges s)" "x \<notin> covers (ranges s')"
  shows "excess s' < excess s"
proof -
  have "covers (ranges s') - covers (goal_ranges s) \<subset> covers (ranges s) - covers (goal_ranges s)"
    using assms(2-5) by blast
  then show ?thesis unfolding excess_def hw_frame_fields [OF assms(1)] by (intro psubset_card_mono) auto
qed

text \<open>What the steps use of the invariant.\<close>

lemma pr_inv_facts:
  assumes c: "control_ok c" and s: "pr_inv c s"
  shows "hw_inv s" "separated (ranges s)" "separated (goal_ranges s)" "length (ranges s) \<le> max_logical_range_count s"
    "required_offsets s \<subseteq> covers (ranges s)" "required_offsets s \<subseteq> covers (goal_ranges s)"
    "\<forall>g\<in>set (goal_ranges s). r_begin g \<in> required_offsets s \<and> r_end g - 1 \<in> required_offsets s"
    "aligned_ranges (range_granularity s) (ranges s)" "aligned_ranges (range_granularity s) (goal_ranges s)"
    "\<forall>r\<in>set (ranges s). good r"
proof -
  have i: "configured c s" "requests_inv c s" "derived (required_offsets s) s" "hw_inv s"
    "length (ranges s) \<le> max_logical_range_count s" "required_offsets s \<subseteq> covers (ranges s)"
    "aligned_ranges (range_granularity s) (ranges s)"
    using s by (auto simp: pr_inv_def)
  note b = configured_bounds [OF c i(1)]
  have "1 \<le> max_logical_range_count s" using b(1) by simp
  note g = derived_goal [OF i(3) this b(2)]
  show "hw_inv s" "length (ranges s) \<le> max_logical_range_count s" "required_offsets s \<subseteq> covers (ranges s)"
    "aligned_ranges (range_granularity s) (ranges s)" by (fact i)+
  show "aligned_ranges (range_granularity s) (goal_ranges s)" by (rule pr_goal_aligned [OF c i(1-3)])
  show sep: "separated (ranges s)" using i(4) by (simp add: hw_inv_def)
  show "separated (goal_ranges s)" "required_offsets s \<subseteq> covers (goal_ranges s)"
    "\<forall>g\<in>set (goal_ranges s). r_begin g \<in> required_offsets s \<and> r_end g - 1 \<in> required_offsets s" using g by auto
  show "\<forall>r\<in>set (ranges s). good r" using separated_good [OF sep] by blast
qed

lemma step_delete:
  assumes c: "control_ok c" and s: "pr_inv c s" and r: "FindRangeToDelete (ranges s) (goal_ranges s) = Some r"
  shows "\<exists>s'. DoOpDelRange r s = Some s' \<and> step_ok c s s' \<and> excess s' < excess s"
proof -
  note F = pr_inv_facts [OF c s]
  have r': "r \<in> set (ranges s)" "\<forall>g\<in>set (goal_ranges s). \<not> IsOverlap r g"
    using FindRangeToDelete_Some [OF r separated_monotone [OF F(3)] F(10)] by auto
  have gr: "good r" using F(10) r'(1) by blast
  have no: "pts r \<inter> covers (goal_ranges s) = {}"
    using r'(2) IsOverlap_pts [OF gr] separated_good [OF F(3)] by (auto simp: covers_def)
  then have "pts r \<inter> required_offsets s = {}" using F(6) by blast
  then obtain s' where s': "DoOpDelRange r s = Some s'" "hw_frame s s'" "hw_inv s'" "emits (required_offsets s) s s'"
    "ranges s' = erase_key r (ranges s)" "covers (ranges s') = covers (ranges s) - pts r"
    using DoOpDelRange_spec [OF F(1) r'(1)] by blast
  have sub: "set (ranges s') \<subseteq> set (ranges s)" unfolding s'(5) by (auto simp: ranges_ms.set_del)
  have len: "length (ranges s') \<le> length (ranges s)" unfolding s'(5) erase_key_def by simp
  have "pr_inv c s'"
    using s F(4-6,8) s' sub len no
    by (intro pr_inv_hw [OF s s'(2,3)]) (auto simp: aligned_ranges_def)
  moreover have "fresh s \<longrightarrow> fresh s'" using sub by (auto simp: fresh_def hw_frame_offsets [OF s'(2)])
  moreover have "excess s' < excess s"
    using s'(6) no pts_nonempty [OF gr] pts_subset_covers [OF r'(1)]
    by (intro excess_less [OF s'(2), of "r_begin r"]) auto
  ultimately show ?thesis using s' by (auto simp: step_ok_def)
qed

lemma step_shorten:
  assumes c: "control_ok c" and s: "pr_inv c s" and r: "FindRangeToShorten (ranges s) (goal_ranges s) = Some (r, t)"
  shows "\<exists>s'. DoOpShortenRange r t s = Some s' \<and> step_ok c s s' \<and> excess s' < excess s"
proof -
  note F = pr_inv_facts [OF c s]
  have cf: "configured c s" using s by (simp add: pr_inv_def)
  note b = configured_bounds [OF c cf]
  have r': "r \<in> set (ranges s)" "shortens r t" "(pts r - pts t) \<inter> covers (goal_ranges s) = {}"
    using FindRangeToShorten_Some [OF r F(3,10)] by auto
  obtain g where g: "g \<in> set (goal_ranges s)"
    "r_begin t = r_begin g \<and> r_end t = r_end r \<or> r_end t = r_end g \<and> r_begin t = r_begin r"
    using FindRangeToShorten_ends [OF r F(3,10)] by blast
  have K: "(pts r - pts t) \<inter> required_offsets s = {}" using r'(3) F(6) by blast
  obtain s' where s': "DoOpShortenRange r t s = Some s'" "hw_frame s s'" "hw_inv s'" "emits (required_offsets s) s s'"
    "ranges s' = emplace t (erase_key r (ranges s))" "covers (ranges s') = covers (ranges s) - (pts r - pts t)"
    using DoOpShortenRange_spec [OF F(1) r'(1,2) K F(4) b(3,4)] by blast
  have st: "set (ranges s') = insert t (set (ranges s) - {r})"
    unfolding s'(5) by (auto simp: ranges_ms.set_ins ranges_ms.set_del)
  have len: "length (ranges s') \<le> length (ranges s)"
    unfolding s'(5) ranges_ms.length_ins erase_key_def using length_filter_less [OF r'(1), of "\<lambda>x. x \<noteq> r"] by simp
  have gt: "good t" "r_length t < r_length r" "pts t \<subseteq> pts r" using r'(2) by (auto simp: shortens_def)
  have "aligned_ranges (range_granularity s) (ranges s')"
    using F(8,9) g r'(1) unfolding aligned_ranges_def st by auto
  then have "pr_inv c s'"
    using F(4,5) s'(6) len K by (intro pr_inv_hw [OF s s'(2,3)]) auto
  moreover have "fresh s \<longrightarrow> fresh s'"
  proof -
    have "pts t \<inter> required_offsets s \<noteq> {}"
      using g(2) bspec [OF F(7) g(1)] pts_nonempty [OF gt(1)] pts_last [OF gt(1)] by auto
    then show ?thesis using st by (auto simp: fresh_def hw_frame_offsets [OF s'(2)])
  qed
  moreover have "excess s' < excess s"
  proof -
    have "card (pts t) < card (pts r)" using gt F(10) r'(1) by (simp add: card_pts)
    then obtain x where "x \<in> pts r" "x \<notin> pts t" using gt(3) by (metis less_irrefl subsetI subset_antisym)
    then show ?thesis
      using s'(6) r'(3) pts_subset_covers [OF r'(1)] by (intro excess_less [OF s'(2), of x]) auto
  qed
  ultimately show ?thesis using s' by (auto simp: step_ok_def)
qed

lemma step_split:
  assumes c: "control_ok c" and s: "pr_inv c s" and n: "length (ranges s) < max_logical_range_count s"
    and r: "r \<in> set (ranges s)" "split_candidate (goal_ranges s) r g"
  shows "\<exists>s'. DoOpSplitRange r g s = Some s' \<and> step_ok c s s' \<and> excess s' < excess s"
proof -
  note F = pr_inv_facts [OF c s]
  have cf: "configured c s" using s by (simp add: pr_inv_def)
  note b = configured_bounds [OF c cf]
  have gr: "good r" using F(10) r(1) by blast
  note g = split_candidate_bounds [OF F(3) gr r(2)]
  have no: "pts g \<inter> covers (goal_ranges s) = {}" using gap_offsets [OF F(3) g(4)] by blast
  then have K: "pts g \<inter> required_offsets s = {}" using F(6) by blast
  let ?a = "BeginEnd (r_begin r) (r_begin g)" and ?b = "BeginEnd (r_end g) (r_end r)"
  obtain s' where s': "DoOpSplitRange r g s = Some s'" "hw_frame s s'" "hw_inv s'" "emits (required_offsets s) s s'"
    "set (ranges s') = (set (ranges s) - {r}) \<union> {?a, ?b}" "length (ranges s') = Suc (length (ranges s))"
    "covers (ranges s') = covers (ranges s) - pts g"
    using DoOpSplitRange_spec [OF F(1) r(1) g(1-3) K n b(3,4)] by blast
  have w: "r_begin g < r_end g" "r_end r < W64" "r_begin g < W64"
    using good_begin_less_end [OF g(1)] good_end_less [OF gr] good_end_less [OF g(1)] by auto
  have ends: "r_end ?a = r_begin g" "r_end ?b = r_end r" "good ?a" "good ?b"
    using g(2,3) w by (simp_all add: BeginEnd_end BeginEnd_good)
  have ag: "range_granularity s dvd r_begin g" "range_granularity s dvd r_end g"
    using gaps_aligned [OF F(3,9)] g(4) by (auto simp: aligned_ranges_def)
  have "aligned_ranges (range_granularity s) (ranges s')"
    using F(8) r(1) ag ends unfolding aligned_ranges_def s'(5) by auto
  then have "pr_inv c s'"
    using F(5) s'(6,7) n K by (intro pr_inv_hw [OF s s'(2,3)]) auto
  moreover have "fresh s \<longrightarrow> fresh s'"
  proof -
    obtain p q where pq: "adjacent (goal_ranges s) p q" "g = BeginEnd (r_end p) (r_begin q)"
      using g(4) by (auto simp: set_gaps)
    note e = gap_begin_end [OF F(3) pq]
    have "r_begin g - 1 \<in> required_offsets s" "r_end g \<in> required_offsets s"
      using F(7) adjacent_set [OF pq(1)] e by auto
    moreover have "r_begin g - 1 \<in> pts ?a" "r_end g \<in> pts ?b"
      using pts_last [OF ends(3)] pts_nonempty [OF ends(4)] ends by auto
    ultimately show ?thesis using s'(5) by (auto simp: fresh_def hw_frame_offsets [OF s'(2)])
  qed
  moreover have "excess s' < excess s"
    using s'(7) no pts_nonempty [OF g(1)] g(2,3) w pts_subset_covers [OF r(1)]
    by (intro excess_less [OF s'(2), of "r_begin g"]) (auto simp: pts_def)
  ultimately show ?thesis using s' by (auto simp: step_ok_def)
qed

lemma merge_covered:
  assumes "separated R" "merge_candidate R G a b"
  shows "adjacent R a b" "pts (BeginEnd (r_end a) (r_begin b)) \<subseteq> covers G"
proof -
  show ab: "adjacent R a b" using assms(2) by (simp add: merge_candidate_def)
  obtain g where g: "g \<in> set G" "IsCoveredBy (BeginEnd (r_end a) (r_begin b)) g"
    using assms(2) by (auto simp: merge_candidate_def)
  have "pts (BeginEnd (r_end a) (r_begin b)) \<subseteq> pts g"
    using g(2) gap_begin_end(3) [OF assms(1) ab refl] by (auto simp: IsCoveredBy_def pts_def)
  then show "pts (BeginEnd (r_end a) (r_begin b)) \<subseteq> covers G" using pts_subset_covers [OF g(1)] by blast
qed

lemma step_merge:
  fixes c :: pr_control
  assumes c: "control_ok c" and s: "pr_inv c s" and m: "merge_candidate (ranges s) (goal_ranges s) a b"
  defines "gap \<equiv> BeginEnd (r_end a) (r_begin b)"
  defines "ok \<equiv> UseRange c (calls s) gap"
  shows "\<exists>s'. DoOpMergeRanges c a b s = Some (ok, s') \<and> step_ok c s s' \<and> excess s' \<le> excess s \<and>
    (if ok then length (ranges s') < length (ranges s) \<and> covers (ranges s') = covers (ranges s) \<union> pts gap
     else s' = emit [UseRange_call gap False] s)"
proof -
  note F = pr_inv_facts [OF c s]
  have cf: "configured c s" using s by (simp add: pr_inv_def)
  note bd = configured_bounds [OF c cf]
  note ab = merge_covered [OF F(2) m]
  have n: "length (ranges s) + (if is_mod_available s then 0 else 1) \<le> max_range_count s"
    using F(4) bd(4) by (auto split: if_splits)
  obtain s' where s': "DoOpMergeRanges c a b s = Some (ok, s')" "hw_frame s s'" "hw_inv s'" "emits (required_offsets s) s s'"
    "if ok then covers (ranges s') = covers (ranges s) \<union> pts gap \<and> Suc (length (ranges s')) = length (ranges s) \<and>
       set (ranges s') = (set (ranges s) - {a, b}) \<union> {BeginEnd (r_begin a) (r_end b)}
     else s' = emit [UseRange_call gap False] s"
    using DoOpMergeRanges_spec [OF F(1) ab(1) n bd(3,4), of c "required_offsets s"] unfolding ok_def gap_def by blast
  show ?thesis
  proof (cases ok)
    case False
    then have "ranges s' = ranges s" using s'(5) by (simp add: emit_def)
    moreover have "pr_inv c s'" using F calculation by (intro pr_inv_hw [OF s s'(2,3)]) auto
    ultimately show ?thesis using s' False
      by (auto simp: step_ok_def fresh_def hw_frame_offsets excess_def hw_frame_fields)
  next
    case True
    have R: "covers (ranges s') = covers (ranges s) \<union> pts gap" "Suc (length (ranges s')) = length (ranges s)"
      "set (ranges s') = (set (ranges s) - {a, b}) \<union> {BeginEnd (r_begin a) (r_end b)}"
      using s'(5) True by auto
    note lt = adjacent_separated [OF F(2) ab(1)]
    have ends: "r_end (BeginEnd (r_begin a) (r_end b)) = r_end b"
      using good_end_less [OF lt(3)] good_begin_less_end [OF lt(2)] lt(1) good_begin_less_end [OF lt(3)]
      by (simp add: BeginEnd_end)
    have mem: "a \<in> set (ranges s)" "b \<in> set (ranges s)" using adjacent_set [OF ab(1)] by auto
    have "aligned_ranges (range_granularity s) (ranges s')"
      using F(8) mem ends unfolding aligned_ranges_def R(3) by auto
    then have "pr_inv c s'" using F(4,5) R(1,2) by (intro pr_inv_hw [OF s s'(2,3)]) auto
    moreover have "fresh s \<longrightarrow> fresh s'"
    proof -
      have "pts a \<subseteq> pts (BeginEnd (r_begin a) (r_end b))"
        using ends lt(1) good_begin_less_end [OF lt(3)] by (auto simp: pts_def)
      then have "fresh s \<Longrightarrow> pts (BeginEnd (r_begin a) (r_end b)) \<inter> required_offsets s \<noteq> {}"
        using mem(1) unfolding fresh_def by blast
      then show ?thesis using R(3) by (auto simp: fresh_def hw_frame_offsets [OF s'(2)])
    qed
    moreover have "excess s' \<le> excess s"
    proof -
      have "covers (ranges s') - covers (goal_ranges s) \<subseteq> covers (ranges s) - covers (goal_ranges s)"
        using R(1) ab(2) unfolding gap_def by blast
      then show ?thesis unfolding excess_def hw_frame_fields [OF s'(2)] by (intro card_mono) auto
    qed
    ultimately show ?thesis using s' True R by (auto simp: step_ok_def)
  qed
qed

text \<open>Growing the ranges keeps a split possible.\<close>

lemma merged_has_split:
  assumes R: "separated R" "separated R'" "covers R \<subseteq> covers R'" and G: "separated G"
    and r: "r \<in> set R" "split_candidate G r g"
  shows "FindBestSplit R' G \<noteq> None"
proof -
  have gr: "good r" by (rule separated_good [OF R(1) r(1)])
  have "pts r \<subseteq> covers R'" using pts_subset_covers [OF r(1)] R(3) by blast
  then obtain q where q: "q \<in> set R'" "pts r \<subseteq> pts q" using separated_contains [OF R(2) gr] by blast
  have gq: "good q" by (rule separated_good [OF R(2) q(1)])
  obtain a b where ab: "adjacent (filter (IsOverlap r) G) a b"
    using split_candidate_iff [OF G gr] r(2) by blast
  have "IsOverlap q x" if "x \<in> set G" "IsOverlap r x" for x
    using that q(2) IsOverlap_pts [OF gr] IsOverlap_pts [OF gq] separated_good [OF G that(1)] by blast
  then have "a \<in> set (filter (IsOverlap q) G)" "b \<in> set (filter (IsOverlap q) G)"
    using adjacent_set [OF ab] by auto
  moreover have "a \<noteq> b"
    using adjacent_separated(1,2) [OF separated_filter [OF G] ab] good_begin_less_end by fastforce
  ultimately have "\<not> length (filter (IsOverlap q) G) \<le> 1"
    by (cases "filter (IsOverlap q) G" rule: remdups_adj.cases) auto
  then have "\<exists>h. split_candidate G q h" using no_split_candidate [OF G gq] by blast
  then show ?thesis using FindBestSplit_best [of R' G] q(1) by (auto split: option.splits)
qed

lemma step_ok_trans:
  assumes "step_ok c s s'" "step_ok c s' s''"
  shows "step_ok c s s''"
proof -
  have f: "hw_frame s s'" "hw_frame s' s''" using assms by (auto simp: step_ok_def)
  have "emits (required_offsets s) s s''"
    using assms hw_frame_offsets [OF f(1)] unfolding step_ok_def
    by (intro emits_trans [of _ s s' s'']) (auto simp: hw_frame_fields [OF f(1)])
  then show ?thesis using assms hw_frame_trans [OF f] by (auto simp: step_ok_def)
qed

text \<open>
  A step returns, keeps the invariant and the contract, and either is done, or makes progress, or has
  its \<open>UseRange\<close> refused and changes nothing.
\<close>

lemma StepTowardOptimalRangesInternal_spec:
  assumes c: "control_ok c" and s: "pr_inv c s"
  shows "\<exists>dn s'. StepTowardOptimalRangesInternal c allow s = Some (dn, s') \<and> step_ok c s s' \<and>
    (dn \<longrightarrow> s' = s \<and> (ranges s = goal_ranges s \<or> \<not> allow \<and> length (ranges s) = max_logical_range_count s)) \<and>
    (\<not> dn \<longrightarrow> excess s' < excess s \<or> allow \<and> (\<exists>r. \<not> UseRange c (calls s) r \<and> s' = emit [UseRange_call r False] s)) \<and>
    (ranges s = goal_ranges s \<longrightarrow> dn)"
proof -
  note F = pr_inv_facts [OF c s]
  have D: "separated (coalesced_required_ranges s)" "covers (coalesced_required_ranges s) = required_offsets s"
    "goal_ranges s = goal_of (max_logical_range_count s) (coalesced_required_ranges s)"
    using s by (auto simp: pr_inv_def derived_def)
  have cf: "configured c s" using s by (simp add: pr_inv_def)
  note bd = configured_bounds [OF c cf]
  have n1: "1 \<le> max_logical_range_count s" using bd(1) by simp
  note G = FindBestSplit_best [of "ranges s" "goal_ranges s"]
  show ?thesis
  proof (cases "ranges s = goal_ranges s")
    case True
    have "step_ok c s s" using s unfolding step_ok_def emits_def by (auto intro!: exI [of _ "[]"])
    then show ?thesis using True
      by (intro exI [of _ True] exI [of _ s]) (simp add: StepTowardOptimalRangesInternal_def)
  next
    case ne: False
    show ?thesis
    proof (cases "FindRangeToDelete (ranges s) (goal_ranges s)")
      case (Some r)
      then show ?thesis using step_delete [OF c s Some] ne by (auto simp: StepTowardOptimalRangesInternal_def)
    next
      case del: None
      show ?thesis
      proof (cases "FindRangeToShorten (ranges s) (goal_ranges s)")
        case (Some rt)
        then obtain r t where rt: "FindRangeToShorten (ranges s) (goal_ranges s) = Some (r, t)" by (cases rt) auto
        then show ?thesis
          using step_shorten [OF c s rt] ne del by (auto simp: StepTowardOptimalRangesInternal_def)
      next
        case sh: None
        have "FindBestSplit (ranges s) (goal_ranges s) \<noteq> None"
        proof
          assume "FindBestSplit (ranges s) (goal_ranges s) = None"
          then show False
            using goal_ranges_of.stuck_is_goal [OF D(1) n1 bd(2) F(2,4)] D(2,3) F(5) del sh ne by auto
        qed
        then obtain r g where sp: "FindBestSplit (ranges s) (goal_ranges s) = Some (r, g)" by auto
        have rg: "r \<in> set (ranges s)" "split_candidate (goal_ranges s) r g" using G sp by auto
        have step: "StepTowardOptimalRangesInternal c allow s =
            (if length (ranges s) = max_logical_range_count s
             then if \<not> allow then Some (True, s)
               else do {
                 best \<leftarrow> FindBestMerge (ranges s) (goal_ranges s);
                 case best of
                   Some (first, second) \<Rightarrow> do {
                     (ok, s1) \<leftarrow> DoOpMergeRanges c first second s;
                     if \<not> ok then Some (False, s1)
                     else do {
                       (range_to_split, gap) \<leftarrow> FindBestSplit (ranges s1) (goal_ranges s1);
                       s2 \<leftarrow> DoOpSplitRange range_to_split gap s1;
                       Some (False, s2) } }
                 | None \<Rightarrow> do { s2 \<leftarrow> DoOpSplitRange r g s; Some (False, s2) } }
             else do { s2 \<leftarrow> DoOpSplitRange r g s; Some (False, s2) })"
          using ne del sh sp F(4) by (simp add: StepTowardOptimalRangesInternal_def)
        show ?thesis
        proof (cases "length (ranges s) = max_logical_range_count s")
          case False
          then have "length (ranges s) < max_logical_range_count s" using F(4) by simp
          from step_split [OF c s this rg] show ?thesis using step False ne by auto
        next
          case full: True
          show ?thesis
          proof (cases allow)
            case False
            have "step_ok c s s" using s unfolding step_ok_def emits_def by (auto intro!: exI [of _ "[]"])
            then show ?thesis using False full step ne by auto
          next
            case True
            have meets: "\<forall>r\<in>set (ranges s). \<exists>g\<in>set (goal_ranges s). IsOverlap r g"
              using FindRangeToDelete_None [OF del separated_monotone [OF F(3)] F(10)] .
            obtain a b where ab: "FindBestMerge (ranges s) (goal_ranges s) = Some (Some (a, b))"
              "merge_candidate (ranges s) (goal_ranges s) a b"
              using goal_ranges_of.split_has_merge [OF D(1) n1 bd(2) F(2) full, folded D(3), OF meets rg] by blast
            let ?gap = "BeginEnd (r_end a) (r_begin b)"
            obtain s1 where s1: "DoOpMergeRanges c a b s = Some (UseRange c (calls s) ?gap, s1)" "step_ok c s s1"
              "excess s1 \<le> excess s"
              "if UseRange c (calls s) ?gap
               then length (ranges s1) < length (ranges s) \<and> covers (ranges s1) = covers (ranges s) \<union> pts ?gap
               else s1 = emit [UseRange_call ?gap False] s"
              using step_merge [OF c s ab(2)] by blast
            show ?thesis
            proof (cases "UseRange c (calls s) ?gap")
              case False
              then show ?thesis using step full True ab(1) s1 ne by auto
            next
              case ok: True
              have R1: "covers (ranges s) \<subseteq> covers (ranges s1)" "length (ranges s1) < max_logical_range_count s1"
                and inv1: "pr_inv c s1" and fr: "hw_frame s s1"
                using s1(2,4) ok full by (auto simp: step_ok_def hw_frame_fields)
              note F1 = pr_inv_facts [OF c inv1]
              note f1 = hw_frame_fields [OF fr]
              have "FindBestSplit (ranges s1) (goal_ranges s1) \<noteq> None"
                using merged_has_split [OF F(2) F1(2) R1(1) F(3) rg] f1(8) by simp
              then obtain r1 g1 where sp1: "FindBestSplit (ranges s1) (goal_ranges s1) = Some (r1, g1)" by auto
              then have rg1: "r1 \<in> set (ranges s1)" "split_candidate (goal_ranges s1) r1 g1"
                using FindBestSplit_best [of "ranges s1" "goal_ranges s1"] by auto
              obtain s2 where s2: "DoOpSplitRange r1 g1 s1 = Some s2" "step_ok c s1 s2" "excess s2 < excess s1"
                using step_split [OF c inv1 R1(2) rg1] by blast
              have "StepTowardOptimalRangesInternal c allow s = Some (False, s2)"
                using step full True ab(1) s1(1) ok sp1 s2(1) by simp
              then show ?thesis using step_ok_trans [OF s1(2) s2(2)] s2(3) s1(3) ne by auto
            qed
          qed
        qed
      qed
    qed
  qed
qed

section \<open>Loops over steps\<close>

text \<open>The loop of \<open>FixupRangesDuringDelete\<close> ends, since every step that is not the last makes progress.\<close>

lemma FixupRangesDuringDelete_spec:
  assumes c: "control_ok c" and s: "pr_inv c s"
  shows "\<exists>s'. FixupRangesDuringDelete c s = Some s' \<and> step_ok c s s' \<and>
    (ranges s' = goal_ranges s' \<or> length (ranges s') = max_logical_range_count s')"
  using s
proof (induction "excess s" arbitrary: s rule: less_induct)
  case less
  obtain dn s1 where st: "StepTowardOptimalRangesInternal c False s = Some (dn, s1)" "step_ok c s s1"
    "dn \<longrightarrow> s1 = s \<and> (ranges s = goal_ranges s \<or> length (ranges s) = max_logical_range_count s)"
    "\<not> dn \<longrightarrow> excess s1 < excess s"
    using StepTowardOptimalRangesInternal_spec [OF c less.prems, of False] by auto
  show ?case
  proof (cases dn)
    case True
    then show ?thesis using st by (subst FixupRangesDuringDelete.simps) auto
  next
    case False
    then have lt: "excess s1 < excess s" "pr_inv c s1" using st(2,4) by (auto simp: step_ok_def)
    from less.hyps [OF this] obtain s' where s': "FixupRangesDuringDelete c s1 = Some s'" "step_ok c s1 s'"
      "ranges s' = goal_ranges s' \<or> length (ranges s') = max_logical_range_count s'" by blast
    have "FixupRangesDuringDelete c s = Some s'"
      using st(1) False s'(1) by (subst FixupRangesDuringDelete.simps) simp
    then show ?thesis using step_ok_trans [OF st(2) s'(2)] s'(3) by blast
  qed
qed

text \<open>The caller's loop: up to \<open>k\<close> steps, until one returns true.\<close>

fun steps :: "pr_control \<Rightarrow> nat \<Rightarrow> pr_state \<Rightarrow> (bool \<times> pr_state) option" where
  "steps c 0 s = Some (False, s)"
| "steps c (Suc k) s = do {
     res \<leftarrow> StepTowardOptimalRanges c s;
     if fst res then Some res else steps c k (snd res) }"

lemma steps_spec:
  assumes c: "control_ok c" and s: "pr_inv c s"
  shows "\<exists>dn s'. steps c k s = Some (dn, s') \<and> step_ok c s s' \<and> (dn \<longrightarrow> ranges s' = goal_ranges s')"
  using s
proof (induction k arbitrary: s)
  case 0
  then show ?case unfolding step_ok_def emits_def by (auto intro!: exI [of _ "[]"])
next
  case (Suc k)
  obtain dn s1 where st: "StepTowardOptimalRanges c s = Some (dn, s1)" "step_ok c s s1"
    "dn \<longrightarrow> s1 = s \<and> ranges s = goal_ranges s"
    using StepTowardOptimalRangesInternal_spec [OF c Suc.prems, of True] by (auto simp: StepTowardOptimalRanges_def)
  show ?case
  proof (cases dn)
    case True
    then show ?thesis using st by auto
  next
    case False
    have "pr_inv c s1" using st(2) by (simp add: step_ok_def)
    from Suc.IH [OF this] obtain dn' s' where s': "steps c k s1 = Some (dn', s')" "step_ok c s1 s'"
      "dn' \<longrightarrow> ranges s' = goal_ranges s'" by blast
    then show ?thesis using st(1) False step_ok_trans [OF st(2) s'(2)] by auto
  qed
qed

lemma steps_converge:
  assumes c: "control_ok c" and s: "pr_inv c s" and use: "\<And>cs r. UseRange c cs r" and k: "excess s < k"
  shows "\<exists>s'. steps c k s = Some (True, s') \<and> step_ok c s s' \<and> ranges s' = goal_ranges s'"
  using s k
proof (induction k arbitrary: s)
  case (Suc k)
  obtain dn s1 where st: "StepTowardOptimalRanges c s = Some (dn, s1)" "step_ok c s s1"
    "dn \<longrightarrow> s1 = s \<and> ranges s = goal_ranges s"
    "\<not> dn \<longrightarrow> excess s1 < excess s"
    using StepTowardOptimalRangesInternal_spec [OF c Suc.prems(1), of True] use by (auto simp: StepTowardOptimalRanges_def)
  show ?case
  proof (cases dn)
    case True
    then show ?thesis using st by auto
  next
    case False
    then have "excess s1 < k" "pr_inv c s1" using Suc.prems(2) st(2,4) by (auto simp: step_ok_def)
    from Suc.IH [OF this(2,1)] obtain s' where s': "steps c k s1 = Some (True, s')" "step_ok c s1 s'"
      "ranges s' = goal_ranges s'" by blast
    then show ?thesis using st(1) False step_ok_trans [OF st(2) s'(2)] by auto
  qed
qed simp

end
