(* ===== verification/Sysmem_Ranges_Ops.thy ===== *)
theory Sysmem_Ranges_Ops
  imports Sysmem_Ranges_Step
begin

text \<open>
  \<open>DeleteRange\<close> and \<open>AddRange\<close> as a whole. Deleting a request returns, keeps the invariant and never
  disrupts what stays required. Adding a request either protects it and keeps everything, or leaves
  the object as it was; it relies on every hardware range holding a required offset.
\<close>

section \<open>Changing the requests\<close>

lemma nonoverlap_emplace:
  assumes "nonoverlap rs" "good r" "pts r \<inter> covers rs = {}"
  shows "nonoverlap (emplace r rs)"
proof -
  have dis: "\<not> IsOverlap r x" if "x \<in> set rs" for x
    using assms IsOverlap_pts [OF assms(2) nonoverlap_good [OF assms(1) that]] pts_subset_covers [OF that] by blast
  show ?thesis
  proof (rule nonoverlapI)
    show "sorted (emplace r rs)" by (rule ranges_ms.sorted_ins [OF nonoverlap_sorted [OF assms(1)]])
    show "distinct (emplace r rs)"
      using nonoverlap_distinct [OF assms(1)] dis good_begin_less_end [OF assms(2)]
      by (auto simp: distinct_emplace IsOverlap_iff)
    show "good x" if "x \<in> set (emplace r rs)" for x
      using that assms(2) nonoverlap_good [OF assms(1)] by (auto simp: ranges_ms.set_ins)
    show "\<not> IsOverlap a b" if "a \<in> set (emplace r rs)" "b \<in> set (emplace r rs)" "a \<noteq> b" for a b
      using that dis nonoverlap_two [OF assms(1), of a b] by (auto simp: ranges_ms.set_ins IsOverlap_iff)
  qed
qed

lemma nonoverlap_erase: "nonoverlap rs \<Longrightarrow> nonoverlap (erase_key r rs)"
  unfolding nonoverlap_def erase_key_def by (auto simp: sorted_wrt_filter)

lemma nonoverlap_no_internal_overlap: "nonoverlap rs \<Longrightarrow> \<not> IsAnyInternalOverlap rs"
proof -
  have "\<not> internal_overlap_from e rs" if "nonoverlap rs" "\<forall>r\<in>set rs. e \<le> r_begin r" for e
    using that by (induction rs arbitrary: e) (auto simp: nonoverlap_Cons)
  then show "nonoverlap rs \<Longrightarrow> ?thesis" unfolding IsAnyInternalOverlap_def by blast
qed

lemma erase_found:
  assumes "sorted (Q :: mrange list)" "q \<in> set Q"
  shows "sorted (erase_iter (find_key q Q) Q)" "mset (erase_iter (find_key q Q) Q) = mset Q - {#q#}"
proof -
  have "find_key q Q \<noteq> length Q" using find_key_iff [OF assms(1)] assms(2) by blast
  then have "find_key q Q < length Q" "Q ! find_key q Q = q"
    unfolding find_key_def Let_def by (auto split: if_splits)
  then show "mset (erase_iter (find_key q Q) Q) = mset Q - {#q#}" by (simp add: mset_erase_iter)
  show "sorted (erase_iter (find_key q Q) Q)" by (rule sorted_erase_iter [OF assms(1)])
qed

lemma covers_mset_diff:
  assumes "mset Q' = mset Q - {#q#}" "q \<in> set Q"
  shows "covers Q' - pts q = covers Q - pts q" "covers Q' \<subseteq> covers Q"
proof -
  have "mset Q = add_mset q (mset Q')" using assms by simp
  then have "set Q = insert q (set Q')" by (metis set_mset_add_mset_insert set_mset_mset)
  then show "covers Q' - pts q = covers Q - pts q" "covers Q' \<subseteq> covers Q" by (auto simp: covers_def)
qed

text \<open>The state of the requests after one is taken out.\<close>

definition drop_request :: "pr_control \<Rightarrow> mrange \<Rightarrow> pr_state \<Rightarrow> pr_state" where
  "drop_request c r s = s\<lparr>requested_ranges := erase_key r (requested_ranges s),
     requested_bytes := u64_sub (requested_bytes s) (r_length r),
     required_ranges := erase_iter (find_key (align c r) (required_ranges s)) (required_ranges s)\<rparr>"

lemma requested_align:
  assumes "requests_inv c s" "r \<in> set (requested_ranges s)"
  shows "align c r \<in> set (required_ranges s)" "request_ok c r"
proof -
  have "align c r \<in># image_mset (align c) (mset (requested_ranges s))" using assms(2) by auto
  then show "align c r \<in> set (required_ranges s)" using assms(1) by (metis requests_inv_def set_mset_mset)
  show "request_ok c r" using assms by (simp add: requests_inv_def)
qed

lemma drop_request_inv:
  assumes i: "requests_inv c s" and r: "r \<in> set (requested_ranges s)"
  shows "requests_inv c (drop_request c r s)"
    "required_offsets (drop_request c r s) - pts (align c r) = required_offsets s - pts (align c r)"
    "required_offsets (drop_request c r s) \<subseteq> required_offsets s"
proof -
  have I: "nonoverlap (requested_ranges s)" "\<forall>r\<in>set (requested_ranges s). request_ok c r"
    "requested_bytes s = total_bytes (requested_ranges s)" "sorted (required_ranges s)"
    "mset (required_ranges s) = image_mset (align c) (mset (requested_ranges s))"
    using i by (auto simp: requests_inv_def)
  note q = requested_align(1) [OF i r]
  note e = erase_found [OF I(4) q]
  note d = nonoverlap_distinct [OF I(1)]
  have "u64_sub (total_bytes (requested_ranges s)) (r_length r) = total_bytes (erase_key r (requested_ranges s))"
    using total_erase [OF d r] total_nonoverlap(2) [OF I(1)] by (simp add: u64_sub_id)
  moreover have "mset (required_ranges s) - {#align c r#} = image_mset (align c) (mset (requested_ranges s) - {#r#})"
    unfolding I(5) using r by (simp add: image_mset_Diff)
  ultimately show "requests_inv c (drop_request c r s)"
    using I nonoverlap_erase [OF I(1)] e mset_erase_key [OF d, of r]
    by (auto simp: requests_inv_def drop_request_def ranges_ms.set_del)
  show "required_offsets (drop_request c r s) - pts (align c r) = required_offsets s - pts (align c r)"
    "required_offsets (drop_request c r s) \<subseteq> required_offsets s"
    using covers_mset_diff [OF e(2) q] by (simp_all add: required_offsets_def drop_request_def)
qed

section \<open>DeleteRange\<close>

lemma DeleteRange_spec:
  assumes c: "control_ok c" and s: "pr_inv c s" and r: "r \<in> set (requested_ranges s)"
  shows "\<exists>s'. DeleteRange c r s = Some s' \<and> pr_inv c s' \<and> requested_ranges s' = erase_key r (requested_ranges s) \<and>
    emits (required_offsets s') s s' \<and> required_offsets s' \<subseteq> required_offsets s \<and>
    (ranges s' = goal_ranges s' \<or> length (ranges s') = max_logical_range_count s')"
proof -
  have I: "configured c s" "requests_inv c s" "derived (required_offsets s) s" "hw_inv s"
    "length (ranges s) \<le> max_logical_range_count s" "required_offsets s \<subseteq> covers (ranges s)"
    "aligned_ranges (range_granularity s) (ranges s)"
    using s by (auto simp: pr_inv_def)
  note b = configured_bounds [OF c I(1)]
  define s0 where "s0 = drop_request c r s"
  note d = drop_request_inv [OF I(2) r, folded s0_def]
  have f0: "max_logical_range_count s0 = max_logical_range_count s" by (simp add: s0_def drop_request_def)
  have der0: "derived (required_offsets s) s0" using I(3) by (simp add: derived_def s0_def drop_request_def)
  have mono: "monotone_ranges (required_ranges s0)"
    using d(1) required_monotone [OF c] by (auto simp: requests_inv_def)
  have gq: "good (align c r)" using align_props(1) [OF c requested_align(2) [OF I(2) r]] .
  obtain s1 where s1: "PropagateRequiredRangesToGoalRanges (align c r) s0 = Some s1" "same_but_derived s0 s1"
    "derived (required_offsets s0) s1"
    using PropagateRequiredRangesToGoalRanges_spec [OF der0 mono gq] d(2) b(1,2) f0
    by (auto simp: required_offsets_def)
  note f1 = same_but_derived_fields [OF s1(2)]
  have off: "required_offsets s1 = required_offsets s0" by (simp add: required_offsets_def f1)
  have inv1: "pr_inv c s1"
    using I d s1(3) unfolding pr_inv_def off
    by (auto simp: configured_def requests_inv_def hw_inv_def f1 s0_def drop_request_def)
  obtain s' where s': "FixupRangesDuringDelete c s1 = Some s'" "step_ok c s1 s'"
    "ranges s' = goal_ranges s' \<or> length (ranges s') = max_logical_range_count s'"
    using FixupRangesDuringDelete_spec [OF c inv1] by blast
  have fr: "hw_frame s1 s'" and em: "emits (required_offsets s1) s1 s'" and inv': "pr_inv c s'"
    using s'(2) by (auto simp: step_ok_def)
  have "DeleteRange c r s = Some s'"
    using b(6,7) r I(2) find_key_iff [OF nonoverlap_sorted, of "requested_ranges s" r] s1(1) s'(1)
    by (simp add: DeleteRange_def requests_inv_def s0_def drop_request_def align_def)
  moreover have "emits (required_offsets s') s s'"
    using em hw_frame_offsets [OF fr] unfolding emits_def by (simp add: hw_of_def f1 s0_def drop_request_def)
  moreover have "requested_ranges s' = erase_key r (requested_ranges s)"
    by (simp add: hw_frame_fields [OF fr] f1 s0_def drop_request_def)
  ultimately show ?thesis using inv' s'(3) d(3) off hw_frame_offsets [OF fr] by auto
qed

section \<open>Making room for a new required range\<close>

lemma upper_bound_begin:
  assumes R: "separated R" and i: "i = upper_bound (BeginLength b u64_max) R"
  shows "i \<le> length R" "j < i \<Longrightarrow> r_begin (R ! j) \<le> b" "i \<le> j \<Longrightarrow> j < length R \<Longrightarrow> b < r_begin (R ! j)"
proof -
  note so = separated_sorted [OF R]
  show len: "i \<le> length R" unfolding i by (rule ranges_ms.upper_le)
  show "r_begin (R ! j) \<le> b" if "j < i"
    using ranges_ms.upper_before [OF so, of j "BeginLength b u64_max"] that i
    by (auto simp: less_eq_mrange_def CompareRangeByBegin_def BeginLength_def split: if_splits)
  show "b < r_begin (R ! j)" if "i \<le> j" "j < length R"
  proof -
    have "BeginLength b u64_max < R ! j" using ranges_ms.upper_after [OF so] that i by blast
    moreover have "r_length (R ! j) < W64"
      using good_end [of "R ! j"] good_end_less [of "R ! j"] separated_good [OF R nth_mem [OF that(2)]] by simp
    ultimately show ?thesis
      by (auto simp: less_mrange_def CompareRangeByBegin_def BeginLength_def u64_max_def split: if_splits)
  qed
qed

text \<open>Ranges that grow only by connected pieces over required offsets still all hold one.\<close>

lemma meets_cover:
  assumes Z: "separated Z"
    and p: "\<And>x. x \<in> covers Z \<Longrightarrow> \<exists>p. good p \<and> x \<in> pts p \<and> pts p \<subseteq> covers Z \<and> pts p \<inter> C \<noteq> {}"
  shows "\<forall>t\<in>set Z. pts t \<inter> C \<noteq> {}"
proof
  fix t assume t: "t \<in> set Z"
  have x: "r_begin t \<in> pts t" using pts_nonempty separated_good [OF Z t] by blast
  then obtain p where p: "good p" "r_begin t \<in> pts p" "pts p \<subseteq> covers Z" "pts p \<inter> C \<noteq> {}"
    using p pts_subset_covers [OF t] by blast
  obtain q where q: "q \<in> set Z" "pts p \<subseteq> pts q" using separated_contains [OF Z p(1,3)] by blast
  have "q = t" using nonoverlap_disjoint_pts [OF separated_nonoverlap [OF Z] q(1) t] p(2) q(2) x by blast
  then show "pts t \<inter> C \<noteq> {}" using p(4) q(2) by blast
qed

lemma grown_aligned:
  assumes "separated Z" "aligned_ranges g R" "\<forall>r\<in>set R. good r" "good a" "g dvd r_begin a" "g dvd r_end a"
    and "covers Z = covers R \<union> pts a"
  shows "aligned_ranges g Z"
proof (rule coalesced_aligned [OF assms(1)])
  show "\<forall>q\<in>set (a # R). good q \<and> g dvd r_begin q \<and> g dvd r_end q"
    using assms by (auto simp: aligned_ranges_def)
  show "covers Z = covers (a # R)" using assms(7) by auto
qed

text \<open>
  What \<open>FixupRangesDuringAdd\<close> relies on: the new range is aligned, every range holds an offset of \<open>C\<close>, and
  a range that begins inside the new range reaches its end.
\<close>

definition add_ready :: "pr_control \<Rightarrow> nat set \<Rightarrow> mrange \<Rightarrow> pr_state \<Rightarrow> bool" where
  "add_ready c C q s \<longleftrightarrow> configured c s \<and> derived C s \<and> hw_inv s \<and>
     length (ranges s) \<le> max_logical_range_count s \<and> aligned_ranges (range_granularity s) (ranges s) \<and>
     good q \<and> pts q \<subseteq> C \<and> range_granularity s dvd r_begin q \<and> range_granularity s dvd r_end q \<and>
     (\<forall>t\<in>set (ranges s). pts t \<inter> C \<noteq> {}) \<and>
     (\<forall>t\<in>set (ranges s). r_begin q < r_begin t \<and> r_begin t < r_end q \<longrightarrow> r_end q \<le> r_end t)"

definition add_done :: "nat set \<Rightarrow> nat set \<Rightarrow> mrange \<Rightarrow> pr_state \<Rightarrow> bool \<Rightarrow> pr_state \<Rightarrow> bool" where
  "add_done K C q s ok s' \<longleftrightarrow> hw_frame s s' \<and> hw_inv s' \<and> emits K s s' \<and>
     (if ok then covers (ranges s) \<union> pts q \<subseteq> covers (ranges s') \<and>
        length (ranges s') \<le> max_logical_range_count s \<and> aligned_ranges (range_granularity s) (ranges s') \<and>
        (\<forall>t\<in>set (ranges s'). pts t \<inter> C \<noteq> {})
      else ranges s' = ranges s)"

lemma fixup_extend:
  fixes c :: pr_control
  assumes c: "control_ok c" and s: "add_ready c C q s"
    and i: "i = upper_bound (BeginLength (r_begin q) u64_max) (ranges s)" "i \<noteq> 0"
    and nc: "\<not> r_end q \<le> r_end (ranges s ! (i - 1))"
  defines "t \<equiv> ranges s ! (i - 1)"
  defines "e \<equiv> (if i \<noteq> length (ranges s) then min (r_end q) (r_begin (ranges s ! i)) else r_end q)"
  shows "\<exists>ok s1. DoOpExtendRangeEnd c t (BeginEnd (r_begin t) e) s = Some (ok, s1) \<and> add_done K C q s ok s1"
proof -
  let ?R = "ranges s"
  have S: "configured c s" "hw_inv s" "length ?R \<le> max_logical_range_count s" "aligned_ranges (range_granularity s) ?R"
    "good q" "pts q \<subseteq> C" "range_granularity s dvd r_begin q" "range_granularity s dvd r_end q"
    "\<forall>t\<in>set ?R. pts t \<inter> C \<noteq> {}"
    "\<forall>t\<in>set ?R. r_begin q < r_begin t \<and> r_begin t < r_end q \<longrightarrow> r_end q \<le> r_end t"
    using s by (auto simp: add_ready_def)
  have R: "separated ?R" using S(2) by (simp add: hw_inv_def)
  note bd = configured_bounds [OF c S(1)]
  note ub = upper_bound_begin [OF R i(1)]
  have il: "i - 1 < length ?R" "i - 1 < i" using ub(1) i(2) by auto
  have t: "t \<in> set ?R" "good t" "r_begin t \<le> r_begin q"
    using il separated_good [OF R] ub(2) [OF il(2)] by (auto simp: t_def)
  have lt: "r_end t < r_end q" using nc by (simp add: t_def)
  have wq: "r_begin q < r_end q" "r_end q < W64" using good_begin_less_end [OF S(5)] good_end_less [OF S(5)] by auto
  have next1: "r_end t < r_begin (?R ! i)" if "i \<noteq> length ?R"
    using separated_nth [OF R, of "i - 1" i] that ub(1) i(2) by (simp add: t_def)
  have e: "r_end t < e" "e \<le> r_end q" "e < W64" "range_granularity s dvd e"
  proof -
    show "r_end t < e" "e \<le> r_end q" using lt next1 by (auto simp: e_def)
    then show "e < W64" using wq by simp
    show "range_granularity s dvd e" using S(4,8) ub(1) by (auto simp: e_def aligned_ranges_def min_def)
  qed
  have later: "e \<le> r_begin (?R ! j)" if "i \<le> j" "j < length ?R" for j
  proof -
    have "r_begin (?R ! i) \<le> r_begin (?R ! j)"
      using separated_sorted [OF R] that separated_nth [OF R, of i j] good_begin_less_end [of "?R ! i"]
        separated_good [OF R, of "?R ! i"] by (cases "i = j") auto
    then show ?thesis using that by (auto simp: e_def)
  qed
  have earlier: "r_end (?R ! j) \<le> r_end t" if "j < i" for j
  proof (cases "j = i - 1")
    case False
    then have "r_end (?R ! j) < r_begin t" using separated_nth [OF R, of j "i - 1"] that il by (simp add: t_def)
    then show ?thesis using good_begin_less_end [OF t(2)] by simp
  qed (simp add: t_def)
  have free: "{r_end t..<e} \<inter> covers ?R = {}"
  proof -
    have "x \<notin> {r_end t..<e}" if "x \<in> pts p" "p \<in> set ?R" for x p
    proof -
      obtain j where "j < length ?R" "p = ?R ! j" using \<open>p \<in> set ?R\<close> by (auto simp: in_set_conv_nth)
      then show ?thesis using earlier [of j] later [of j] that(1) by (cases "j < i") (auto simp: pts_def)
    qed
    then show ?thesis by (auto simp: covers_def)
  qed
  have n: "length ?R + (if is_mod_available s then 1 else 2) \<le> max_range_count s" using S(3) bd(4) by auto
  let ?x = "BeginEnd (r_end t) e"
  have x: "pts ?x = {r_end t..<e}" "good ?x" "r_begin ?x = r_end t" "r_end ?x = e"
    using e by (simp_all add: pts_BeginEnd BeginEnd_good BeginEnd_end)
  obtain s1 where s1: "DoOpExtendRangeEnd c t (BeginEnd (r_begin t) e) s = Some (UseRange c (calls s) ?x, s1)"
    "hw_frame s s1" "hw_inv s1" "emits K s s1"
    "if UseRange c (calls s) ?x then covers (ranges s1) = covers ?R \<union> pts ?x \<and> length (ranges s1) \<le> length ?R
     else s1 = emit [UseRange_call ?x False] s"
    using DoOpExtendRangeEnd_spec [OF S(2) t(1) e(1,3) free n, of c K] by blast
  have "add_done K C q s (UseRange c (calls s) ?x) s1"
  proof (cases "UseRange c (calls s) ?x")
    case True
    have Z: "separated (ranges s1)" "covers (ranges s1) = covers ?R \<union> pts ?x" "length (ranges s1) \<le> length ?R"
      using s1(3,5) True by (auto simp: hw_inv_def)
    have q: "pts q \<subseteq> covers (ranges s1)"
    proof
      fix y assume y: "y \<in> pts q"
      consider "y < r_end t" | "r_end t \<le> y" "y < e" | "e \<le> y" by linarith
      then show "y \<in> covers (ranges s1)"
      proof cases
        case 1
        then have "y \<in> pts t" using y t(3) by (auto simp: pts_def)
        then show ?thesis using Z(2) pts_subset_covers [OF t(1)] by blast
      next
        case 2
        then show ?thesis using Z(2) x(1) by auto
      next
        case 3
        then have il': "i < length ?R" "e = r_begin (?R ! i)" "r_begin (?R ! i) < r_end q"
          using y ub(1) by (auto simp: e_def pts_def min_def split: if_splits)
        have "?R ! i \<in> set ?R" using il'(1) by simp
        then have "r_end q \<le> r_end (?R ! i)" using S(10) ub(3) [of i] il' by auto
        then have "y \<in> pts (?R ! i)" using 3 il'(2) y by (auto simp: pts_def)
        then show ?thesis using Z(2) pts_subset_covers [OF \<open>?R ! i \<in> set ?R\<close>] by blast
      qed
    qed
    have "\<forall>t\<in>set (ranges s1). pts t \<inter> C \<noteq> {}"
    proof (rule meets_cover [OF Z(1)])
      fix y assume "y \<in> covers (ranges s1)"
      then consider p where "p \<in> set ?R" "y \<in> pts p" | "y \<in> pts ?x" using Z(2) by (auto simp: covers_iff)
      then show "\<exists>p. good p \<and> y \<in> pts p \<and> pts p \<subseteq> covers (ranges s1) \<and> pts p \<inter> C \<noteq> {}"
      proof cases
        case 1
        then show ?thesis using S(9) separated_good [OF R] pts_subset_covers [OF 1(1)] Z(2) by blast
      next
        case 2
        let ?p = "BeginEnd (r_begin t) e"
        have bt: "r_begin t < r_end t" by (rule good_begin_less_end [OF t(2)])
        have p: "good ?p" "pts ?p = pts t \<union> pts ?x"
        proof -
          show "good ?p" using e bt by (simp add: BeginEnd_good)
          have "pts ?p = {r_begin t..<e}" using e bt by (simp add: pts_BeginEnd)
          also have "\<dots> = {r_begin t..<r_end t} \<union> {r_end t..<e}" using bt e(1) by auto
          finally show "pts ?p = pts t \<union> pts ?x" unfolding x(1) by (simp add: pts_def)
        qed
        then have "pts ?p \<subseteq> covers (ranges s1)" using Z(2) pts_subset_covers [OF t(1)] by blast
        moreover have "pts ?p \<inter> C \<noteq> {}" using S(9) t(1) p(2) by blast
        ultimately show ?thesis using p 2 by blast
      qed
    qed
    moreover have "aligned_ranges (range_granularity s) (ranges s1)"
      using grown_aligned [OF Z(1) S(4) _ x(2) _ _ Z(2)] x e(4) S(4) t(1) separated_good [OF R]
      by (auto simp: aligned_ranges_def)
    ultimately show ?thesis using s1 Z q S(3) True by (auto simp: add_done_def)
  qed (use s1 in \<open>auto simp: add_done_def emit_def\<close>)
  then show ?thesis using s1(1) by blast
qed

text \<open>A range in front of all others, with the merge that brings the count restored to the limit.\<close>

lemma fixup_front:
  fixes c :: pr_control
  assumes c: "control_ok c" and s: "add_ready c C q s"
    and front: "\<forall>t\<in>set (ranges s). r_begin q < r_begin t"
    and e: "e = (if ranges s = [] then r_end q else min (r_end q) (r_begin (hd (ranges s))))"
    and K: "K \<subseteq> covers (ranges s)"
  defines "a \<equiv> BeginEnd (r_begin q) e"
  shows "\<exists>ok s1. DoOpAddRange c a s = Some (ok, s1) \<and>
    (length (ranges s1) \<le> max_logical_range_count s \<or> \<not> ok \<longrightarrow> add_done K C q s ok s1) \<and>
    (ok \<and> \<not> length (ranges s1) \<le> max_logical_range_count s \<longrightarrow>
      ranges s \<noteq> [] \<and> length (ranges s1) = max_logical_range_count s + 1 \<and> hw_frame s s1 \<and> hw_inv s1 \<and> emits K s s1 \<and>
      ranges s1 = emplace a (ranges s) \<and> a \<notin> set (ranges s) \<and> pts a \<inter> K = {} \<and>
      covers (ranges s) \<union> pts q \<subseteq> covers (ranges s1) \<and> aligned_ranges (range_granularity s) (ranges s1) \<and>
      (\<forall>t\<in>set (ranges s1). pts t \<inter> C \<noteq> {}))"
proof -
  let ?R = "ranges s"
  have S: "configured c s" "hw_inv s" "length ?R \<le> max_logical_range_count s" "aligned_ranges (range_granularity s) ?R"
    "good q" "pts q \<subseteq> C" "range_granularity s dvd r_begin q" "range_granularity s dvd r_end q"
    "\<forall>t\<in>set ?R. pts t \<inter> C \<noteq> {}"
    "\<forall>t\<in>set ?R. r_begin q < r_begin t \<and> r_begin t < r_end q \<longrightarrow> r_end q \<le> r_end t"
    using s by (auto simp: add_ready_def)
  have R: "separated ?R" using S(2) by (simp add: hw_inv_def)
  note bd = configured_bounds [OF c S(1)]
  have wq: "r_begin q < r_end q" "r_end q < W64" using good_begin_less_end [OF S(5)] good_end_less [OF S(5)] by auto
  have eb: "r_begin q < e" "e \<le> r_end q" "e < W64" "range_granularity s dvd e"
    using e front wq S(4,8) by (auto simp: aligned_ranges_def min_def)
  have a: "good a" "pts a = {r_begin q..<e}" "r_begin a = r_begin q" "r_end a = e"
    using eb by (simp_all add: a_def BeginEnd_good pts_BeginEnd BeginEnd_end)
  have hd: "e \<le> r_begin t" if "t \<in> set ?R" for t
    using separated_hd_begin_le [OF R that] that e by (cases "?R = []") auto
  have free: "pts a \<inter> covers ?R = {}" using hd unfolding a(2) by (force simp: covers_def pts_def)
  have sub: "pts a \<subseteq> C" using S(6) a(2) eb(2) by (auto simp: pts_def)
  have n: "length ?R + (if is_mod_available s then 1 else 2) \<le> max_range_count s" using S(3) bd(4) by auto
  obtain s1 where s1: "DoOpAddRange c a s = Some (UseRange c (calls s) a, s1)"
    "hw_frame s s1" "hw_inv s1" "emits K s s1"
    "if UseRange c (calls s) a
     then covers (ranges s1) = covers ?R \<union> pts a \<and> length (ranges s1) \<le> Suc (length ?R) \<and>
       (length (ranges s1) = Suc (length ?R) \<longrightarrow> ranges s1 = emplace a ?R)
     else s1 = emit [UseRange_call a False] s"
    using DoOpAddRange_spec [OF S(2) a(1) free n, of c K] by blast
  show ?thesis
  proof (cases "UseRange c (calls s) a")
    case True
    have Z: "separated (ranges s1)" "covers (ranges s1) = covers ?R \<union> pts a" "length (ranges s1) \<le> Suc (length ?R)"
      "length (ranges s1) = Suc (length ?R) \<longrightarrow> ranges s1 = emplace a ?R"
      using s1(3,5) True by (auto simp: hw_inv_def)
    have q: "pts q \<subseteq> covers (ranges s1)"
    proof
      fix y assume y: "y \<in> pts q"
      show "y \<in> covers (ranges s1)"
      proof (cases "y < e")
        case True
        then show ?thesis using y Z(2) a(2) by (auto simp: pts_def)
      next
        case False
        then have h: "?R \<noteq> []" "e = r_begin (hd ?R)" using y e by (auto simp: pts_def min_def split: if_splits)
        then have "r_end q \<le> r_end (hd ?R)" using S(10) front y False by (auto simp: pts_def)
        then have "y \<in> pts (hd ?R)" using h(2) False y by (auto simp: pts_def)
        then show ?thesis using Z(2) pts_subset_covers [of "hd ?R" ?R] h(1) by auto
      qed
    qed
    have m: "\<forall>t\<in>set (ranges s1). pts t \<inter> C \<noteq> {}"
    proof (rule meets_cover [OF Z(1)])
      fix y assume "y \<in> covers (ranges s1)"
      then consider p where "p \<in> set ?R" "y \<in> pts p" | "y \<in> pts a" using Z(2) by (auto simp: covers_iff)
      then show "\<exists>p. good p \<and> y \<in> pts p \<and> pts p \<subseteq> covers (ranges s1) \<and> pts p \<inter> C \<noteq> {}"
      proof cases
        case 1
        then show ?thesis using S(9) separated_good [OF R] pts_subset_covers [OF 1(1)] Z(2) by blast
      next
        case 2
        then show ?thesis using a(1) Z(2) sub by blast
      qed
    qed
    have al: "aligned_ranges (range_granularity s) (ranges s1)"
      using grown_aligned [OF Z(1) S(4) _ a(1) _ _ Z(2)] a eb(4) S(7) separated_good [OF R] by auto
    have "a \<notin> set ?R" using free pts_nonempty [OF a(1)] pts_subset_covers [of a ?R] by blast
    moreover have "covers ?R \<union> pts q \<subseteq> covers (ranges s1)" using Z(2) q by blast
    moreover have "pts a \<inter> K = {}" using K free by blast
    moreover have "length (ranges s1) \<le> max_logical_range_count s \<longrightarrow> add_done K C q s True s1"
      unfolding add_done_def using s1(2-4) m al calculation by simp
    moreover have "?R \<noteq> [] \<and> length (ranges s1) = max_logical_range_count s + 1 \<and> ranges s1 = emplace a ?R"
      if "\<not> length (ranges s1) \<le> max_logical_range_count s"
      using that Z(3,4) S(3) bd(1) by auto
    ultimately show ?thesis using s1(1-4) m al True by (intro exI [of _ True] exI [of _ s1]) simp
  qed (use s1 in \<open>auto simp: add_done_def emit_def\<close>)
qed

lemma erase_key_emplace: "sorted rs \<Longrightarrow> a \<notin> set rs \<Longrightarrow> erase_key a (emplace a rs) = (rs :: mrange list)"
proof -
  assume s: "sorted rs" "a \<notin> set rs"
  have "mset (erase_key a (emplace a rs)) = mset rs"
    using s(2) unfolding erase_key_def mset_filter ranges_ms.mset_ins by (auto simp: filter_mset_eq_conv)
  moreover have "sorted (erase_key a (emplace a rs))" using s(1) by (intro ranges_ms.sorted_del ranges_ms.sorted_ins)
  ultimately show ?thesis using s(1) by (metis properties_for_sort)
qed

lemma fixup_merge:
  fixes c :: pr_control
  assumes c: "control_ok c" and s: "configured c s" "derived C s" "separated (ranges s)"
    and T: "length (ranges s1) = max_logical_range_count s + 1" "hw_frame s s1" "hw_inv s1" "emits K s s1"
      "ranges s1 = emplace a (ranges s)" "a \<notin> set (ranges s)" "pts a \<inter> K = {}"
      "covers (ranges s) \<union> pts q \<subseteq> covers (ranges s1)" "aligned_ranges (range_granularity s) (ranges s1)"
      "\<forall>t\<in>set (ranges s1). pts t \<inter> C \<noteq> {}"
  shows "\<exists>x s'. FixupRangesDuringAdd_merge c a s1 = Some (x, s') \<and> add_done K C q s x s'"
proof -
  note bd = configured_bounds [OF c s(1)]
  note f1 = hw_frame_fields [OF T(2)]
  have R1: "separated (ranges s1)" using T(3) by (simp add: hw_inv_def)
  have D: "separated (coalesced_required_ranges s)" "covers (coalesced_required_ranges s) = C"
    "goal_ranges s = goal_of (max_logical_range_count s) (coalesced_required_ranges s)"
    using s(2) by (auto simp: derived_def)
  have n1: "1 \<le> max_logical_range_count s" using bd(1) by simp
  note G = derived_goal [OF s(2) n1 bd(2)]
  have meets: "\<forall>r\<in>set (ranges s1). \<exists>g\<in>set (goal_ranges s). IsOverlap r g"
  proof
    fix r assume r: "r \<in> set (ranges s1)"
    then obtain x where x: "x \<in> pts r" "x \<in> C" using T(10) by blast
    then have "x \<in> covers (goal_ranges s)" using G(2) by blast
    then obtain g where "g \<in> set (goal_ranges s)" "x \<in> pts g" by (auto simp: covers_iff)
    then show "\<exists>g\<in>set (goal_ranges s). IsOverlap r g" using x(1) by (force simp: IsOverlap_iff pts_def)
  qed
  have "max_logical_range_count s < length (ranges s1)" using T(1) by simp
  from goal_ranges_of.overfull_has_merge [OF D(1) n1 bd(2) R1 this, folded D(3), OF meets]
  obtain l r where lr: "FindBestMerge (ranges s1) (goal_ranges s) = Some (Some (l, r))"
    "merge_candidate (ranges s1) (goal_ranges s) l r" by blast
  have adj: "adjacent (ranges s1) l r" by (rule merge_covered(1) [OF R1 lr(2)])
  have n: "length (ranges s1) + (if is_mod_available s1 then 0 else 1) \<le> max_range_count s1"
    "max_range_count s1 < W64"
    "max_range_count s1 = max_logical_range_count s1 + (if is_mod_available s1 then 1 else 2)"
    using T(1) bd(3,4) f1 by auto
  let ?gap = "BeginEnd (r_end l) (r_begin r)" and ?lr = "BeginEnd (r_begin l) (r_end r)"
  define ok where "ok = UseRange c (calls s1) ?gap"
  obtain s2 where s2: "DoOpMergeRanges c l r s1 = Some (ok, s2)" "hw_frame s1 s2" "hw_inv s2" "emits K s1 s2"
    "if ok then covers (ranges s2) = covers (ranges s1) \<union> pts ?gap \<and> Suc (length (ranges s2)) = length (ranges s1) \<and>
       set (ranges s2) = (set (ranges s1) - {l, r}) \<union> {?lr}
     else s2 = emit [UseRange_call ?gap False] s1"
    using DoOpMergeRanges_spec [OF T(3) adj n, of c K] unfolding ok_def by blast
  have a1: "find_key a (ranges s1) \<noteq> length (ranges s1)" "length (ranges s1) = u64_add (max_logical_range_count s1) 1"
    using find_key_iff [OF separated_sorted [OF R1], of a] T(1,5) bd(3,4) f1
    by (auto simp: ranges_ms.set_ins u64_add_id split: if_splits)
  have fr2: "hw_frame s s2" by (rule hw_frame_trans [OF T(2) s2(2)])
  have em2: "emits K s s2" by (rule emits_trans [OF T(4) s2(4)]) (simp_all add: f1)
  show ?thesis
  proof (cases ok)
    case True
    have len: "length (ranges s2) = max_logical_range_count s" using s2(5) True T(1) by simp
    note lt = adjacent_separated [OF R1 adj]
    have ends: "r_end ?lr = r_end r" "pts l \<subseteq> pts ?lr"
    proof -
      show e: "r_end ?lr = r_end r"
        using good_end_less [OF lt(3)] good_begin_less_end [OF lt(2)] lt(1) good_begin_less_end [OF lt(3)]
        by (simp add: BeginEnd_end)
      show "pts l \<subseteq> pts ?lr" unfolding pts_def e using lt(1) good_begin_less_end [OF lt(3)] by auto
    qed
    have mem: "l \<in> set (ranges s1)" "r \<in> set (ranges s1)" using adjacent_set [OF adj] by auto
    have st: "set (ranges s2) = (set (ranges s1) - {l, r}) \<union> {?lr}" using s2(5) True by simp
    have al: "aligned_ranges (range_granularity s) (ranges s2)"
      using T(9) mem ends(1) unfolding aligned_ranges_def st by auto
    have "pts ?lr \<inter> C \<noteq> {}" using T(10) mem(1) ends(2) by blast
    then have me: "\<forall>t\<in>set (ranges s2). pts t \<inter> C \<noteq> {}" using T(10) st by auto
    have "add_done K C q s True s2"
      using fr2 em2 s2(3,5) True T(8) len al me by (auto simp: add_done_def)
    moreover have "FixupRangesDuringAdd_merge c a s1 = Some (True, s2)"
      using a1 lr(1) s2(1) True len f1 hw_frame_fields [OF s2(2)] by (simp add: FixupRangesDuringAdd_merge_def)
    ultimately show ?thesis by blast
  next
    case False
    then have e2: "ranges s2 = ranges s1" using s2(5) by (simp add: emit_def)
    have "a \<in> set (ranges s2)" using e2 T(5) by (simp add: ranges_ms.set_ins)
    then obtain s3 where s3: "DoOpDelRange a s2 = Some s3" "hw_frame s2 s3" "hw_inv s3" "emits K s2 s3"
      "ranges s3 = erase_key a (ranges s2)"
      using DoOpDelRange_spec [OF s2(3) _ T(7)] by blast
    have "ranges s3 = ranges s"
      unfolding s3(5) e2 T(5) by (rule erase_key_emplace [OF separated_sorted [OF s(3)] T(6)])
    moreover have "emits K s s3"
      by (rule emits_trans [OF em2 s3(4)]) (simp_all add: hw_frame_fields [OF fr2])
    ultimately have "add_done K C q s False s3"
      using hw_frame_trans [OF fr2 s3(2)] s3(3) by (simp add: add_done_def)
    moreover have "FixupRangesDuringAdd_merge c a s1 = Some (False, s3)"
      using a1 lr(1) s2(1) False s3(1) f1 by (simp add: FixupRangesDuringAdd_merge_def)
    ultimately show ?thesis by blast
  qed
qed

lemma FixupRangesDuringAdd_spec:
  fixes c :: pr_control
  assumes c: "control_ok c" and s: "add_ready c C q s" and K: "K \<subseteq> covers (ranges s)"
  shows "\<exists>ok s'. FixupRangesDuringAdd c q s = Some (ok, s') \<and> add_done K C q s ok s'"
proof -
  let ?R = "ranges s"
  have S: "configured c s" "derived C s" "hw_inv s" "length ?R \<le> max_logical_range_count s"
    "aligned_ranges (range_granularity s) ?R" "good q" "\<forall>t\<in>set ?R. pts t \<inter> C \<noteq> {}"
    using s by (auto simp: add_ready_def)
  have R: "separated ?R" using S(3) by (simp add: hw_inv_def)
  note bd = configured_bounds [OF c S(1)]
  define i where "i = upper_bound (BeginLength (r_begin q) u64_max) ?R"
  note ub = upper_bound_begin [OF R i_def]
  consider (empty) "?R = []" | (covered) "?R \<noteq> []" "i \<noteq> 0" "r_end q \<le> r_end (?R ! (i - 1))"
    | (extend) "?R \<noteq> []" "i \<noteq> 0" "\<not> r_end q \<le> r_end (?R ! (i - 1))" | (front) "?R \<noteq> []" "i = 0" by blast
  then show ?thesis
  proof cases
    case empty
    have qq: "BeginEnd (r_begin q) (r_end q) = q"
      using good_end_less [OF S(6)] good_begin_less_end [OF S(6)] S(6)
      by (intro good_eqI) (simp_all add: BeginEnd_good BeginEnd_end)
    obtain ok s1 where "DoOpAddRange c q s = Some (ok, s1)"
      "length (ranges s1) \<le> max_logical_range_count s \<or> \<not> ok \<longrightarrow> add_done K C q s ok s1"
      "ok \<and> \<not> length (ranges s1) \<le> max_logical_range_count s \<longrightarrow> ?R \<noteq> []"
      using fixup_front [OF c s _ _ K, of "r_end q"] empty qq by auto
    then show ?thesis using empty by (auto simp: FixupRangesDuringAdd_def)
  next
    case covered
    have il: "i - 1 < i" "i - 1 < length ?R" using covered(2) ub(1) by auto
    have le: "r_begin (?R ! (i - 1)) \<le> r_begin q" by (rule ub(2) [OF il(1)])
    then have "pts q \<subseteq> pts (?R ! (i - 1))" using covered(3) by (auto simp: pts_def)
    then have "pts q \<subseteq> covers ?R" using pts_subset_covers [OF nth_mem [OF il(2)]] by blast
    moreover have "emits K s s" unfolding emits_def by (intro exI [of _ "[]"]) simp
    ultimately have "add_done K C q s True s" using S by (simp add: add_done_def)
    moreover have "FixupRangesDuringAdd c q s = Some (True, s)"
      using covered le by (simp add: FixupRangesDuringAdd_def i_def [symmetric] Let_def)
    ultimately show ?thesis by blast
  next
    case extend
    have il: "i - 1 < i" using extend(2) by simp
    have le: "r_begin (?R ! (i - 1)) \<le> r_begin q" by (rule ub(2) [OF il])
    define e where "e = (if i \<noteq> length ?R then min (r_end q) (r_begin (?R ! i)) else r_end q)"
    let ?t = "?R ! (i - 1)"
    obtain ok s1 where s1: "DoOpExtendRangeEnd c ?t (BeginEnd (r_begin ?t) e) s = Some (ok, s1)" "add_done K C q s ok s1"
      using fixup_extend [OF c s i_def extend(2,3), of K] unfolding e_def by blast
    have "separated (ranges s1)" using s1(2) by (simp add: add_done_def hw_inv_def)
    then have "TryCoalesceRangesAt e s1 = Some s1"
      using coalesce_point_no_touch [of "ranges s1" e] by (simp add: TryCoalesceRangesAt_def separated_iff)
    then have "FixupRangesDuringAdd c q s = Some (ok, s1)"
      using extend le s1(1) unfolding FixupRangesDuringAdd_def i_def [symmetric] Let_def e_def [symmetric]
      by (cases ok) auto
    then show ?thesis using s1(2) by blast
  next
    case front
    have fr: "\<forall>t\<in>set ?R. r_begin q < r_begin t" using ub(3) front(2) by (auto simp: in_set_conv_nth)
    define e where "e = min (r_end q) (r_begin (?R ! 0))"
    define a where "a = BeginEnd (r_begin q) e"
    have e': "e = (if ?R = [] then r_end q else min (r_end q) (r_begin (hd ?R)))"
      using front(1) by (simp add: e_def hd_conv_nth)
    obtain ok s1 where s1: "DoOpAddRange c a s = Some (ok, s1)"
      "length (ranges s1) \<le> max_logical_range_count s \<or> \<not> ok \<longrightarrow> add_done K C q s ok s1"
      "ok \<and> \<not> length (ranges s1) \<le> max_logical_range_count s \<longrightarrow>
        length (ranges s1) = max_logical_range_count s + 1 \<and> hw_frame s s1 \<and> hw_inv s1 \<and> emits K s s1 \<and>
        ranges s1 = emplace a ?R \<and> a \<notin> set ?R \<and> pts a \<inter> K = {} \<and> covers ?R \<union> pts q \<subseteq> covers (ranges s1) \<and>
        aligned_ranges (range_granularity s) (ranges s1) \<and> (\<forall>t\<in>set (ranges s1). pts t \<inter> C \<noteq> {})"
      using fixup_front [OF c s fr e' K] unfolding a_def by blast
    note fx = FixupRangesDuringAdd_def [of c q s, folded i_def, unfolded Let_def, folded e_def]
    show ?thesis
    proof (cases "ok \<and> \<not> length (ranges s1) \<le> max_logical_range_count s")
      case False
      have "hw_frame s s1" using s1(2) False by (auto simp: add_done_def)
      then have "max_logical_range_count s1 = max_logical_range_count s" by (rule hw_frame_fields)
      then have "FixupRangesDuringAdd c q s = Some (ok, s1)"
        using fx front s1(1) False by (auto simp: a_def e_def)
      then show ?thesis using s1(2) False by blast
    next
      case True
      then have T: "ok" "\<not> length (ranges s1) \<le> max_logical_range_count s"
        "length (ranges s1) = max_logical_range_count s + 1" "hw_frame s s1" "hw_inv s1" "emits K s s1"
        "ranges s1 = emplace a ?R" "a \<notin> set ?R" "pts a \<inter> K = {}" "covers ?R \<union> pts q \<subseteq> covers (ranges s1)"
        "aligned_ranges (range_granularity s) (ranges s1)" "\<forall>t\<in>set (ranges s1). pts t \<inter> C \<noteq> {}"
        using s1(3) by auto
      note f1 = hw_frame_fields [OF T(4)]
      have "FixupRangesDuringAdd c q s = FixupRangesDuringAdd_merge c a s1"
        using front s1(1) T(1,2) f1 unfolding fx by (simp add: a_def e_def)
      then show ?thesis using fixup_merge [OF c S(1,2) R T(3-12)] by simp
    qed
  qed
qed

section \<open>AddRange\<close>

text \<open>
  A hardware range that begins inside the new required range and holds an offset required before
  reaches the end of the new range: strictly inside it there is room for the new request only.
\<close>

lemma dvd_step: "(g :: nat) dvd a \<Longrightarrow> g dvd b \<Longrightarrow> a < b \<Longrightarrow> a + g \<le> b"
  by (metis add_diff_inverse_nat dvd_diff_nat dvd_imp_le less_imp_le_nat nat_add_left_cancel_le not_less
      zero_less_diff)

lemma inside_reaches:
  assumes c: "control_ok c" and s: "configured c s" "requests_inv c s" "aligned_ranges (range_granularity s) (ranges s)"
    and r: "request_ok c r" "pts r \<inter> covers (requested_ranges s) = {}"
    and t: "t \<in> set (ranges s)" "pts t \<inter> required_offsets s \<noteq> {}"
      "r_begin (align c r) < r_begin t" "r_begin t < r_end (align c r)"
  shows "r_end (align c r) \<le> r_end t"
proof (rule ccontr)
  let ?g = "GetRangeGranularity c"
  assume "\<not> ?thesis"
  then have lt: "r_end t < r_end (align c r)" by simp
  note q = align_props [OF c r(1)]
  have g: "range_granularity s = ?g" using configured_bounds(6) [OF c s(1)] .
  have ta: "?g dvd r_begin t" "?g dvd r_end t" using s(3) t(1) g by (auto simp: aligned_ranges_def)
  have b: "r_begin (align c r) + ?g \<le> r_begin t" by (rule dvd_step [OF q(8) ta(1) t(3)])
  have e: "r_end t + ?g \<le> r_end (align c r)" by (rule dvd_step [OF ta(2) q(9) lt])
  obtain x a where x: "x \<in> pts t" "a \<in> set (required_ranges s)" "x \<in> pts a"
    using t(2) by (auto simp: required_offsets_def covers_iff)
  obtain p where p: "p \<in> set (requested_ranges s)" "request_ok c p" "a = align c p"
    using required_from_request [OF s(2) x(2)] by blast
  note ap = align_props [OF c p(2), folded p(3)]
  have "r_end p \<le> r_begin r \<or> r_end r \<le> r_begin p"
    using good_disjoint_order [of p r] p r pts_subset_covers [OF p(1)] by (auto simp: request_ok_def)
  then show False
  proof
    assume le: "r_end p \<le> r_begin r"
    have "r_end a \<le> r_begin (align c r) + ?g"
      by (rule dvd_le_step [of ?g]) (use ap(7,9) q(5,8) le in auto)
    then show False using x(1,3) b by (auto simp: pts_def)
  next
    assume le: "r_end r \<le> r_begin p"
    have "r_end (align c r) \<le> r_begin a + ?g"
      by (rule dvd_le_step [of ?g]) (use ap(5,8) q(7,9) le in auto)
    then show False using x(1,3) e by (auto simp: pts_def)
  qed
qed

definition put_request :: "pr_control \<Rightarrow> mrange \<Rightarrow> pr_state \<Rightarrow> pr_state" where
  "put_request c r s = s\<lparr>requested_ranges := emplace r (requested_ranges s),
     requested_bytes := u64_add (requested_bytes s) (r_length r),
     required_ranges := emplace (align c r) (required_ranges s)\<rparr>"

lemma put_request_inv:
  assumes c: "control_ok c" and i: "requests_inv c s" and r: "request_ok c r" "pts r \<inter> covers (requested_ranges s) = {}"
  shows "requests_inv c (put_request c r s)" "nonoverlap (requested_ranges (put_request c r s))"
    "required_offsets (put_request c r s) = required_offsets s \<union> pts (align c r)"
    "r \<notin> set (requested_ranges s)" "u64_sub (requested_bytes (put_request c r s)) (r_length r) = requested_bytes s"
proof -
  have I: "nonoverlap (requested_ranges s)" "\<forall>r\<in>set (requested_ranges s). request_ok c r"
    "requested_bytes s = total_bytes (requested_ranges s)" "sorted (required_ranges s)"
    "mset (required_ranges s) = image_mset (align c) (mset (requested_ranges s))"
    using i by (auto simp: requests_inv_def)
  have gr: "good r" using r(1) by (simp add: request_ok_def)
  show n: "nonoverlap (requested_ranges (put_request c r s))"
    using nonoverlap_emplace [OF I(1) gr r(2)] by (simp add: put_request_def)
  have t: "total_bytes (requested_ranges s) + r_length r < W64"
    using total_nonoverlap(2) [OF n] by (simp add: put_request_def total_emplace add.commute)
  show "requests_inv c (put_request c r s)"
    using I r(1) n t by (auto simp: requests_inv_def put_request_def ranges_ms.set_ins ranges_ms.mset_ins
        ranges_ms.sorted_ins total_emplace u64_add_id)
  show "required_offsets (put_request c r s) = required_offsets s \<union> pts (align c r)"
    by (auto simp: required_offsets_def put_request_def)
  show "r \<notin> set (requested_ranges s)" using r(2) pts_nonempty [OF gr] pts_subset_covers by blast
  show "u64_sub (requested_bytes (put_request c r s)) (r_length r) = requested_bytes s"
    using t I(3) by (simp add: put_request_def u64_add_id u64_sub_id)
qed

text \<open>Taking the new request out again restores the containers of the requests.\<close>

lemma erase_found_emplace:
  assumes "sorted (Q :: mrange list)"
  shows "erase_iter (find_key q (emplace q Q)) (emplace q Q) = Q"
proof -
  have so: "sorted (emplace q Q)" by (rule ranges_ms.sorted_ins [OF assms])
  have "q \<in> set (emplace q Q)" by (simp add: ranges_ms.set_ins)
  note e = erase_found [OF so this]
  have "mset (erase_iter (find_key q (emplace q Q)) (emplace q Q)) = mset Q" unfolding e(2) by (simp add: ranges_ms.mset_ins)
  then show ?thesis using e(1) assms by (metis properties_for_sort)
qed

text \<open>The new range lies in exactly one of the ranges in use, as the call that zeroes it asks.\<close>

lemma filter_eq_single: "distinct xs \<Longrightarrow> t \<in> set xs \<Longrightarrow> filter (\<lambda>p. p = t) xs = [t]"
  by (induction xs) (auto simp: filter_empty_conv)

lemma zero_emits:
  assumes R: "separated (ranges s)" and r: "good r" "pts r \<subseteq> covers (ranges s)"
  shows "emits K s (emit [ZeroProtectedSubRange True r] s)"
proof -
  obtain t where t: "t \<in> set (ranges s)" "pts r \<subseteq> pts t" using separated_contains [OF R r] by blast
  have "pts p \<inter> pts r \<noteq> {} \<longleftrightarrow> p = t" if "p \<in> set (ranges s)" for p
    using nonoverlap_disjoint_pts [OF separated_nonoverlap [OF R] that t(1)] t(2) pts_nonempty [OF r(1)] by blast
  then have "filter (\<lambda>p. pts p \<inter> pts r \<noteq> {}) (ranges s) = filter (\<lambda>p. p = t) (ranges s)"
    by (intro filter_cong) auto
  also have "\<dots> = [t]" using separated_distinct [OF R] t(1) by (rule filter_eq_single)
  finally have "filter_mset (\<lambda>p. pts p \<inter> pts r \<noteq> {}) (mset (ranges s)) = {#t#}"
    by (metis mset_filter mset_single_iff_right)
  then show ?thesis using t(2) unfolding emits_def
    by (intro exI [of _ "[ZeroProtectedSubRange True r]"]) (auto simp: hw_of_def emit_def)
qed

lemma AddRange_spec:
  fixes c :: pr_control
  assumes c: "control_ok c" and s: "pr_inv c s" "fresh s"
    and r: "request_ok c r" "pts r \<inter> covers (requested_ranges s) = {}"
  shows "\<exists>ok s'. AddRange c r s = Some (ok, s') \<and> emits (required_offsets s) s s' \<and>
    (if ok then pr_inv c s' \<and> fresh s' \<and> requested_ranges s' = emplace r (requested_ranges s) \<and>
       required_offsets s' = required_offsets s \<union> pts (align c r)
     else s' = s\<lparr>calls := calls s'\<rparr>)"
proof -
  have I: "configured c s" "requests_inv c s" "derived (required_offsets s) s" "hw_inv s"
    "length (ranges s) \<le> max_logical_range_count s" "required_offsets s \<subseteq> covers (ranges s)"
    "aligned_ranges (range_granularity s) (ranges s)"
    using s(1) by (auto simp: pr_inv_def)
  note b = configured_bounds [OF c I(1)]
  note q = align_props [OF c r(1)]
  define s0 where "s0 = put_request c r s"
  note p = put_request_inv [OF c I(2) r, folded s0_def]
  have der0: "derived (required_offsets s) s0" using I(3) by (simp add: derived_def s0_def put_request_def)
  have mono: "monotone_ranges (required_ranges s0)"
    using p(1) required_monotone [OF c] by (auto simp: requests_inv_def)
  have f0: "max_logical_range_count s0 = max_logical_range_count s" by (simp add: s0_def put_request_def)
  obtain s1 where s1: "PropagateRequiredRangesToGoalRanges (align c r) s0 = Some s1" "same_but_derived s0 s1"
    "derived (required_offsets s0) s1"
    using PropagateRequiredRangesToGoalRanges_spec [OF der0 mono q(1)] p(3) b(1,2) f0
    unfolding required_offsets_def by (auto simp: Un_Diff)
  note f1 = same_but_derived_fields [OF s1(2)]
  define C where "C = required_offsets s0"
  have C: "C = required_offsets s \<union> pts (align c r)" using p(3) by (simp add: C_def)
  have rg: "ranges s1 = ranges s" "range_granularity s1 = range_granularity s" "calls s1 = calls s"
    "max_range_count s1 = max_range_count s" "is_mod_available s1 = is_mod_available s"
    by (simp_all add: f1 s0_def put_request_def)
  have ready: "add_ready c C (align c r) s1"
    unfolding add_ready_def
  proof (intro conjI)
    show "configured c s1" using I(1) by (auto simp: configured_def f1 s0_def put_request_def)
    show "derived C s1" using s1(3) by (simp add: C_def)
    show "hw_inv s1" using I(4) by (simp add: hw_inv_def f1 s0_def put_request_def)
    show "length (ranges s1) \<le> max_logical_range_count s1" using I(5) rg f1 f0 by simp
    show "aligned_ranges (range_granularity s1) (ranges s1)" using I(7) rg by simp
    show "good (align c r)" by (rule q(1))
    show "pts (align c r) \<subseteq> C" using C by blast
    show "range_granularity s1 dvd r_begin (align c r)" "range_granularity s1 dvd r_end (align c r)"
      using q(8,9) rg b(6) by simp_all
    show "\<forall>t\<in>set (ranges s1). pts t \<inter> C \<noteq> {}" using s(2) rg C by (auto simp: fresh_def)
    show "\<forall>t\<in>set (ranges s1). r_begin (align c r) < r_begin t \<and> r_begin t < r_end (align c r) \<longrightarrow>
        r_end (align c r) \<le> r_end t"
      using inside_reaches [OF c I(1,2,7) r] s(2) rg by (auto simp: fresh_def)
  qed
  have K: "required_offsets s \<subseteq> covers (ranges s1)" using I(6) rg by simp
  obtain ok s2 where s2: "FixupRangesDuringAdd c (align c r) s1 = Some (ok, s2)"
    "add_done (required_offsets s) C (align c r) s1 ok s2"
    using FixupRangesDuringAdd_spec [OF c ready K] by blast
  have fr: "hw_frame s1 s2" and hw2: "hw_inv s2" and em: "emits (required_offsets s) s1 s2"
    using s2(2) by (auto simp: add_done_def)
  note f2 = hw_frame_fields [OF fr]
  have em': "emits (required_offsets s) s s2"
    using em unfolding emits_def by (simp add: hw_of_def rg)
  have no: "\<not> IsAnyInternalOverlap (emplace r (requested_ranges s))"
    using nonoverlap_no_internal_overlap [OF p(2)] by (simp add: s0_def put_request_def)
  have start: "AddRange c r s = (if \<not> ok
      then do {
        zx_assert (is_dynamic s2);
        s4 \<leftarrow> PropagateRequiredRangesToGoalRanges (align c r) (drop_request c r s2);
        Some (False, s4) }
      else Some (True, if is_dynamic s2 then emit [ZeroProtectedSubRange True r] s2 else s2))"
  proof -
    have u: "s\<lparr>requested_ranges := emplace r (requested_ranges s),
        requested_bytes := u64_add (requested_bytes s) (r_length r),
        required_ranges := emplace (align c r) (required_ranges s)\<rparr> = s0" by (simp add: s0_def put_request_def)
    have v: "AlignRequestedRange (round_down c) (round_up c) r (range_granularity s) = align c r"
      using b(6) by (simp add: align_def)
    have w: "drop_request c r s2 = s2\<lparr>requested_bytes := u64_sub (requested_bytes s2) (r_length r),
        requested_ranges := erase_key r (requested_ranges s2),
        required_ranges := erase_iter (find_key (align c r) (required_ranges s2)) (required_ranges s2)\<rparr>"
      by (rule pr_state.equality) (simp_all add: drop_request_def)
    show ?thesis unfolding w using b(7) no s1(1) s2(1) u v by (simp add: AddRange_def Let_def)
  qed
  have dyn: "is_dynamic s2" using b(7) by (simp add: f2 f1 s0_def put_request_def)
  show ?thesis
  proof (cases ok)
    case True
    have A: "covers (ranges s1) \<union> pts (align c r) \<subseteq> covers (ranges s2)"
      "length (ranges s2) \<le> max_logical_range_count s1" "aligned_ranges (range_granularity s1) (ranges s2)"
      "\<forall>t\<in>set (ranges s2). pts t \<inter> C \<noteq> {}"
      using s2(2) True by (auto simp: add_done_def)
    have off: "required_offsets s2 = C" by (simp add: required_offsets_def C_def f2 f1)
    define s' where "s' = emit [ZeroProtectedSubRange True r] s2"
    have off': "required_offsets s' = C" using off by (simp add: required_offsets_def s'_def emit_def)
    have der2: "derived C s2" using s1(3) by (simp add: derived_def C_def f2)
    have inv2: "pr_inv c s2"
      unfolding pr_inv_def off
      using I(1) p(1) der2 hw2 A C I(6) rg
      by (auto simp: configured_def requests_inv_def f2 f1 s0_def put_request_def)
    then have "pr_inv c s'"
      unfolding pr_inv_def off off'
      by (auto simp: s'_def emit_def configured_def requests_inv_def derived_def hw_inv_def)
    moreover have "fresh s'" using A(4) off' by (simp add: fresh_def s'_def emit_def)
    moreover have "requested_ranges s' = emplace r (requested_ranges s)"
      by (simp add: s'_def emit_def f2 f1 s0_def put_request_def)
    moreover have "emits (required_offsets s) s2 s'"
      unfolding s'_def
    proof (rule zero_emits)
      show "separated (ranges s2)" using hw2 by (simp add: hw_inv_def)
      show "good r" using r(1) by (simp add: request_ok_def)
      show "pts r \<subseteq> covers (ranges s2)" using q(10) A(1) by blast
    qed
    then have "emits (required_offsets s) s s'"
      by (intro emits_trans [OF em']) (simp_all add: f2 rg)
    ultimately show ?thesis using start True dyn off' C by (auto simp: s'_def)
  next
    case False
    have R2: "ranges s2 = ranges s1" using s2(2) False by (simp add: add_done_def)
    define s3 where "s3 = drop_request c r s2"
    have so: "sorted (requested_ranges s)" "sorted (required_ranges s)"
      using I(2) nonoverlap_sorted by (auto simp: requests_inv_def)
    have restored: "requested_ranges s3 = requested_ranges s" "required_ranges s3 = required_ranges s"
      "requested_bytes s3 = requested_bytes s"
      using erase_key_emplace [OF so(1) p(4)] erase_found_emplace [OF so(2)] p(5)
      by (simp_all add: s3_def drop_request_def f2 f1 s0_def put_request_def)
    have off: "required_offsets s3 = required_offsets s" by (simp add: required_offsets_def restored)
    have der3: "derived C s3" using s1(3) by (simp add: derived_def C_def s3_def drop_request_def f2)
    have mono3: "monotone_ranges (required_ranges s3)"
      unfolding restored using I(2) required_monotone [OF c] by (auto simp: requests_inv_def)
    have n3: "max_logical_range_count s3 = max_logical_range_count s"
      by (simp add: s3_def drop_request_def f2 f1 f0)
    obtain s4 where s4: "PropagateRequiredRangesToGoalRanges (align c r) s3 = Some s4" "same_but_derived s3 s4"
      "derived (required_offsets s3) s4"
      using PropagateRequiredRangesToGoalRanges_spec [OF der3 mono3 q(1)] C b(1,2) n3 off
      unfolding required_offsets_def by (auto simp: Un_Diff)
    note f4 = same_but_derived_fields [OF s4(2)]
    have d4: "derived (required_offsets s) s4" using s4(3) off by simp
    have n4: "max_logical_range_count s4 = max_logical_range_count s" using f4 n3 by simp
    note u = derived_unique [OF I(3) d4 n4]
    have hwb: "ranges_bytes s2 = ranges_bytes s" using hw2 I(4) R2 rg by (simp add: hw_inv_def)
    have "s4 = s\<lparr>calls := calls s4\<rparr>"
      by (rule pr_state.equality) (use u f4 restored R2 rg hwb in
        \<open>simp_all add: s3_def drop_request_def f2 f1 s0_def put_request_def\<close>)
    moreover have "calls s4 = calls s2" by (simp add: f4 s3_def drop_request_def)
    moreover have "emits (required_offsets s) s s4"
      using em' calculation R2 rg unfolding emits_def by (simp add: hw_of_def f4 s3_def drop_request_def)
    ultimately show ?thesis using start False dyn s4(1) by (auto simp: s3_def)
  qed
qed

end
