(* ===== verification/Sysmem_Ranges_Class.thy ===== *)
theory Sysmem_Ranges_Class
  imports Sysmem_Ranges_Ops
begin

text \<open>
  \<open>ProtectedRanges\<close> seen from its client: the constructor, the histories of calls a client can make, as a
  step relation, with the class invariant by rule induction, and the queries. The relation admits every
  order of calls. The invariant holds along the histories that are \<open>settled\<close>: after a \<open>DeleteRange\<close> the
  client steps until \<open>StepTowardOptimalRanges\<close> returns true before it adds a range again. The step that
  returns true leaves the goal in use, and then every hardware range holds a required offset, the
  condition under which \<open>AddRange\<close> is proved right.
\<close>

section \<open>The constructor\<close>

lemma ProtectedRanges_new_spec:
  assumes c: "control_ok c"
  shows "\<exists>s. ProtectedRanges_new c = Some s \<and> pr_inv c s \<and> fresh s \<and> requested_ranges s = [] \<and> ranges s = [] \<and> calls s = []"
proof -
  have b: "IsDynamic c" "MaxRangeCount c < W64" "(if HasModProtectedRange c then 3 else 4) \<le> MaxRangeCount c"
    "1 \<le> GetRangeGranularity c"
    using c by (auto simp: control_ok_def)
  have m: "u64_sub (MaxRangeCount c) 1 = MaxRangeCount c - 1" "u64_sub (MaxRangeCount c) 2 = MaxRangeCount c - 2"
    using b by (auto simp: range_simps split: if_splits)
  obtain s where s: "ProtectedRanges_new c = Some s" using b by (simp add: ProtectedRanges_new_def Let_def split: if_splits)
  have "pr_inv c s"
    using s b m unfolding pr_inv_def
    by (auto simp: ProtectedRanges_new_def Let_def zx_assert_def configured_def requests_inv_def derived_def hw_inv_def
        aligned_ranges_def required_offsets_def total_bytes_def largest_of_def goal_of_def
        BuildLargestInteriorUnusedRanges_def split: if_splits)
  then show ?thesis using s
    by (auto simp: ProtectedRanges_new_def Let_def zx_assert_def fresh_def split: if_splits)
qed

section \<open>Histories\<close>

text \<open>
  One call of the client that returns. The result of \<open>AddRange\<close> and of a step is part of the event. The
  client keeps what the header asks of it: a range to add is not empty, stays a range of the address
  space when it is aligned, and overlaps no requested range; a range to delete is a requested one.
\<close>

datatype client_event = Added mrange bool | Deleted mrange | Stepped bool

inductive client_step :: "pr_control \<Rightarrow> pr_state \<Rightarrow> client_event \<Rightarrow> pr_state \<Rightarrow> bool" for c where
  client_add: "request_ok c r \<Longrightarrow> pts r \<inter> covers (requested_ranges s) = {} \<Longrightarrow>
     AddRange c r s = Some (ok, s') \<Longrightarrow> client_step c s (Added r ok) s'"
| client_delete: "r \<in> set (requested_ranges s) \<Longrightarrow> DeleteRange c r s = Some s' \<Longrightarrow>
     client_step c s (Deleted r) s'"
| client_optimise: "StepTowardOptimalRanges c s = Some (dn, s') \<Longrightarrow> client_step c s (Stepped dn) s'"

inductive reachable :: "pr_control \<Rightarrow> client_event list \<Rightarrow> pr_state \<Rightarrow> bool" for c where
  reach_new: "ProtectedRanges_new c = Some s \<Longrightarrow> reachable c [] s"
| reach_step: "reachable c es s \<Longrightarrow> client_step c s e s' \<Longrightarrow> reachable c (es @ [e]) s'"

inductive_cases client_addE: "client_step c s (Added r ok) s'"
inductive_cases client_deleteE: "client_step c s (Deleted r) s'"
inductive_cases client_optimiseE: "client_step c s (Stepped dn) s'"

text \<open>The requests a history leaves in force.\<close>

definition in_force :: "client_event list \<Rightarrow> mrange multiset" where
  "in_force es = fold (\<lambda>e M. case e of Added r ok \<Rightarrow> if ok then add_mset r M else M
     | Deleted r \<Rightarrow> M - {#r#} | Stepped _ \<Rightarrow> M) es {#}"

lemma in_force_Nil [simp]: "in_force [] = {#}"
  by (simp add: in_force_def)

lemma in_force_snoc [simp]:
  "in_force (es @ [Added r ok]) = (if ok then add_mset r (in_force es) else in_force es)"
  "in_force (es @ [Deleted r]) = in_force es - {#r#}"
  "in_force (es @ [Stepped dn]) = in_force es"
  by (simp_all add: in_force_def)

text \<open>
  The histories in which no range is added between a \<open>DeleteRange\<close> and the next step that returns true.
  The flag says whether a range may be added.
\<close>

fun quiet :: "client_event \<Rightarrow> bool \<Rightarrow> bool" where
  "quiet (Added r ok) q = q"
| "quiet (Deleted r) q = False"
| "quiet (Stepped dn) q = (q \<or> dn)"

fun settled_from :: "bool \<Rightarrow> client_event list \<Rightarrow> bool" where
  "settled_from q [] = True"
| "settled_from q (e # es) \<longleftrightarrow> (case e of Added r ok \<Rightarrow> q | _ \<Rightarrow> True) \<and> settled_from (quiet e q) es"

definition settled :: "client_event list \<Rightarrow> bool" where
  "settled es = settled_from True es"

lemma settled_from_append:
  "settled_from q (xs @ ys) \<longleftrightarrow> settled_from q xs \<and> settled_from (fold quiet xs q) ys"
  by (induction xs arbitrary: q) auto

lemma settled_snoc:
  "settled (es @ [e]) \<longleftrightarrow> settled es \<and> (case e of Added r ok \<Rightarrow> fold quiet es True | _ \<Rightarrow> True)"
  by (simp add: settled_def settled_from_append)

lemma goal_fresh:
  assumes "control_ok c" "pr_inv c s" "ranges s = goal_ranges s"
  shows "fresh s"
proof -
  have "r_begin g \<in> pts g \<inter> required_offsets s" if "g \<in> set (ranges s)" for g
    using pr_inv_facts(7,10) [OF assms(1,2)] assms(3) that pts_nonempty by auto
  then show ?thesis unfolding fresh_def by blast
qed

lemma client_step_inv:
  assumes c: "control_ok c" and s: "pr_inv c s" and e: "client_step c s e s'"
    and f: "case e of Added r ok \<Rightarrow> fresh s | _ \<Rightarrow> True"
  shows "pr_inv c s'" "emits (required_offsets s \<inter> required_offsets s') s s'"
    "mset (requested_ranges s) = in_force es \<Longrightarrow> mset (requested_ranges s') = in_force (es @ [e])"
    "q \<longrightarrow> fresh s \<Longrightarrow> quiet e q \<longrightarrow> fresh s'"
proof -
  have *: "pr_inv c s' \<and> emits (required_offsets s \<inter> required_offsets s') s s' \<and>
    (mset (requested_ranges s) = in_force es \<longrightarrow> mset (requested_ranges s') = in_force (es @ [e])) \<and>
    ((q \<longrightarrow> fresh s) \<longrightarrow> quiet e q \<longrightarrow> fresh s')"
    using e
  proof cases
    case (client_add r ok)
    have fr: "fresh s" using f client_add(1) by simp
    from AddRange_spec [OF c s fr client_add(2,3)] client_add(4)
    have a: "emits (required_offsets s) s s'" "if ok then pr_inv c s' \<and> fresh s' \<and> requested_ranges s' = emplace r (requested_ranges s)
        else s' = s\<lparr>calls := calls s'\<rparr>" by (auto split: if_splits)
    have em: "emits (required_offsets s \<inter> required_offsets s') s s'" by (rule emits_mono [OF a(1)]) simp
    have k: "pr_inv c (s\<lparr>calls := cs\<rparr>)" "fresh (s\<lparr>calls := cs\<rparr>)" for cs
      using s fr by (auto simp: pr_inv_def configured_def requests_inv_def derived_def hw_inv_def required_offsets_def fresh_def)
    show ?thesis
    proof (cases ok)
      case True
      then show ?thesis using a(2) client_add(1) em by (simp add: ranges_ms.mset_ins)
    next
      case False
      then have eq: "s' = s\<lparr>calls := calls s'\<rparr>" using a(2) by simp
      have "pr_inv c s'" "fresh s'" using k [of "calls s'"] eq by simp_all
      moreover have "requested_ranges s' = requested_ranges s" by (subst eq) simp
      ultimately show ?thesis using False client_add(1) em by simp
    qed
  next
    case (client_delete r)
    from DeleteRange_spec [OF c s client_delete(2)] client_delete(3)
    have d: "pr_inv c s'" "requested_ranges s' = erase_key r (requested_ranges s)" "emits (required_offsets s') s s'" by auto
    have "distinct (requested_ranges s)" using s nonoverlap_distinct by (auto simp: pr_inv_def requests_inv_def)
    then have "mset (requested_ranges s') = mset (requested_ranges s) - {#r#}"
      unfolding d(2) by (rule mset_erase_key)
    moreover have "emits (required_offsets s \<inter> required_offsets s') s s'" by (rule emits_mono [OF d(3)]) simp
    ultimately show ?thesis using d(1) client_delete(1) by simp
  next
    case (client_optimise dn)
    from StepTowardOptimalRangesInternal_spec [OF c s, of True] client_optimise(2)
    have d: "step_ok c s s'" "dn \<longrightarrow> s' = s \<and> ranges s = goal_ranges s" by (auto simp: StepTowardOptimalRanges_def)
    have "requested_ranges s' = requested_ranges s" using d by (simp add: step_ok_def hw_frame_fields)
    moreover have "emits (required_offsets s) s s'" using d by (simp add: step_ok_def)
    then have "emits (required_offsets s \<inter> required_offsets s') s s'" by (rule emits_mono) simp
    moreover have "pr_inv c s'" using d(1) by (simp add: step_ok_def)
    moreover have "(q \<longrightarrow> fresh s) \<longrightarrow> q \<or> dn \<longrightarrow> fresh s'"
      using d goal_fresh [OF c s] by (auto simp: step_ok_def)
    ultimately show ?thesis using client_optimise(1) by simp
  qed
  show "pr_inv c s'" "emits (required_offsets s \<inter> required_offsets s') s s'"
    "mset (requested_ranges s) = in_force es \<Longrightarrow> mset (requested_ranges s') = in_force (es @ [e])"
    "q \<longrightarrow> fresh s \<Longrightarrow> quiet e q \<longrightarrow> fresh s'"
    using * by auto
qed

lemma reachable_fresh_inv:
  assumes c: "control_ok c" and r: "reachable c es s" and q: "settled es"
  shows "pr_inv c s" "mset (requested_ranges s) = in_force es" "fold quiet es True \<longrightarrow> fresh s"
proof -
  have "settled es \<longrightarrow> pr_inv c s \<and> mset (requested_ranges s) = in_force es \<and> (fold quiet es True \<longrightarrow> fresh s)"
    using r
  proof induction
    case (reach_new s)
    then show ?case using ProtectedRanges_new_spec [OF c] by auto
  next
    case (reach_step es s e s')
    show ?case
    proof
      assume "settled (es @ [e])"
      then have e: "settled es" "case e of Added r ok \<Rightarrow> fold quiet es True | _ \<Rightarrow> True" by (auto simp: settled_snoc)
      then have i: "pr_inv c s" "mset (requested_ranges s) = in_force es" "fold quiet es True \<longrightarrow> fresh s"
        using reach_step(3) by auto
      have "case e of Added r ok \<Rightarrow> fresh s | _ \<Rightarrow> True" using e(2) i(3) by (cases e) auto
      note n = client_step_inv [OF c i(1) reach_step(2) this]
      show "pr_inv c s' \<and> mset (requested_ranges s') = in_force (es @ [e]) \<and> (fold quiet (es @ [e]) True \<longrightarrow> fresh s')"
        using n(1) n(3) [OF i(2)] n(4) [OF i(3)] by simp
    qed
  qed
  then show "pr_inv c s" "mset (requested_ranges s) = in_force es" "fold quiet es True \<longrightarrow> fresh s" using q by auto
qed

lemmas reachable_inv = reachable_fresh_inv(1,2)

text \<open>Every requested offset of a reachable state is under a protected range.\<close>

lemma requested_covered:
  assumes c: "control_ok c" and s: "pr_inv c s"
  shows "covers (requested_ranges s) \<subseteq> required_offsets s"
proof
  fix x assume "x \<in> covers (requested_ranges s)"
  then obtain r where r: "r \<in> set (requested_ranges s)" "x \<in> pts r" by (auto simp: covers_iff)
  have i: "requests_inv c s" using s by (simp add: pr_inv_def)
  have "align c r \<in> set (required_ranges s)" "request_ok c r" using requested_align [OF i r(1)] by auto
  then show "x \<in> required_offsets s"
    using align_props(10) [OF c] r(2) by (auto simp: required_offsets_def covers_iff)
qed

lemma in_force_required:
  assumes "control_ok c" "pr_inv c s" "mset (requested_ranges s) = in_force es" "r \<in># in_force es"
  shows "pts r \<subseteq> required_offsets s"
proof -
  have "r \<in> set (requested_ranges s)" using assms(3,4) by (metis set_mset_mset)
  then show ?thesis using requested_covered [OF assms(1,2)] pts_subset_covers by blast
qed

lemma reachable_protects:
  assumes "control_ok c" "reachable c es s" "settled es" "r \<in># in_force es"
  shows "pts r \<subseteq> covers (ranges s)"
proof -
  note i = reachable_inv [OF assms(1-3)]
  show ?thesis using in_force_required [OF assms(1) i assms(4)] i(1) by (auto simp: pr_inv_def)
qed

text \<open>The assertions of \<open>CompareRangeByLength\<close>: no range in the containers it orders is empty.\<close>

lemma by_length_nonempty:
  assumes "pr_inv c s" "r \<in> set (interior_unused_ranges s) \<union> set (interior_unused_ranges_by_length s)"
  shows "r_begin r \<noteq> r_end r"
proof -
  have "r \<in> set (gaps (coalesced_required_ranges s))" "separated (coalesced_required_ranges s)"
    using assms by (auto simp: pr_inv_def derived_def)
  then have "good r" using separated_good [OF separated_gaps] by blast
  then show ?thesis using good_begin_less_end by fastforce
qed

text \<open>
  The calls on the hardware, one segment per call of the client: the offsets that must not lose their
  protection during the call, and the calls it makes.
\<close>

fun segments_ok :: "nat \<Rightarrow> bool \<Rightarrow> (nat set \<times> ctrl_call list) list \<Rightarrow> hw \<Rightarrow> bool" where
  "segments_ok n md [] h = True"
| "segments_ok n md ((K, cs) # sg) h \<longleftrightarrow> calls_ok n md K cs h \<and> segments_ok n md sg (fold hw_step cs h)"

lemma segments_ok_snoc:
  "segments_ok n md (sg @ [(K, cs)]) h \<longleftrightarrow>
     segments_ok n md sg h \<and> calls_ok n md K cs (fold hw_step (concat (map snd sg)) h)"
proof (induction sg arbitrary: h)
  case (Cons p sg)
  show ?case by (cases p) (simp add: Cons.IH)
qed simp

text \<open>A segment guards a request that is in force before and after its call.\<close>

definition guards :: "client_event list \<Rightarrow> (nat set \<times> ctrl_call list) list \<Rightarrow> bool" where
  "guards es sg \<longleftrightarrow> length sg = length es \<and>
     (\<forall>i<length es. \<forall>r. r \<in># in_force (take i es) \<and> r \<in># in_force (take (Suc i) es) \<longrightarrow> pts r \<subseteq> fst (sg ! i))"

lemma guards_snoc:
  assumes "guards es sg" "\<And>r. r \<in># in_force es \<Longrightarrow> r \<in># in_force (es @ [e]) \<Longrightarrow> pts r \<subseteq> K"
  shows "guards (es @ [e]) (sg @ [(K, cs)])"
  unfolding guards_def
proof (intro conjI allI impI)
  show "length (sg @ [(K, cs)]) = length (es @ [e])" using assms(1) by (simp add: guards_def)
  fix i r assume i: "i < length (es @ [e])"
    and r: "r \<in># in_force (take i (es @ [e])) \<and> r \<in># in_force (take (Suc i) (es @ [e]))"
  show "pts r \<subseteq> fst ((sg @ [(K, cs)]) ! i)"
  proof (cases "i < length es")
    case True
    then show ?thesis using assms(1) r by (simp add: guards_def nth_append)
  next
    case False
    then have "i = length es" "length sg = length es" using i assms(1) by (auto simp: guards_def)
    then show ?thesis using r assms(2) [of r] by (simp add: nth_append)
  qed
qed

lemma reachable_segments:
  assumes c: "control_ok c" and r: "reachable c es s" and q: "settled es"
  shows "\<exists>sg. guards es sg \<and> calls s = concat (map snd sg) \<and>
    segments_ok (MaxRangeCount c) (HasModProtectedRange c) sg ({#}, {}) \<and>
    fold hw_step (calls s) ({#}, {}) = hw_of s"
  using r q
proof induction
  case (reach_new s)
  then show ?case using ProtectedRanges_new_spec [OF c] by (intro exI [of _ "[]"]) (auto simp: hw_of_def guards_def)
next
  case (reach_step es s e s')
  then have e: "settled es" "case e of Added r ok \<Rightarrow> fold quiet es True | _ \<Rightarrow> True" by (auto simp: settled_snoc)
  obtain sg where sg: "guards es sg" "calls s = concat (map snd sg)"
    "segments_ok (MaxRangeCount c) (HasModProtectedRange c) sg ({#}, {})" "fold hw_step (calls s) ({#}, {}) = hw_of s"
    using reach_step(3) [OF e(1)] by blast
  note i = reachable_fresh_inv [OF c reach_step(1) e(1)]
  note i' = reachable_inv [OF c reachable.reach_step [OF reach_step(1,2)] reach_step(4)]
  have "case e of Added r ok \<Rightarrow> fresh s | _ \<Rightarrow> True" using e(2) i(3) by (cases e) auto
  note n = client_step_inv(2) [OF c i(1) reach_step(2) this]
  let ?K = "required_offsets s \<inter> required_offsets s'"
  have cf: "max_range_count s = MaxRangeCount c" "is_mod_available s = HasModProtectedRange c"
    using i(1) by (auto simp: pr_inv_def configured_def)
  obtain cs where cs: "calls s' = calls s @ cs" "fold hw_step cs (hw_of s) = hw_of s'"
    "calls_ok (MaxRangeCount c) (HasModProtectedRange c) ?K cs (hw_of s)"
    using n by (auto simp: emits_def cf)
  have "guards (es @ [e]) (sg @ [(?K, cs)])"
    using in_force_required [OF c i(1,2)] in_force_required [OF c i'] by (intro guards_snoc [OF sg(1)]) blast
  moreover have "segments_ok (MaxRangeCount c) (HasModProtectedRange c) (sg @ [(?K, cs)]) ({#}, {})"
    using sg cs(3) by (simp add: segments_ok_snoc)
  ultimately show ?case using sg cs(1,2) by (intro exI [of _ "sg @ [(?K, cs)]"]) simp
qed

section \<open>The queries\<close>

lemma Intersect_spec:
  assumes "good a" "good b" "IsOverlap a b"
  shows "\<exists>r. Intersect a b = Some r \<and> good r \<and> pts r = pts a \<inter> pts b \<and> r_begin a \<le> r_begin r \<and> r_end r \<le> r_end a"
proof -
  have o: "r_begin a < r_end b" "r_begin b < r_end a" using assms(3) by (simp_all add: IsOverlap_iff)
  have w: "r_begin a < r_end a" "r_end a < W64" "r_begin b < r_end b" "r_end b < W64"
    using assms(1,2) good_begin_less_end good_end_less by auto
  define e where "e = min (r_end a) (r_end b)"
  define b' where "b' = max (r_begin a) (r_begin b)"
  have e: "u64_add (min (u64_sub (r_end a) 1) (u64_sub (r_end b) 1)) 1 = e"
    using w by (auto simp: u64_sub_id u64_add_id e_def min_def)
  have be: "b' < e" "e < W64" using o w by (auto simp: b'_def e_def)
  have "Intersect a b = Some (BeginEnd b' e)"
    unfolding Intersect_def using assms(3) e by (simp add: Let_def b'_def BeginEnd_def BeginLength_def)
  moreover have "pts (BeginEnd b' e) = pts a \<inter> pts b"
  proof -
    have "pts (BeginEnd b' e) = {b'..<e}" using be by (intro pts_BeginEnd) auto
    then show ?thesis by (auto simp: pts_def [of a] pts_def [of b] b'_def e_def)
  qed
  moreover have "good (BeginEnd b' e)" "r_end (BeginEnd b' e) = e" "r_begin (BeginEnd b' e) = b'"
    using be by (simp_all add: BeginEnd_good BeginEnd_end)
  ultimately show ?thesis by (intro exI [of _ "BeginEnd b' e"]) (simp add: b'_def e_def)
qed

lemma overlap_calls_append:
  "overlap_calls (xs @ ys) q = do { a \<leftarrow> overlap_calls xs q; b \<leftarrow> overlap_calls ys q; Some (a @ b) }"
  by (induction xs) (auto split: bind_splits)

lemma overlap_calls_spec:
  assumes "good q" "separated (filter (\<lambda>g. IsOverlap g q) gs)"
  shows "\<exists>L. overlap_calls gs q = Some L \<and> separated L \<and> covers L = covers (filter (\<lambda>g. IsOverlap g q) gs) \<inter> pts q \<and>
    (\<forall>l\<in>set L. \<exists>g\<in>set (filter (\<lambda>g. IsOverlap g q) gs). r_begin g \<le> r_begin l \<and> r_end l \<le> r_end g)"
  using assms(2)
proof (induction gs)
  case (Cons g gs)
  show ?case
  proof (cases "IsOverlap g q")
    case False
    then show ?thesis using Cons by (auto simp: overlap_call_def)
  next
    case True
    then have g: "good g" "separated (filter (\<lambda>g. IsOverlap g q) gs)"
      "\<forall>h\<in>set (filter (\<lambda>g. IsOverlap g q) gs). r_end g < r_begin h"
      using Cons.prems by (auto simp: separated_Cons)
    obtain L where L: "overlap_calls gs q = Some L" "separated L" "covers L = covers (filter (\<lambda>g. IsOverlap g q) gs) \<inter> pts q"
      "\<forall>l\<in>set L. \<exists>g\<in>set (filter (\<lambda>g. IsOverlap g q) gs). r_begin g \<le> r_begin l \<and> r_end l \<le> r_end g"
      using Cons.IH [OF g(2)] by blast
    obtain r where r: "Intersect g q = Some r" "good r" "pts r = pts g \<inter> pts q" "r_begin g \<le> r_begin r" "r_end r \<le> r_end g"
      using Intersect_spec [OF g(1) assms(1) True] by blast
    have "\<forall>l\<in>set L. r_end r < r_begin l" using L(4) g(3) r(5) by fastforce
    then have "separated (r # L)" using L(2) r(2) by (simp add: separated_Cons)
    moreover have "covers (r # L) = covers (filter (\<lambda>g. IsOverlap g q) (g # gs)) \<inter> pts q"
      using L(3) r(3) True by auto
    ultimately show ?thesis using True L(1,4) r(1,4,5) by (auto simp: overlap_call_def)
  qed
qed simp

lemma in_slice_iff: "x \<in> set (slice i j xs) \<longleftrightarrow> (\<exists>k. i \<le> k \<and> k < j \<and> k < length xs \<and> xs ! k = x)"
proof
  assume "x \<in> set (slice i j xs)"
  then obtain k where "k < length (slice i j xs)" "slice i j xs ! k = x" by (auto simp: in_set_conv_nth)
  then show "\<exists>k. i \<le> k \<and> k < j \<and> k < length xs \<and> xs ! k = x"
    by (intro exI [of _ "i + k"]) (auto simp: slice_def)
next
  assume "\<exists>k. i \<le> k \<and> k < j \<and> k < length xs \<and> xs ! k = x"
  then obtain k where "i \<le> k" "k < j" "k < length xs" "xs ! k = x" by blast
  then show "x \<in> set (slice i j xs)" by (auto simp: slice_def in_set_conv_nth intro!: exI [of _ "k - i"])
qed

lemma slice_mono: "i \<le> b \<Longrightarrow> e \<le> j \<Longrightarrow> set (slice b e xs) \<subseteq> set (slice i j xs)"
proof
  fix x assume le: "i \<le> b" "e \<le> j" and "x \<in> set (slice b e xs)"
  then obtain k where "b \<le> k" "k < e" "k < length xs" "xs ! k = x" by (auto simp: in_slice_iff)
  then show "x \<in> set (slice i j xs)" unfolding in_slice_iff using le by (intro exI [of _ k]) simp
qed

text \<open>
  The slice of the ranges that the query walks: the ranges that overlap, and a neighbour on each side.
\<close>

lemma walk_slice:
  assumes R: "separated R" "R \<noteq> []" and q: "good q"
    and it: "IteratorsCoveringPotentialOverlapsOfRangeWithRanges q R = (b, e)"
    and i: "i = (if b \<noteq> 0 then b - 1 else b)" and j: "j = (if e \<noteq> length R then e + 1 else e)"
  shows "i < j" "j \<le> length R" "covers (slice i j R) \<inter> pts q = covers R \<inter> pts q"
    "i \<noteq> 0 \<Longrightarrow> r_end (R ! i) \<le> r_begin q" "j \<noteq> length R \<Longrightarrow> r_end q \<le> r_begin (R ! (j - 1))"
proof -
  note m = separated_monotone [OF R(1)]
  have lt: "r_begin q < r_end q" by (rule good_begin_less_end [OF q])
  have be: "b = length (takeWhile (\<lambda>p. r_end p \<le> r_begin q) R)" "e = length (takeWhile (\<lambda>p. r_begin p < r_end q) R)"
    using iterators_eq [OF m lt] it by auto
  have bl: "b \<le> length R" "e \<le> length R" unfolding be by (rule length_takeWhile_le)+
  have before: "r_end (R ! k) \<le> r_begin q" if "k < b" for k using takeWhile_nth_before that be(1) by blast
  have after: "r_end q \<le> r_begin (R ! e)" if "e \<noteq> length R"
    using nth_length_takeWhile [of "\<lambda>p. r_begin p < r_end q" R] that bl(2) be(2) by auto
  have g: "good (R ! k)" if "k < length R" for k using separated_good [OF R(1)] that by simp
  have ble: "b \<le> e"
  proof (rule ccontr)
    assume "\<not> b \<le> e"
    then show False using before [of e] after g [of e] good_begin_less_end [of "R ! e"] bl lt by fastforce
  qed
  show "i < j" "j \<le> length R" using ble bl R(2) by (auto simp: i j)
  show "i \<noteq> 0 \<Longrightarrow> r_end (R ! i) \<le> r_begin q" using before [of i] by (auto simp: i split: if_splits)
  show "j \<noteq> length R \<Longrightarrow> r_end q \<le> r_begin (R ! (j - 1))" using after by (auto simp: j split: if_splits)
  have "p \<in> set (slice i j R)" if "p \<in> set R" "pts p \<inter> pts q \<noteq> {}" for p
  proof -
    have "IsOverlap q p" using that IsOverlap_pts [OF q separated_good [OF R(1) that(1)]] by blast
    then have "p \<in> set (slice b e R)" using potential_overlaps_good [OF m q] it that(1)
      by (auto simp: potential_overlaps_def)
    moreover have "i \<le> b" "e \<le> j" by (simp_all add: i j)
    ultimately show ?thesis using slice_mono [of i b e j R] by blast
  qed
  then have "covers R \<inter> pts q \<subseteq> covers (slice i j R)" unfolding covers_iff [of _ R] covers_def by blast
  moreover have "covers (slice i j R) \<subseteq> covers R" by (rule covers_mono [OF set_slice_subset])
  ultimately show "covers (slice i j R) \<inter> pts q = covers R \<inter> pts q" by blast
qed

lemma hd_last_slice:
  assumes "i < j" "j \<le> length R"
  shows "slice i j R \<noteq> []" "hd (slice i j R) = R ! i" "last (slice i j R) = R ! (j - 1)"
  using assms by (auto simp: slice_def hd_drop_conv_nth hd_take last_conv_nth)

text \<open>The gaps the query offers to \<open>overlap_call\<close>: in front of the slice, inside it and behind it.\<close>

definition walk_gaps :: "mrange \<Rightarrow> mrange list \<Rightarrow> nat \<Rightarrow> nat \<Rightarrow> mrange list" where
  "walk_gaps E R i j =
     (if i = 0 then [BeginEnd (r_begin E) (r_begin (R ! i))] else []) @ gaps (slice i j R) @
     (if j = length R then [BeginEnd (r_end (last R)) (r_end E)] else [])"

lemma front_behind_gap:
  assumes "b \<le> e" "e < W64"
  shows "IsOverlap (BeginEnd b e) q \<Longrightarrow> pts q \<subseteq> {x. b \<le> x} \<or> pts q \<subseteq> {x. x < e} \<Longrightarrow> good q \<Longrightarrow> good (BeginEnd b e)"
    "r_begin (BeginEnd b e) = b" "r_end (BeginEnd b e) = e" "pts (BeginEnd b e) = {b..<e}"
proof -
  show e: "r_begin (BeginEnd b e) = b" "r_end (BeginEnd b e) = e" "pts (BeginEnd b e) = {b..<e}"
    using assms by (simp_all add: BeginEnd_end pts_BeginEnd)
  show "good (BeginEnd b e)" if o: "IsOverlap (BeginEnd b e) q" "pts q \<subseteq> {x. b \<le> x} \<or> pts q \<subseteq> {x. x < e}" "good q"
  proof -
    have "b < r_end q" "r_begin q < e" using o(1) e by (auto simp: IsOverlap_iff)
    moreover have "b \<le> r_begin q \<or> r_end q - 1 < e" using o(2) pts_nonempty [OF o(3)] pts_last [OF o(3)] by blast
    ultimately have "b < e" by linarith
    then show ?thesis using assms by (simp add: BeginEnd_good)
  qed
qed

lemma walk_gaps_spec:
  assumes R: "separated R" "R \<noteq> []" and E: "good E" "covers R \<subseteq> pts E" and q: "good q" "pts q \<subseteq> pts E"
    and it: "IteratorsCoveringPotentialOverlapsOfRangeWithRanges q R = (b, e)"
    and i: "i = (if b \<noteq> 0 then b - 1 else b)" and j: "j = (if e \<noteq> length R then e + 1 else e)"
  defines "G \<equiv> filter (\<lambda>g. IsOverlap g q) (walk_gaps E R i j)"
  shows "separated G" "covers G \<inter> pts q = pts q - covers R"
proof -
  note w = walk_slice [OF R q(1) it i j]
  define S where "S = slice i j R"
  have S: "separated S" "S \<noteq> []" "hd S = R ! i" "last S = R ! (j - 1)"
    using separated_slice [OF R(1)] hd_last_slice [OF w(1,2)] by (auto simp: S_def)
  have mem: "R ! i \<in> set R" "R ! (j - 1) \<in> set R" "last R = R ! (length R - 1)" using w(1,2) R(2) by (auto simp: last_conv_nth)
  have gd: "good (R ! i)" "good (R ! (j - 1))" using separated_good [OF R(1)] mem by auto
  have "r_begin (R ! i) \<in> pts E" "r_end (R ! (j - 1)) - 1 \<in> pts E"
    using pts_nonempty [OF gd(1)] pts_last [OF gd(2)] pts_subset_covers [OF mem(1)] pts_subset_covers [OF mem(2)] E(2)
    by blast+
  then have inE: "r_begin E \<le> r_begin (R ! i)" "r_end (R ! (j - 1)) \<le> r_end E"
    using good_begin_less_end [OF gd(2)] unfolding pts_def by auto
  have lt: "r_begin (R ! i) < r_end (R ! i)" "r_begin (R ! (j - 1)) < r_end (R ! (j - 1))"
    using gd good_begin_less_end by auto
  have wE: "r_begin (R ! i) < W64" "r_end E < W64"
    using lt(1) good_end_less [OF gd(1)] good_end_less [OF E(1)] by linarith+
  have qE: "pts q \<subseteq> {x. r_begin E \<le> x}" "pts q \<subseteq> {x. x < r_end E}" using q(2) unfolding pts_def by auto
  note fg = front_behind_gap [OF inE(1) wE(1)] and bg = front_behind_gap [OF inE(2) wE(2)]
  have gS: "r_begin (R ! i) < r_begin g" "r_end g < r_end (R ! (j - 1))" if gg: "g \<in> set (gaps S)" for g
  proof -
    obtain u v where uv: "adjacent S u v" "g = BeginEnd (r_end u) (r_begin v)" using gg by (auto simp: set_gaps)
    note ge = gap_begin_end [OF S(1) uv]
    have "u \<in> set S" "v \<in> set S" using adjacent_set [OF uv(1)] by auto
    then have "r_begin (hd S) \<le> r_begin u" "r_end v \<le> r_end (last S)" "good u" "good v"
      using separated_hd_begin_le [OF S(1)] separated_last_end [OF S(1,2)] separated_good [OF S(1)] by auto
    then show "r_begin (R ! i) < r_begin g" "r_end g < r_end (R ! (j - 1))"
      using ge S(3,4) good_begin_less_end [of u] good_begin_less_end [of v] by auto
  qed
  let ?F = "if i = 0 then [BeginEnd (r_begin E) (r_begin (R ! i))] else []"
  let ?B = "if j = length R then [BeginEnd (r_end (R ! (j - 1))) (r_end E)] else []"
  have G: "G = filter (\<lambda>g. IsOverlap g q) (?F @ gaps S @ ?B)"
    unfolding G_def walk_gaps_def S_def using mem(3) by simp
  have f: "g = BeginEnd (r_begin E) (r_begin (R ! i)) \<and> IsOverlap g q \<and> i = 0" if "g \<in> set (filter (\<lambda>g. IsOverlap g q) ?F)" for g
    using that by (auto split: if_splits)
  have b: "g = BeginEnd (r_end (R ! (j - 1))) (r_end E) \<and> IsOverlap g q \<and> j = length R" if "g \<in> set (filter (\<lambda>g. IsOverlap g q) ?B)" for g
    using that by (auto split: if_splits)
  have "r_end (R ! i) \<le> r_end (R ! (j - 1))"
    using separated_last_end [OF S(1,2) hd_in_set [OF S(2)]] S(3,4) by simp
  then have fb: "r_begin (R ! i) < r_end (R ! (j - 1))" using lt(1) by simp
  have sF: "separated (filter (\<lambda>g. IsOverlap g q) ?F)" and sB: "separated (filter (\<lambda>g. IsOverlap g q) ?B)"
    using fg(1) bg(1) qE q(1) by auto
  show "separated G"
    unfolding G filter_append separated_append
  proof (intro conjI ballI sF sB)
    show "separated (filter (\<lambda>g. IsOverlap g q) (gaps S))" by (rule separated_filter [OF separated_gaps [OF S(1)]])
    fix x y
    show "r_end x < r_begin y" if "x \<in> set (filter (\<lambda>g. IsOverlap g q) (gaps S))" "y \<in> set (filter (\<lambda>g. IsOverlap g q) ?B)"
      using gS(2) [of x] b [OF that(2)] that(1) bg(2) by auto
    show "r_end x < r_begin y" if "x \<in> set (filter (\<lambda>g. IsOverlap g q) ?F)"
      "y \<in> set (filter (\<lambda>g. IsOverlap g q) (gaps S) @ filter (\<lambda>g. IsOverlap g q) ?B)"
      using gS(1) [of y] f [OF that(1)] b [of y] that(2) fg(3) bg(2) fb by auto
  qed
  have "IsOverlap g q" if "x \<in> pts g" "x \<in> pts q" for g x
    using that unfolding IsOverlap_iff pts_def by auto
  then have "covers G \<inter> pts q = covers (?F @ gaps S @ ?B) \<inter> pts q"
    unfolding G covers_def by auto
  also have "\<dots> = ((if i = 0 then {r_begin E..<r_begin (R ! i)} else {}) \<union> (hull S - covers S) \<union>
      (if j = length R then {r_end (R ! (j - 1))..<r_end E} else {})) \<inter> pts q"
  proof -
    have "covers ?F = (if i = 0 then {r_begin E..<r_begin (R ! i)} else {})" using fg(4) by auto
    moreover have "covers ?B = (if j = length R then {r_end (R ! (j - 1))..<r_end E} else {})" using bg(4) by auto
    ultimately show ?thesis unfolding covers_append covers_gaps [OF S(1)] by (simp only: Un_assoc)
  qed
  also have "\<dots> = pts q - covers S"
  proof -
    have h: "hull S = {r_begin (R ! i)..<r_end (R ! (j - 1))}" using S(2-4) by (simp add: hull_def)
    have "covers S \<subseteq> hull S" by (rule covers_hull [OF S(1)])
    moreover have "r_begin (R ! i) \<le> x" if "x \<in> pts q" "i \<noteq> 0" for x
      using w(4) [OF that(2)] that(1) lt(1) unfolding pts_def by auto
    moreover have "x < r_end (R ! (j - 1))" if "x \<in> pts q" "j \<noteq> length R" for x
      using w(5) [OF that(2)] that(1) lt(2) unfolding pts_def by auto
    moreover have "r_begin E \<le> x \<and> x < r_end E" if "x \<in> pts q" for x using qE that by blast
    ultimately show ?thesis unfolding h by auto
  qed
  finally show "covers G \<inter> pts q = pts q - covers R" using w(3) unfolding S_def by blast
qed

lemma ForUnprotectedRangesOverlappingRange_spec:
  assumes c: "control_ok c" and s: "pr_inv c s" and E: "good (BeginLength (GetBase c) (GetSize c))"
    and R: "covers (ranges s) \<subseteq> pts (BeginLength (GetBase c) (GetSize c))"
    and q: "good q" "pts q \<subseteq> pts (BeginLength (GetBase c) (GetSize c))"
  shows "\<exists>L. ForUnprotectedRangesOverlappingRange c q s = Some L \<and> separated L \<and> covers L = pts q - covers (ranges s)"
proof -
  let ?E = "BeginLength (GetBase c) (GetSize c)"
  have dyn: "is_dynamic s" and sep: "separated (ranges s)"
    using s configured_bounds(7) [OF c] pr_inv_facts(2) [OF c s] by (auto simp: pr_inv_def)
  show ?thesis
  proof (cases "ranges s = []")
    case True
    have "IsOverlap ?E q" using IsOverlap_pts [OF E q(1)] pts_nonempty [OF q(1)] q(2) by blast
    then obtain r where r: "Intersect ?E q = Some r" "good r" "pts r = pts ?E \<inter> pts q"
      using Intersect_spec [OF E q(1)] by blast
    then have "ForUnprotectedRangesOverlappingRange c q s = Some [r]"
      using dyn True by (simp add: ForUnprotectedRangesOverlappingRange_def Let_def)
    then show ?thesis using r q(2) True by (intro exI [of _ "[r]"]) auto
  next
    case False
    obtain b e where it: "IteratorsCoveringPotentialOverlapsOfRangeWithRanges q (ranges s) = (b, e)" by fastforce
    define i where "i = (if b \<noteq> 0 then b - 1 else b)"
    define j where "j = (if e \<noteq> length (ranges s) then e + 1 else e)"
    note w = walk_slice(1) [OF sep False q(1) it i_def j_def]
    note g = walk_gaps_spec [OF sep False E R q it i_def j_def]
    obtain L where L: "overlap_calls (walk_gaps ?E (ranges s) i j) q = Some L" "separated L"
      "covers L = covers (filter (\<lambda>g. IsOverlap g q) (walk_gaps ?E (ranges s) i j)) \<inter> pts q"
      using overlap_calls_spec [OF q(1) g(1)] by blast
    have one: "overlap_calls [h] q = overlap_call h q" for h by (simp add: bind_eq_Some_conv split: bind_splits)
    have "ForUnprotectedRangesOverlappingRange c q s = overlap_calls (walk_gaps ?E (ranges s) i j) q"
      unfolding ForUnprotectedRangesOverlappingRange_def Let_def it prod.case i_def [symmetric] j_def [symmetric]
      using dyn False w by (simp add: walk_gaps_def overlap_calls_append one gaps_def del: overlap_calls.simps(2))
    then show ?thesis using L g(2) by auto
  qed
qed

text \<open>
  The unprotected ranges of the whole heap, and the number of their bytes.
\<close>

lemma GetLoanableBytes_spec:
  assumes c: "control_ok c" and s: "pr_inv c s" and E: "good (BeginLength (GetBase c) (GetSize c))"
    and R: "covers (ranges s) \<subseteq> pts (BeginLength (GetBase c) (GetSize c))"
  shows "\<exists>L. ForUnprotectedRanges c s = Some L \<and> separated L \<and>
    covers L = pts (BeginLength (GetBase c) (GetSize c)) - covers (ranges s) \<and> total_bytes L = GetLoanableBytes c s"
proof -
  let ?E = "BeginLength (GetBase c) (GetSize c)"
  obtain L where L: "ForUnprotectedRanges c s = Some L" "separated L" "covers L = pts ?E - covers (ranges s)"
    using ForUnprotectedRangesOverlappingRange_spec [OF c s E R E] by (auto simp: ForUnprotectedRanges_def)
  have sep: "separated (ranges s)" and hw: "hw_inv s" using pr_inv_facts(1,2) [OF c s] by auto
  have "total_bytes L = card (covers L)"
    using card_covers [OF separated_nonoverlap [OF L(2)]] by (simp add: total_bytes_def)
  also have "\<dots> = card (pts ?E) - card (covers (ranges s))" unfolding L(3) using R by (simp add: card_Diff_subset)
  also have "\<dots> = GetSize c - ranges_bytes s"
    using card_pts [OF E] card_covers [OF separated_nonoverlap [OF sep]] hw by (simp add: total_bytes_def hw_inv_def)
  also have "\<dots> = GetLoanableBytes c s"
  proof -
    have "card (covers (ranges s)) \<le> card (pts ?E)" using R by (intro card_mono) auto
    then have "ranges_bytes s \<le> GetSize c"
      using card_pts [OF E] card_covers [OF separated_nonoverlap [OF sep]] hw by (simp add: total_bytes_def hw_inv_def)
    moreover have "GetSize c < W64" using E by (simp add: good_def)
    ultimately show ?thesis by (simp add: GetLoanableBytes_def u64_sub_id)
  qed
  finally show ?thesis using L by blast
qed

end
