(* ===== verification/Sysmem_Ranges_Examples.thy ===== *)
theory Sysmem_Ranges_Examples
  imports Sysmem_Ranges_Class
begin

text \<open>
  A concrete control and a history of calls on it, with every state written out. The states show that
  the hypotheses of the theorems on \<open>ProtectedRanges\<close> can hold together, and two continuations of the
  history show what \<open>AddRange\<close> does when a hardware range that holds no required offset is left behind by
  \<open>DeleteRange\<close>.
\<close>

section \<open>The control\<close>

definition ex_control :: pr_control where
  "ex_control = \<lparr>IsDynamic = True, MaxRangeCount = 4, GetRangeGranularity = 1, HasModProtectedRange = True,
     GetBase = 0, GetSize = 64, UseRange = (\<lambda>_ _. True),
     round_down = (\<lambda>x g. x div g * g), round_up = (\<lambda>x g. (x + g - 1) div g * g)\<rparr>"

lemma round_down_div:
  fixes x g :: nat
  shows "1 \<le> g \<Longrightarrow> g dvd x div g * g \<and> x div g * g \<le> x \<and> x < x div g * g + g"
  using dividend_less_div_times [of g x] by simp

lemma round_up_div:
  fixes x g :: nat
  assumes "1 \<le> g"
  shows "g dvd (x + g - 1) div g * g \<and> x \<le> (x + g - 1) div g * g \<and> (x + g - 1) div g * g < x + g"
proof -
  note d = round_down_div [OF assms, of "x + g - 1"]
  have "(x + g - 1) div g * g \<le> x + g - 1" "x + g - 1 < (x + g - 1) div g * g + g" using d by blast+
  then have "x \<le> (x + g - 1) div g * g \<and> (x + g - 1) div g * g < x + g" using assms by linarith
  then show ?thesis using d by blast
qed

lemma ex_control_ok: "control_ok ex_control"
proof -
  have "fbl_rounding ex_control"
    unfolding fbl_rounding_def ex_control_def using round_down_div round_up_div by auto
  then show ?thesis by (simp add: control_ok_def ex_control_def W64_def)
qed

lemma ex_request_ok: "r_length r < 1000 \<Longrightarrow> 0 < r_length r \<Longrightarrow> r_begin r < 1000 \<Longrightarrow> request_ok ex_control r"
  unfolding request_ok_def good_def r_end_def ex_control_def u64_add_def W64_def by simp

section \<open>A history\<close>

definition ex_state ::
  "mrange list \<Rightarrow> mrange list \<Rightarrow> mrange list \<Rightarrow> mrange list \<Rightarrow> mrange list \<Rightarrow> mrange list \<Rightarrow> mrange list \<Rightarrow>
   ctrl_call list \<Rightarrow> pr_state" where
  "ex_state requested coalesced unused by_length largest goal rs cs =
     \<lparr>requested_ranges = requested, requested_bytes = total_bytes requested, required_ranges = requested,
      coalesced_required_ranges = coalesced, interior_unused_ranges = unused,
      interior_unused_ranges_by_length = by_length, largest_interior_unused_ranges = largest,
      goal_ranges = goal, ranges = rs, ranges_bytes = total_bytes rs, is_dynamic = True,
      max_range_count = 4, is_mod_available = True, max_logical_range_count = 3,
      range_granularity = 1, calls = cs\<rparr>"

text \<open>Five requests, added so that the ranges in use are those of A, of B and of C to E.\<close>

definition ex_0 :: pr_state where
  "ex_0 = ex_state [] [] [] [] [] [] [] []"

definition ex_C :: pr_state where
  "ex_C = ex_state [Range 10 1] [Range 10 1] [] [] [] [Range 10 1] [Range 10 1] (calls ex_0 @
      [UseRange_call (Range 10 1) True, AddProtectedRange (Range 10 1), ZeroProtectedSubRange True (Range 10
      1)])"

definition ex_CD :: pr_state where
  "ex_CD = ex_state [Range 10 1, Range 18 1] [Range 10 1, Range 18 1] [Range 11 7] [Range 11 7] [Range 11
      7] [Range 10 1, Range 18 1] [Range 10 9] (calls ex_C @ [UseRange_call (Range 11 8) True,
      AddProtectedRange (Range 10 9), DelProtectedRange (Range 10 1), ZeroProtectedSubRange True (Range 18
      1)])"

definition ex_CDE :: pr_state where
  "ex_CDE = ex_state [Range 10 1, Range 18 1, Range 30 1] [Range 10 1, Range 18 1, Range 30 1] [Range 11 7,
      Range 19 11] [Range 11 7, Range 19 11] [Range 11 7, Range 19 11] [Range 10 1, Range 18 1, Range 30 1]
      [Range 10 21] (calls ex_CD @ [UseRange_call (Range 19 12) True, AddProtectedRange (Range 10 21),
      DelProtectedRange (Range 10 9), ZeroProtectedSubRange True (Range 30 1)])"

definition ex_BCDE :: pr_state where
  "ex_BCDE = ex_state [Range 6 1, Range 10 1, Range 18 1, Range 30 1] [Range 6 1, Range 10 1, Range 18 1,
      Range 30 1] [Range 7 3, Range 11 7, Range 19 11] [Range 7 3, Range 11 7, Range 19 11] [Range 11 7,
      Range 19 11] [Range 6 5, Range 18 1, Range 30 1] [Range 6 1, Range 10 21] (calls ex_CDE @
      [UseRange_call (Range 6 1) True, AddProtectedRange (Range 6 1), ZeroProtectedSubRange True (Range 6
      1)])"

definition ex_ABCDE :: pr_state where
  "ex_ABCDE = ex_state [Range 3 1, Range 6 1, Range 10 1, Range 18 1, Range 30 1] [Range 3 1, Range 6 1,
      Range 10 1, Range 18 1, Range 30 1] [Range 4 2, Range 7 3, Range 11 7, Range 19 11] [Range 4 2, Range
      7 3, Range 11 7, Range 19 11] [Range 11 7, Range 19 11] [Range 3 8, Range 18 1, Range 30 1] [Range 3
      1, Range 6 1, Range 10 21] (calls ex_BCDE @ [UseRange_call (Range 3 1) True, AddProtectedRange (Range
      3 1), ZeroProtectedSubRange True (Range 3 1)])"

definition ex_gone :: pr_state where
  "ex_gone = ex_state [Range 3 1, Range 10 1, Range 18 1, Range 30 1] [Range 3 1, Range 10 1, Range 18 1,
      Range 30 1] [Range 4 6, Range 11 7, Range 19 11] [Range 4 6, Range 11 7, Range 19 11] [Range 11 7,
      Range 19 11] [Range 3 8, Range 18 1, Range 30 1] [Range 3 1, Range 6 1, Range 10 21] (calls ex_ABCDE)"

definition ex_bad :: pr_state where
  "ex_bad = ex_state [Range 3 1, Range 5 4, Range 10 1, Range 18 1, Range 30 1] [Range 3 1, Range 5 4,
      Range 10 1, Range 18 1, Range 30 1] [Range 4 1, Range 9 1, Range 11 7, Range 19 11] [Range 4 1, Range
      9 1, Range 11 7, Range 19 11] [Range 11 7, Range 19 11] [Range 3 8, Range 18 1, Range 30 1] [Range 3
      4, Range 10 21] (calls ex_gone @ [UseRange_call (Range 4 2) True, AddProtectedRange (Range 3 3),
      DelProtectedRange (Range 3 1), ModProtectedRange (Range 3 3) (Range 3 4), DelProtectedRange (Range 6
      1), ZeroProtectedSubRange True (Range 5 4)])"

definition ex_fill1 :: pr_state where
  "ex_fill1 = ex_state [Range 3 1, Range 10 1, Range 11 7, Range 18 1, Range 30 1] [Range 3 1, Range 10 9,
      Range 30 1] [Range 4 6, Range 19 11] [Range 4 6, Range 19 11] [Range 4 6, Range 19 11] [Range 3 1,
      Range 10 9, Range 30 1] [Range 3 1, Range 6 1, Range 10 21] (calls ex_gone @ [ZeroProtectedSubRange
      True (Range 11 7)])"

definition ex_fill2 :: pr_state where
  "ex_fill2 = ex_state [Range 3 1, Range 10 1, Range 11 7, Range 18 1, Range 19 11, Range 30 1] [Range 3 1,
      Range 10 21] [Range 4 6] [Range 4 6] [Range 4 6] [Range 3 1, Range 10 21] [Range 3 1, Range 6 1, Range
      10 21] (calls ex_fill1 @ [ZeroProtectedSubRange True (Range 19 11)])"

lemma ex_new: "ProtectedRanges_new ex_control = Some ex_0"
  by code_simp

lemma ex_add_C: "AddRange ex_control (Range 10 1) ex_0 = Some (True, ex_C)"
  by code_simp

lemma ex_add_D: "AddRange ex_control (Range 18 1) ex_C = Some (True, ex_CD)"
  by code_simp

lemma ex_add_E: "AddRange ex_control (Range 30 1) ex_CD = Some (True, ex_CDE)"
  by code_simp

lemma ex_add_B: "AddRange ex_control (Range 6 1) ex_CDE = Some (True, ex_BCDE)"
  by code_simp

lemma ex_add_A: "AddRange ex_control (Range 3 1) ex_BCDE = Some (True, ex_ABCDE)"
  by code_simp

lemma ex_delete_B: "DeleteRange ex_control (Range 6 1) ex_ABCDE = Some ex_gone"
  by code_simp

lemmas ex_state_defs = ex_0_def ex_C_def ex_CD_def ex_CDE_def ex_BCDE_def ex_ABCDE_def ex_gone_def ex_bad_def
  ex_fill1_def ex_fill2_def ex_state_def

lemma ex_fresh: "fresh ex_0" "fresh ex_C" "fresh ex_CD" "fresh ex_CDE" "fresh ex_BCDE" "fresh ex_ABCDE" "\<not> fresh ex_gone"
  by code_simp+

lemma ex_disjoint:
  "pts (Range 10 1) \<inter> covers (requested_ranges ex_0) = {}" "pts (Range 18 1) \<inter> covers (requested_ranges ex_C) = {}"
  "pts (Range 30 1) \<inter> covers (requested_ranges ex_CD) = {}" "pts (Range 6 1) \<inter> covers (requested_ranges ex_CDE) = {}"
  "pts (Range 3 1) \<inter> covers (requested_ranges ex_BCDE) = {}" "pts (Range 5 4) \<inter> covers (requested_ranges ex_gone) = {}"
  by code_simp+

definition ex_history :: "client_event list" where
  "ex_history = [Added (Range 10 1) True, Added (Range 18 1) True, Added (Range 30 1) True,
     Added (Range 6 1) True, Added (Range 3 1) True]"

lemma ex_reachable_CDE: "reachable ex_control (take 3 ex_history) ex_CDE"
proof -
  note req = ex_request_ok
  have "reachable ex_control [] ex_0" by (rule reach_new [OF ex_new])
  from reach_step [OF this client_add [OF _ ex_disjoint(1) ex_add_C]]
  have "reachable ex_control [Added (Range 10 1) True] ex_C" by (simp add: req)
  from reach_step [OF this client_add [OF _ ex_disjoint(2) ex_add_D]]
  have "reachable ex_control [Added (Range 10 1) True, Added (Range 18 1) True] ex_CD" by (simp add: req)
  from reach_step [OF this client_add [OF _ ex_disjoint(3) ex_add_E]]
  show ?thesis by (simp add: req ex_history_def)
qed

lemma ex_reachable: "reachable ex_control ex_history ex_ABCDE"
proof -
  note req = ex_request_ok
  from reach_step [OF ex_reachable_CDE client_add [OF _ ex_disjoint(4) ex_add_B]]
  have "reachable ex_control (take 3 ex_history @ [Added (Range 6 1) True]) ex_BCDE" by (simp add: req)
  from reach_step [OF this client_add [OF _ ex_disjoint(5) ex_add_A]]
  show ?thesis by (simp add: req ex_history_def)
qed

lemma ex_reachable_gone: "reachable ex_control (ex_history @ [Deleted (Range 6 1)]) ex_gone"
  by (rule reach_step [OF ex_reachable client_delete [OF _ ex_delete_B]]) code_simp

lemma ex_settled: "settled (take 3 ex_history)" "settled ex_history" "settled (ex_history @ [Deleted (Range 6 1)])"
  by code_simp+

lemmas ex_inv_CDE = reachable_inv(1) [OF ex_control_ok ex_reachable_CDE ex_settled(1)]
lemmas ex_inv = reachable_inv(1) [OF ex_control_ok ex_reachable ex_settled(2)]
lemmas ex_inv_gone = reachable_inv(1) [OF ex_control_ok ex_reachable_gone ex_settled(3)]

section \<open>Two continuations\<close>

lemma ex_add_bad: "AddRange ex_control (Range 5 4) ex_gone = Some (True, ex_bad)"
  by code_simp

lemma ex_bad_uncovered: "7 \<in> pts (Range 5 4)" "7 \<notin> covers (ranges ex_bad)"
  by code_simp+

lemma ex_add_fill1: "AddRange ex_control (Range 11 7) ex_gone = Some (True, ex_fill1)"
  by code_simp

lemma ex_add_fill2: "AddRange ex_control (Range 19 11) ex_fill1 = Some (True, ex_fill2)"
  by code_simp

lemma ex_add_none: "AddRange ex_control (Range 0 1) ex_fill2 = None"
  by code_simp

section \<open>A control with room for one logical range\<close>

definition ex_small :: pr_control where
  "ex_small = \<lparr>IsDynamic = True, MaxRangeCount = 2, GetRangeGranularity = 1, HasModProtectedRange = True,
     GetBase = 0, GetSize = 64, UseRange = (\<lambda>_ _. True),
     round_down = (\<lambda>x g. x div g * g), round_up = (\<lambda>x g. (x + g - 1) div g * g)\<rparr>"

definition ex_small_0 :: pr_state where
  "ex_small_0 = (ex_state [] [] [] [] [] [] [] [])\<lparr>max_range_count := 2, max_logical_range_count := 1\<rparr>"

definition ex_small_1 :: pr_state where
  "ex_small_1 = (ex_state [Range 3 1] [Range 3 1] [] [] [] [Range 3 1] [Range 3 1]
     [UseRange_call (Range 3 1) True, AddProtectedRange (Range 3 1), ZeroProtectedSubRange True (Range 3 1)])
     \<lparr>max_range_count := 2, max_logical_range_count := 1\<rparr>"

lemma ex_small_new: "ProtectedRanges_new ex_small = Some ex_small_0"
  by code_simp

lemma ex_small_add: "AddRange ex_small (Range 3 1) ex_small_0 = Some (True, ex_small_1)"
  by code_simp

lemma ex_small_none: "AddRange ex_small (Range 6 1) ex_small_1 = None"
  by code_simp

end
