(* ===== verification/Sysmem_Ranges_Correct.thy ===== *)
theory Sysmem_Ranges_Correct
  imports Sysmem_Ranges_Examples
begin

text \<open>
  The properties of \<open>ProtectedRanges\<close>, each followed by an instance on the history of the examples.
\<close>

section \<open>Histories of calls\<close>

text \<open>
  C1: After any history of calls that add non-empty ranges disjoint from the requests in force, delete
  requested ranges and step, and in which the client, once it has deleted a range, steps until
  \<open>StepTowardOptimalRanges\<close> returns true before it adds the next (\<open>settled\<close>), every requested range that
  was added with success and not deleted since lies under the protected ranges in use. Without the
  condition on the order the claim fails in the code, as the third theorem of the next section shows.
\<close>

theorem history_protects_requests:
  assumes "control_ok c" "reachable c es s" "settled es" "r \<in># in_force es"
  shows "pts r \<subseteq> covers (ranges s)"
  by (rule reachable_protects [OF assms])

theorem history_protects_requests_witness: "pts (Range 18 1) \<subseteq> covers (ranges ex_gone)"
  by (rule history_protects_requests [OF ex_control_ok ex_reachable_gone ex_settled(3)]) code_simp



section \<open>AddRange and DeleteRange\<close>

text \<open>
  C2: When every hardware range holds a required offset, \<open>AddRange\<close> of a range that overlaps no other
  request returns without an assertion firing. If it returns true, the invariant holds with the new
  request included, and its offsets are protected; if it returns false, the object is as it was. The
  calls on the hardware never leave an offset that was required before unprotected.
\<close>

theorem AddRange_protects_or_restores:
  assumes "control_ok c" "pr_inv c s" "fresh s" "request_ok c r" "pts r \<inter> covers (requested_ranges s) = {}"
  shows "\<exists>ok s'. AddRange c r s = Some (ok, s') \<and> emits (required_offsets s) s s' \<and>
    (ok \<longrightarrow> pr_inv c s' \<and> fresh s' \<and> requested_ranges s' = emplace r (requested_ranges s) \<and> pts r \<subseteq> covers (ranges s')) \<and>
    (\<not> ok \<longrightarrow> s' = s\<lparr>calls := calls s'\<rparr>)"
proof -
  obtain ok s' where s': "AddRange c r s = Some (ok, s')" "emits (required_offsets s) s s'"
    "if ok then pr_inv c s' \<and> fresh s' \<and> requested_ranges s' = emplace r (requested_ranges s) \<and>
       required_offsets s' = required_offsets s \<union> pts (align c r)
     else s' = s\<lparr>calls := calls s'\<rparr>"
    using AddRange_spec [OF assms] by blast
  have "pts r \<subseteq> covers (ranges s')" if ok
    using s'(3) that align_props(10) [OF assms(1,4)] by (auto simp: pr_inv_def)
  then show ?thesis using s' by auto
qed

theorem AddRange_protects_or_restores_witness:
  "\<exists>s'. AddRange ex_control (Range 6 1) ex_CDE = Some (True, s') \<and> pr_inv ex_control s' \<and> pts (Range 6 1) \<subseteq> covers (ranges s')"
proof -
  have "request_ok ex_control (Range 6 1)" by (simp add: ex_request_ok)
  from AddRange_protects_or_restores [OF ex_control_ok ex_inv_CDE ex_fresh(4) this ex_disjoint(4)]
  show ?thesis using ex_add_B by auto
qed

text \<open>
  C3: \<open>DeleteRange\<close> of a requested range returns without an assertion firing and keeps the invariant
  without the request; the ranges that are still required stay protected during the calls, and
  it ends at the goal or with as many ranges as the hardware allows.
\<close>

theorem DeleteRange_keeps_the_rest:
  assumes "control_ok c" "pr_inv c s" "r \<in> set (requested_ranges s)"
  shows "\<exists>s'. DeleteRange c r s = Some s' \<and> pr_inv c s' \<and> requested_ranges s' = erase_key r (requested_ranges s) \<and>
    emits (required_offsets s') s s' \<and> covers (requested_ranges s') \<subseteq> covers (ranges s') \<and>
    (ranges s' = goal_ranges s' \<or> length (ranges s') = max_logical_range_count s')"
proof -
  obtain s' where s': "DeleteRange c r s = Some s'" "pr_inv c s'" "requested_ranges s' = erase_key r (requested_ranges s)"
    "emits (required_offsets s') s s'" "ranges s' = goal_ranges s' \<or> length (ranges s') = max_logical_range_count s'"
    using DeleteRange_spec [OF assms] by blast
  moreover have "covers (requested_ranges s') \<subseteq> covers (ranges s')"
    using requested_covered [OF assms(1) s'(2)] s'(2) by (auto simp: pr_inv_def)
  ultimately show ?thesis by blast
qed

theorem DeleteRange_keeps_the_rest_witness:
  "\<exists>s'. DeleteRange ex_control (Range 6 1) ex_ABCDE = Some s' \<and> pr_inv ex_control s' \<and> ranges s' \<noteq> goal_ranges s'"
proof -
  have "Range 6 1 \<in> set (requested_ranges ex_ABCDE)" by code_simp
  from DeleteRange_keeps_the_rest [OF ex_control_ok ex_inv this]
  have "pr_inv ex_control ex_gone" using ex_delete_B by auto
  moreover have "ranges ex_gone \<noteq> goal_ranges ex_gone" by code_simp
  ultimately show ?thesis using ex_delete_B by blast
qed

text \<open>
  C11: The hypothesis that every hardware range holds a required offset is needed: after a
  history of five \<open>AddRange\<close> and one \<open>DeleteRange\<close>, an \<open>AddRange\<close> returns true although an offset of the new
  range is under none of the protected ranges. The range kept of the deleted request ends inside the
  new range, and the code extends the range in front of it only up to its begin.
\<close>

theorem AddRange_unprotected_after_delete:
  "\<exists>es s r s'. reachable ex_control es s \<and> settled es \<and> request_ok ex_control r \<and> pts r \<inter> covers (requested_ranges s) = {} \<and>
     AddRange ex_control r s = Some (True, s') \<and> r \<in> set (requested_ranges s') \<and> \<not> pts r \<subseteq> covers (ranges s')"
proof -
  have "request_ok ex_control (Range 5 4)" by (simp add: ex_request_ok)
  moreover have "Range 5 4 \<in> set (requested_ranges ex_bad)" by code_simp
  ultimately show ?thesis using ex_reachable_gone ex_settled(3) ex_disjoint(6) ex_add_bad ex_bad_uncovered by blast
qed

text \<open>
  C12: From the same state, two \<open>AddRange\<close> that fill gaps and return true lead to an \<open>AddRange\<close> in which the
  assertion that a range to merge exists fires.
\<close>

theorem AddRange_asserts_after_delete:
  "\<exists>es s r1 s1 r2 s2 r. reachable ex_control es s \<and> settled es \<and> AddRange ex_control r1 s = Some (True, s1) \<and>
     AddRange ex_control r2 s1 = Some (True, s2) \<and> request_ok ex_control r \<and>
     pts r \<inter> covers (requested_ranges s2) = {} \<and> AddRange ex_control r s2 = None"
proof -
  have "request_ok ex_control (Range 0 1)" by (simp add: ex_request_ok)
  moreover have "pts (Range 0 1) \<inter> covers (requested_ranges ex_fill2) = {}" by code_simp
  ultimately show ?thesis using ex_reachable_gone ex_settled(3) ex_add_fill1 ex_add_fill2 ex_add_none by blast
qed

section \<open>Optimisation\<close>

text \<open>
  C6: \<open>StepTowardOptimalRanges\<close> returns without an assertion firing and keeps the invariant and the
  contract of the hardware. When it returns true the ranges are the goal; when it returns false,
  either fewer offsets beyond the goal are protected than before, or the control refused the pages
  of a merge and nothing but the log changed.
\<close>

theorem StepTowardOptimalRanges_progress:
  assumes "control_ok c" "pr_inv c s"
  shows "\<exists>dn s'. StepTowardOptimalRanges c s = Some (dn, s') \<and> pr_inv c s' \<and> emits (required_offsets s) s s' \<and>
    requested_ranges s' = requested_ranges s \<and> (dn \<longleftrightarrow> ranges s = goal_ranges s) \<and> (dn \<longrightarrow> s' = s) \<and>
    (\<not> dn \<longrightarrow> excess s' < excess s \<or> (\<exists>r. \<not> UseRange c (calls s) r \<and> s' = emit [UseRange_call r False] s))"
proof -
  obtain dn s' where s': "StepTowardOptimalRanges c s = Some (dn, s')" "step_ok c s s'"
    "dn \<longrightarrow> s' = s \<and> ranges s = goal_ranges s" "ranges s = goal_ranges s \<longrightarrow> dn"
    "\<not> dn \<longrightarrow> excess s' < excess s \<or> (\<exists>r. \<not> UseRange c (calls s) r \<and> s' = emit [UseRange_call r False] s)"
    using StepTowardOptimalRangesInternal_spec [OF assms, of True] by (auto simp: StepTowardOptimalRanges_def)
  have "requested_ranges s' = requested_ranges s" using s'(2) by (simp add: step_ok_def hw_frame_fields)
  then show ?thesis using s' by (intro exI [of _ dn] exI [of _ s']) (auto simp: step_ok_def)
qed

theorem StepTowardOptimalRanges_progress_witness:
  "\<exists>s'. StepTowardOptimalRanges ex_control ex_gone = Some (False, s') \<and> pr_inv ex_control s' \<and> excess s' < excess ex_gone"
proof -
  have "ranges ex_gone \<noteq> goal_ranges ex_gone" by code_simp
  then show ?thesis
    using StepTowardOptimalRanges_progress [OF ex_control_ok ex_inv_gone] by (auto simp: ex_control_def)
qed

text \<open>
  C7: When the control gives up the pages it is asked for, calling \<open>StepTowardOptimalRanges\<close> until it
  returns true ends, after at most one call more than there are protected offsets beyond the goal, with
  the goal as the ranges in use, each of which then holds a required offset.
\<close>

theorem StepTowardOptimalRanges_converges:
  assumes "control_ok c" "pr_inv c s" "\<And>cs r. UseRange c cs r" "excess s < k"
  shows "\<exists>s'. steps c k s = Some (True, s') \<and> pr_inv c s' \<and> ranges s' = goal_ranges s' \<and>
    requested_ranges s' = requested_ranges s \<and> fresh s'"
proof -
  obtain s' where s': "steps c k s = Some (True, s')" "step_ok c s s'" "ranges s' = goal_ranges s'"
    using steps_converge [OF assms] by blast
  have i: "pr_inv c s'" using s'(2) by (simp add: step_ok_def)
  have "fresh s'" by (rule goal_fresh [OF assms(1) i s'(3)])
  then show ?thesis using s' i by (auto simp: step_ok_def hw_frame_fields)
qed

theorem StepTowardOptimalRanges_converges_witness:
  "\<exists>s'. steps ex_control 50 ex_gone = Some (True, s') \<and> ranges s' = goal_ranges s' \<and> fresh s'"
proof -
  have "excess ex_gone < 50" unfolding excess_def
  proof -
    have "card (covers (ranges ex_gone) - covers (goal_ranges ex_gone)) \<le> card {..<31::nat}"
      by (intro card_mono) (auto simp: ex_state_defs pts_def r_end_def u64_add_def W64_def)
    then show "card (covers (ranges ex_gone) - covers (goal_ranges ex_gone)) < 50" by simp
  qed
  then show ?thesis
    using StepTowardOptimalRanges_converges [OF ex_control_ok ex_inv_gone] by (auto simp: ex_control_def)
qed

text \<open>
  C5: The goal ranges are an optimal solution. They are separate ranges, no more than allowed, that cover
  every required offset, and every list of separate ranges with these properties covers at least as many
  offsets.
\<close>

theorem goal_ranges_optimal:
  assumes "control_ok c" "pr_inv c s"
  shows "separated (goal_ranges s) \<and> required_offsets s \<subseteq> covers (goal_ranges s) \<and>
    length (goal_ranges s) \<le> max_logical_range_count s \<and>
    (\<forall>X. separated X \<and> required_offsets s \<subseteq> covers X \<and> length X \<le> max_logical_range_count s \<longrightarrow>
       card (covers (goal_ranges s)) \<le> card (covers X))"
proof -
  have i: "configured c s" "derived (required_offsets s) s" using assms(2) by (auto simp: pr_inv_def)
  have b: "1 \<le> max_logical_range_count s" "max_logical_range_count s < W64"
    using configured_bounds(1,2) [OF assms(1) i(1)] by auto
  have d: "separated (coalesced_required_ranges s)" "covers (coalesced_required_ranges s) = required_offsets s"
    "goal_ranges s = goal_of (max_logical_range_count s) (coalesced_required_ranges s)"
    using i(2) by (auto simp: derived_def)
  have "card (covers (goal_ranges s)) \<le> card (covers X)"
    if "separated X" "required_offsets s \<subseteq> covers X" "length X \<le> max_logical_range_count s" for X
    unfolding d(3) using goal_of_optimal [OF d(1) b that(1) _ that(3)] that(2) d(2) by simp
  moreover have "length (goal_ranges s) \<le> max_logical_range_count s"
    unfolding d(3) using goal_of_props(4) [OF d(1) b] by simp
  ultimately show ?thesis using pr_inv_facts(3,6) [OF assms] by blast
qed

theorem goal_ranges_optimal_witness:
  "card (covers (goal_ranges ex_gone)) \<le> 29 \<and> length (goal_ranges ex_gone) \<le> 3 \<and> 18 \<in> covers (goal_ranges ex_gone)"
proof -
  note g = goal_ranges_optimal [OF ex_control_ok ex_inv_gone]
  have m: "max_logical_range_count ex_gone = 3" by code_simp
  have "separated [Range 2 29]" by (simp add: good_def W64_def)
  moreover have "required_offsets ex_gone \<subseteq> covers [Range 2 29]" "18 \<in> required_offsets ex_gone" by code_simp+
  moreover have "card (covers [Range 2 29]) = 29" by (simp add: card_pts good_def W64_def)
  ultimately show ?thesis using g m by (metis length_Cons list.size(3) one_le_numeral One_nat_def subsetD)
qed

section \<open>The derived containers\<close>

text \<open>
  C8: The incremental update of the derived containers equals a computation from scratch: when they are
  right for offsets that differ from the required ones only inside the range of the change, then
  \<open>PropagateRequiredRangesToGoalRanges\<close> returns, and each of the five containers is what the required ranges
  alone determine.
\<close>

theorem Propagate_equals_from_scratch:
  assumes "derived C s" "monotone_ranges (required_ranges s)" "good d"
    "C - pts d = covers (required_ranges s) - pts d"
    "2 \<le> max_logical_range_count s" "max_logical_range_count s < W64"
    "separated cs" "covers cs = covers (required_ranges s)"
  shows "PropagateRequiredRangesToGoalRanges d s = Some (s\<lparr>coalesced_required_ranges := cs,
     interior_unused_ranges := gaps cs,
     interior_unused_ranges_by_length := sort_key (\<lambda>r. by_length_key r) (gaps cs),
     largest_interior_unused_ranges := largest_of (max_logical_range_count s) cs,
     goal_ranges := goal_of (max_logical_range_count s) cs\<rparr>)"
proof -
  obtain s' where s': "PropagateRequiredRangesToGoalRanges d s = Some s'" "same_but_derived s s'"
    "derived (covers (required_ranges s)) s'"
    using PropagateRequiredRangesToGoalRanges_spec [OF assms(1-6)] by blast
  note f = same_but_derived_fields [OF s'(2)]
  have "coalesced_required_ranges s' = cs"
    using separated_unique [of "coalesced_required_ranges s'" cs] s'(3) assms(7,8) by (auto simp: derived_def)
  then have "s' = s\<lparr>coalesced_required_ranges := cs, interior_unused_ranges := gaps cs,
     interior_unused_ranges_by_length := sort_key (\<lambda>r. by_length_key r) (gaps cs),
     largest_interior_unused_ranges := largest_of (max_logical_range_count s) cs,
     goal_ranges := goal_of (max_logical_range_count s) cs\<rparr>"
    using s'(3) by (intro pr_state.equality) (simp_all add: f derived_def)
  then show ?thesis using s'(1) by simp
qed

theorem Propagate_equals_from_scratch_witness:
  "\<exists>s'. PropagateRequiredRangesToGoalRanges (Range 12 3) (ex_gone\<lparr>required_ranges := emplace (Range 12 3) (required_ranges ex_gone)\<rparr>) = Some s' \<and>
     goal_ranges s' = goal_of 3 [Range 3 1, Range 10 1, Range 12 3, Range 18 1, Range 30 1]"
proof -
  define s where "s = ex_gone\<lparr>required_ranges := emplace (Range 12 3) (required_ranges ex_gone)\<rparr>"
  define cs where "cs = [Range 3 1, Range 10 1, Range 12 3, Range 18 1, Range 30 (1::nat)]"
  have d: "derived (required_offsets ex_gone) s" using ex_inv_gone by (simp add: pr_inv_def derived_def s_def)
  have r: "required_ranges s = cs" unfolding s_def cs_def by code_simp
  have sep: "separated cs" unfolding cs_def by (simp add: separated_Cons good_def r_end_def u64_add_def W64_def)
  have o: "required_offsets ex_gone - pts (Range 12 3) = covers (required_ranges s) - pts (Range 12 3)"
    unfolding r unfolding cs_def by code_simp
  have m: "max_logical_range_count s = 3" unfolding s_def by code_simp
  have g: "good (Range 12 3)" by (simp add: good_def W64_def)
  have "monotone_ranges (required_ranges s)" unfolding r by (rule separated_monotone [OF sep])
  from Propagate_equals_from_scratch [OF d this g o _ _ sep]
  have "\<exists>s'. PropagateRequiredRangesToGoalRanges (Range 12 3) s = Some s' \<and> goal_ranges s' = goal_of 3 cs"
    using r m by (simp add: W64_def)
  then show ?thesis unfolding s_def cs_def .
qed

text \<open>
  C9: The coalescing of the required ranges, updated around one changed range, gives the unique list of
  separate ranges that covers what the required ranges cover.
\<close>

theorem UpdateCoalescedRequiredRanges_coalesces:
  assumes "good d" "separated c" "monotone_ranges req" "covers c - pts d = covers req - pts d"
    "separated cs" "covers cs = covers req"
  shows "UpdateCoalescedRequiredRanges d req c = Some cs"
proof -
  obtain c' where "UpdateCoalescedRequiredRanges d req c = Some c'" "separated c'" "covers c' = covers req"
    using UpdateCoalescedRequiredRanges_spec [OF assms(1-4)] by blast
  then show ?thesis using separated_unique [of c' cs] assms(5,6) by simp
qed

theorem UpdateCoalescedRequiredRanges_coalesces_witness:
  "UpdateCoalescedRequiredRanges (Range 4 3) [Range 0 4, Range 4 3, Range 7 3] [Range 0 4, Range 7 3] = Some [Range 0 10]"
  by (rule UpdateCoalescedRequiredRanges_coalesces)
    (simp_all add: separated_Cons monotone_ranges_def good_def pts_def r_end_def u64_add_def W64_def, auto)

text \<open>
  The unused ranges between the coalesced ranges and their order by length, updated around one changed
  range, are those computed from the new coalesced ranges alone.
\<close>

theorem UpdateInteriorUnusedRanges_equals_gaps:
  assumes "good d" "separated Old" "separated N" "covers Old - pts d = covers N - pts d"
  shows "UpdateInteriorUnusedRanges d N (gaps Old, sort_key (\<lambda>r. by_length_key r) (gaps Old)) =
    Some (gaps N, sort_key (\<lambda>r. by_length_key r) (gaps N))"
  by (rule UpdateInteriorUnusedRanges_spec [OF assms])

theorem UpdateInteriorUnusedRanges_equals_gaps_witness:
  "UpdateInteriorUnusedRanges (Range 10 2) [Range 0 4, Range 10 2, Range 20 3]
     (gaps [Range 0 4, Range 20 3], sort_key (\<lambda>r. by_length_key r) (gaps [Range 0 4, Range 20 3])) =
   Some (gaps [Range 0 4, Range 10 2, Range 20 3],
     sort_key (\<lambda>r. by_length_key r) (gaps [Range 0 4, Range 10 2, Range 20 3]))"
  by (rule UpdateInteriorUnusedRanges_equals_gaps)
    (simp_all add: separated_Cons good_def pts_def r_end_def u64_add_def W64_def, auto)

section \<open>Searches\<close>

text \<open>
  The two iterators of \<open>IteratorsCoveringPotentialOverlapsOfRangeWithRanges\<close> bracket exactly the ranges that
  overlap the given range, also when the ranges overlap each other the way required ranges do.
\<close>

theorem iterators_bracket_overlaps:
  assumes "monotone_ranges rs" "good r" "IteratorsCoveringPotentialOverlapsOfRangeWithRanges r rs = (b, e)"
  shows "slice b e rs = filter (IsOverlap r) rs \<and> b \<le> length rs \<and> e \<le> length rs"
proof -
  have "slice b e rs = filter (IsOverlap r) rs"
    using potential_overlaps_good [OF assms(1,2)] assms(3) by (simp add: potential_overlaps_def)
  moreover have "b \<le> length rs" "e \<le> length rs"
    using iterators_eq [OF assms(1) good_begin_less_end [OF assms(2)]] assms(3) length_takeWhile_le by auto
  ultimately show ?thesis by blast
qed

theorem iterators_bracket_overlaps_witness:
  "slice 1 3 [Range 0 4, Range 2 4, Range 5 3, Range 9 2] = filter (IsOverlap (Range 4 3)) [Range 0 4, Range 2 4, Range 5 3, Range 9 2]"
proof -
  have "monotone_ranges [Range 0 4, Range 2 4, Range 5 3, Range 9 2]"
    by (simp add: monotone_ranges_def good_def r_end_def u64_add_def W64_def)
  moreover have "good (Range 4 3)" by (simp add: good_def W64_def)
  moreover have "IteratorsCoveringPotentialOverlapsOfRangeWithRanges (Range 4 3) [Range 0 4, Range 2 4, Range 5 3, Range 9 2] = (1, 3)"
    by code_simp
  ultimately show ?thesis using iterators_bracket_overlaps by blast
qed

text \<open>
  \<open>FindBestMerge\<close> meets no assertion and finds, among the neighbouring ranges whose gap lies inside a
  goal range, a pair with the shortest gap, and none exactly when there is no such pair.
\<close>

theorem FindBestMerge_shortest:
  assumes "separated old" "separated new"
  shows "\<exists>res. FindBestMerge old new = Some res \<and>
    (case res of
       None \<Rightarrow> \<forall>a b. \<not> merge_candidate old new a b
     | Some (a, b) \<Rightarrow> merge_candidate old new a b \<and>
         (\<forall>c d. merge_candidate old new c d \<longrightarrow>
            r_length (BeginEnd (r_end a) (r_begin b)) \<le> r_length (BeginEnd (r_end c) (r_begin d))))"
  by (rule FindBestMerge_best [OF assms])

theorem FindBestMerge_shortest_witness:
  "\<exists>a b. FindBestMerge (ranges ex_gone) (goal_ranges ex_gone) = Some (Some (a, b)) \<and> merge_candidate (ranges ex_gone) (goal_ranges ex_gone) a b"
proof -
  have "separated (ranges ex_gone)" "separated (goal_ranges ex_gone)"
    using pr_inv_facts(2,3) [OF ex_control_ok ex_inv_gone] by auto
  from FindBestMerge_shortest [OF this]
  obtain res where "FindBestMerge (ranges ex_gone) (goal_ranges ex_gone) = Some res"
    "case res of None \<Rightarrow> True | Some (a, b) \<Rightarrow> merge_candidate (ranges ex_gone) (goal_ranges ex_gone) a b"
    by (auto split: option.splits)
  moreover have "FindBestMerge (ranges ex_gone) (goal_ranges ex_gone) \<noteq> Some None" by code_simp
  ultimately show ?thesis by (auto split: option.splits)
qed

text \<open>
  \<open>FindBestSplit\<close> finds, among the gaps between goal ranges that lie strictly inside one of the ranges
  in use, one of the greatest length, with its range, and none exactly when there is no such gap.
\<close>

theorem FindBestSplit_longest:
  assumes "separated new" "\<forall>r\<in>set old. good r"
  shows "case FindBestSplit old new of
      None \<Rightarrow> \<forall>r\<in>set old. \<forall>a b. \<not> adjacent (filter (IsOverlap r) new) a b
    | Some (r, g) \<Rightarrow> r \<in> set old \<and> g \<in> set (gaps (filter (IsOverlap r) new)) \<and>
        (\<forall>q\<in>set old. \<forall>h\<in>set (gaps (filter (IsOverlap q) new)). r_length h \<le> r_length g)"
proof -
  have iff: "split_candidate new r g \<longleftrightarrow> g \<in> set (gaps (filter (IsOverlap r) new))" if "r \<in> set old" for r g
    using split_candidate_iff [OF assms(1), of r g] assms(2) that by (auto simp: set_gaps)
  have none: "(\<forall>g. g \<notin> set (gaps (filter (IsOverlap r) new))) \<Longrightarrow> \<not> adjacent (filter (IsOverlap r) new) a b" for r a b
    by (auto simp: set_gaps)
  show ?thesis
  proof (cases "FindBestSplit old new")
    case None
    then have "\<forall>r\<in>set old. \<forall>g. \<not> split_candidate new r g" using FindBestSplit_best [of old new] by simp
    then show ?thesis using None iff none by simp
  next
    case (Some p)
    then have "fst p \<in> set old" "split_candidate new (fst p) (snd p)"
      "\<forall>q\<in>set old. \<forall>h. split_candidate new q h \<longrightarrow> r_length h \<le> r_length (snd p)"
      using FindBestSplit_best [of old new] by (auto split: prod.splits)
    then show ?thesis using Some iff by (simp add: case_prod_beta)
  qed
qed

theorem FindBestSplit_longest_witness:
  "FindBestSplit (ranges ex_gone) (goal_ranges ex_gone) = Some (Range 10 21, Range 19 11) \<and>
   Range 19 11 \<in> set (gaps (filter (IsOverlap (Range 10 21)) (goal_ranges ex_gone)))"
proof -
  have "FindBestSplit (ranges ex_gone) (goal_ranges ex_gone) = Some (Range 10 21, Range 19 11)" by code_simp
  then show ?thesis
    using FindBestSplit_longest [OF pr_inv_facts(3,10) [OF ex_control_ok ex_inv_gone]] by simp
qed

section \<open>Termination, construction and queries\<close>

text \<open>
  C10: The loop of \<open>FixupRangesDuringDelete\<close> ends for every state that keeps the invariant, whatever the
  control answers, and only at the goal or when the ranges in use are as many as the hardware allows.
\<close>

theorem FixupRangesDuringDelete_terminates:
  assumes "control_ok c" "pr_inv c s"
  shows "\<exists>s'. FixupRangesDuringDelete c s = Some s' \<and> pr_inv c s' \<and> emits (required_offsets s) s s' \<and>
    (ranges s' = goal_ranges s' \<or> length (ranges s') = max_logical_range_count s')"
  using FixupRangesDuringDelete_spec [OF assms] by (auto simp: step_ok_def)

theorem FixupRangesDuringDelete_terminates_witness:
  "\<exists>s'. FixupRangesDuringDelete ex_control ex_ABCDE = Some s' \<and> pr_inv ex_control s'"
  using FixupRangesDuringDelete_terminates [OF ex_control_ok ex_inv] by blast

text \<open>
  C14: The unprotected ranges that the query reports for the whole heap are separate from each other, cover
  exactly the offsets of the heap under no protected range, and their bytes add up to
  \<open>GetLoanableBytes\<close>.
\<close>

theorem ForUnprotectedRanges_complement:
  assumes "control_ok c" "pr_inv c s" "good (BeginLength (GetBase c) (GetSize c))"
    "covers (ranges s) \<subseteq> pts (BeginLength (GetBase c) (GetSize c))"
  shows "\<exists>L. ForUnprotectedRanges c s = Some L \<and> separated L \<and>
    covers L = pts (BeginLength (GetBase c) (GetSize c)) - covers (ranges s) \<and> total_bytes L = GetLoanableBytes c s"
  by (rule GetLoanableBytes_spec [OF assms])

theorem ForUnprotectedRanges_complement_witness:
  "\<exists>L. ForUnprotectedRanges ex_control ex_gone = Some L \<and> separated L \<and> total_bytes L = 41"
proof -
  have "good (BeginLength (GetBase ex_control) (GetSize ex_control))"
    by (simp add: ex_control_def good_def BeginLength_def W64_def)
  moreover have "covers (ranges ex_gone) \<subseteq> pts (BeginLength (GetBase ex_control) (GetSize ex_control))" by code_simp
  moreover have "GetLoanableBytes ex_control ex_gone = 41" by code_simp
  ultimately show ?thesis using ForUnprotectedRanges_complement [OF ex_control_ok ex_inv_gone] by auto
qed

text \<open>
  C13: The constructor accepts a dynamic control that allows two hardware ranges, one of them for the
  transitions, but then the first two requests that do not touch make the assertions on the goal
  fire: with one logical range there is no goal of one range per \<open>BuildGoalRanges\<close>.
\<close>

theorem one_logical_range_asserts:
  "\<exists>s s1. ProtectedRanges_new ex_small = Some s \<and> max_logical_ranges s = 1 \<and>
     AddRange ex_small (Range 3 1) s = Some (True, s1) \<and> AddRange ex_small (Range 6 1) s1 = None"
proof -
  have "max_logical_ranges ex_small_0 = 1" by code_simp
  then show ?thesis using ex_small_new ex_small_add ex_small_none by blast
qed

end
