(* ===== verification/Sysmem_Constraints.thy ===== *)
theory Sysmem_Constraints
  imports Dev_Prelude "HOL-Library.Word"
begin

text \<open>
  The aggregation of constraints in \<open>logical_buffer_collection.cc\<close>: the checks and defaults applied to
  the constraints of one participant, the accumulation of one participant's constraints into those
  seen so far, and \<open>CombineConstraints\<close>.

  A FIDL table is a record whose fields are options; once the defaults are set every field is there, and
  the sanitised table is a record without options. A function that can return false or an error gives
  \<^term>\<open>Some None\<close> for it and \<^term>\<open>None\<close> when an assertion fires. The image format library and the constants
  of the FIDL library are a parameter.
\<close>

unbundle bit_operations_syntax

section \<open>Data\<close>

datatype heap_type = kSystemRam | kAmlogicSecure | kAmlogicSecureVdec | OtherHeap nat

datatype color_space_type =
  kInvalid | kSrgb | kRec601Ntsc | kRec601NtscFullRange | kRec601Pal | kRec601PalFullRange | kRec709
  | kRec2020 | kRec2100 | kPassThrough | UnknownColorSpace nat

type_synonym color_space = "color_space_type option"

datatype CoherencyDomain = kCpu | kRam | kInaccessible

datatype CheckSanitizeStage = kInitial | kNotAggregated | kAggregated

record pixel_format =
  pf_type :: nat
  format_modifier_value :: nat

record buffer_usage =
  none :: "32 word"
  cpu :: "32 word"
  vulkan :: "32 word"
  display :: "32 word"
  video :: "32 word"

record memory_constraints =
  min_size_bytes :: nat
  max_size_bytes :: nat
  physically_contiguous_required :: bool
  secure_required :: bool
  cpu_domain_supported :: bool
  ram_domain_supported :: bool
  inaccessible_domain_supported :: bool
  heap_permitted :: "heap_type list"

record image_constraints =
  i_pixel_format :: pixel_format
  color_spaces :: "color_space list"
  min_coded_width :: nat
  max_coded_width :: nat
  min_coded_height :: nat
  max_coded_height :: nat
  min_bytes_per_row :: nat
  max_bytes_per_row :: nat
  max_coded_width_times_coded_height :: nat
  coded_width_divisor :: nat
  coded_height_divisor :: nat
  bytes_per_row_divisor :: nat
  start_offset_divisor :: nat
  display_width_divisor :: nat
  display_height_divisor :: nat
  required_min_coded_width :: nat
  required_max_coded_width :: nat
  required_min_coded_height :: nat
  required_max_coded_height :: nat
  required_min_bytes_per_row :: nat
  required_max_bytes_per_row :: nat

record collection_constraints =
  usage :: buffer_usage
  min_buffer_count_for_camping :: nat
  min_buffer_count_for_dedicated_slack :: nat
  min_buffer_count_for_shared_slack :: nat
  min_buffer_count :: nat
  max_buffer_count :: nat
  buffer_memory_constraints :: memory_constraints
  image_format_constraints :: "image_constraints list"
  need_clear_aux_buffers_for_secure :: bool
  allow_clear_aux_buffers_for_secure :: bool

text \<open>The tables as they arrive.\<close>

record w_pixel_format =
  w_pf_type :: "nat option"
  w_format_modifier_value :: "nat option"

record w_buffer_usage =
  w_none :: "32 word option"
  w_cpu :: "32 word option"
  w_vulkan :: "32 word option"
  w_display :: "32 word option"
  w_video :: "32 word option"

record w_memory_constraints =
  w_min_size_bytes :: "nat option"
  w_max_size_bytes :: "nat option"
  w_physically_contiguous_required :: "bool option"
  w_secure_required :: "bool option"
  w_cpu_domain_supported :: "bool option"
  w_ram_domain_supported :: "bool option"
  w_inaccessible_domain_supported :: "bool option"
  w_heap_permitted :: "heap_type list option"

record w_image_constraints =
  w_pixel_format :: "w_pixel_format option"
  w_color_spaces :: "color_space list option"
  w_min_coded_width :: "nat option"
  w_max_coded_width :: "nat option"
  w_min_coded_height :: "nat option"
  w_max_coded_height :: "nat option"
  w_min_bytes_per_row :: "nat option"
  w_max_bytes_per_row :: "nat option"
  w_max_coded_width_times_coded_height :: "nat option"
  w_coded_width_divisor :: "nat option"
  w_coded_height_divisor :: "nat option"
  w_bytes_per_row_divisor :: "nat option"
  w_start_offset_divisor :: "nat option"
  w_display_width_divisor :: "nat option"
  w_display_height_divisor :: "nat option"
  w_required_min_coded_width :: "nat option"
  w_required_max_coded_width :: "nat option"
  w_required_min_coded_height :: "nat option"
  w_required_max_coded_height :: "nat option"
  w_required_min_bytes_per_row :: "nat option"
  w_required_max_bytes_per_row :: "nat option"

record w_collection_constraints =
  w_usage :: "w_buffer_usage option"
  w_min_buffer_count_for_camping :: "nat option"
  w_min_buffer_count_for_dedicated_slack :: "nat option"
  w_min_buffer_count_for_shared_slack :: "nat option"
  w_min_buffer_count :: "nat option"
  w_max_buffer_count :: "nat option"
  w_buffer_memory_constraints :: "w_memory_constraints option"
  w_image_format_constraints :: "w_image_constraints list option"
  w_need_clear_aux_buffers_for_secure :: "bool option"
  w_allow_clear_aux_buffers_for_secure :: "bool option"

text \<open>What the code uses of the image format library, of the FIDL constants and of the system.\<close>

record sysmem_lib =
  ImageFormatIsSupported :: "pixel_format \<Rightarrow> bool"
  ImageFormatStrideBytesPerWidthPixel :: "pixel_format \<Rightarrow> nat"
  ImageFormatIsSupportedColorSpaceForPixelFormat :: "color_space \<Rightarrow> pixel_format \<Rightarrow> bool"
  ImageFormatIsPixelFormatEqual :: "w_pixel_format \<Rightarrow> w_pixel_format \<Rightarrow> bool"
  ImageFormatCodedWidthMinDivisor :: "pixel_format \<Rightarrow> nat"
  ImageFormatCodedHeightMinDivisor :: "pixel_format \<Rightarrow> nat"
  ImageFormatSampleAlignment :: "pixel_format \<Rightarrow> nat"
  ImageFormatCompatibleWithProtectedMemory :: "pixel_format \<Rightarrow> bool"
  zx_system_get_page_size :: nat
  kInvalid_PixelFormatType :: nat
  kNoneUsage :: "32 word"
  kCpuUsageWriteOften :: "32 word"
  kCpuUsageWrite :: "32 word"
  kVulkanUsageTransferDst :: "32 word"
  kVulkanUsageStorage :: "32 word"
  kVideoUsageHwDecoder :: "32 word"
  kVideoUsageHwDecoderInternal :: "32 word"
  kVideoUsageDecryptorOutput :: "32 word"
  kVideoUsageHwEncoder :: "32 word"

definition format_table :: "pixel_format \<Rightarrow> w_pixel_format" where
  "format_table p = \<lparr>w_pf_type = Some (pf_type p), w_format_modifier_value = Some (format_modifier_value p)\<rparr>"

abbreviation formats_equal :: "sysmem_lib \<Rightarrow> pixel_format \<Rightarrow> pixel_format \<Rightarrow> bool" where
  "formats_equal lib p q \<equiv> ImageFormatIsPixelFormatEqual lib (format_table p) (format_table q)"

section \<open>Usage\<close>

definition has_or_0 :: "32 word option \<Rightarrow> 32 word" where
  "has_or_0 x = (case x of None \<Rightarrow> 0 | Some v \<Rightarrow> v)"

definition IsWriteUsage :: "sysmem_lib \<Rightarrow> w_buffer_usage \<Rightarrow> bool" where
  "IsWriteUsage lib u =
     (let kCpuWriteBits = kCpuUsageWriteOften lib OR kCpuUsageWrite lib;
          kVulkanWriteBits = kVulkanUsageTransferDst lib OR kVulkanUsageStorage lib;
          kDisplayWriteBits = 0;
          kVideoWriteBits = kVideoUsageHwDecoder lib OR kVideoUsageHwDecoderInternal lib OR
            kVideoUsageDecryptorOutput lib OR kVideoUsageHwEncoder lib
      in has_or_0 (w_cpu u) AND kCpuWriteBits \<noteq> 0 \<or> has_or_0 (w_vulkan u) AND kVulkanWriteBits \<noteq> 0 \<or>
         has_or_0 (w_display u) AND kDisplayWriteBits \<noteq> 0 \<or> has_or_0 (w_video u) AND kVideoWriteBits \<noteq> 0)"

definition IsCpuUsage :: "w_buffer_usage \<Rightarrow> bool" where
  "IsCpuUsage u \<longleftrightarrow> has_or_0 (w_cpu u) \<noteq> 0"

definition IsAnyUsage :: "w_buffer_usage \<Rightarrow> bool" where
  "IsAnyUsage u \<longleftrightarrow> has_or_0 (w_cpu u) \<noteq> 0 \<or> has_or_0 (w_vulkan u) \<noteq> 0 \<or> has_or_0 (w_display u) \<noteq> 0 \<or>
     has_or_0 (w_video u) \<noteq> 0"

text \<open>\<open>FIELD_DEFAULT\<close> and its variants: a field that is not set gets the value.\<close>

definition field_default :: "'a \<Rightarrow> 'a option \<Rightarrow> 'a" where
  "field_default v f = (case f of None \<Rightarrow> v | Some x \<Rightarrow> x)"

abbreviation default_zero :: "nat option \<Rightarrow> nat" where
  "default_zero \<equiv> field_default 0"

abbreviation default_one :: "nat option \<Rightarrow> nat" where
  "default_one \<equiv> field_default 1"

abbreviation default_max :: "nat option \<Rightarrow> nat" where
  "default_max \<equiv> field_default u32_max"

definition IsNonZeroPowerOf2 :: "nat \<Rightarrow> bool" where
  "IsNonZeroPowerOf2 v \<longleftrightarrow> v \<noteq> 0 \<and> v AND (v - 1) = 0"

section \<open>Checks and defaults\<close>

definition IsHeapPermitted :: "memory_constraints \<Rightarrow> heap_type \<Rightarrow> bool" where
  "IsHeapPermitted c heap = (if heap_permitted c \<noteq> [] then heap \<in> set (heap_permitted c) else True)"

definition IsSecurePermitted :: "memory_constraints \<Rightarrow> bool" where
  "IsSecurePermitted c \<longleftrightarrow> inaccessible_domain_supported c \<and>
     (IsHeapPermitted c kAmlogicSecure \<or> IsHeapPermitted c kAmlogicSecureVdec)"

definition IsCpuAccessSupported :: "memory_constraints \<Rightarrow> bool" where
  "IsCpuAccessSupported c \<longleftrightarrow> cpu_domain_supported c \<or> ram_domain_supported c"

definition CheckSanitizeBufferUsage :: "CheckSanitizeStage \<Rightarrow> w_buffer_usage \<Rightarrow> buffer_usage option" where
  "CheckSanitizeBufferUsage stage w =
     (let u = \<lparr>none = field_default 0 (w_none w), cpu = field_default 0 (w_cpu w),
               vulkan = field_default 0 (w_vulkan w), display = field_default 0 (w_display w),
               video = field_default 0 (w_video w)\<rparr>
      in case stage of
           kInitial \<Rightarrow> Some u
         | kNotAggregated \<Rightarrow>
             if none u = 0 \<and> cpu u = 0 \<and> vulkan u = 0 \<and> display u = 0 \<and> video u = 0 then None
             else if none u \<noteq> 0 \<and> (cpu u \<noteq> 0 \<or> vulkan u \<noteq> 0 \<or> display u \<noteq> 0 \<or> video u \<noteq> 0) then None
             else Some u
         | kAggregated \<Rightarrow>
             if cpu u = 0 \<and> vulkan u = 0 \<and> display u = 0 \<and> video u = 0 then None else Some u)"

definition CheckSanitizeBufferMemoryConstraints ::
  "CheckSanitizeStage \<Rightarrow> buffer_usage \<Rightarrow> w_memory_constraints \<Rightarrow> memory_constraints option option" where
  "CheckSanitizeBufferMemoryConstraints stage u w =
     (let c = \<lparr>min_size_bytes = default_zero (w_min_size_bytes w),
               max_size_bytes = default_max (w_max_size_bytes w),
               physically_contiguous_required = field_default False (w_physically_contiguous_required w),
               secure_required = field_default False (w_secure_required w),
               cpu_domain_supported = field_default True (w_cpu_domain_supported w),
               ram_domain_supported = field_default (cpu u = 0) (w_ram_domain_supported w),
               inaccessible_domain_supported = field_default (cpu u = 0) (w_inaccessible_domain_supported w),
               heap_permitted = field_default [] (w_heap_permitted w)\<rparr>
      in if stage \<noteq> kAggregated \<and> w_heap_permitted w = Some [] then Some None
         else do {
           zx_assert (stage \<noteq> kInitial \<or> heap_permitted c = []);
           if min_size_bytes c > max_size_bytes c then Some None
           else if secure_required c \<and> \<not> IsSecurePermitted c then Some None
           else Some (Some c) })"

definition image_defaults :: "w_image_constraints \<Rightarrow> image_constraints" where
  "image_defaults w =
     (let wp = field_default \<lparr>w_pf_type = None, w_format_modifier_value = None\<rparr> (w_pixel_format w) in
      \<lparr>i_pixel_format = \<lparr>pf_type = default_zero (w_pf_type wp),
         format_modifier_value = default_zero (w_format_modifier_value wp)\<rparr>,
       color_spaces = field_default [] (w_color_spaces w),
       min_coded_width = default_zero (w_min_coded_width w),
       max_coded_width = default_max (w_max_coded_width w),
       min_coded_height = default_zero (w_min_coded_height w),
       max_coded_height = default_max (w_max_coded_height w),
       min_bytes_per_row = default_zero (w_min_bytes_per_row w),
       max_bytes_per_row = default_max (w_max_bytes_per_row w),
       max_coded_width_times_coded_height = default_max (w_max_coded_width_times_coded_height w),
       coded_width_divisor = default_one (w_coded_width_divisor w),
       coded_height_divisor = default_one (w_coded_height_divisor w),
       bytes_per_row_divisor = default_one (w_bytes_per_row_divisor w),
       start_offset_divisor = default_one (w_start_offset_divisor w),
       display_width_divisor = default_one (w_display_width_divisor w),
       display_height_divisor = default_one (w_display_height_divisor w),
       required_min_coded_width = default_max (w_required_min_coded_width w),
       required_max_coded_width = default_zero (w_required_max_coded_width w),
       required_min_coded_height = default_max (w_required_min_coded_height w),
       required_max_coded_height = default_zero (w_required_max_coded_height w),
       required_min_bytes_per_row = default_max (w_required_min_bytes_per_row w),
       required_max_bytes_per_row = default_zero (w_required_max_bytes_per_row w)\<rparr>)"

definition image_checks :: "sysmem_lib \<Rightarrow> image_constraints \<Rightarrow> bool" where
  "image_checks lib c \<longleftrightarrow>
     color_spaces c \<noteq> [] \<and>
     \<not> min_coded_width c > max_coded_width c \<and>
     \<not> min_coded_height c > max_coded_height c \<and>
     \<not> min_bytes_per_row c > max_bytes_per_row c \<and>
     \<not> u32_mul (min_coded_width c) (min_coded_height c) > max_coded_width_times_coded_height c \<and>
     IsNonZeroPowerOf2 (coded_width_divisor c) \<and>
     IsNonZeroPowerOf2 (coded_height_divisor c) \<and>
     IsNonZeroPowerOf2 (bytes_per_row_divisor c) \<and>
     IsNonZeroPowerOf2 (start_offset_divisor c) \<and>
     \<not> start_offset_divisor c > zx_system_get_page_size lib \<and>
     IsNonZeroPowerOf2 (display_width_divisor c) \<and>
     IsNonZeroPowerOf2 (display_height_divisor c) \<and>
     list_all (\<lambda>s. ImageFormatIsSupportedColorSpaceForPixelFormat lib s (i_pixel_format c)) (color_spaces c) \<and>
     required_min_coded_width c \<noteq> 0 \<and>
     \<not> required_min_coded_width c < min_coded_width c \<and>
     \<not> required_max_coded_width c > max_coded_width c \<and>
     required_min_coded_height c \<noteq> 0 \<and>
     \<not> required_min_coded_height c < min_coded_height c \<and>
     \<not> required_max_coded_height c > max_coded_height c \<and>
     required_min_bytes_per_row c \<noteq> 0 \<and>
     \<not> required_min_bytes_per_row c < min_bytes_per_row c \<and>
     \<not> required_max_bytes_per_row c > max_bytes_per_row c"

definition CheckSanitizeImageFormatConstraints ::
  "sysmem_lib \<Rightarrow> CheckSanitizeStage \<Rightarrow> w_image_constraints \<Rightarrow> image_constraints option option" where
  "CheckSanitizeImageFormatConstraints lib stage w = do {
     zx_assert (stage \<noteq> kInitial);
     let c = image_defaults w in
     if pf_type (i_pixel_format c) = kInvalid_PixelFormatType lib then Some None
     else if \<not> ImageFormatIsSupported lib (i_pixel_format c) then Some None
     else
       let min_bytes_per_row_given_min_width =
             u32_mul (ImageFormatStrideBytesPerWidthPixel lib (i_pixel_format c)) (min_coded_width c);
           c = c\<lparr>min_bytes_per_row := max (min_bytes_per_row c) min_bytes_per_row_given_min_width\<rparr>
       in if image_checks lib c then Some (Some c) else Some None }"

text \<open>The ranking of the colour spaces; looking up one that is not in the table aborts.\<close>

fun kColorSpaceRanking :: "color_space_type \<Rightarrow> nat option" where
  "kColorSpaceRanking kInvalid = Some u32_max"
| "kColorSpaceRanking kSrgb = Some 1"
| "kColorSpaceRanking kRec601Ntsc = Some 8"
| "kColorSpaceRanking kRec601NtscFullRange = Some 7"
| "kColorSpaceRanking kRec601Pal = Some 6"
| "kColorSpaceRanking kRec601PalFullRange = Some 5"
| "kColorSpaceRanking kRec709 = Some 4"
| "kColorSpaceRanking kRec2020 = Some 3"
| "kColorSpaceRanking kRec2100 = Some 2"
| "kColorSpaceRanking kPassThrough = Some 9"
| "kColorSpaceRanking (UnknownColorSpace n) = None"

fun best_color_space :: "color_space_type \<Rightarrow> color_space list \<Rightarrow> color_space_type option" where
  "best_color_space best [] = Some best"
| "best_color_space best (None # cs) = best_color_space best cs"
| "best_color_space best (Some t # cs) = do {
     best_ranking \<leftarrow> kColorSpaceRanking best;
     current_ranking \<leftarrow> kColorSpaceRanking t;
     best_color_space (if best_ranking > current_ranking then t else best) cs }"

definition choose_color_space :: "image_constraints \<Rightarrow> image_constraints option" where
  "choose_color_space c = do {
     best \<leftarrow> best_color_space kInvalid (color_spaces c);
     Some (c\<lparr>color_spaces := [Some best]\<rparr>) }"

fun choose_color_spaces :: "image_constraints list \<Rightarrow> image_constraints list option" where
  "choose_color_spaces [] = Some []"
| "choose_color_spaces (c # cs) = do {
     c' \<leftarrow> choose_color_space c;
     cs' \<leftarrow> choose_color_spaces cs;
     Some (c' # cs') }"

fun sanitize_images ::
  "sysmem_lib \<Rightarrow> CheckSanitizeStage \<Rightarrow> w_image_constraints list \<Rightarrow> image_constraints list option option" where
  "sanitize_images lib stage [] = Some (Some [])"
| "sanitize_images lib stage (w # ws) = do {
     r \<leftarrow> CheckSanitizeImageFormatConstraints lib stage w;
     case r of
       None \<Rightarrow> Some None
     | Some c \<Rightarrow> do {
         rs \<leftarrow> sanitize_images lib stage ws;
         Some (map_option (\<lambda>cs. c # cs) rs) } }"

fun identical_formats :: "sysmem_lib \<Rightarrow> image_constraints list \<Rightarrow> bool" where
  "identical_formats lib [] = False"
| "identical_formats lib (c # cs) \<longleftrightarrow>
     list_ex (\<lambda>d. formats_equal lib (i_pixel_format c) (i_pixel_format d)) cs \<or>
     identical_formats lib cs"

definition usage_table :: "buffer_usage \<Rightarrow> w_buffer_usage" where
  "usage_table u = \<lparr>w_none = Some (none u), w_cpu = Some (cpu u), w_vulkan = Some (vulkan u),
     w_display = Some (display u), w_video = Some (video u)\<rparr>"

definition empty_usage :: w_buffer_usage where
  "empty_usage = \<lparr>w_none = None, w_cpu = None, w_vulkan = None, w_display = None, w_video = None\<rparr>"

definition empty_memory :: w_memory_constraints where
  "empty_memory = \<lparr>w_min_size_bytes = None, w_max_size_bytes = None, w_physically_contiguous_required = None,
     w_secure_required = None, w_cpu_domain_supported = None, w_ram_domain_supported = None,
     w_inaccessible_domain_supported = None, w_heap_permitted = None\<rparr>"

definition empty_constraints :: w_collection_constraints where
  "empty_constraints = \<lparr>w_usage = None, w_min_buffer_count_for_camping = None,
     w_min_buffer_count_for_dedicated_slack = None, w_min_buffer_count_for_shared_slack = None,
     w_min_buffer_count = None, w_max_buffer_count = None, w_buffer_memory_constraints = None,
     w_image_format_constraints = None, w_need_clear_aux_buffers_for_secure = None,
     w_allow_clear_aux_buffers_for_secure = None\<rparr>"

text \<open>The checks of a single participant on CPU use and secure memory.\<close>

definition participant_checks :: "buffer_usage \<Rightarrow> memory_constraints \<Rightarrow> bool" where
  "participant_checks u m \<longleftrightarrow>
     (IsCpuUsage (usage_table u) \<longrightarrow> IsCpuAccessSupported m \<and> \<not> secure_required m) \<and>
     \<not> (secure_required m \<and> IsCpuAccessSupported m)"

definition CheckSanitizeBufferCollectionConstraints ::
  "sysmem_lib \<Rightarrow> CheckSanitizeStage \<Rightarrow> w_collection_constraints \<Rightarrow> collection_constraints option option" where
  "CheckSanitizeBufferCollectionConstraints lib stage w =
     (let was_empty = (w = empty_constraints);
          wu = field_default empty_usage (w_usage w);
          wu = (if was_empty then wu\<lparr>w_none := Some (field_default (kNoneUsage lib) (w_none wu))\<rparr> else wu);
          max_count = default_max (w_max_buffer_count w);
          min_count = default_zero (w_min_buffer_count w);
          allow_clear = field_default (\<not> IsWriteUsage lib wu) (w_allow_clear_aux_buffers_for_secure w)
      in do {
        zx_assert (w_buffer_memory_constraints w \<noteq> None \<or> stage \<noteq> kAggregated);
        case CheckSanitizeBufferUsage stage wu of
          None \<Rightarrow> Some None
        | Some u \<Rightarrow>
          if max_count = 0 then Some None
          else if min_count > max_count then Some None
          else do {
            rm \<leftarrow> CheckSanitizeBufferMemoryConstraints stage u
                    (field_default empty_memory (w_buffer_memory_constraints w));
            case rm of
              None \<Rightarrow> Some None
            | Some m \<Rightarrow>
              if stage \<noteq> kAggregated \<and> \<not> participant_checks u m then Some None
              else do {
                ri \<leftarrow> sanitize_images lib stage (field_default [] (w_image_format_constraints w));
                case ri of
                  None \<Rightarrow> Some None
                | Some images \<Rightarrow> do {
                    images \<leftarrow> (if stage = kAggregated then choose_color_spaces images else Some images);
                    if stage = kNotAggregated \<and> identical_formats lib images then Some None
                    else Some (Some
                      \<lparr>usage = u,
                       min_buffer_count_for_camping = default_zero (w_min_buffer_count_for_camping w),
                       min_buffer_count_for_dedicated_slack =
                         default_zero (w_min_buffer_count_for_dedicated_slack w),
                       min_buffer_count_for_shared_slack =
                         default_zero (w_min_buffer_count_for_shared_slack w),
                       min_buffer_count = min_count, max_buffer_count = max_count,
                       buffer_memory_constraints = m, image_format_constraints = images,
                       need_clear_aux_buffers_for_secure =
                         field_default False (w_need_clear_aux_buffers_for_secure w),
                       allow_clear_aux_buffers_for_secure = allow_clear\<rparr>) } } } })"

section \<open>Accumulation\<close>

text \<open>Removing an element the way the loops do: the last element takes its place.\<close>

definition remove_swap :: "nat \<Rightarrow> 'a list \<Rightarrow> 'a list" where
  "remove_swap i xs = butlast (xs[i := last xs])"

lemma length_remove_swap [simp]: "length (remove_swap i xs) = length xs - 1"
  by (simp add: remove_swap_def)

text \<open>
  The loops over \<open>ai\<close> that keep the elements found in the other list. The index is decremented and
  incremented again after a removal, so the element that moved in is looked at next.
\<close>

function retain_loop :: "('a \<Rightarrow> bool option) \<Rightarrow> nat \<Rightarrow> 'a list \<Rightarrow> 'a list option" where
  "retain_loop found ai acc =
     (if ai < length acc then do {
        f \<leftarrow> found (acc ! ai);
        if f then retain_loop found (ai + 1) acc else retain_loop found ai (remove_swap ai acc) }
      else Some acc)"
  by pat_completeness auto
termination by (relation "measure (\<lambda>(found, ai, acc). length acc - ai)") auto

declare retain_loop.simps [simp del]

definition AccumulateConstraintsBufferUsage :: "buffer_usage \<Rightarrow> buffer_usage \<Rightarrow> buffer_usage" where
  "AccumulateConstraintsBufferUsage acc c =
     \<lparr>none = none acc OR none c, cpu = cpu acc OR cpu c, vulkan = vulkan acc OR vulkan c,
      display = display acc OR display c, video = video acc OR video c\<rparr>"

definition AccumulateConstraintHeapPermitted ::
  "heap_type list \<Rightarrow> heap_type list \<Rightarrow> heap_type list option option" where
  "AccumulateConstraintHeapPermitted acc c = do {
     zx_assert (length acc > 0);
     acc' \<leftarrow> retain_loop (\<lambda>h. Some (list_ex (\<lambda>x. h = x) c)) 0 acc;
     Some (if acc' = [] then None else Some acc') }"

definition AccumulateConstraintBufferMemory ::
  "memory_constraints \<Rightarrow> memory_constraints \<Rightarrow> memory_constraints option option" where
  "AccumulateConstraintBufferMemory acc c =
     (let acc' = acc\<lparr>
            min_size_bytes := max (max (min_size_bytes acc) (min_size_bytes c)) 1,
            max_size_bytes := min (max_size_bytes acc) (max_size_bytes c),
            physically_contiguous_required :=
              physically_contiguous_required acc \<or> physically_contiguous_required c,
            secure_required := secure_required acc \<or> secure_required c,
            ram_domain_supported := ram_domain_supported acc \<and> ram_domain_supported c,
            cpu_domain_supported := cpu_domain_supported acc \<and> cpu_domain_supported c,
            inaccessible_domain_supported :=
              inaccessible_domain_supported acc \<and> inaccessible_domain_supported c\<rparr>
      in if heap_permitted acc' = [] then Some (Some (acc'\<lparr>heap_permitted := heap_permitted c\<rparr>))
         else if heap_permitted c \<noteq> [] then do {
           r \<leftarrow> AccumulateConstraintHeapPermitted (heap_permitted acc') (heap_permitted c);
           Some (map_option (\<lambda>h. acc'\<lparr>heap_permitted := h\<rparr>) r) }
         else Some (Some acc'))"

definition IsColorSpaceEqual :: "color_space \<Rightarrow> color_space \<Rightarrow> bool option" where
  "IsColorSpaceEqual a b = do { x \<leftarrow> a; y \<leftarrow> b; Some (x = y) }"

fun color_space_found :: "color_space list \<Rightarrow> color_space \<Rightarrow> bool option" where
  "color_space_found [] a = Some False"
| "color_space_found (b # c) a = do {
     e \<leftarrow> IsColorSpaceEqual a b;
     if e then Some True else color_space_found c a }"

definition AccumulateConstraintColorSpaces ::
  "color_space list \<Rightarrow> color_space list \<Rightarrow> color_space list option option" where
  "AccumulateConstraintColorSpaces acc c = do {
     acc' \<leftarrow> retain_loop (color_space_found c) 0 acc;
     Some (if acc' = [] then None else Some acc') }"

definition accumulate_image_fields ::
  "sysmem_lib \<Rightarrow> image_constraints \<Rightarrow> image_constraints \<Rightarrow> color_space list \<Rightarrow> image_constraints" where
  "accumulate_image_fields lib acc c spaces =
     \<lparr>i_pixel_format = i_pixel_format acc,
    color_spaces = spaces,
    min_coded_width = max (min_coded_width acc) (min_coded_width c),
    max_coded_width = min (max_coded_width acc) (max_coded_width c),
    min_coded_height = max (min_coded_height acc) (min_coded_height c),
    max_coded_height = min (max_coded_height acc) (max_coded_height c),
    min_bytes_per_row = max (min_bytes_per_row acc) (min_bytes_per_row c),
    max_bytes_per_row = min (max_bytes_per_row acc) (max_bytes_per_row c),
    max_coded_width_times_coded_height =
      min (max_coded_width_times_coded_height acc) (max_coded_width_times_coded_height c),
    coded_width_divisor =
      max (max (coded_width_divisor acc) (coded_width_divisor c))
        (ImageFormatCodedWidthMinDivisor lib (i_pixel_format acc)),
    coded_height_divisor =
      max (max (coded_height_divisor acc) (coded_height_divisor c))
        (ImageFormatCodedHeightMinDivisor lib (i_pixel_format acc)),
    bytes_per_row_divisor =
      max (max (bytes_per_row_divisor acc) (bytes_per_row_divisor c))
        (ImageFormatSampleAlignment lib (i_pixel_format acc)),
    start_offset_divisor =
      max (max (start_offset_divisor acc) (start_offset_divisor c))
        (ImageFormatSampleAlignment lib (i_pixel_format acc)),
    display_width_divisor = max (display_width_divisor acc) (display_width_divisor c),
    display_height_divisor = max (display_height_divisor acc) (display_height_divisor c),
    required_min_coded_width = min (required_min_coded_width acc) (required_min_coded_width c),
    required_max_coded_width = max (required_max_coded_width acc) (required_max_coded_width c),
    required_min_coded_height = min (required_min_coded_height acc) (required_min_coded_height c),
    required_max_coded_height = max (required_max_coded_height acc) (required_max_coded_height c),
    required_min_bytes_per_row =
      min (required_min_bytes_per_row acc) (required_min_bytes_per_row c),
    required_max_bytes_per_row =
      max (required_max_bytes_per_row acc) (required_max_bytes_per_row c)\<rparr>"

definition AccumulateConstraintImageFormat ::
  "sysmem_lib \<Rightarrow> image_constraints \<Rightarrow> image_constraints \<Rightarrow> image_constraints option option" where
  "AccumulateConstraintImageFormat lib acc c = do {
     zx_assert (formats_equal lib (i_pixel_format acc) (i_pixel_format c));
     zx_assert (color_spaces acc \<noteq> []);
     zx_assert (color_spaces c \<noteq> []);
     r \<leftarrow> AccumulateConstraintColorSpaces (color_spaces acc) (color_spaces c);
     case r of
       None \<Rightarrow> Some None
     | Some spaces \<Rightarrow> do {
         zx_assert (spaces \<noteq> []);
         zx_assert (required_min_coded_width acc \<noteq> 0 \<and> required_min_coded_width c \<noteq> 0);
         zx_assert (required_min_coded_height acc \<noteq> 0 \<and> required_min_coded_height c \<noteq> 0);
         zx_assert (required_min_bytes_per_row acc \<noteq> 0 \<and> required_min_bytes_per_row c \<noteq> 0);
         Some (Some
           (accumulate_image_fields lib acc c spaces)) } }"

text \<open>The index of the first entry of \<open>c\<close> with an equal pixel format, if any.\<close>

fun find_format :: "sysmem_lib \<Rightarrow> pixel_format \<Rightarrow> image_constraints list \<Rightarrow> nat option" where
  "find_format lib p [] = None"
| "find_format lib p (c # cs) =
     (if formats_equal lib p (i_pixel_format c) then Some 0
      else map_option Suc (find_format lib p cs))"

function formats_loop ::
  "sysmem_lib \<Rightarrow> nat \<Rightarrow> image_constraints list \<Rightarrow> image_constraints list \<Rightarrow> image_constraints list option" where
  "formats_loop lib ai acc c =
     (if ai < length acc then
        case find_format lib (i_pixel_format (acc ! ai)) c of
          None \<Rightarrow> formats_loop lib ai (remove_swap ai acc) c
        | Some ci \<Rightarrow> do {
            r \<leftarrow> AccumulateConstraintImageFormat lib (acc ! ai) (c ! ci);
            case r of
              None \<Rightarrow> formats_loop lib ai (remove_swap ai acc) (remove_swap ci c)
            | Some a \<Rightarrow> formats_loop lib (ai + 1) (acc[ai := a]) (remove_swap ci c) }
      else Some acc)"
  by pat_completeness auto
termination by (relation "measure (\<lambda>(lib, ai, acc, c). length acc - ai)") auto

declare formats_loop.simps [simp del]

definition AccumulateConstraintImageFormats ::
  "sysmem_lib \<Rightarrow> image_constraints list \<Rightarrow> image_constraints list \<Rightarrow> image_constraints list option option" where
  "AccumulateConstraintImageFormats lib acc c = do {
     zx_assert (acc \<noteq> []);
     acc' \<leftarrow> formats_loop lib 0 acc c;
     Some (if acc' = [] then None else Some acc') }"

definition AccumulateConstraintBufferCollection ::
  "sysmem_lib \<Rightarrow> collection_constraints \<Rightarrow> collection_constraints \<Rightarrow> collection_constraints option option" where
  "AccumulateConstraintBufferCollection lib acc c = do {
     zx_assert (max_buffer_count acc \<noteq> 0);
     zx_assert (max_buffer_count c \<noteq> 0);
     rm \<leftarrow> AccumulateConstraintBufferMemory (buffer_memory_constraints acc) (buffer_memory_constraints c);
     case rm of
       None \<Rightarrow> Some None
     | Some m \<Rightarrow> do {
         ri \<leftarrow> (if image_format_constraints acc = [] then Some (Some (image_format_constraints c))
               else if image_format_constraints c \<noteq> []
               then AccumulateConstraintImageFormats lib (image_format_constraints acc)
                      (image_format_constraints c)
               else Some (Some (image_format_constraints acc)));
         case ri of
           None \<Rightarrow> Some None
         | Some images \<Rightarrow> Some (Some
             \<lparr>usage = AccumulateConstraintsBufferUsage (usage acc) (usage c),
              min_buffer_count_for_camping =
                u32_add (min_buffer_count_for_camping acc) (min_buffer_count_for_camping c),
              min_buffer_count_for_dedicated_slack =
                u32_add (min_buffer_count_for_dedicated_slack acc) (min_buffer_count_for_dedicated_slack c),
              min_buffer_count_for_shared_slack =
                max (min_buffer_count_for_shared_slack acc) (min_buffer_count_for_shared_slack c),
              min_buffer_count = max (min_buffer_count acc) (min_buffer_count c),
              max_buffer_count = min (max_buffer_count acc) (max_buffer_count c),
              buffer_memory_constraints = m, image_format_constraints = images,
              need_clear_aux_buffers_for_secure =
                need_clear_aux_buffers_for_secure acc \<or> need_clear_aux_buffers_for_secure c,
              allow_clear_aux_buffers_for_secure =
                allow_clear_aux_buffers_for_secure acc \<and> allow_clear_aux_buffers_for_secure c\<rparr>) } }"

section \<open>CombineConstraints\<close>

text \<open>The tables of constraints whose fields are all set.\<close>

definition memory_table :: "memory_constraints \<Rightarrow> w_memory_constraints" where
  "memory_table m = \<lparr>w_min_size_bytes = Some (min_size_bytes m), w_max_size_bytes = Some (max_size_bytes m),
     w_physically_contiguous_required = Some (physically_contiguous_required m),
     w_secure_required = Some (secure_required m), w_cpu_domain_supported = Some (cpu_domain_supported m),
     w_ram_domain_supported = Some (ram_domain_supported m),
     w_inaccessible_domain_supported = Some (inaccessible_domain_supported m),
     w_heap_permitted = Some (heap_permitted m)\<rparr>"

definition image_table :: "image_constraints \<Rightarrow> w_image_constraints" where
  "image_table c =
     \<lparr>w_pixel_format = Some (format_table (i_pixel_format c)),
      w_color_spaces = Some (color_spaces c),
      w_min_coded_width = Some (min_coded_width c), w_max_coded_width = Some (max_coded_width c),
      w_min_coded_height = Some (min_coded_height c), w_max_coded_height = Some (max_coded_height c),
      w_min_bytes_per_row = Some (min_bytes_per_row c), w_max_bytes_per_row = Some (max_bytes_per_row c),
      w_max_coded_width_times_coded_height = Some (max_coded_width_times_coded_height c),
      w_coded_width_divisor = Some (coded_width_divisor c),
      w_coded_height_divisor = Some (coded_height_divisor c),
      w_bytes_per_row_divisor = Some (bytes_per_row_divisor c),
      w_start_offset_divisor = Some (start_offset_divisor c),
      w_display_width_divisor = Some (display_width_divisor c),
      w_display_height_divisor = Some (display_height_divisor c),
      w_required_min_coded_width = Some (required_min_coded_width c),
      w_required_max_coded_width = Some (required_max_coded_width c),
      w_required_min_coded_height = Some (required_min_coded_height c),
      w_required_max_coded_height = Some (required_max_coded_height c),
      w_required_min_bytes_per_row = Some (required_min_bytes_per_row c),
      w_required_max_bytes_per_row = Some (required_max_bytes_per_row c)\<rparr>"

definition collection_table :: "collection_constraints \<Rightarrow> w_collection_constraints" where
  "collection_table c =
     \<lparr>w_usage = Some (usage_table (usage c)),
      w_min_buffer_count_for_camping = Some (min_buffer_count_for_camping c),
      w_min_buffer_count_for_dedicated_slack = Some (min_buffer_count_for_dedicated_slack c),
      w_min_buffer_count_for_shared_slack = Some (min_buffer_count_for_shared_slack c),
      w_min_buffer_count = Some (min_buffer_count c), w_max_buffer_count = Some (max_buffer_count c),
      w_buffer_memory_constraints = Some (memory_table (buffer_memory_constraints c)),
      w_image_format_constraints = Some (map image_table (image_format_constraints c)),
      w_need_clear_aux_buffers_for_secure = Some (need_clear_aux_buffers_for_secure c),
      w_allow_clear_aux_buffers_for_secure = Some (allow_clear_aux_buffers_for_secure c)\<rparr>"

definition positive :: "nat option \<Rightarrow> bool" where
  "positive x \<longleftrightarrow> (case x of None \<Rightarrow> False | Some v \<Rightarrow> v > 0)"

definition IsMinBufferSizeSpecifiedByAnyParticipant ::
  "nat \<Rightarrow> w_collection_constraints list \<Rightarrow> bool option" where
  "IsMinBufferSizeSpecifiedByAnyParticipant connected_client_count constraints_list = do {
     zx_assert (connected_client_count \<noteq> 0);
     zx_assert (constraints_list \<noteq> []);
     Some (list_ex (\<lambda>w.
       (case w_buffer_memory_constraints w of None \<Rightarrow> False | Some m \<Rightarrow> positive (w_min_size_bytes m)) \<or>
       (case w_image_format_constraints w of
          None \<Rightarrow> False
        | Some images \<Rightarrow> list_ex (\<lambda>i.
            positive (w_min_coded_width i) \<and> positive (w_min_coded_height i) \<or>
            positive (w_required_max_coded_width i) \<and> positive (w_required_max_coded_height i)) images))
       constraints_list) }"

fun accumulate_all ::
  "sysmem_lib \<Rightarrow> collection_constraints \<Rightarrow> w_collection_constraints list \<Rightarrow> collection_constraints option option" where
  "accumulate_all lib acc [] = Some (Some acc)"
| "accumulate_all lib acc (w # ws) = do {
     r \<leftarrow> CheckSanitizeBufferCollectionConstraints lib kNotAggregated w;
     case r of
       None \<Rightarrow> Some None
     | Some c \<Rightarrow> do {
         r' \<leftarrow> AccumulateConstraintBufferCollection lib acc c;
         case r' of
           None \<Rightarrow> Some None
         | Some acc' \<Rightarrow> accumulate_all lib acc' ws } }"

definition CombineConstraints ::
  "sysmem_lib \<Rightarrow> nat \<Rightarrow> w_collection_constraints list \<Rightarrow> collection_constraints option option" where
  "CombineConstraints lib connected_client_count constraints_list = do {
     zx_assert (connected_client_count \<noteq> 0);
     zx_assert (constraints_list \<noteq> []);
     specified \<leftarrow> IsMinBufferSizeSpecifiedByAnyParticipant connected_client_count constraints_list;
     if \<not> specified then Some None
     else do {
       initial \<leftarrow> CheckSanitizeBufferCollectionConstraints lib kInitial empty_constraints;
       zx_assert (initial \<noteq> None);
       r \<leftarrow> accumulate_all lib (the initial) constraints_list;
       case r of
         None \<Rightarrow> Some None
       | Some acc \<Rightarrow> CheckSanitizeBufferCollectionConstraints lib kAggregated (collection_table acc) } }"

end
