(* ===== verification/Sysmem_Meet.thy ===== *)
theory Sysmem_Meet
  imports Sysmem_Constraints
begin

text \<open>
  What accumulating constraints promises. The locale \<open>constraint_meet\<close> is the contract: on
  well-formed constraints an accumulation step never asserts, what it returns admits exactly the settings
  that both arguments admit, and it fails only when no setting is admitted by both. Folding such a step
  over the participants gives the meet of all of them, in every order. The facts on the loops, on powers
  of two and on lists of heaps and colour spaces come after it, with the first two interpretations.
\<close>

section \<open>The contract\<close>

text \<open>The fold of a step that may assert (\<^term>\<open>None\<close>) or fail (\<^term>\<open>Some None\<close>).\<close>

fun fold_step :: "('c \<Rightarrow> 'c \<Rightarrow> 'c option option) \<Rightarrow> 'c \<Rightarrow> 'c list \<Rightarrow> 'c option option" where
  "fold_step step acc [] = Some (Some acc)"
| "fold_step step acc (c # cs) =
     (case step acc c of
        None \<Rightarrow> None
      | Some None \<Rightarrow> Some None
      | Some (Some acc') \<Rightarrow> fold_step step acc' cs)"

locale constraint_meet =
  fixes ok :: "'c \<Rightarrow> bool"
    and sat :: "'c \<Rightarrow> 's \<Rightarrow> bool"
    and step :: "'c \<Rightarrow> 'c \<Rightarrow> 'c option option"
  assumes step_total: "ok a \<Longrightarrow> ok c \<Longrightarrow> step a c \<noteq> None"
    and step_ok: "ok a \<Longrightarrow> ok c \<Longrightarrow> step a c = Some (Some r) \<Longrightarrow> ok r"
    and step_meet: "ok a \<Longrightarrow> ok c \<Longrightarrow> step a c = Some (Some r) \<Longrightarrow> sat r s \<longleftrightarrow> sat a s \<and> sat c s"
    and step_empty: "ok a \<Longrightarrow> ok c \<Longrightarrow> step a c = Some None \<Longrightarrow> \<not> (sat a s \<and> sat c s)"
begin

lemma fold_total: "ok a \<Longrightarrow> \<forall>c\<in>set cs. ok c \<Longrightarrow> fold_step step a cs \<noteq> None"
proof (induction cs arbitrary: a)
  case (Cons c cs)
  then show ?case
    using step_total [of a c] step_ok [of a c] by (auto split: option.splits)
qed simp

lemma fold_ok: "ok a \<Longrightarrow> \<forall>c\<in>set cs. ok c \<Longrightarrow> fold_step step a cs = Some (Some r) \<Longrightarrow> ok r"
proof (induction cs arbitrary: a)
  case (Cons c cs)
  then show ?case
    using step_ok [of a c] by (auto split: option.splits)
qed simp

lemma fold_meet:
  "ok a \<Longrightarrow> \<forall>c\<in>set cs. ok c \<Longrightarrow> fold_step step a cs = Some (Some r) \<Longrightarrow>
   sat r s \<longleftrightarrow> sat a s \<and> (\<forall>c\<in>set cs. sat c s)"
proof (induction cs arbitrary: a)
  case (Cons c cs)
  then obtain a' where "step a c = Some (Some a')" "fold_step step a' cs = Some (Some r)"
    by (auto split: option.splits)
  then show ?case
    using Cons.IH [of a'] Cons.prems step_ok [of a c] step_meet [of a c a'] by auto
qed simp

lemma fold_empty:
  "ok a \<Longrightarrow> \<forall>c\<in>set cs. ok c \<Longrightarrow> fold_step step a cs = Some None \<Longrightarrow>
   \<not> (sat a s \<and> (\<forall>c\<in>set cs. sat c s))"
proof (induction cs arbitrary: a)
  case (Cons c cs)
  show ?case
  proof (cases "step a c")
    case None
    then show ?thesis using Cons.prems step_total [of a c] by simp
  next
    case (Some x)
    then show ?thesis
      using Cons.IH Cons.prems step_ok [of a c] step_meet [of a c] step_empty [of a c s]
      by (cases x) auto
  qed
qed simp

lemma fold_order:
  assumes "ok a" "\<forall>c\<in>set cs. ok c" "mset ds = mset cs"
    and "fold_step step a cs = Some (Some r)" "fold_step step a ds = Some (Some r')"
  shows "sat r s \<longleftrightarrow> sat r' s"
proof -
  have "set ds = set cs" using assms(3) by (rule mset_eq_setD)
  then show ?thesis using assms fold_meet [of a cs r s] fold_meet [of a ds r' s] by simp
qed

lemma fold_common:
  assumes "ok a" "\<forall>c\<in>set cs. ok c" "sat a s" "\<forall>c\<in>set cs. sat c s"
  shows "\<exists>r. fold_step step a cs = Some (Some r)"
  using assms fold_total [of a cs] fold_empty [of a cs s] by (metis not_None_eq)

end

section \<open>The loops that keep what is found\<close>

lemma remove_swap_mset: "i < length xs \<Longrightarrow> add_mset (xs ! i) (mset (remove_swap i xs)) = mset xs"
proof (cases "i = length xs - 1")
  case True
  assume "i < length xs"
  then show ?thesis using True
    by (cases xs rule: rev_cases) (simp_all add: remove_swap_def)
next
  case False
  assume i: "i < length xs"
  then obtain ys y where xs: "xs = ys @ [y]" by (cases xs rule: rev_cases) auto
  have iy: "i < length ys" using False i xs by simp
  have "remove_swap i xs = ys[i := y]" using xs iy by (simp add: remove_swap_def list_update_append)
  then show ?thesis using xs iy by (simp add: mset_update nth_append)
qed

lemma remove_swap_set: "i < length xs \<Longrightarrow> set xs = insert (xs ! i) (set (remove_swap i xs))"
  using remove_swap_mset [of i xs] by (metis set_mset_add_mset_insert set_mset_mset)

lemma remove_swap_nth: "j < i \<Longrightarrow> i < length xs \<Longrightarrow> remove_swap i xs ! j = xs ! j"
  by (simp add: remove_swap_def nth_butlast)

lemma remove_swap_take: "i < length xs \<Longrightarrow> take i (remove_swap i xs) = take i xs"
  by (rule nth_equalityI) (auto simp: remove_swap_nth)

lemma retain_loop_filter:
  assumes "\<forall>x\<in>set acc. found x = Some (P x)" and "ai \<le> length acc" and "\<forall>x\<in>set (take ai acc). P x"
  shows "\<exists>r. retain_loop found ai acc = Some r \<and> mset r = filter_mset P (mset acc)"
  using assms
proof (induction found ai acc rule: retain_loop.induct)
  case (1 found ai acc)
  show ?case
  proof (cases "ai < length acc")
    case False
    then have "filter_mset P (mset acc) = mset acc"
      using "1.prems" by (simp add: filter_mset_eq_conv)
    then show ?thesis using False by (simp add: retain_loop.simps [of found ai acc])
  next
    case True
    have f: "found (acc ! ai) = Some (P (acc ! ai))" using "1.prems"(1) True by simp
    show ?thesis
    proof (cases "P (acc ! ai)")
      case yes: True
      have "\<forall>x\<in>set (take (ai + 1) acc). P x"
        using "1.prems"(3) yes True by (auto simp: take_Suc_conv_app_nth)
      then show ?thesis
        using "1.IH"(1) [OF True f yes] "1.prems" True yes f
        by (simp add: retain_loop.simps [of found ai acc])
    next
      case no: False
      have s: "set (remove_swap ai acc) \<subseteq> set acc" using remove_swap_set [OF True] by auto
      have m: "filter_mset P (mset (remove_swap ai acc)) = filter_mset P (mset acc)"
        using remove_swap_mset [OF True] no by (metis filter_mset_add_mset)
      have "\<exists>r. retain_loop found ai (remove_swap ai acc) = Some r \<and>
          mset r = filter_mset P (mset (remove_swap ai acc))"
      proof (rule "1.IH"(2) [OF True f no])
        show "\<forall>x\<in>set (remove_swap ai acc). found x = Some (P x)" using s "1.prems"(1) by auto
        show "ai \<le> length (remove_swap ai acc)" using True by simp
        show "\<forall>x\<in>set (take ai (remove_swap ai acc)). P x"
          using "1.prems"(3) True by (simp add: remove_swap_take)
      qed
      then show ?thesis
        using m True no f by (simp add: retain_loop.simps [of found ai acc])
    qed
  qed
qed

lemma retain_loop_set:
  assumes "\<forall>x\<in>set acc. found x = Some (P x)"
  shows "\<exists>r. retain_loop found 0 acc = Some r \<and> set r = {x \<in> set acc. P x} \<and> (distinct acc \<longrightarrow> distinct r)"
proof -
  obtain r where r: "retain_loop found 0 acc = Some r" "mset r = filter_mset P (mset acc)"
    using retain_loop_filter [of acc found P 0] assms by auto
  then have "mset r = mset (filter P acc)" by simp
  then have "set r = set (filter P acc)" "distinct r = distinct (filter P acc)"
    by (metis mset_eq_setD) (metis \<open>mset r = mset (filter P acc)\<close> mset_eq_imp_distinct_iff)
  then show ?thesis using r(1) by auto
qed

section \<open>Heaps and colour spaces\<close>

definition heap_list_sat :: "heap_type list \<Rightarrow> heap_type \<Rightarrow> bool" where
  "heap_list_sat hs h \<longleftrightarrow> h \<in> set hs"

lemma AccumulateConstraintHeapPermitted_eq:
  assumes "acc \<noteq> []"
  shows "\<exists>r. set r = set acc \<inter> set c \<and>
    AccumulateConstraintHeapPermitted acc c = Some (if r = [] then None else Some r)"
proof -
  have "\<forall>x\<in>set acc. (\<lambda>h. Some (list_ex (\<lambda>x. h = x) c)) x = Some (x \<in> set c)"
    by (auto simp: list_ex_iff)
  from retain_loop_set [OF this] obtain r where
    "retain_loop (\<lambda>h. Some (list_ex (\<lambda>x. h = x) c)) 0 acc = Some r" "set r = {x \<in> set acc. x \<in> set c}"
    by blast
  then show ?thesis
    using assms by (intro exI [of _ r]) (auto simp: AccumulateConstraintHeapPermitted_def)
qed

lemma heap_step:
  assumes "acc \<noteq> []"
  shows "AccumulateConstraintHeapPermitted acc c \<noteq> None"
    and "AccumulateConstraintHeapPermitted acc c = Some (Some r) \<Longrightarrow> r \<noteq> [] \<and> set r = set acc \<inter> set c"
    and "AccumulateConstraintHeapPermitted acc c = Some None \<Longrightarrow> set acc \<inter> set c = {}"
  using AccumulateConstraintHeapPermitted_eq [OF assms, of c] by (auto split: if_splits)

interpretation heaps: constraint_meet "\<lambda>hs. hs \<noteq> []" heap_list_sat AccumulateConstraintHeapPermitted
proof unfold_locales
  fix a c r :: "heap_type list" and s
  assume a: "a \<noteq> []"
  show "AccumulateConstraintHeapPermitted a c \<noteq> None" by (rule heap_step(1) [OF a])
  show "r \<noteq> []" and "heap_list_sat r s \<longleftrightarrow> heap_list_sat a s \<and> heap_list_sat c s"
    if "AccumulateConstraintHeapPermitted a c = Some (Some r)"
    using heap_step(2) [OF a that] by (simp_all add: heap_list_sat_def)
  show "\<not> (heap_list_sat a s \<and> heap_list_sat c s)"
    if "AccumulateConstraintHeapPermitted a c = Some None"
    using heap_step(3) [OF a that] by (auto simp: heap_list_sat_def)
qed

text \<open>Every colour space of a checked list has a type.\<close>

definition color_list_ok :: "color_space list \<Rightarrow> bool" where
  "color_list_ok cs \<longleftrightarrow> cs \<noteq> [] \<and> None \<notin> set cs"

definition color_list_sat :: "color_space list \<Rightarrow> color_space \<Rightarrow> bool" where
  "color_list_sat cs s \<longleftrightarrow> s \<in> set cs"

lemma color_space_found_eq:
  "a \<noteq> None \<Longrightarrow> None \<notin> set c \<Longrightarrow> color_space_found c a = Some (a \<in> set c)"
proof (induction c)
  case (Cons b c)
  then show ?case by (cases a; cases b) (simp_all add: IsColorSpaceEqual_def)
qed simp

lemma AccumulateConstraintColorSpaces_eq:
  assumes "None \<notin> set acc" "None \<notin> set c"
  shows "\<exists>r. set r = set acc \<inter> set c \<and>
    AccumulateConstraintColorSpaces acc c = Some (if r = [] then None else Some r)"
proof -
  have "\<forall>x\<in>set acc. color_space_found c x = Some (x \<in> set c)"
    using assms by (metis color_space_found_eq)
  from retain_loop_set [OF this] obtain r where
    "retain_loop (color_space_found c) 0 acc = Some r" "set r = {x \<in> set acc. x \<in> set c}"
    by blast
  then show ?thesis
    by (intro exI [of _ r]) (auto simp: AccumulateConstraintColorSpaces_def)
qed

lemma color_step:
  assumes "None \<notin> set acc" "None \<notin> set c"
  shows "AccumulateConstraintColorSpaces acc c \<noteq> None"
    and "AccumulateConstraintColorSpaces acc c = Some (Some r) \<Longrightarrow> r \<noteq> [] \<and> set r = set acc \<inter> set c"
    and "AccumulateConstraintColorSpaces acc c = Some None \<Longrightarrow> set acc \<inter> set c = {}"
  using AccumulateConstraintColorSpaces_eq [OF assms] by (auto split: if_splits)

interpretation colors: constraint_meet color_list_ok color_list_sat AccumulateConstraintColorSpaces
proof unfold_locales
  fix a c r s
  assume "color_list_ok a" "color_list_ok c"
  then have a: "None \<notin> set a" and c: "None \<notin> set c" by (simp_all add: color_list_ok_def)
  show "AccumulateConstraintColorSpaces a c \<noteq> None" by (rule color_step(1) [OF a c])
  show "color_list_ok r" and "color_list_sat r s \<longleftrightarrow> color_list_sat a s \<and> color_list_sat c s"
    if "AccumulateConstraintColorSpaces a c = Some (Some r)"
    using color_step(2) [OF a c that] a by (simp_all add: color_list_ok_def color_list_sat_def)
  show "\<not> (color_list_sat a s \<and> color_list_sat c s)"
    if "AccumulateConstraintColorSpaces a c = Some None"
    using color_step(3) [OF a c that] by (auto simp: color_list_sat_def)
qed

section \<open>Powers of two\<close>

lemma IsNonZeroPowerOf2_iff: "IsNonZeroPowerOf2 v \<longleftrightarrow> (\<exists>k. v = 2 ^ k)"
proof (induction v rule: less_induct)
  case (less v)
  consider "v = 0" | u where "v = 2 * u" "0 < u" | u where "v = 2 * u + 1"
    by (metis evenE gr0I mult_0_right oddE)
  then show ?case
  proof cases
    case (2 u)
    have odd: "odd (2 * u - 1)" and half: "(2 * u - 1) div 2 = u - 1" using 2(2) by presburger+
    have "v AND (v - 1) = 2 * (u AND (u - 1))"
      using 2 odd half by (subst and_rec) simp
    then have "IsNonZeroPowerOf2 v \<longleftrightarrow> IsNonZeroPowerOf2 u"
      using 2 by (simp add: IsNonZeroPowerOf2_def)
    also have "\<dots> \<longleftrightarrow> (\<exists>k. u = 2 ^ k)" using less [of u] 2 by simp
    also have "\<dots> \<longleftrightarrow> (\<exists>k. v = 2 ^ k)"
    proof
      assume "\<exists>k. u = 2 ^ k"
      then show "\<exists>k. v = 2 ^ k" using 2 by (metis power_Suc)
    next
      assume "\<exists>k. v = 2 ^ k"
      then obtain k where "2 * u = 2 ^ k" using 2 by auto
      then show "\<exists>k. u = 2 ^ k" by (cases k) auto
    qed
    finally show ?thesis .
  next
    case (3 u)
    have "v AND (v - 1) = 2 * u" using 3 by (subst and_rec) simp
    moreover have "(\<exists>k. v = 2 ^ k) \<longleftrightarrow> u = 0"
    proof
      assume "\<exists>k. v = 2 ^ k"
      then obtain k where "2 * u + 1 = 2 ^ k" using 3 by auto
      then have "odd (2 ^ k :: nat)" by presburger
      then have "k = 0" by simp
      then show "u = 0" using \<open>2 * u + 1 = 2 ^ k\<close> by simp
    next
      assume "u = 0"
      then show "\<exists>k. v = 2 ^ k" using 3 by (intro exI [of _ 0]) simp
    qed
    ultimately show ?thesis using 3 by (simp add: IsNonZeroPowerOf2_def)
  qed (simp add: IsNonZeroPowerOf2_def)
qed

lemma power2_max_dvd:
  assumes "IsNonZeroPowerOf2 a" "IsNonZeroPowerOf2 b"
  shows "max a b dvd (x::nat) \<longleftrightarrow> a dvd x \<and> b dvd x"
proof -
  obtain i j where ab: "a = 2 ^ i" "b = 2 ^ j" using assms by (auto simp: IsNonZeroPowerOf2_iff)
  show ?thesis
  proof (cases "i \<le> j")
    case True
    then have "a dvd b" "max a b = b" using ab by (auto simp: le_imp_power_dvd max_def)
    then show ?thesis by (auto intro: dvd_trans)
  next
    case False
    then have "b dvd a" "max a b = a" using ab by (auto simp: le_imp_power_dvd max_def)
    then show ?thesis by (auto intro: dvd_trans)
  qed
qed

lemma power2_max: "IsNonZeroPowerOf2 a \<Longrightarrow> IsNonZeroPowerOf2 b \<Longrightarrow> IsNonZeroPowerOf2 (max a b)"
  by (simp add: max_def)

end
