(* ===== verification/Sysmem_Image_Meet.thy ===== *)
theory Sysmem_Image_Meet
  imports Sysmem_Meet
begin

text \<open>
  The settings that memory constraints and image format constraints admit, and the proof that
  the accumulation of each of them is a meet of these settings in the sense of
  \<open>constraint_meet\<close>. The accumulation of lists of image formats pairs the entries of the same pixel
  format. The sizes that participants require are kept: every entry that remains requires at least the
  sizes required by the entries it was made from.
\<close>

section \<open>Memory\<close>

record buffer_setting =
  s_size :: nat
  s_contiguous :: bool
  s_secure :: bool
  s_domain :: CoherencyDomain
  s_heap :: heap_type

fun domain_supported :: "memory_constraints \<Rightarrow> CoherencyDomain \<Rightarrow> bool" where
  "domain_supported m kCpu = cpu_domain_supported m"
| "domain_supported m kRam = ram_domain_supported m"
| "domain_supported m kInaccessible = inaccessible_domain_supported m"

text \<open>A buffer has at least one byte.\<close>

definition memory_sat :: "memory_constraints \<Rightarrow> buffer_setting \<Rightarrow> bool" where
  "memory_sat m s \<longleftrightarrow> 1 \<le> s_size s \<and> min_size_bytes m \<le> s_size s \<and> s_size s \<le> max_size_bytes m \<and>
     (physically_contiguous_required m \<longrightarrow> s_contiguous s) \<and> (secure_required m \<longrightarrow> s_secure s) \<and>
     domain_supported m (s_domain s) \<and> IsHeapPermitted m (s_heap s)"

lemma AccumulateConstraintBufferMemory_cases:
  fixes a c
  defines "x \<equiv> AccumulateConstraintBufferMemory a c"
  shows "(\<exists>h. x = Some (Some
      \<lparr>min_size_bytes = max (max (min_size_bytes a) (min_size_bytes c)) 1,
       max_size_bytes = min (max_size_bytes a) (max_size_bytes c),
       physically_contiguous_required = (physically_contiguous_required a \<or> physically_contiguous_required c),
       secure_required = (secure_required a \<or> secure_required c),
       cpu_domain_supported = (cpu_domain_supported a \<and> cpu_domain_supported c),
       ram_domain_supported = (ram_domain_supported a \<and> ram_domain_supported c),
       inaccessible_domain_supported = (inaccessible_domain_supported a \<and> inaccessible_domain_supported c),
       heap_permitted = h\<rparr>) \<and>
      (\<forall>k. (h \<noteq> [] \<longrightarrow> k \<in> set h) \<longleftrightarrow> IsHeapPermitted a k \<and> IsHeapPermitted c k)) \<or>
    x = Some None \<and> (\<nexists>k. IsHeapPermitted a k \<and> IsHeapPermitted c k)"
proof -
  consider "heap_permitted a = []" | "heap_permitted a \<noteq> []" "heap_permitted c = []"
    | "heap_permitted a \<noteq> []" "heap_permitted c \<noteq> []" by blast
  then show ?thesis
  proof cases
    case 1
    then show ?thesis
      unfolding x_def by (intro disjI1 exI [of _ "heap_permitted c"])
        (simp add: AccumulateConstraintBufferMemory_def Let_def IsHeapPermitted_def)
  next
    case 2
    then show ?thesis
      unfolding x_def by (intro disjI1 exI [of _ "heap_permitted a"])
        (simp add: AccumulateConstraintBufferMemory_def Let_def IsHeapPermitted_def)
  next
    case 3
    obtain r where r: "set r = set (heap_permitted a) \<inter> set (heap_permitted c)"
      "AccumulateConstraintHeapPermitted (heap_permitted a) (heap_permitted c) =
        Some (if r = [] then None else Some r)"
      using AccumulateConstraintHeapPermitted_eq [OF 3(1)] by blast
    show ?thesis
    proof (cases "r = []")
      case True
      then have "x = Some None"
        unfolding x_def using 3 r(2) by (simp add: AccumulateConstraintBufferMemory_def Let_def)
      moreover have "\<nexists>k. IsHeapPermitted a k \<and> IsHeapPermitted c k"
        using r(1) True 3 by (auto simp: IsHeapPermitted_def)
      ultimately show ?thesis by simp
    next
      case False
      have "\<forall>k. (r \<noteq> [] \<longrightarrow> k \<in> set r) \<longleftrightarrow> IsHeapPermitted a k \<and> IsHeapPermitted c k"
        using r(1) False 3 by (simp add: IsHeapPermitted_def)
      then show ?thesis
        unfolding x_def using False 3 r(2)
        by (intro disjI1 exI [of _ r]) (simp add: AccumulateConstraintBufferMemory_def Let_def)
    qed
  qed
qed

lemma memory_step_meet:
  assumes "AccumulateConstraintBufferMemory a c = Some (Some r)"
  shows "memory_sat r s \<longleftrightarrow> memory_sat a s \<and> memory_sat c s"
proof -
  obtain h where r: "r =
      \<lparr>min_size_bytes = max (max (min_size_bytes a) (min_size_bytes c)) 1,
       max_size_bytes = min (max_size_bytes a) (max_size_bytes c),
       physically_contiguous_required = (physically_contiguous_required a \<or> physically_contiguous_required c),
       secure_required = (secure_required a \<or> secure_required c),
       cpu_domain_supported = (cpu_domain_supported a \<and> cpu_domain_supported c),
       ram_domain_supported = (ram_domain_supported a \<and> ram_domain_supported c),
       inaccessible_domain_supported = (inaccessible_domain_supported a \<and> inaccessible_domain_supported c),
       heap_permitted = h\<rparr>"
    and h: "(h \<noteq> [] \<longrightarrow> k \<in> set h) \<longleftrightarrow> IsHeapPermitted a k \<and> IsHeapPermitted c k" for k
    using AccumulateConstraintBufferMemory_cases [of a c] assms by auto
  have d: "domain_supported r d \<longleftrightarrow> domain_supported a d \<and> domain_supported c d" for d
    by (cases d) (simp_all add: r)
  have "IsHeapPermitted r k \<longleftrightarrow> (h \<noteq> [] \<longrightarrow> k \<in> set h)" for k
    unfolding IsHeapPermitted_def [of r] by (simp add: r)
  then have i: "IsHeapPermitted r k \<longleftrightarrow> IsHeapPermitted a k \<and> IsHeapPermitted c k" for k
    using h [of k] by simp
  show ?thesis
    unfolding memory_sat_def d i by (simp add: r) blast
qed

interpretation memory: constraint_meet "\<lambda>_. True" memory_sat AccumulateConstraintBufferMemory
proof unfold_locales
  fix a c r s
  show "AccumulateConstraintBufferMemory a c \<noteq> None"
    using AccumulateConstraintBufferMemory_cases [of a c] by auto
  show "memory_sat r s \<longleftrightarrow> memory_sat a s \<and> memory_sat c s"
    if "AccumulateConstraintBufferMemory a c = Some (Some r)"
    by (rule memory_step_meet [OF that])
  show "\<not> (memory_sat a s \<and> memory_sat c s)" if "AccumulateConstraintBufferMemory a c = Some None"
    using AccumulateConstraintBufferMemory_cases [of a c] that by (simp add: memory_sat_def)
qed simp

section \<open>One image format\<close>

record image_point =
  p_format :: pixel_format
  p_color :: color_space
  p_width :: nat
  p_height :: nat
  p_bytes_per_row :: nat
  p_start_offset :: nat
  p_display_width :: nat
  p_display_height :: nat

text \<open>
  What the code relies on of the image format library: two pixel formats are equal when type and modifier
  are, the smallest divisors of a supported format are powers of two, and only colour spaces with
  a known type are supported.
\<close>

definition lib_ok :: "sysmem_lib \<Rightarrow> bool" where
  "lib_ok lib \<longleftrightarrow>
     (\<forall>p q. formats_equal lib p q \<longleftrightarrow> p = q) \<and>
     (\<forall>p. ImageFormatIsSupported lib p \<longrightarrow>
        IsNonZeroPowerOf2 (ImageFormatCodedWidthMinDivisor lib p) \<and>
        IsNonZeroPowerOf2 (ImageFormatCodedHeightMinDivisor lib p) \<and>
        IsNonZeroPowerOf2 (ImageFormatSampleAlignment lib p)) \<and>
     (\<forall>s p. ImageFormatIsSupportedColorSpaceForPixelFormat lib s p \<longrightarrow>
        (\<exists>t. s = Some t \<and> kColorSpaceRanking t \<noteq> None))"

text \<open>Constraints on one image format that passed the checks.\<close>

definition image_ok :: "sysmem_lib \<Rightarrow> image_constraints \<Rightarrow> bool" where
  "image_ok lib c \<longleftrightarrow> lib_ok lib \<and> ImageFormatIsSupported lib (i_pixel_format c) \<and> color_spaces c \<noteq> [] \<and>
     (\<forall>s\<in>set (color_spaces c). \<exists>t. s = Some t \<and> kColorSpaceRanking t \<noteq> None) \<and>
     IsNonZeroPowerOf2 (coded_width_divisor c) \<and> IsNonZeroPowerOf2 (coded_height_divisor c) \<and>
     IsNonZeroPowerOf2 (bytes_per_row_divisor c) \<and> IsNonZeroPowerOf2 (start_offset_divisor c) \<and>
     IsNonZeroPowerOf2 (display_width_divisor c) \<and> IsNonZeroPowerOf2 (display_height_divisor c) \<and>
     required_min_coded_width c \<noteq> 0 \<and> required_min_coded_height c \<noteq> 0 \<and> required_min_bytes_per_row c \<noteq> 0"

definition image_sat :: "sysmem_lib \<Rightarrow> image_constraints \<Rightarrow> image_point \<Rightarrow> bool" where
  "image_sat lib c p \<longleftrightarrow> i_pixel_format c = p_format p \<and> p_color p \<in> set (color_spaces c) \<and>
     min_coded_width c \<le> p_width p \<and> p_width p \<le> max_coded_width c \<and>
     min_coded_height c \<le> p_height p \<and> p_height p \<le> max_coded_height c \<and>
     min_bytes_per_row c \<le> p_bytes_per_row p \<and> p_bytes_per_row p \<le> max_bytes_per_row c \<and>
     p_width p * p_height p \<le> max_coded_width_times_coded_height c \<and>
     coded_width_divisor c dvd p_width p \<and> coded_height_divisor c dvd p_height p \<and>
     bytes_per_row_divisor c dvd p_bytes_per_row p \<and> start_offset_divisor c dvd p_start_offset p \<and>
     display_width_divisor c dvd p_display_width p \<and> display_height_divisor c dvd p_display_height p"

text \<open>The point has the alignment that the library asks of its pixel format.\<close>

definition point_aligned :: "sysmem_lib \<Rightarrow> image_point \<Rightarrow> bool" where
  "point_aligned lib p \<longleftrightarrow> ImageFormatCodedWidthMinDivisor lib (p_format p) dvd p_width p \<and>
     ImageFormatCodedHeightMinDivisor lib (p_format p) dvd p_height p \<and>
     ImageFormatSampleAlignment lib (p_format p) dvd p_bytes_per_row p \<and>
     ImageFormatSampleAlignment lib (p_format p) dvd p_start_offset p"

definition image_admits :: "sysmem_lib \<Rightarrow> image_constraints \<Rightarrow> image_point \<Rightarrow> bool" where
  "image_admits lib c p \<longleftrightarrow> image_sat lib c p \<and> point_aligned lib p"

text \<open>The entry \<open>r\<close> requires at least the sizes that the entry \<open>c\<close> of the same pixel format requires.\<close>

definition image_requires :: "image_constraints \<Rightarrow> image_constraints \<Rightarrow> bool" where
  "image_requires r c \<longleftrightarrow> i_pixel_format r = i_pixel_format c \<and>
     required_min_coded_width r \<le> required_min_coded_width c \<and>
     required_max_coded_width c \<le> required_max_coded_width r \<and>
     required_min_coded_height r \<le> required_min_coded_height c \<and>
     required_max_coded_height c \<le> required_max_coded_height r \<and>
     required_min_bytes_per_row r \<le> required_min_bytes_per_row c \<and>
     required_max_bytes_per_row c \<le> required_max_bytes_per_row r"

lemma image_requires_refl [simp]: "image_requires c c"
  by (simp add: image_requires_def)

lemma image_requires_trans [trans]: "image_requires a b \<Longrightarrow> image_requires b c \<Longrightarrow> image_requires a c"
  by (auto simp: image_requires_def)

lemma lib_ok_equal: "lib_ok lib \<Longrightarrow> formats_equal lib p q \<longleftrightarrow> p = q"
  by (simp add: lib_ok_def)

lemma lib_ok_divisors:
  "lib_ok lib \<Longrightarrow> ImageFormatIsSupported lib p \<Longrightarrow>
     IsNonZeroPowerOf2 (ImageFormatCodedWidthMinDivisor lib p) \<and>
     IsNonZeroPowerOf2 (ImageFormatCodedHeightMinDivisor lib p) \<and>
     IsNonZeroPowerOf2 (ImageFormatSampleAlignment lib p)"
  unfolding lib_ok_def by blast

lemma image_ok_colors: "image_ok lib c \<Longrightarrow> None \<notin> set (color_spaces c)"
  by (auto simp: image_ok_def)

text \<open>The result of accumulating one image format, up to the colour spaces.\<close>

lemma AccumulateConstraintImageFormat_cases:
  assumes "image_ok lib a" "image_ok lib c" "i_pixel_format a = i_pixel_format c"
  shows "AccumulateConstraintImageFormat lib a c = Some None \<and> set (color_spaces a) \<inter> set (color_spaces c) = {} \<or>
    (\<exists>s. AccumulateConstraintImageFormat lib a c = Some (Some (accumulate_image_fields lib a c s)) \<and>
      s \<noteq> [] \<and> set s = set (color_spaces a) \<inter> set (color_spaces c))"
proof -
  have e: "formats_equal lib (i_pixel_format a) (i_pixel_format c)"
    using assms by (simp add: image_ok_def lib_ok_equal)
  obtain s where s: "set s = set (color_spaces a) \<inter> set (color_spaces c)"
    "AccumulateConstraintColorSpaces (color_spaces a) (color_spaces c) = Some (if s = [] then None else Some s)"
    using AccumulateConstraintColorSpaces_eq [OF image_ok_colors [OF assms(1)] image_ok_colors [OF assms(2)]]
    by blast
  have ne: "color_spaces a \<noteq> []" "color_spaces c \<noteq> []"
    and z: "required_min_coded_width a \<noteq> 0 \<and> required_min_coded_width c \<noteq> 0"
      "required_min_coded_height a \<noteq> 0 \<and> required_min_coded_height c \<noteq> 0"
      "required_min_bytes_per_row a \<noteq> 0 \<and> required_min_bytes_per_row c \<noteq> 0"
    using assms by (simp_all add: image_ok_def)
  show ?thesis
  proof (cases "s = []")
    case True
    then show ?thesis
      using s e ne by (simp add: AccumulateConstraintImageFormat_def)
  next
    case False
    then have "AccumulateConstraintImageFormat lib a c = Some (Some (accumulate_image_fields lib a c s))"
      using s e ne z by (simp add: AccumulateConstraintImageFormat_def)
    then show ?thesis using s(1) False by blast
  qed
qed

lemma image_step_Some:
  assumes "image_ok lib a" "image_ok lib c" "i_pixel_format a = i_pixel_format c"
    and "AccumulateConstraintImageFormat lib a c = Some (Some r)"
  shows "\<exists>s. r = accumulate_image_fields lib a c s \<and> s \<noteq> [] \<and>
    set s = set (color_spaces a) \<inter> set (color_spaces c)"
  using AccumulateConstraintImageFormat_cases [OF assms(1-3)] assms(4) by auto

lemma image_ok_pows:
  assumes "image_ok lib c"
  shows "IsNonZeroPowerOf2 (coded_width_divisor c)" "IsNonZeroPowerOf2 (coded_height_divisor c)"
    "IsNonZeroPowerOf2 (bytes_per_row_divisor c)" "IsNonZeroPowerOf2 (start_offset_divisor c)"
    "IsNonZeroPowerOf2 (display_width_divisor c)" "IsNonZeroPowerOf2 (display_height_divisor c)"
    "IsNonZeroPowerOf2 (ImageFormatCodedWidthMinDivisor lib (i_pixel_format c))"
    "IsNonZeroPowerOf2 (ImageFormatCodedHeightMinDivisor lib (i_pixel_format c))"
    "IsNonZeroPowerOf2 (ImageFormatSampleAlignment lib (i_pixel_format c))"
  using assms lib_ok_divisors [of lib "i_pixel_format c"] by (simp_all add: image_ok_def)

lemma image_step_ok:
  assumes ok: "image_ok lib a" "image_ok lib c" "i_pixel_format a = i_pixel_format c"
    and r: "AccumulateConstraintImageFormat lib a c = Some (Some r)"
  shows "image_ok lib r" and "i_pixel_format r = i_pixel_format a"
    and "image_requires r a" and "image_requires r c"
proof -
  obtain s where s: "r = accumulate_image_fields lib a c s" "s \<noteq> []"
    "set s = set (color_spaces a) \<inter> set (color_spaces c)"
    using image_step_Some [OF ok r] by blast
  show "i_pixel_format r = i_pixel_format a" "image_requires r a" "image_requires r c"
    using ok(3) by (simp_all add: s(1) accumulate_image_fields_def image_requires_def)
  have base: "lib_ok lib" "ImageFormatIsSupported lib (i_pixel_format a)"
    "\<forall>x\<in>set s. \<exists>t. x = Some t \<and> kColorSpaceRanking t \<noteq> None"
    using ok s(3) by (simp_all add: image_ok_def)
  have req: "required_min_coded_width a \<noteq> 0" "required_min_coded_height a \<noteq> 0"
    "required_min_bytes_per_row a \<noteq> 0" "required_min_coded_width c \<noteq> 0"
    "required_min_coded_height c \<noteq> 0" "required_min_bytes_per_row c \<noteq> 0"
    using ok by (simp_all add: image_ok_def)
  show "image_ok lib r"
    unfolding image_ok_def using base req s(2) image_ok_pows [OF ok(1)] image_ok_pows [OF ok(2)]
    by (simp add: s(1) accumulate_image_fields_def power2_max min_def)
qed

lemma image_step_meet:
  assumes ok: "image_ok lib a" "image_ok lib c" "i_pixel_format a = i_pixel_format c"
    and r: "AccumulateConstraintImageFormat lib a c = Some (Some r)"
  shows "image_admits lib r p \<longleftrightarrow> image_admits lib a p \<and> image_admits lib c p"
proof (cases "i_pixel_format c = p_format p")
  case False
  then have "\<not> image_admits lib r p"
    using ok(3) image_step_ok(2) [OF ok r] by (simp add: image_admits_def image_sat_def)
  then show ?thesis using False by (simp add: image_admits_def image_sat_def)
next
  case True
  then have fmt: "i_pixel_format a = p_format p" "i_pixel_format c = p_format p" using ok(3) by simp_all
  obtain s where s: "r = accumulate_image_fields lib a c s"
    "set s = set (color_spaces a) \<inter> set (color_spaces c)"
    using image_step_Some [OF ok r] by blast
  note pows = image_ok_pows [OF ok(1), unfolded fmt] image_ok_pows [OF ok(2), unfolded fmt]
  have "image_admits lib r p \<longleftrightarrow> image_sat lib a p \<and> image_sat lib c p \<and> point_aligned lib p"
    unfolding image_admits_def image_sat_def point_aligned_def
    by (simp add: s accumulate_image_fields_def fmt power2_max_dvd power2_max pows)
      (rule iffI; elim conjE; intro conjI; assumption)
  then show ?thesis by (simp add: image_admits_def) blast
qed

lemma image_step_empty:
  assumes "image_ok lib a" "image_ok lib c" "i_pixel_format a = i_pixel_format c"
    and "AccumulateConstraintImageFormat lib a c = Some None"
  shows "\<not> (image_admits lib a p \<and> image_admits lib c p)"
  using AccumulateConstraintImageFormat_cases [OF assms(1-3)] assms(4)
  by (auto simp: image_admits_def image_sat_def)

interpretation image: constraint_meet "\<lambda>c. image_ok lib c \<and> i_pixel_format c = f" "image_admits lib"
  "AccumulateConstraintImageFormat lib" for lib f
proof unfold_locales
  fix a c r s
  assume "image_ok lib a \<and> i_pixel_format a = f" "image_ok lib c \<and> i_pixel_format c = f"
  then have ok: "image_ok lib a" "image_ok lib c" "i_pixel_format a = i_pixel_format c"
    and f: "i_pixel_format a = f" by simp_all
  show "AccumulateConstraintImageFormat lib a c \<noteq> None"
    using AccumulateConstraintImageFormat_cases [OF ok] by auto
  show "image_ok lib r \<and> i_pixel_format r = f"
    and "image_admits lib r s \<longleftrightarrow> image_admits lib a s \<and> image_admits lib c s"
    if "AccumulateConstraintImageFormat lib a c = Some (Some r)"
    using image_step_ok(1,2) [OF ok that] image_step_meet [OF ok that] f by simp_all
  show "\<not> (image_admits lib a s \<and> image_admits lib c s)"
    if "AccumulateConstraintImageFormat lib a c = Some None"
    by (rule image_step_empty [OF ok that])
qed

section \<open>Lists of image formats\<close>

definition images_ok :: "sysmem_lib \<Rightarrow> image_constraints list \<Rightarrow> bool" where
  "images_ok lib cs \<longleftrightarrow> lib_ok lib \<and> (\<forall>c\<in>set cs. image_ok lib c) \<and> distinct (map i_pixel_format cs)"

definition images_admit :: "sysmem_lib \<Rightarrow> image_constraints list \<Rightarrow> image_point \<Rightarrow> bool" where
  "images_admit lib cs p \<longleftrightarrow> (\<exists>c\<in>set cs. image_admits lib c p)"

lemma image_admits_format: "image_admits lib c p \<Longrightarrow> p_format p = i_pixel_format c"
  by (simp add: image_admits_def image_sat_def)

lemma find_format_None: "find_format lib f cs = None \<Longrightarrow> c \<in> set cs \<Longrightarrow>
    \<not> formats_equal lib f (i_pixel_format c)"
  by (induction cs) (auto split: if_splits)

lemma find_format_Some: "find_format lib f cs = Some i \<Longrightarrow>
    i < length cs \<and> formats_equal lib f (i_pixel_format (cs ! i))"
  by (induction cs arbitrary: i) (auto split: if_splits)

lemma drop_remove_swap:
  assumes "i < length xs"
  shows "mset (drop i (remove_swap i xs)) = mset (drop (Suc i) xs)"
proof -
  have "add_mset (xs ! i) (mset (take i xs) + mset (drop i (remove_swap i xs))) =
      add_mset (xs ! i) (mset (remove_swap i xs))"
    using remove_swap_take [OF assms] by (metis append_take_drop_id mset_append)
  also have "\<dots> = mset (take i xs @ xs ! i # drop (Suc i) xs)"
    using remove_swap_mset [OF assms] assms by (simp add: id_take_nth_drop [symmetric])
  finally show ?thesis by simp
qed

lemma distinct_remove_swap:
  assumes "i < length xs" "distinct (map f xs)"
  shows "distinct (map f (remove_swap i xs))" and "x \<in> set (remove_swap i xs) \<Longrightarrow> f x \<noteq> f (xs ! i)"
proof -
  have "mset (map f (xs ! i # remove_swap i xs)) = mset (map f xs)"
    using remove_swap_mset [OF assms(1)] by (metis mset.simps(2) mset_map)
  then have d: "distinct (map f (xs ! i # remove_swap i xs))"
    using assms(2) by (metis mset_eq_imp_distinct_iff)
  then show "distinct (map f (remove_swap i xs))" by simp
  show "f x \<noteq> f (xs ! i)" if "x \<in> set (remove_swap i xs)"
  proof -
    have "f (xs ! i) \<notin> f ` set (remove_swap i xs)" using d by simp
    then show ?thesis using that by (metis imageI)
  qed
qed

lemma images_ok_remove_swap: "i < length cs \<Longrightarrow> images_ok lib cs \<Longrightarrow> images_ok lib (remove_swap i cs)"
  using distinct_remove_swap(1) [of i cs i_pixel_format] remove_swap_set [of i cs]
  by (auto simp: images_ok_def)

lemma images_ok_update:
  assumes "i < length cs" "images_ok lib cs" "image_ok lib a" "i_pixel_format a = i_pixel_format (cs ! i)"
  shows "images_ok lib (cs[i := a])"
proof -
  have "map i_pixel_format (cs[i := a]) = map i_pixel_format cs"
    using assms(1,4) by (simp add: map_update list_update_same_conv)
  moreover have "\<forall>c\<in>set (cs[i := a]). image_ok lib c"
    using assms(2,3) set_update_subset_insert [of cs i a] by (auto simp: images_ok_def)
  ultimately show ?thesis using assms(2) by (simp add: images_ok_def)
qed

text \<open>
  What is left of the loop from index \<open>ai\<close>: the entries before it stay, an entry after it stays
  when it meets the entry of the other list with its pixel format.
\<close>

definition loop_result ::
  "sysmem_lib \<Rightarrow> nat \<Rightarrow> image_constraints list \<Rightarrow> image_constraints list \<Rightarrow> image_constraints list \<Rightarrow> bool" where
  "loop_result lib ai acc c r \<longleftrightarrow> images_ok lib r \<and>
     (\<forall>p. images_admit lib r p \<longleftrightarrow>
        images_admit lib (take ai acc) p \<or> images_admit lib (drop ai acc) p \<and> images_admit lib c p) \<and>
     (\<forall>i\<in>set r. i \<in> set (take ai acc) \<or>
        (\<exists>j\<in>set (drop ai acc). image_requires i j) \<and> (\<exists>j\<in>set c. image_requires i j))"

lemma images_admit_remove:
  assumes "i < length cs"
  shows "images_admit lib cs p \<longleftrightarrow> image_admits lib (cs ! i) p \<or> images_admit lib (remove_swap i cs) p"
  using remove_swap_set [OF assms] by (auto simp: images_admit_def)

lemma images_admit_drop:
  assumes "i < length cs"
  shows "images_admit lib (drop i cs) p \<longleftrightarrow>
    image_admits lib (cs ! i) p \<or> images_admit lib (drop (Suc i) cs) p"
  using Cons_nth_drop_Suc [OF assms] by (metis images_admit_def list.set_intros set_ConsD)

lemma images_admit_take_Suc:
  assumes "i < length cs"
  shows "images_admit lib (take (Suc i) cs) p \<longleftrightarrow>
    images_admit lib (take i cs) p \<or> image_admits lib (cs ! i) p"
  using assms by (auto simp: images_admit_def take_Suc_conv_app_nth)

lemma rest_formats_differ:
  assumes "images_ok lib acc" "ai < length acc" "x \<in> set (drop (Suc ai) acc)"
  shows "i_pixel_format x \<noteq> i_pixel_format (acc ! ai)"
proof -
  have "x \<in> set (remove_swap ai acc)"
    using drop_remove_swap [OF assms(2)] assms(3) by (metis in_set_dropD mset_eq_setD)
  then show ?thesis using distinct_remove_swap(2) [of ai acc i_pixel_format] assms by (simp add: images_ok_def)
qed

text \<open>The entries of the other list with the format being processed do not matter to the later entries.\<close>

lemma rest_ignores_format:
  assumes "images_ok lib acc" "ai < length acc" "ci < length c"
    and "i_pixel_format (c ! ci) = i_pixel_format (acc ! ai)"
  shows "images_admit lib (drop (Suc ai) acc) p \<and> images_admit lib c p \<longleftrightarrow>
    images_admit lib (drop (Suc ai) acc) p \<and> images_admit lib (remove_swap ci c) p"
proof -
  have "\<not> image_admits lib (c ! ci) p" if rest: "images_admit lib (drop (Suc ai) acc) p"
  proof
    assume "image_admits lib (c ! ci) p"
    then have "p_format p = i_pixel_format (acc ! ai)" using assms(4) by (simp add: image_admits_format)
    moreover obtain x where "x \<in> set (drop (Suc ai) acc)" "p_format p = i_pixel_format x"
      using rest image_admits_format by (auto simp: images_admit_def)
    ultimately show False using rest_formats_differ [OF assms(1,2)] by simp
  qed
  then show ?thesis using images_admit_remove [OF assms(3), of lib p] by blast
qed

lemma only_format_admits:
  assumes "images_ok lib c" "ci < length c" "i_pixel_format (c ! ci) = p_format p"
  shows "images_admit lib c p \<longleftrightarrow> image_admits lib (c ! ci) p"
proof -
  have "distinct (map i_pixel_format c)" using assms(1) by (simp add: images_ok_def)
  then have "\<not> images_admit lib (remove_swap ci c) p"
    using distinct_remove_swap(2) [OF assms(2)] assms(3) image_admits_format
    by (metis images_admit_def)
  then show ?thesis using images_admit_remove [OF assms(2)] by blast
qed

lemma loop_result_dropped:
  assumes lt: "ai < length acc"
    and none: "\<And>p. \<not> (image_admits lib (acc ! ai) p \<and> images_admit lib c p)"
    and rest: "\<And>p. images_admit lib (drop (Suc ai) acc) p \<and> images_admit lib c p \<longleftrightarrow>
      images_admit lib (drop (Suc ai) acc) p \<and> images_admit lib c' p"
    and sub: "set c' \<subseteq> set c"
    and r: "loop_result lib ai (remove_swap ai acc) c' r"
  shows "loop_result lib ai acc c r"
proof -
  have d: "set (drop ai (remove_swap ai acc)) = set (drop (Suc ai) acc)"
    using drop_remove_swap [OF lt] by (rule mset_eq_setD)
  then have a: "images_admit lib (drop ai (remove_swap ai acc)) p = images_admit lib (drop (Suc ai) acc) p" for p
    by (simp add: images_admit_def)
  have s: "set (drop (Suc ai) acc) \<subseteq> set (drop ai acc)" by (rule set_drop_subset_set_drop) simp
  show ?thesis
    unfolding loop_result_def
  proof (intro conjI allI ballI)
    show "images_ok lib r" using r by (simp add: loop_result_def)
    fix p
    have "images_admit lib r p \<longleftrightarrow>
        images_admit lib (take ai acc) p \<or> images_admit lib (drop (Suc ai) acc) p \<and> images_admit lib c' p"
      using r a [of p] remove_swap_take [OF lt] by (simp add: loop_result_def)
    then show "images_admit lib r p \<longleftrightarrow>
        images_admit lib (take ai acc) p \<or> images_admit lib (drop ai acc) p \<and> images_admit lib c p"
      using none [of p] rest [of p] images_admit_drop [OF lt, of lib p] by blast
  next
    fix i assume "i \<in> set r"
    then show "i \<in> set (take ai acc) \<or>
        (\<exists>j\<in>set (drop ai acc). image_requires i j) \<and> (\<exists>j\<in>set c. image_requires i j)"
      using r d s sub remove_swap_take [OF lt] by (simp add: loop_result_def) blast
  qed
qed

lemma loop_result_kept:
  assumes ok: "images_ok lib acc" "images_ok lib c" and lt: "ai < length acc" "ci < length c"
    and f: "i_pixel_format (c ! ci) = i_pixel_format (acc ! ai)"
    and a: "AccumulateConstraintImageFormat lib (acc ! ai) (c ! ci) = Some (Some a)"
    and r: "loop_result lib (Suc ai) (acc[ai := a]) (remove_swap ci c) r"
  shows "loop_result lib ai acc c r"
proof -
  have o: "image_ok lib (acc ! ai)" "image_ok lib (c ! ci)" "i_pixel_format (acc ! ai) = i_pixel_format (c ! ci)"
    using ok lt f by (simp_all add: images_ok_def)
  have t: "take (Suc ai) (acc[ai := a]) = take ai acc @ [a]"
    and d: "drop (Suc ai) (acc[ai := a]) = drop (Suc ai) acc"
    using lt by (simp_all add: take_Suc_conv_app_nth)
  have c_once: "image_admits lib (acc ! ai) p \<Longrightarrow> images_admit lib c p \<longleftrightarrow> image_admits lib (c ! ci) p" for p
    using only_format_admits [OF ok(2) lt(2)] f image_admits_format by metis
  show ?thesis
    unfolding loop_result_def
  proof (intro conjI allI ballI)
    show "images_ok lib r" using r by (simp add: loop_result_def)
    fix p
    have "images_admit lib (take ai acc @ [a]) p \<longleftrightarrow> images_admit lib (take ai acc) p \<or> image_admits lib a p"
      by (auto simp: images_admit_def)
    then have "images_admit lib r p \<longleftrightarrow> images_admit lib (take ai acc) p \<or> image_admits lib a p \<or>
        images_admit lib (drop (Suc ai) acc) p \<and> images_admit lib (remove_swap ci c) p"
      using r by (simp add: loop_result_def t d)
    then show "images_admit lib r p \<longleftrightarrow>
        images_admit lib (take ai acc) p \<or> images_admit lib (drop ai acc) p \<and> images_admit lib c p"
      using image_step_meet [OF o a, of p] c_once [of p] images_admit_drop [OF lt(1), of lib p]
        rest_ignores_format [OF ok(1) lt f, of p]
      by blast
  next
    fix i assume i: "i \<in> set r"
    have s: "set (drop (Suc ai) acc) \<subseteq> set (drop ai acc)" "acc ! ai \<in> set (drop ai acc)"
      using Cons_nth_drop_Suc [OF lt(1)] by (metis set_subset_Cons, metis list.set_intros(1))
    have sc: "set (remove_swap ci c) \<subseteq> set c" "c ! ci \<in> set c"
      using remove_swap_set [OF lt(2)] by auto
    have "i = a \<or> i \<in> set (take ai acc) \<or>
        (\<exists>j\<in>set (drop (Suc ai) acc). image_requires i j) \<and> (\<exists>j\<in>set (remove_swap ci c). image_requires i j)"
      using r i by (auto simp: loop_result_def t d)
    then show "i \<in> set (take ai acc) \<or>
        (\<exists>j\<in>set (drop ai acc). image_requires i j) \<and> (\<exists>j\<in>set c. image_requires i j)"
      using s sc image_step_ok(3,4) [OF o a] by (elim disjE) blast+
  qed
qed

lemma formats_loop_result:
  assumes "images_ok lib acc" "images_ok lib c" "ai \<le> length acc"
  shows "\<exists>r. formats_loop lib ai acc c = Some r \<and> loop_result lib ai acc c r"
  using assms
proof (induction lib ai acc c rule: formats_loop.induct)
  case (1 lib ai acc c)
  note simps = formats_loop.simps [of lib ai acc c]
  have eq: "formats_equal lib p q \<longleftrightarrow> p = q" for p q
    using "1.prems"(1) by (simp add: images_ok_def lib_ok_equal)
  show ?case
  proof (cases "ai < length acc")
    case False
    then show ?thesis
      using "1.prems" simps by (simp add: loop_result_def images_admit_def)
  next
    case True
    then have le: "ai \<le> length (remove_swap ai acc)" by simp
    have okr: "images_ok lib (remove_swap ai acc)" using images_ok_remove_swap True "1.prems"(1) .
    show ?thesis
    proof (cases "find_format lib (i_pixel_format (acc ! ai)) c")
      case None
      obtain r where r: "formats_loop lib ai (remove_swap ai acc) c = Some r"
          "loop_result lib ai (remove_swap ai acc) c r"
        using "1.IH"(1) [OF True None okr "1.prems"(2) le] by blast
      have "loop_result lib ai acc c r"
      proof (rule loop_result_dropped [OF True _ _ _ r(2)])
        show "\<not> (image_admits lib (acc ! ai) p \<and> images_admit lib c p)" for p
          using find_format_None [OF None] eq image_admits_format by (metis images_admit_def)
      qed auto
      then show ?thesis using r(1) simps True None by simp
    next
      case (Some ci)
      then have ci: "ci < length c" "i_pixel_format (c ! ci) = i_pixel_format (acc ! ai)"
        using find_format_Some eq by metis+
      have o: "image_ok lib (acc ! ai)" "image_ok lib (c ! ci)" "i_pixel_format (acc ! ai) = i_pixel_format (c ! ci)"
        using "1.prems" True ci by (simp_all add: images_ok_def)
      have okc: "images_ok lib (remove_swap ci c)" using images_ok_remove_swap ci(1) "1.prems"(2) .
      consider "AccumulateConstraintImageFormat lib (acc ! ai) (c ! ci) = Some None"
        | a where "AccumulateConstraintImageFormat lib (acc ! ai) (c ! ci) = Some (Some a)"
        using AccumulateConstraintImageFormat_cases [OF o] by blast
      then show ?thesis
      proof cases
        case none: 1
        obtain r where r: "formats_loop lib ai (remove_swap ai acc) (remove_swap ci c) = Some r"
            "loop_result lib ai (remove_swap ai acc) (remove_swap ci c) r"
          using "1.IH"(2) [OF True Some none refl okr okc le] by blast
        have "loop_result lib ai acc c r"
        proof (rule loop_result_dropped [OF True _ _ _ r(2)])
          show "\<not> (image_admits lib (acc ! ai) p \<and> images_admit lib c p)" for p
            using image_step_empty [OF o none, of p] only_format_admits [OF "1.prems"(2) ci(1)] ci(2)
              image_admits_format by metis
        next
          show "set (remove_swap ci c) \<subseteq> set c" using remove_swap_set [OF ci(1)] by auto
        qed (rule rest_ignores_format [OF "1.prems"(1) True ci])
        then show ?thesis using r(1) simps True Some none by simp
      next
        case (2 a)
        have "images_ok lib (acc[ai := a])"
          using images_ok_update [OF True "1.prems"(1)] image_step_ok(1,2) [OF o 2] by simp
        then obtain r where r: "formats_loop lib (ai + 1) (acc[ai := a]) (remove_swap ci c) = Some r"
            "loop_result lib (ai + 1) (acc[ai := a]) (remove_swap ci c) r"
          using "1.IH"(3) [OF True Some 2 refl] okc True by auto
        then have "loop_result lib ai acc c r"
          using loop_result_kept [OF "1.prems"(1,2) True ci 2] by simp
        then show ?thesis using r(1) simps True Some 2 by simp
      qed
    qed
  qed
qed

lemma images_step:
  assumes "images_ok lib acc" "images_ok lib c" "acc \<noteq> []"
  shows "\<exists>r. AccumulateConstraintImageFormats lib acc c = Some (if r = [] then None else Some r) \<and>
    images_ok lib r \<and> (\<forall>p. images_admit lib r p \<longleftrightarrow> images_admit lib acc p \<and> images_admit lib c p) \<and>
    (\<forall>i\<in>set r. (\<exists>j\<in>set acc. image_requires i j) \<and> (\<exists>j\<in>set c. image_requires i j))"
proof -
  obtain r where "formats_loop lib 0 acc c = Some r" "loop_result lib 0 acc c r"
    using formats_loop_result [OF assms(1,2), of 0] by auto
  then show ?thesis
    using assms(3) by (intro exI [of _ r])
      (simp add: AccumulateConstraintImageFormats_def loop_result_def images_admit_def)
qed

interpretation images: constraint_meet "\<lambda>cs. images_ok lib cs \<and> cs \<noteq> []" "images_admit lib"
  "AccumulateConstraintImageFormats lib" for lib
proof unfold_locales
  fix a c r s
  assume "images_ok lib a \<and> a \<noteq> []" "images_ok lib c \<and> c \<noteq> []"
  then obtain x where x: "AccumulateConstraintImageFormats lib a c = Some (if x = [] then None else Some x)"
    "images_ok lib x" "\<forall>p. images_admit lib x p \<longleftrightarrow> images_admit lib a p \<and> images_admit lib c p"
    using images_step [of lib a c] by blast
  show "AccumulateConstraintImageFormats lib a c \<noteq> None" using x by simp
  show "images_ok lib r \<and> r \<noteq> []"
    and "images_admit lib r s \<longleftrightarrow> images_admit lib a s \<and> images_admit lib c s"
    if "AccumulateConstraintImageFormats lib a c = Some (Some r)"
    using x that by (simp_all split: if_splits)
  show "\<not> (images_admit lib a s \<and> images_admit lib c s)"
    if "AccumulateConstraintImageFormats lib a c = Some None"
  proof -
    have "x = []" using x(1) that by (simp split: if_splits)
    then have "\<not> images_admit lib x s" by (simp add: images_admit_def)
    then show ?thesis using x(3) by blast
  qed
qed

end
