(* ===== verification/Sysmem_Combine.thy ===== *)
theory Sysmem_Combine
  imports Sysmem_Image_Meet
begin

text \<open>
  The constraints of a whole buffer collection: the settings they admit, the accumulation as a meet, what
  the checks guarantee at each stage, and what \<open>CombineConstraints\<close> returns.
\<close>

section \<open>Settings of a collection\<close>

record setting =
  g_count :: nat
  g_buffer :: buffer_setting
  g_image :: "image_point option"

definition collection_ok :: "sysmem_lib \<Rightarrow> collection_constraints \<Rightarrow> bool" where
  "collection_ok lib c \<longleftrightarrow> max_buffer_count c \<noteq> 0 \<and> images_ok lib (image_format_constraints c)"

definition collection_admits :: "sysmem_lib \<Rightarrow> collection_constraints \<Rightarrow> setting \<Rightarrow> bool" where
  "collection_admits lib c s \<longleftrightarrow> min_buffer_count c \<le> g_count s \<and> g_count s \<le> max_buffer_count c \<and>
     memory_sat (buffer_memory_constraints c) (g_buffer s) \<and>
     (image_format_constraints c = [] \<or>
        (\<exists>p. g_image s = Some p \<and> images_admit lib (image_format_constraints c) p))"

text \<open>Every image format of \<open>r\<close> requires what some image format of \<open>c\<close> requires, if \<open>c\<close> has any.\<close>

definition collection_requires :: "collection_constraints \<Rightarrow> collection_constraints \<Rightarrow> bool" where
  "collection_requires r c \<longleftrightarrow> image_format_constraints c = [] \<or> image_format_constraints r \<noteq> [] \<and>
     (\<forall>i\<in>set (image_format_constraints r). \<exists>j\<in>set (image_format_constraints c). image_requires i j)"

lemma requires_itself: "i \<in> set cs \<Longrightarrow> \<exists>j\<in>set cs. image_requires i j"
  using image_requires_refl by blast

lemma collection_requires_refl [simp]: "collection_requires c c"
  unfolding collection_requires_def using image_requires_refl by blast

lemma collection_requires_trans:
  "collection_requires a b \<Longrightarrow> collection_requires b c \<Longrightarrow> collection_requires a c"
  unfolding collection_requires_def by (metis image_requires_trans)

text \<open>The choice that is made for the image formats of an accumulation.\<close>

definition accumulate_images ::
  "sysmem_lib \<Rightarrow> image_constraints list \<Rightarrow> image_constraints list \<Rightarrow> image_constraints list option option" where
  "accumulate_images lib a c =
     (if a = [] then Some (Some c)
      else if c \<noteq> [] then AccumulateConstraintImageFormats lib a c else Some (Some a))"

lemma accumulate_images_cases:
  assumes "images_ok lib a" "images_ok lib c"
  shows "(\<exists>r. accumulate_images lib a c = Some (Some r) \<and> images_ok lib r \<and> (r = [] \<longleftrightarrow> a = [] \<and> c = []) \<and>
      (\<forall>p. (r = [] \<or> images_admit lib r p) \<longleftrightarrow>
        (a = [] \<or> images_admit lib a p) \<and> (c = [] \<or> images_admit lib c p)) \<and>
      (\<forall>i\<in>set r. (a = [] \<or> (\<exists>j\<in>set a. image_requires i j)) \<and> (c = [] \<or> (\<exists>j\<in>set c. image_requires i j)))) \<or>
    accumulate_images lib a c = Some None \<and> a \<noteq> [] \<and> c \<noteq> [] \<and>
      (\<nexists>p. images_admit lib a p \<and> images_admit lib c p)"
proof -
  consider "a = []" | "a \<noteq> []" "c = []" | "a \<noteq> []" "c \<noteq> []" by blast
  then show ?thesis
  proof cases
    case 1
    then show ?thesis using assms by (auto simp: accumulate_images_def intro: requires_itself)
  next
    case 2
    then show ?thesis using assms by (auto simp: accumulate_images_def intro: requires_itself)
  next
    case 3
    obtain r where r: "AccumulateConstraintImageFormats lib a c = Some (if r = [] then None else Some r)"
      "images_ok lib r" "\<forall>p. images_admit lib r p \<longleftrightarrow> images_admit lib a p \<and> images_admit lib c p"
      "\<forall>i\<in>set r. (\<exists>j\<in>set a. image_requires i j) \<and> (\<exists>j\<in>set c. image_requires i j)"
      using images_step [OF assms 3(1)] by blast
    have e: "accumulate_images lib a c = Some (if r = [] then None else Some r)"
      using 3 r(1) by (simp add: accumulate_images_def)
    show ?thesis
    proof (cases "r = []")
      case True
      then have "\<nexists>p. images_admit lib a p \<and> images_admit lib c p"
        using r(3) by (metis empty_iff images_admit_def list.set(1))
      then show ?thesis using e True 3 by simp
    next
      case False
      then show ?thesis using e 3 r(2-4) by simp
    qed
  qed
qed

lemma collection_step_eq:
  assumes "collection_ok lib a" "collection_ok lib c"
  shows "AccumulateConstraintBufferCollection lib a c =
    (case AccumulateConstraintBufferMemory (buffer_memory_constraints a) (buffer_memory_constraints c) of
       None \<Rightarrow> None
     | Some None \<Rightarrow> Some None
     | Some (Some m) \<Rightarrow>
        (case accumulate_images lib (image_format_constraints a) (image_format_constraints c) of
           None \<Rightarrow> None
         | Some None \<Rightarrow> Some None
         | Some (Some images) \<Rightarrow> Some (Some
             \<lparr>usage = AccumulateConstraintsBufferUsage (usage a) (usage c),
              min_buffer_count_for_camping =
                u32_add (min_buffer_count_for_camping a) (min_buffer_count_for_camping c),
              min_buffer_count_for_dedicated_slack =
                u32_add (min_buffer_count_for_dedicated_slack a) (min_buffer_count_for_dedicated_slack c),
              min_buffer_count_for_shared_slack =
                max (min_buffer_count_for_shared_slack a) (min_buffer_count_for_shared_slack c),
              min_buffer_count = max (min_buffer_count a) (min_buffer_count c),
              max_buffer_count = min (max_buffer_count a) (max_buffer_count c),
              buffer_memory_constraints = m, image_format_constraints = images,
              need_clear_aux_buffers_for_secure =
                (need_clear_aux_buffers_for_secure a \<or> need_clear_aux_buffers_for_secure c),
              allow_clear_aux_buffers_for_secure =
                (allow_clear_aux_buffers_for_secure a \<and> allow_clear_aux_buffers_for_secure c)\<rparr>)))"
  using assms
  by (simp add: AccumulateConstraintBufferCollection_def accumulate_images_def collection_ok_def
      split: option.split)

lemma collection_step_Some:
  assumes ok: "collection_ok lib a" "collection_ok lib c"
    and r: "AccumulateConstraintBufferCollection lib a c = Some (Some r)"
  shows "AccumulateConstraintBufferMemory (buffer_memory_constraints a) (buffer_memory_constraints c) =
      Some (Some (buffer_memory_constraints r))"
    and "accumulate_images lib (image_format_constraints a) (image_format_constraints c) =
      Some (Some (image_format_constraints r))"
    and "min_buffer_count r = max (min_buffer_count a) (min_buffer_count c)"
    and "max_buffer_count r = min (max_buffer_count a) (max_buffer_count c)"
    and "usage r = AccumulateConstraintsBufferUsage (usage a) (usage c)"
    and "min_buffer_count_for_camping r = u32_add (min_buffer_count_for_camping a) (min_buffer_count_for_camping c)"
    and "min_buffer_count_for_dedicated_slack r =
      u32_add (min_buffer_count_for_dedicated_slack a) (min_buffer_count_for_dedicated_slack c)"
    and "min_buffer_count_for_shared_slack r =
      max (min_buffer_count_for_shared_slack a) (min_buffer_count_for_shared_slack c)"
  using r unfolding collection_step_eq [OF ok] by (auto split: option.splits)

lemma collection_step_ok:
  assumes ok: "collection_ok lib a" "collection_ok lib c"
    and r: "AccumulateConstraintBufferCollection lib a c = Some (Some r)"
  shows "collection_ok lib r" and "collection_requires r a" and "collection_requires r c"
    and "collection_admits lib r s \<longleftrightarrow> collection_admits lib a s \<and> collection_admits lib c s"
proof -
  note f = collection_step_Some [OF ok r]
  have i: "images_ok lib (image_format_constraints a)" "images_ok lib (image_format_constraints c)"
    using ok by (simp_all add: collection_ok_def)
  note im = accumulate_images_cases [OF i] f(2)
  show "collection_ok lib r" using im ok f(4) by (auto simp: collection_ok_def min_def)
  show "collection_requires r a" "collection_requires r c"
    unfolding collection_requires_def using im by auto
  have m: "memory_sat (buffer_memory_constraints r) x \<longleftrightarrow>
      memory_sat (buffer_memory_constraints a) x \<and> memory_sat (buffer_memory_constraints c) x" for x
    by (rule memory_step_meet [OF f(1)])
  define adm where "adm x \<longleftrightarrow> image_format_constraints x = [] \<or>
    (\<exists>p. g_image s = Some p \<and> images_admit lib (image_format_constraints x) p)"
    for x :: collection_constraints
  have "adm r \<longleftrightarrow> adm a \<and> adm c"
    unfolding adm_def using im by (cases "g_image s") auto
  then show "collection_admits lib r s \<longleftrightarrow> collection_admits lib a s \<and> collection_admits lib c s"
    unfolding collection_admits_def adm_def [symmetric] m f(3,4) by auto
qed

interpretation collection: constraint_meet "collection_ok lib" "collection_admits lib"
  "AccumulateConstraintBufferCollection lib" for lib
proof unfold_locales
  fix a c r s
  assume ok: "collection_ok lib a" "collection_ok lib c"
  then have i: "images_ok lib (image_format_constraints a)" "images_ok lib (image_format_constraints c)"
    by (simp_all add: collection_ok_def)
  show "AccumulateConstraintBufferCollection lib a c \<noteq> None"
    using memory.step_total [of "buffer_memory_constraints a" "buffer_memory_constraints c"]
      accumulate_images_cases [OF i]
    unfolding collection_step_eq [OF ok] by (auto split: option.split)
  show "collection_ok lib r"
    and "collection_admits lib r s \<longleftrightarrow> collection_admits lib a s \<and> collection_admits lib c s"
    if "AccumulateConstraintBufferCollection lib a c = Some (Some r)"
    using collection_step_ok [OF ok that] by simp_all
  show "\<not> (collection_admits lib a s \<and> collection_admits lib c s)"
    if none: "AccumulateConstraintBufferCollection lib a c = Some None"
  proof -
    consider "AccumulateConstraintBufferMemory (buffer_memory_constraints a) (buffer_memory_constraints c) = Some None"
      | "accumulate_images lib (image_format_constraints a) (image_format_constraints c) = Some None"
      using none unfolding collection_step_eq [OF ok] by (auto split: option.splits)
    then show ?thesis
    proof cases
      case 1
      then show ?thesis
        using memory.step_empty [OF _ _ 1, of "g_buffer s"] by (auto simp: collection_admits_def)
    next
      case 2
      then show ?thesis using accumulate_images_cases [OF i] by (auto simp: collection_admits_def)
    qed
  qed
qed

end
