(* ===== verification/Sysmem_Sanitize.thy ===== *)
theory Sysmem_Sanitize
  imports Sysmem_Combine
begin

text \<open>
  What the checks guarantee of the constraints they accept, at each stage, and the choice of a
  colour space. The constraints of a participant that pass are well-formed, so accumulating them
  cannot assert; the checks of the aggregated constraints only narrow them.
\<close>

section \<open>Image formats\<close>

lemma sanitize_image_Some:
  assumes "CheckSanitizeImageFormatConstraints lib stage w = Some (Some c)"
  shows "stage \<noteq> kInitial" "image_checks lib c" "ImageFormatIsSupported lib (i_pixel_format c)"
    "c = (image_defaults w)\<lparr>min_bytes_per_row := max (min_bytes_per_row (image_defaults w))
       (u32_mul (ImageFormatStrideBytesPerWidthPixel lib (i_pixel_format (image_defaults w)))
          (min_coded_width (image_defaults w)))\<rparr>"
  using assms
  by (auto simp: CheckSanitizeImageFormatConstraints_def Let_def bind_eq_Some_conv split: if_splits)

lemma sanitize_image_total: "stage \<noteq> kInitial \<Longrightarrow> CheckSanitizeImageFormatConstraints lib stage w \<noteq> None"
  by (simp add: CheckSanitizeImageFormatConstraints_def Let_def)

lemma lib_ok_color:
  "lib_ok lib \<Longrightarrow> ImageFormatIsSupportedColorSpaceForPixelFormat lib s p \<Longrightarrow>
   \<exists>t. s = Some t \<and> kColorSpaceRanking t \<noteq> None"
  unfolding lib_ok_def by blast

lemma image_checks_ok:
  assumes "lib_ok lib" "ImageFormatIsSupported lib (i_pixel_format c)" "image_checks lib c"
  shows "image_ok lib c"
proof -
  have "\<forall>s\<in>set (color_spaces c). \<exists>t. s = Some t \<and> kColorSpaceRanking t \<noteq> None"
    using assms(3) lib_ok_color [OF assms(1)] unfolding image_checks_def list_all_iff by blast
  then show ?thesis using assms by (simp add: image_ok_def image_checks_def)
qed

lemma sanitize_images_total: "stage \<noteq> kInitial \<or> ws = [] \<Longrightarrow> sanitize_images lib stage ws \<noteq> None"
proof (induction ws)
  case (Cons w ws)
  then show ?case
    using sanitize_image_total [of stage lib w] by (auto split: option.split)
qed simp

lemma sanitize_images_Some:
  "sanitize_images lib stage ws = Some (Some cs) \<Longrightarrow>
   list_all2 (\<lambda>w c. CheckSanitizeImageFormatConstraints lib stage w = Some (Some c)) ws cs"
proof (induction ws arbitrary: cs)
  case (Cons w ws)
  then obtain c rs where "CheckSanitizeImageFormatConstraints lib stage w = Some (Some c)"
    "sanitize_images lib stage ws = Some (Some rs)" "cs = c # rs"
    by (auto simp: bind_eq_Some_conv split: option.splits)
  then show ?case using Cons.IH by simp
qed simp

lemma sanitize_images_ok:
  assumes "sanitize_images lib stage ws = Some (Some cs)" "lib_ok lib"
  shows "\<forall>c\<in>set cs. image_ok lib c \<and> image_checks lib c"
proof
  fix c assume "c \<in> set cs"
  then obtain w where "CheckSanitizeImageFormatConstraints lib stage w = Some (Some c)"
    using sanitize_images_Some [OF assms(1)] by (auto simp: list_all2_conv_all_nth in_set_conv_nth)
  then show "image_ok lib c \<and> image_checks lib c"
    using sanitize_image_Some(2,3) image_checks_ok assms(2) by blast
qed

lemma identical_formats_iff:
  "lib_ok lib \<Longrightarrow> identical_formats lib cs \<longleftrightarrow> \<not> distinct (map i_pixel_format cs)"
  by (induction cs) (auto simp: lib_ok_equal list_ex_iff)

section \<open>Choosing a colour space\<close>

lemma ranking_max: "kColorSpaceRanking t = Some n \<Longrightarrow> n \<le> u32_max \<and> (n = u32_max \<longrightarrow> t = kInvalid)"
  by (cases t) (auto simp: u32_max_def W32_def)

definition ranked :: "color_space list \<Rightarrow> bool" where
  "ranked cs \<longleftrightarrow> (\<forall>s\<in>set cs. \<exists>t. s = Some t \<and> kColorSpaceRanking t \<noteq> None)"

lemma best_color_space_scan:
  assumes "kColorSpaceRanking best = Some n" "ranked cs"
  shows "\<exists>t m. best_color_space best cs = Some t \<and> kColorSpaceRanking t = Some m \<and> m \<le> n \<and>
    (t = best \<or> Some t \<in> set cs) \<and>
    (\<forall>u k. Some u \<in> set cs \<longrightarrow> kColorSpaceRanking u = Some k \<longrightarrow> m \<le> k)"
  using assms
proof (induction cs arbitrary: best n)
  case (Cons s cs)
  then obtain u k where s: "s = Some u" "kColorSpaceRanking u = Some k" by (auto simp: ranked_def)
  have rest: "ranked cs" using Cons.prems(2) by (simp add: ranked_def)
  define b where "b = (if k < n then u else best)"
  have b: "kColorSpaceRanking b = Some (min k n)" using s Cons.prems(1) by (simp add: b_def min_def)
  obtain t m where "best_color_space b cs = Some t" "kColorSpaceRanking t = Some m" "m \<le> min k n"
      "t = b \<or> Some t \<in> set cs"
      "\<forall>v j. Some v \<in> set cs \<longrightarrow> kColorSpaceRanking v = Some j \<longrightarrow> m \<le> j"
    using Cons.IH [OF b rest] by blast
  moreover have "best_color_space best (s # cs) = best_color_space b cs"
    using s Cons.prems(1) by (simp add: b_def)
  ultimately show ?case using s by (auto simp: b_def split: if_splits)
qed simp

text \<open>The chosen colour space is one of those offered, and none of them ranks lower.\<close>

lemma best_color_space_spec:
  assumes "ranked cs" "cs \<noteq> []"
  shows "\<exists>t m. best_color_space kInvalid cs = Some t \<and> Some t \<in> set cs \<and> kColorSpaceRanking t = Some m \<and>
    (\<forall>u k. Some u \<in> set cs \<longrightarrow> kColorSpaceRanking u = Some k \<longrightarrow> m \<le> k)"
proof -
  obtain t m where t: "best_color_space kInvalid cs = Some t" "kColorSpaceRanking t = Some m"
      "t = kInvalid \<or> Some t \<in> set cs"
      "\<forall>u k. Some u \<in> set cs \<longrightarrow> kColorSpaceRanking u = Some k \<longrightarrow> m \<le> k"
    using best_color_space_scan [of kInvalid u32_max cs] assms(1) by auto
  have "Some t \<in> set cs"
  proof (rule ccontr)
    assume no: "Some t \<notin> set cs"
    then have ti: "t = kInvalid" using t(3) by simp
    obtain u k where u: "Some u \<in> set cs" "kColorSpaceRanking u = Some k"
      using assms by (cases cs) (auto simp: ranked_def)
    have "m = u32_max" using t(2) ti by simp
    then have "k = u32_max" using t(4) u ranking_max [OF u(2)] by fastforce
    then have "u = kInvalid" using ranking_max [OF u(2)] by simp
    then show False using u(1) ti no by simp
  qed
  then show ?thesis using t by blast
qed

definition color_chosen :: "image_constraints \<Rightarrow> image_constraints \<Rightarrow> bool" where
  "color_chosen c d \<longleftrightarrow> (\<exists>t m. d = c\<lparr>color_spaces := [Some t]\<rparr> \<and> Some t \<in> set (color_spaces c) \<and>
     kColorSpaceRanking t = Some m \<and>
     (\<forall>u k. Some u \<in> set (color_spaces c) \<longrightarrow> kColorSpaceRanking u = Some k \<longrightarrow> m \<le> k))"

lemma choose_color_spaces_spec:
  "\<forall>c\<in>set cs. image_ok lib c \<Longrightarrow> \<exists>ds. choose_color_spaces cs = Some ds \<and> list_all2 color_chosen cs ds"
proof (induction cs)
  case (Cons c cs)
  then obtain ds where ds: "choose_color_spaces cs = Some ds" "list_all2 color_chosen cs ds" by auto
  have "ranked (color_spaces c)" "color_spaces c \<noteq> []"
    using Cons.prems by (simp_all add: image_ok_def ranked_def)
  from best_color_space_spec [OF this] obtain t m where
    t: "best_color_space kInvalid (color_spaces c) = Some t" "Some t \<in> set (color_spaces c)"
      "kColorSpaceRanking t = Some m"
      "\<forall>u k. Some u \<in> set (color_spaces c) \<longrightarrow> kColorSpaceRanking u = Some k \<longrightarrow> m \<le> k"
    by blast
  have "color_chosen c (c\<lparr>color_spaces := [Some t]\<rparr>)" unfolding color_chosen_def using t by blast
  then show ?case using ds t(1) by (simp add: choose_color_space_def)
qed simp

section \<open>Memory and usage\<close>

lemma sanitize_memory_total:
  assumes "stage \<noteq> kInitial \<or> w_heap_permitted w = None"
  shows "CheckSanitizeBufferMemoryConstraints stage u w \<noteq> None"
  using assms by (auto simp: CheckSanitizeBufferMemoryConstraints_def Let_def field_default_def)

lemma sanitize_memory_Some:
  assumes "CheckSanitizeBufferMemoryConstraints stage u w = Some (Some m)"
  shows "min_size_bytes m \<le> max_size_bytes m" "secure_required m \<longrightarrow> IsSecurePermitted m"
  using assms
  by (auto simp: CheckSanitizeBufferMemoryConstraints_def Let_def bind_eq_Some_conv split: if_splits)

lemma sanitize_memory_table:
  assumes "CheckSanitizeBufferMemoryConstraints kAggregated u (memory_table m) = Some (Some m')"
  shows "m' = m"
  using assms
  by (auto simp: CheckSanitizeBufferMemoryConstraints_def Let_def memory_table_def field_default_def
      split: if_splits)

lemma image_defaults_table [simp]: "image_defaults (image_table c) = c"
  by (simp add: image_defaults_def image_table_def format_table_def field_default_def)

section \<open>Collections\<close>

lemma collection_table_not_empty [simp]: "collection_table c \<noteq> empty_constraints"
  by (simp add: collection_table_def empty_constraints_def)

text \<open>The steps of the checks on a collection, in order.\<close>

lemma sanitize_collection_Some:
  assumes "CheckSanitizeBufferCollectionConstraints lib stage w = Some (Some c)"
  shows "\<exists>u images. max_buffer_count c \<noteq> 0 \<and> min_buffer_count c \<le> max_buffer_count c \<and>
    CheckSanitizeBufferMemoryConstraints stage u (field_default empty_memory (w_buffer_memory_constraints w)) =
      Some (Some (buffer_memory_constraints c)) \<and>
    sanitize_images lib stage (field_default [] (w_image_format_constraints w)) = Some (Some images) \<and>
    (if stage = kAggregated then choose_color_spaces images else Some images) = Some (image_format_constraints c) \<and>
    (stage = kNotAggregated \<longrightarrow> \<not> identical_formats lib images) \<and>
    (stage \<noteq> kAggregated \<longrightarrow> participant_checks (usage c) (buffer_memory_constraints c)) \<and> usage c = u \<and>
    min_buffer_count c = default_zero (w_min_buffer_count w) \<and>
    max_buffer_count c = default_max (w_max_buffer_count w) \<and>
    min_buffer_count_for_camping c = default_zero (w_min_buffer_count_for_camping w) \<and>
    min_buffer_count_for_dedicated_slack c = default_zero (w_min_buffer_count_for_dedicated_slack w) \<and>
    min_buffer_count_for_shared_slack c = default_zero (w_min_buffer_count_for_shared_slack w)"
  using assms unfolding CheckSanitizeBufferCollectionConstraints_def Let_def
  by (elim succeedE) (auto simp: not_less)

lemma sanitize_collection_total:
  assumes "lib_ok lib" "stage = kInitial \<longrightarrow> w = empty_constraints"
    and "stage = kAggregated \<longrightarrow> w_buffer_memory_constraints w \<noteq> None"
  shows "CheckSanitizeBufferCollectionConstraints lib stage w \<noteq> None"
proof -
  define wm where "wm = field_default empty_memory (w_buffer_memory_constraints w)"
  define wi where "wi = field_default [] (w_image_format_constraints w)"
  have "stage \<noteq> kInitial \<or> w_heap_permitted wm = None"
    using assms(2) by (cases "stage = kInitial")
      (simp_all add: wm_def empty_constraints_def empty_memory_def field_default_def)
  then have m: "CheckSanitizeBufferMemoryConstraints stage u wm \<noteq> None" for u
    by (rule sanitize_memory_total)
  have "stage \<noteq> kInitial \<or> wi = []"
    using assms(2) by (auto simp: wi_def empty_constraints_def field_default_def)
  then have i: "sanitize_images lib stage wi \<noteq> None" by (rule sanitize_images_total)
  have ch: "choose_color_spaces images \<noteq> None" if "sanitize_images lib stage wi = Some (Some images)" for images
    using choose_color_spaces_spec [of images lib] sanitize_images_ok [OF that assms(1)] by auto
  show ?thesis
    unfolding CheckSanitizeBufferCollectionConstraints_def Let_def wm_def [symmetric] wi_def [symmetric]
    by (intro totalI) (use m i ch assms(3) in auto)
qed

text \<open>The constraints of a participant that pass are well-formed.\<close>

lemma participant_ok:
  assumes "lib_ok lib" "CheckSanitizeBufferCollectionConstraints lib kNotAggregated w = Some (Some c)"
  shows "collection_ok lib c"
proof -
  obtain images where i: "max_buffer_count c \<noteq> 0"
    "sanitize_images lib kNotAggregated (field_default [] (w_image_format_constraints w)) = Some (Some images)"
    "image_format_constraints c = images" "\<not> identical_formats lib images"
    using sanitize_collection_Some [OF assms(2)] by auto
  have "\<forall>x\<in>set images. image_ok lib x" using sanitize_images_ok [OF i(2) assms(1)] by blast
  then show ?thesis
    using i assms(1) by (simp add: collection_ok_def images_ok_def identical_formats_iff)
qed

lemma initial_Some: "\<exists>c. CheckSanitizeBufferCollectionConstraints lib kInitial empty_constraints = Some (Some c) \<and>
    image_format_constraints c = [] \<and> max_buffer_count c = u32_max \<and> min_buffer_count c = 0 \<and>
    min_buffer_count_for_camping c = 0 \<and> min_buffer_count_for_dedicated_slack c = 0 \<and>
    min_buffer_count_for_shared_slack c = 0 \<and>
    buffer_memory_constraints c = \<lparr>min_size_bytes = 0, max_size_bytes = u32_max,
      physically_contiguous_required = False, secure_required = False, cpu_domain_supported = True,
      ram_domain_supported = True, inaccessible_domain_supported = True, heap_permitted = []\<rparr>"
  by (simp add: CheckSanitizeBufferCollectionConstraints_def empty_constraints_def Let_def field_default_def
      empty_usage_def empty_memory_def CheckSanitizeBufferUsage_def CheckSanitizeBufferMemoryConstraints_def
      participant_checks_def IsCpuUsage_def usage_table_def has_or_0_def u32_max_def W32_def)

text \<open>The last checks keep everything but the rows and the colour spaces, which they narrow.\<close>

definition image_narrows :: "sysmem_lib \<Rightarrow> image_constraints \<Rightarrow> image_constraints \<Rightarrow> bool" where
  "image_narrows lib d c \<longleftrightarrow> image_requires d c \<and> image_checks lib (d\<lparr>color_spaces := color_spaces c\<rparr>) \<and>
     (\<forall>p. image_admits lib d p \<longrightarrow> image_admits lib c p)"

lemma aggregated_image:
  assumes "CheckSanitizeImageFormatConstraints lib kAggregated (image_table c) = Some (Some e)" "color_chosen e d"
  shows "image_narrows lib d c"
proof -
  obtain t where d: "d = e\<lparr>color_spaces := [Some t]\<rparr>" "Some t \<in> set (color_spaces e)"
    using assms(2) by (auto simp: color_chosen_def)
  have e: "e = c\<lparr>min_bytes_per_row := min_bytes_per_row e\<rparr>" "min_bytes_per_row c \<le> min_bytes_per_row e"
    using sanitize_image_Some(4) [OF assms(1)] by simp_all
  have ce: "color_spaces e = color_spaces c" by (subst e(1)) simp
  have "d\<lparr>color_spaces := color_spaces c\<rparr> = e" using d(1) ce by simp
  then have "image_checks lib (d\<lparr>color_spaces := color_spaces c\<rparr>)"
    using sanitize_image_Some(2) [OF assms(1)] by simp
  moreover have dc: "d = c\<lparr>color_spaces := [Some t], min_bytes_per_row := min_bytes_per_row e\<rparr>"
    unfolding d(1) by (subst e(1)) simp
  have "image_requires d c" by (simp add: dc image_requires_def)
  moreover have "image_admits lib d p \<longrightarrow> image_admits lib c p" for p
    using d(2) ce e(2) by (auto simp: dc image_admits_def image_sat_def)
  ultimately show ?thesis by (simp add: image_narrows_def)
qed

lemma aggregated_Some:
  assumes "collection_ok lib acc"
    and "CheckSanitizeBufferCollectionConstraints lib kAggregated (collection_table acc) = Some (Some r)"
  shows "list_all2 (image_narrows lib) (image_format_constraints r) (image_format_constraints acc)"
    and "buffer_memory_constraints r = buffer_memory_constraints acc"
    and "min_buffer_count r = min_buffer_count acc" and "max_buffer_count r = max_buffer_count acc"
    and "min_buffer_count_for_camping r = min_buffer_count_for_camping acc"
    and "min_size_bytes (buffer_memory_constraints r) \<le> max_size_bytes (buffer_memory_constraints r)"
    and "secure_required (buffer_memory_constraints r) \<longrightarrow> IsSecurePermitted (buffer_memory_constraints r)"
    and "min_buffer_count_for_dedicated_slack r = min_buffer_count_for_dedicated_slack acc"
    and "min_buffer_count_for_shared_slack r = min_buffer_count_for_shared_slack acc"
proof -
  have lib: "lib_ok lib" using assms(1) by (simp add: collection_ok_def images_ok_def)
  obtain u images where s:
    "CheckSanitizeBufferMemoryConstraints kAggregated u (memory_table (buffer_memory_constraints acc)) =
      Some (Some (buffer_memory_constraints r))"
    "sanitize_images lib kAggregated (map image_table (image_format_constraints acc)) = Some (Some images)"
    "choose_color_spaces images = Some (image_format_constraints r)"
    "min_buffer_count r = min_buffer_count acc" "max_buffer_count r = max_buffer_count acc"
    "min_buffer_count_for_camping r = min_buffer_count_for_camping acc"
    "min_buffer_count_for_dedicated_slack r = min_buffer_count_for_dedicated_slack acc"
    "min_buffer_count_for_shared_slack r = min_buffer_count_for_shared_slack acc"
    using sanitize_collection_Some [OF assms(2)] by (auto simp: collection_table_def field_default_def)
  show "min_buffer_count r = min_buffer_count acc" "max_buffer_count r = max_buffer_count acc"
    "min_buffer_count_for_camping r = min_buffer_count_for_camping acc"
    "min_buffer_count_for_dedicated_slack r = min_buffer_count_for_dedicated_slack acc"
    "min_buffer_count_for_shared_slack r = min_buffer_count_for_shared_slack acc"
    by (rule s(4-8))+
  show "buffer_memory_constraints r = buffer_memory_constraints acc"
    by (rule sanitize_memory_table [OF s(1)])
  show "min_size_bytes (buffer_memory_constraints r) \<le> max_size_bytes (buffer_memory_constraints r)"
    "secure_required (buffer_memory_constraints r) \<longrightarrow> IsSecurePermitted (buffer_memory_constraints r)"
    by (rule sanitize_memory_Some [OF s(1)])+
  have "list_all2 color_chosen images (image_format_constraints r)"
    using choose_color_spaces_spec [of images lib] sanitize_images_ok [OF s(2) lib] s(3) by auto
  then show "list_all2 (image_narrows lib) (image_format_constraints r) (image_format_constraints acc)"
    using sanitize_images_Some [OF s(2)] aggregated_image
    by (auto simp: list_all2_conv_all_nth)
qed

lemma aggregated_narrows:
  assumes "collection_ok lib acc"
    and "CheckSanitizeBufferCollectionConstraints lib kAggregated (collection_table acc) = Some (Some r)"
  shows "collection_admits lib r s \<Longrightarrow> collection_admits lib acc s" and "collection_requires r acc"
proof -
  note a = aggregated_Some [OF assms]
  have n: "\<exists>c\<in>set (image_format_constraints acc). image_narrows lib d c"
    if "d \<in> set (image_format_constraints r)" for d
    using a(1) that by (metis in_set_conv_nth list_all2_conv_all_nth)
  have e: "image_format_constraints r = [] \<longleftrightarrow> image_format_constraints acc = []"
    using a(1) by (metis length_0_conv list_all2_lengthD)
  show "collection_requires r acc"
    unfolding collection_requires_def using n e unfolding image_narrows_def by blast
  show "collection_admits lib acc s" if "collection_admits lib r s"
    using that n e unfolding collection_admits_def images_admit_def a(2-4) image_narrows_def by blast
qed

section \<open>CombineConstraints\<close>

definition sanitized :: "sysmem_lib \<Rightarrow> w_collection_constraints \<Rightarrow> collection_constraints \<Rightarrow> bool" where
  "sanitized lib w c \<longleftrightarrow> CheckSanitizeBufferCollectionConstraints lib kNotAggregated w = Some (Some c)"

text \<open>The loop over the participants is the fold of the contract over their checked constraints.\<close>

lemma accumulate_all_fold:
  "list_all2 (sanitized lib) ws cs \<Longrightarrow>
   accumulate_all lib acc ws = fold_step (AccumulateConstraintBufferCollection lib) acc cs"
proof (induction ws arbitrary: acc cs)
  case (Cons w ws)
  then obtain c cs' where cs: "cs = c # cs'" "sanitized lib w c" "list_all2 (sanitized lib) ws cs'"
    by (auto simp: list_all2_Cons1)
  show ?case
    using cs Cons.IH [OF cs(3)] by (simp add: sanitized_def split: option.split)
qed simp

lemma accumulate_all_Some:
  "accumulate_all lib acc ws = Some (Some r) \<Longrightarrow> \<exists>cs. list_all2 (sanitized lib) ws cs"
proof (induction ws arbitrary: acc)
  case (Cons w ws)
  from Cons.prems obtain c acc' where "sanitized lib w c" "accumulate_all lib acc' ws = Some (Some r)"
    unfolding accumulate_all.simps sanitized_def by (elim succeedE) auto
  then show ?case using Cons.IH by (auto simp: list_all2_Cons1)
qed (auto intro: exI [of _ "[]"])

lemma sanitized_ok:
  assumes "lib_ok lib" "list_all2 (sanitized lib) ws cs"
  shows "\<forall>c\<in>set cs. collection_ok lib c"
  using assms(2)
proof (induction rule: list_all2_induct)
  case (Cons w ws c cs)
  then show ?case using participant_ok [OF assms(1), of w c] by (simp add: sanitized_def)
qed simp

lemma accumulate_all_total:
  "lib_ok lib \<Longrightarrow> collection_ok lib acc \<Longrightarrow> accumulate_all lib acc ws \<noteq> None"
proof (induction ws arbitrary: acc)
  case (Cons w ws)
  show ?case
    unfolding accumulate_all.simps
  proof (intro totalI Cons.IH)
    show "CheckSanitizeBufferCollectionConstraints lib kNotAggregated w \<noteq> None"
      by (rule sanitize_collection_total) (simp_all add: Cons.prems)
    fix x c
    assume "CheckSanitizeBufferCollectionConstraints lib kNotAggregated w = Some x" "x = Some c"
    then have c: "collection_ok lib c" using participant_ok [OF Cons.prems(1)] by simp
    show "AccumulateConstraintBufferCollection lib acc c \<noteq> None"
      by (rule collection.step_total [OF Cons.prems(2) c])
    show "collection_ok lib acc'"
      if "AccumulateConstraintBufferCollection lib acc c = Some y" "y = Some acc'" for y acc'
      using collection.step_ok [OF Cons.prems(2) c] that by simp
  qed (rule Cons.prems)
qed simp

lemma fold_requires:
  assumes "collection_ok lib a" "\<forall>c\<in>set cs. collection_ok lib c"
    and "fold_step (AccumulateConstraintBufferCollection lib) a cs = Some (Some r)"
  shows "collection_requires r a \<and> (\<forall>c\<in>set cs. collection_requires r c)"
  using assms
proof (induction cs arbitrary: a)
  case (Cons c cs)
  then obtain b where b: "AccumulateConstraintBufferCollection lib a c = Some (Some b)"
    "fold_step (AccumulateConstraintBufferCollection lib) b cs = Some (Some r)"
    by (auto split: option.splits)
  have ok: "collection_ok lib a" "collection_ok lib c" using Cons.prems by simp_all
  have "collection_requires r b \<and> (\<forall>c\<in>set cs. collection_requires r c)"
    using Cons.IH [of b] Cons.prems collection_step_ok(1) [OF ok b(1)] b(2) by simp
  then show ?case
    using collection_requires_trans [OF _ collection_step_ok(2) [OF ok b(1)]]
      collection_requires_trans [OF _ collection_step_ok(3) [OF ok b(1)]] by simp
qed simp

text \<open>The counts of the participants: two are added in 32 bits, of the other two the largest is kept.\<close>

lemma fold_counts:
  assumes "collection_ok lib a" "\<forall>c\<in>set cs. collection_ok lib c"
    and "fold_step (AccumulateConstraintBufferCollection lib) a cs = Some (Some r)"
    and "min_buffer_count_for_camping a < W32" "min_buffer_count_for_dedicated_slack a < W32"
  shows "min_buffer_count_for_camping r =
      (min_buffer_count_for_camping a + sum_list (map min_buffer_count_for_camping cs)) mod W32 \<and>
    min_buffer_count_for_dedicated_slack r =
      (min_buffer_count_for_dedicated_slack a + sum_list (map min_buffer_count_for_dedicated_slack cs)) mod W32 \<and>
    min_buffer_count_for_shared_slack r =
      fold max (map min_buffer_count_for_shared_slack cs) (min_buffer_count_for_shared_slack a) \<and>
    min_buffer_count r = fold max (map min_buffer_count cs) (min_buffer_count a)"
  using assms
proof (induction cs arbitrary: a)
  case (Cons c cs)
  then obtain b where b: "AccumulateConstraintBufferCollection lib a c = Some (Some b)"
    "fold_step (AccumulateConstraintBufferCollection lib) b cs = Some (Some r)"
    by (auto split: option.splits)
  have ok: "collection_ok lib a" "collection_ok lib c" using Cons.prems by simp_all
  note f = collection_step_Some [OF ok b(1)]
  have e: "min_buffer_count_for_camping b =
      (min_buffer_count_for_camping a + min_buffer_count_for_camping c) mod W32"
    "min_buffer_count_for_dedicated_slack b =
      (min_buffer_count_for_dedicated_slack a + min_buffer_count_for_dedicated_slack c) mod W32"
    using f(6,7) by (simp_all add: u32_add_def)
  then have "min_buffer_count_for_camping b < W32" "min_buffer_count_for_dedicated_slack b < W32" by simp_all
  then show ?case
    using Cons.IH [of b] Cons.prems collection_step_ok(1) [OF ok b(1)] b(2) e f(3,8)
    by (simp add: mod_add_left_eq add.assoc max.commute)
qed simp

text \<open>The constraints that every accumulation starts from admit everything that a buffer can be.\<close>

definition initial_constraints :: "sysmem_lib \<Rightarrow> collection_constraints" where
  "initial_constraints lib = the (the (CheckSanitizeBufferCollectionConstraints lib kInitial empty_constraints))"

lemma initial_constraints:
  "CheckSanitizeBufferCollectionConstraints lib kInitial empty_constraints = Some (Some (initial_constraints lib))"
  "lib_ok lib \<Longrightarrow> collection_ok lib (initial_constraints lib)"
  "min_buffer_count_for_camping (initial_constraints lib) = 0"
  "collection_admits lib (initial_constraints lib) s \<longleftrightarrow>
     g_count s \<le> u32_max \<and> 1 \<le> s_size (g_buffer s) \<and> s_size (g_buffer s) \<le> u32_max"
  "min_buffer_count_for_dedicated_slack (initial_constraints lib) = 0"
  "min_buffer_count_for_shared_slack (initial_constraints lib) = 0"
  "min_buffer_count (initial_constraints lib) = 0"
proof -
  obtain c where c: "CheckSanitizeBufferCollectionConstraints lib kInitial empty_constraints = Some (Some c)"
    "image_format_constraints c = []" "max_buffer_count c = u32_max" "min_buffer_count c = 0"
    "min_buffer_count_for_camping c = 0"
    "buffer_memory_constraints c = \<lparr>min_size_bytes = 0, max_size_bytes = u32_max,
      physically_contiguous_required = False, secure_required = False, cpu_domain_supported = True,
      ram_domain_supported = True, inaccessible_domain_supported = True, heap_permitted = []\<rparr>"
    "min_buffer_count_for_dedicated_slack c = 0" "min_buffer_count_for_shared_slack c = 0"
    using initial_Some [of lib] by blast
  have i: "initial_constraints lib = c" by (simp add: initial_constraints_def c(1))
  show "CheckSanitizeBufferCollectionConstraints lib kInitial empty_constraints =
      Some (Some (initial_constraints lib))"
    "min_buffer_count_for_camping (initial_constraints lib) = 0"
    "min_buffer_count_for_dedicated_slack (initial_constraints lib) = 0"
    "min_buffer_count_for_shared_slack (initial_constraints lib) = 0"
    "min_buffer_count (initial_constraints lib) = 0" by (simp_all add: i c(1,4,5,7,8))
  show "lib_ok lib \<Longrightarrow> collection_ok lib (initial_constraints lib)"
    by (simp add: i c(2,3) collection_ok_def images_ok_def u32_max_def W32_def)
  have "domain_supported (buffer_memory_constraints c) d" for d by (cases d) (simp_all add: c(6))
  then show "collection_admits lib (initial_constraints lib) s \<longleftrightarrow>
      g_count s \<le> u32_max \<and> 1 \<le> s_size (g_buffer s) \<and> s_size (g_buffer s) \<le> u32_max"
    by (auto simp: i collection_admits_def memory_sat_def IsHeapPermitted_def c)
qed

lemma CombineConstraints_Some:
  assumes "lib_ok lib" "CombineConstraints lib n ws = Some (Some r)"
  shows "\<exists>acc cs. list_all2 (sanitized lib) ws cs \<and> (\<forall>c\<in>set cs. collection_ok lib c) \<and> collection_ok lib acc \<and>
    fold_step (AccumulateConstraintBufferCollection lib) (initial_constraints lib) cs = Some (Some acc) \<and>
    CheckSanitizeBufferCollectionConstraints lib kAggregated (collection_table acc) = Some (Some r)"
proof -
  obtain acc where acc: "accumulate_all lib (initial_constraints lib) ws = Some (Some acc)"
    "CheckSanitizeBufferCollectionConstraints lib kAggregated (collection_table acc) = Some (Some r)"
    using assms(2) unfolding CombineConstraints_def initial_constraints(1)
    by (elim succeedE) auto
  obtain cs where cs: "list_all2 (sanitized lib) ws cs" using accumulate_all_Some [OF acc(1)] by blast
  have f: "fold_step (AccumulateConstraintBufferCollection lib) (initial_constraints lib) cs = Some (Some acc)"
    using acc(1) accumulate_all_fold [OF cs] by simp
  note ok = initial_constraints(2) [OF assms(1)] sanitized_ok [OF assms(1) cs]
  show ?thesis using cs f acc(2) ok collection.fold_ok [OF ok f] by blast
qed

text \<open>The combined counts in terms of the tables the participants sent.\<close>

lemma sanitized_counts:
  assumes "sanitized lib w c"
  shows "min_buffer_count_for_camping c = default_zero (w_min_buffer_count_for_camping w)"
    "min_buffer_count_for_dedicated_slack c = default_zero (w_min_buffer_count_for_dedicated_slack w)"
    "min_buffer_count_for_shared_slack c = default_zero (w_min_buffer_count_for_shared_slack w)"
    "min_buffer_count c = default_zero (w_min_buffer_count w)"
  using sanitize_collection_Some [OF assms [unfolded sanitized_def]] by auto

lemma sanitized_map:
  assumes "list_all2 (sanitized lib) ws cs" "\<And>w c. sanitized lib w c \<Longrightarrow> f c = g w"
  shows "map f cs = map g ws"
  using assms by (induction rule: list_all2_induct) auto

lemma CombineConstraints_counts:
  assumes "lib_ok lib" "CombineConstraints lib n ws = Some (Some r)"
  shows "min_buffer_count_for_camping r = (\<Sum>w\<leftarrow>ws. default_zero (w_min_buffer_count_for_camping w)) mod W32"
    "min_buffer_count_for_dedicated_slack r = (\<Sum>w\<leftarrow>ws. default_zero (w_min_buffer_count_for_dedicated_slack w)) mod W32"
    "min_buffer_count_for_shared_slack r = fold max (map (\<lambda>w. default_zero (w_min_buffer_count_for_shared_slack w)) ws) 0"
    "min_buffer_count r = fold max (map (\<lambda>w. default_zero (w_min_buffer_count w)) ws) 0"
proof -
  obtain acc cs where a: "list_all2 (sanitized lib) ws cs" "\<forall>c\<in>set cs. collection_ok lib c" "collection_ok lib acc"
    "fold_step (AccumulateConstraintBufferCollection lib) (initial_constraints lib) cs = Some (Some acc)"
    "CheckSanitizeBufferCollectionConstraints lib kAggregated (collection_table acc) = Some (Some r)"
    using CombineConstraints_Some [OF assms] by blast
  note i = initial_constraints(3,5,6,7) [of lib]
  have f: "min_buffer_count_for_camping acc = sum_list (map min_buffer_count_for_camping cs) mod W32"
    "min_buffer_count_for_dedicated_slack acc = sum_list (map min_buffer_count_for_dedicated_slack cs) mod W32"
    "min_buffer_count_for_shared_slack acc = fold max (map min_buffer_count_for_shared_slack cs) 0"
    "min_buffer_count acc = fold max (map min_buffer_count cs) 0"
    using fold_counts [OF initial_constraints(2) [OF assms(1)] a(2,4)] by (simp_all add: i W32_def)
  note m = sanitized_map [OF a(1)] and g = aggregated_Some(3,5,8,9) [OF a(3,5)]
  have t: "map min_buffer_count_for_camping cs = map (\<lambda>w. default_zero (w_min_buffer_count_for_camping w)) ws"
    "map min_buffer_count_for_dedicated_slack cs = map (\<lambda>w. default_zero (w_min_buffer_count_for_dedicated_slack w)) ws"
    "map min_buffer_count_for_shared_slack cs = map (\<lambda>w. default_zero (w_min_buffer_count_for_shared_slack w)) ws"
    "map min_buffer_count cs = map (\<lambda>w. default_zero (w_min_buffer_count w)) ws"
    by (rule m, erule sanitized_counts)+
  show "min_buffer_count_for_camping r = (\<Sum>w\<leftarrow>ws. default_zero (w_min_buffer_count_for_camping w)) mod W32"
    "min_buffer_count_for_dedicated_slack r = (\<Sum>w\<leftarrow>ws. default_zero (w_min_buffer_count_for_dedicated_slack w)) mod W32"
    "min_buffer_count_for_shared_slack r = fold max (map (\<lambda>w. default_zero (w_min_buffer_count_for_shared_slack w)) ws) 0"
    "min_buffer_count r = fold max (map (\<lambda>w. default_zero (w_min_buffer_count w)) ws) 0"
    unfolding g f t by (rule refl)+
qed

lemma CombineConstraints_admits:
  assumes "lib_ok lib" "CombineConstraints lib n ws = Some (Some r)" "w \<in> set ws"
  shows "\<exists>c. sanitized lib w c \<and> (\<forall>s. collection_admits lib r s \<longrightarrow> collection_admits lib c s)"
proof -
  obtain acc cs where a: "list_all2 (sanitized lib) ws cs" "\<forall>c\<in>set cs. collection_ok lib c" "collection_ok lib acc"
    "fold_step (AccumulateConstraintBufferCollection lib) (initial_constraints lib) cs = Some (Some acc)"
    "CheckSanitizeBufferCollectionConstraints lib kAggregated (collection_table acc) = Some (Some r)"
    using CombineConstraints_Some [OF assms(1,2)] by blast
  obtain c where c: "c \<in> set cs" "sanitized lib w c"
    using list_all2_set1 [OF a(1) assms(3)] by blast
  have "collection_admits lib c s" if "collection_admits lib r s" for s
    using collection.fold_meet [OF initial_constraints(2) [OF assms(1)] a(2,4), of s]
      aggregated_narrows(1) [OF a(3,5) that] c(1) by blast
  then show ?thesis using c(2) by blast
qed

text \<open>
  The parts of a setting one by one: what \<open>r\<close> allows of the memory, of the number of buffers and
  of the images, \<open>c\<close> allows.
\<close>

definition collection_within :: "sysmem_lib \<Rightarrow> collection_constraints \<Rightarrow> collection_constraints \<Rightarrow> bool" where
  "collection_within lib r c \<longleftrightarrow>
     (\<forall>s. memory_sat (buffer_memory_constraints r) s \<longrightarrow> memory_sat (buffer_memory_constraints c) s) \<and>
     min_buffer_count c \<le> min_buffer_count r \<and> max_buffer_count r \<le> max_buffer_count c \<and>
     (image_format_constraints r = [] \<longrightarrow> image_format_constraints c = []) \<and>
     (\<forall>p. images_admit lib (image_format_constraints r) p \<longrightarrow>
        image_format_constraints c = [] \<or> images_admit lib (image_format_constraints c) p)"

lemma collection_within_refl [simp]: "collection_within lib c c"
  by (simp add: collection_within_def)

lemma collection_within_trans:
  assumes "collection_within lib a b" "collection_within lib b c"
  shows "collection_within lib a c"
proof -
  have "\<forall>p. images_admit lib (image_format_constraints a) p \<longrightarrow>
      image_format_constraints c = [] \<or> images_admit lib (image_format_constraints c) p"
    using assms unfolding collection_within_def by metis
  then show ?thesis using assms unfolding collection_within_def by (meson order_trans)
qed

lemma collection_step_within:
  assumes ok: "collection_ok lib a" "collection_ok lib c"
    and r: "AccumulateConstraintBufferCollection lib a c = Some (Some r)"
  shows "collection_within lib r a" and "collection_within lib r c"
proof -
  note f = collection_step_Some [OF ok r]
  have i: "images_ok lib (image_format_constraints a)" "images_ok lib (image_format_constraints c)"
    using ok by (simp_all add: collection_ok_def)
  have im: "image_format_constraints r = [] \<longleftrightarrow> image_format_constraints a = [] \<and> image_format_constraints c = []"
    "\<forall>p. images_admit lib (image_format_constraints r) p \<longrightarrow>
       (image_format_constraints a = [] \<or> images_admit lib (image_format_constraints a) p) \<and>
       (image_format_constraints c = [] \<or> images_admit lib (image_format_constraints c) p)"
    using accumulate_images_cases [OF i] f(2) by auto
  show "collection_within lib r a" "collection_within lib r c"
    unfolding collection_within_def f(3,4) using im memory_step_meet [OF f(1)] by auto
qed

lemma fold_within:
  assumes "collection_ok lib a" "\<forall>c\<in>set cs. collection_ok lib c"
    and "fold_step (AccumulateConstraintBufferCollection lib) a cs = Some (Some r)"
  shows "collection_within lib r a \<and> (\<forall>c\<in>set cs. collection_within lib r c)"
  using assms
proof (induction cs arbitrary: a)
  case (Cons c cs)
  then obtain b where b: "AccumulateConstraintBufferCollection lib a c = Some (Some b)"
    "fold_step (AccumulateConstraintBufferCollection lib) b cs = Some (Some r)"
    by (auto split: option.splits)
  have ok: "collection_ok lib a" "collection_ok lib c" using Cons.prems by simp_all
  have "collection_within lib r b \<and> (\<forall>c\<in>set cs. collection_within lib r c)"
    using Cons.IH [of b] Cons.prems collection_step_ok(1) [OF ok b(1)] b(2) by simp
  then show ?case
    using collection_within_trans [OF _ collection_step_within(1) [OF ok b(1)]]
      collection_within_trans [OF _ collection_step_within(2) [OF ok b(1)]] by simp
qed simp

lemma aggregated_within:
  assumes "collection_ok lib acc"
    and "CheckSanitizeBufferCollectionConstraints lib kAggregated (collection_table acc) = Some (Some r)"
  shows "collection_within lib r acc"
proof -
  note a = aggregated_Some [OF assms]
  have "images_admit lib (image_format_constraints acc) p" if p: "images_admit lib (image_format_constraints r) p" for p
  proof -
    obtain d where d: "d \<in> set (image_format_constraints r)" "image_admits lib d p"
      using p by (auto simp: images_admit_def)
    obtain c where "c \<in> set (image_format_constraints acc)" "image_narrows lib d c"
      using list_all2_set1 [OF a(1) d(1)] by blast
    then show ?thesis using d(2) by (auto simp: images_admit_def image_narrows_def)
  qed
  then show ?thesis
    using a(1) by (simp add: collection_within_def a(2-4)) auto
qed

lemma CombineConstraints_within:
  assumes "lib_ok lib" "CombineConstraints lib n ws = Some (Some r)" "w \<in> set ws"
  shows "\<exists>c. sanitized lib w c \<and> collection_within lib r c"
proof -
  obtain acc cs where a: "list_all2 (sanitized lib) ws cs" "\<forall>c\<in>set cs. collection_ok lib c" "collection_ok lib acc"
    "fold_step (AccumulateConstraintBufferCollection lib) (initial_constraints lib) cs = Some (Some acc)"
    "CheckSanitizeBufferCollectionConstraints lib kAggregated (collection_table acc) = Some (Some r)"
    using CombineConstraints_Some [OF assms(1,2)] by blast
  obtain c where c: "c \<in> set cs" "sanitized lib w c"
    using list_all2_set1 [OF a(1) assms(3)] by blast
  have "collection_within lib acc c"
    using fold_within [OF initial_constraints(2) [OF assms(1)] a(2,4)] c(1) by blast
  then show ?thesis
    using c(2) collection_within_trans [OF aggregated_within [OF a(3,5)]] by blast
qed

lemma CombineConstraints_sizes:
  assumes "lib_ok lib" "CombineConstraints lib n ws = Some (Some r)"
  shows "min_size_bytes (buffer_memory_constraints r) \<le> max_size_bytes (buffer_memory_constraints r)"
    and "secure_required (buffer_memory_constraints r) \<longrightarrow> IsSecurePermitted (buffer_memory_constraints r)"
  using CombineConstraints_Some [OF assms] aggregated_Some(6,7) by blast+

end
