(* ===== verification/Sysmem_Format_Cost.thy ===== *)
theory Sysmem_Format_Cost
  imports Sysmem_Constraints
begin

text \<open>
  The choice between pixel formats: \<open>usage_pixel_format_cost.cc\<close> with its tables of costs per
  platform, and the comparison of image formats in \<open>logical_buffer_collection.cc\<close> with its tie-breaker.

  The costs are doubles with small integral values, so they are natural numbers here; the default cost is the
  largest double, which is an integer too. The constants of the FIDL and platform headers are a
  parameter. \<open>FindPlatformCosts\<close> gives \<^term>\<open>None\<close> for the null pointer.
\<close>

section \<open>Platforms and tables\<close>

datatype Platform =
  kPlatform_None | kPlatform_Generic | kPlatform_Arm_Mali | kPlatform_Amlogic_Generic
  | kPlatform_Amlogic_S912 | kPlatform_Amlogic_S905D2 | kPlatform_Amlogic_T931 | kPlatform_Amlogic_A311D

record cost_lib =
  kBgra32 :: nat
  kR8G8B8A8 :: nat
  kNv12 :: nat
  PDEV_VID_AMLOGIC :: nat
  PDEV_PID_AMLOGIC_S912 :: nat
  PDEV_PID_AMLOGIC_S905D2 :: nat
  PDEV_PID_AMLOGIC_T931 :: nat
  PDEV_PID_AMLOGIC_A311D :: nat
  kArmAfbc16X16SplitBlockSparseYuvTeTiledHeader :: nat
  kArmAfbc16X16Te :: nat
  kArmAfbc32X8Te :: nat
  kArmAfbc16X16SplitBlockSparseYuvTe :: nat
  kArmAfbc16X16SplitBlockSparseYuvTiledHeader :: nat
  kArmAfbc16X16SplitBlockSparseYuv :: nat
  kArmAfbc16X16YuvTiledHeader :: nat
  kArmAfbc16X16 :: nat
  kArmAfbc32X8 :: nat
  kArmLinearTe :: nat
  kArmYuvBit :: nat
  kArmTiledHeaderBit :: nat
  kArmSparseBit :: nat
  kArmTeBit :: nat
  kIntelI915YfTiledCcs :: nat
  kIntelI915YTiledCcs :: nat
  kIntelI915YfTiled :: nat
  kIntelI915YTiled :: nat
  kIntelI915XTiled :: nat

record UsagePixelFormatCostEntry =
  e_pixel_format :: w_pixel_format
  required_buffer_usage_bits :: w_buffer_usage
  cost :: nat

record PlatformCostsEntry =
  platform :: Platform
  next_platform :: Platform
  costs :: "UsagePixelFormatCostEntry list"

definition MakeVidPidKey :: "nat \<Rightarrow> nat \<Rightarrow> nat" where
  "MakeVidPidKey vid pid = push_bit 32 vid OR pid"

definition kPlatformTranslation :: "cost_lib \<Rightarrow> (nat \<times> Platform) list" where
  "kPlatformTranslation k =
     [(MakeVidPidKey (PDEV_VID_AMLOGIC k) (PDEV_PID_AMLOGIC_S912 k), kPlatform_Amlogic_S912),
      (MakeVidPidKey (PDEV_VID_AMLOGIC k) (PDEV_PID_AMLOGIC_S905D2 k), kPlatform_Amlogic_S905D2),
      (MakeVidPidKey (PDEV_VID_AMLOGIC k) (PDEV_PID_AMLOGIC_T931 k), kPlatform_Amlogic_T931),
      (MakeVidPidKey (PDEV_VID_AMLOGIC k) (PDEV_PID_AMLOGIC_A311D k), kPlatform_Amlogic_A311D)]"

definition zero_usage :: w_buffer_usage where
  "zero_usage = \<lparr>w_none = Some 0, w_cpu = Some 0, w_vulkan = Some 0, w_display = Some 0, w_video = Some 0\<rparr>"

definition AddRgbaPixelFormat ::
  "cost_lib \<Rightarrow> nat \<Rightarrow> nat \<Rightarrow> UsagePixelFormatCostEntry list \<Rightarrow> UsagePixelFormatCostEntry list" where
  "AddRgbaPixelFormat k format_modifier c result =
     result @ map (\<lambda>format.
       \<lparr>e_pixel_format = \<lparr>w_pf_type = Some format, w_format_modifier_value = Some format_modifier\<rparr>,
        required_buffer_usage_bits = zero_usage, cost = c\<rparr>) [kBgra32 k, kR8G8B8A8 k]"

text \<open>The cost of an Arm modifier. As in the source, the split cost goes with the tiled header bit.\<close>

definition mali_cost :: "cost_lib \<Rightarrow> nat \<Rightarrow> nat" where
  "mali_cost k modifier =
     (let kSplitCost = 10; kNonYuvCost = 100; kNonTiledHeaderCost = 500; kNonSparseCost = 1000;
          kNonTeCost = 2000; kNon16X16Cost = 4000; kAfbcTypeMask = 0xf
      in (if modifier AND kArmYuvBit k = 0 then kNonYuvCost else 0) +
         (if modifier AND kArmTiledHeaderBit k = 0 then kNonTiledHeaderCost else 0) +
         (if modifier AND kArmTiledHeaderBit k \<noteq> 0 then kSplitCost else 0) +
         (if modifier AND kArmSparseBit k = 0 then kNonSparseCost else 0) +
         (if modifier AND kArmTeBit k = 0 then kNonTeCost else 0) +
         (if modifier AND kAfbcTypeMask \<noteq> kArmAfbc16X16 k AND kAfbcTypeMask then kNon16X16Cost else 0))"

definition mali_modifiers :: "cost_lib \<Rightarrow> nat list" where
  "mali_modifiers k =
     [kArmAfbc16X16SplitBlockSparseYuvTeTiledHeader k, kArmAfbc16X16Te k, kArmAfbc32X8Te k,
      kArmAfbc16X16SplitBlockSparseYuvTe k, kArmAfbc16X16SplitBlockSparseYuvTiledHeader k,
      kArmAfbc16X16SplitBlockSparseYuv k, kArmAfbc16X16YuvTiledHeader k, kArmAfbc16X16 k, kArmAfbc32X8 k]"

definition kArm_Mali_Cost_Entries :: "cost_lib \<Rightarrow> UsagePixelFormatCostEntry list" where
  "kArm_Mali_Cost_Entries k =
     AddRgbaPixelFormat k (kArmLinearTe k) 30000
       (fold (\<lambda>modifier. AddRgbaPixelFormat k modifier (mali_cost k modifier)) (mali_modifiers k) [])"

definition kAmlogic_Generic_Cost_Entries :: "sysmem_lib \<Rightarrow> cost_lib \<Rightarrow> UsagePixelFormatCostEntry list" where
  "kAmlogic_Generic_Cost_Entries lib k =
     [\<lparr>e_pixel_format = \<lparr>w_pf_type = Some (kNv12 k), w_format_modifier_value = None\<rparr>,
       required_buffer_usage_bits = zero_usage\<lparr>w_video := Some (kVideoUsageHwDecoder lib)\<rparr>, cost = 100\<rparr>]"

definition kGeneric_Cost_Entries :: "cost_lib \<Rightarrow> UsagePixelFormatCostEntry list" where
  "kGeneric_Cost_Entries k =
     AddRgbaPixelFormat k (kIntelI915XTiled k) 3000
       (AddRgbaPixelFormat k (kIntelI915YTiled k) 2000
         (AddRgbaPixelFormat k (kIntelI915YfTiled k) 1000
           (AddRgbaPixelFormat k (kIntelI915YTiledCcs k) 600
             (AddRgbaPixelFormat k (kIntelI915YfTiledCcs k) 500 []))))"

definition kArm_Mali_Costs :: "cost_lib \<Rightarrow> PlatformCostsEntry" where
  "kArm_Mali_Costs k = \<lparr>platform = kPlatform_Arm_Mali, next_platform = kPlatform_Generic,
     costs = kArm_Mali_Cost_Entries k\<rparr>"

definition kAmlogic_Generic_Costs :: "sysmem_lib \<Rightarrow> cost_lib \<Rightarrow> PlatformCostsEntry" where
  "kAmlogic_Generic_Costs lib k = \<lparr>platform = kPlatform_Amlogic_Generic, next_platform = kPlatform_Arm_Mali,
     costs = kAmlogic_Generic_Cost_Entries lib k\<rparr>"

definition kAmlogic_S912_Costs :: PlatformCostsEntry where
  "kAmlogic_S912_Costs = \<lparr>platform = kPlatform_Amlogic_S912, next_platform = kPlatform_Amlogic_Generic, costs = []\<rparr>"

definition kAmlogic_S905D2_Costs :: PlatformCostsEntry where
  "kAmlogic_S905D2_Costs =
     \<lparr>platform = kPlatform_Amlogic_S905D2, next_platform = kPlatform_Amlogic_Generic, costs = []\<rparr>"

definition kAmlogic_T931_Costs :: PlatformCostsEntry where
  "kAmlogic_T931_Costs = \<lparr>platform = kPlatform_Amlogic_T931, next_platform = kPlatform_Amlogic_Generic, costs = []\<rparr>"

definition kAmlogic_A311D_Costs :: PlatformCostsEntry where
  "kAmlogic_A311D_Costs =
     \<lparr>platform = kPlatform_Amlogic_A311D, next_platform = kPlatform_Amlogic_Generic, costs = []\<rparr>"

definition kGeneric_Costs :: "cost_lib \<Rightarrow> PlatformCostsEntry" where
  "kGeneric_Costs k = \<lparr>platform = kPlatform_Generic, next_platform = kPlatform_None,
     costs = kGeneric_Cost_Entries k\<rparr>"

definition kPlatformCosts :: "sysmem_lib \<Rightarrow> cost_lib \<Rightarrow> (Platform \<times> PlatformCostsEntry) list" where
  "kPlatformCosts lib k =
     [(kPlatform_Generic, kGeneric_Costs k), (kPlatform_Arm_Mali, kArm_Mali_Costs k),
      (kPlatform_Amlogic_Generic, kAmlogic_Generic_Costs lib k),
      (kPlatform_Amlogic_S912, kAmlogic_S912_Costs), (kPlatform_Amlogic_S905D2, kAmlogic_S905D2_Costs),
      (kPlatform_Amlogic_T931, kAmlogic_T931_Costs), (kPlatform_Amlogic_A311D, kAmlogic_A311D_Costs)]"

text \<open>The largest finite double.\<close>

definition kDefaultCost :: nat where
  "kDefaultCost = (2 ^ 53 - 1) * 2 ^ 971"

definition FindPlatform :: "cost_lib \<Rightarrow> nat \<Rightarrow> nat \<Rightarrow> Platform" where
  "FindPlatform k vid pid =
     (case map_of (kPlatformTranslation k) (MakeVidPidKey vid pid) of
        None \<Rightarrow> kPlatform_Generic
      | Some p \<Rightarrow> p)"

definition FindPlatformCosts :: "sysmem_lib \<Rightarrow> cost_lib \<Rightarrow> Platform \<Rightarrow> PlatformCostsEntry option" where
  "FindPlatformCosts lib k p = (if p = kPlatform_None then None else map_of (kPlatformCosts lib k) p)"

section \<open>Matching\<close>

definition HasAllRequiredBits :: "32 word \<Rightarrow> 32 word \<Rightarrow> bool" where
  "HasAllRequiredBits a r \<longleftrightarrow> r AND a = r"

definition HasAllRequiredUsageBits :: "w_buffer_usage \<Rightarrow> w_buffer_usage \<Rightarrow> bool" where
  "HasAllRequiredUsageBits a r \<longleftrightarrow>
     HasAllRequiredBits (has_or_0 (w_cpu a)) (has_or_0 (w_cpu r)) \<and>
     HasAllRequiredBits (has_or_0 (w_vulkan a)) (has_or_0 (w_vulkan r)) \<and>
     HasAllRequiredBits (has_or_0 (w_display a)) (has_or_0 (w_display r)) \<and>
     HasAllRequiredBits (has_or_0 (w_video a)) (has_or_0 (w_video r))"

text \<open>The loop over the 32 bits.\<close>

fun shared_bits_loop :: "32 word \<Rightarrow> nat \<Rightarrow> nat \<Rightarrow> nat" where
  "shared_bits_loop set_in_both n_shared 0 = n_shared"
| "shared_bits_loop set_in_both n_shared (Suc n) =
     shared_bits_loop set_in_both
       (if set_in_both AND push_bit (31 - n) 1 \<noteq> 0 then n_shared + 1 else n_shared) n"

definition SharedBitsCount :: "32 word \<Rightarrow> 32 word \<Rightarrow> nat" where
  "SharedBitsCount a b = shared_bits_loop (a AND b) 0 32"

definition SharedUsageBitsCount :: "w_buffer_usage \<Rightarrow> w_buffer_usage \<Rightarrow> nat" where
  "SharedUsageBitsCount a b =
     SharedBitsCount (has_or_0 (w_cpu a)) (has_or_0 (w_cpu b)) +
     SharedBitsCount (has_or_0 (w_vulkan a)) (has_or_0 (w_vulkan b)) +
     SharedBitsCount (has_or_0 (w_display a)) (has_or_0 (w_display b)) +
     SharedBitsCount (has_or_0 (w_video a)) (has_or_0 (w_video b))"

definition IsBetterMatch ::
  "sysmem_lib \<Rightarrow> collection_constraints \<Rightarrow> nat \<Rightarrow> UsagePixelFormatCostEntry \<Rightarrow>
   UsagePixelFormatCostEntry option \<Rightarrow> bool option" where
  "IsBetterMatch lib constraints index a b = do {
     zx_assert (index < length (image_format_constraints constraints));
     if \<not> ImageFormatIsPixelFormatEqual lib (e_pixel_format a)
          (format_table (i_pixel_format (image_format_constraints constraints ! index)))
     then Some False
     else
       let u = usage_table (usage constraints) in
       if \<not> HasAllRequiredUsageBits u (required_buffer_usage_bits a) then Some False
       else case b of
         None \<Rightarrow> Some True
       | Some b \<Rightarrow> do {
           zx_assert (HasAllRequiredUsageBits u (required_buffer_usage_bits b));
           Some (SharedUsageBitsCount u (required_buffer_usage_bits a) >
                 SharedUsageBitsCount u (required_buffer_usage_bits b)) } }"

section \<open>Cost\<close>

text \<open>The inner loop over the entries of one platform.\<close>

definition match_step ::
  "sysmem_lib \<Rightarrow> collection_constraints \<Rightarrow> nat \<Rightarrow> UsagePixelFormatCostEntry option \<Rightarrow>
   UsagePixelFormatCostEntry \<Rightarrow> UsagePixelFormatCostEntry option option" where
  "match_step lib constraints index best_match e = do {
     better \<leftarrow> IsBetterMatch lib constraints index e best_match;
     Some (if better then Some e else best_match) }"

text \<open>The chain of platforms gets more generic at each step, so the loop over it ends.\<close>

fun generality :: "Platform \<Rightarrow> nat" where
  "generality kPlatform_None = 0"
| "generality kPlatform_Generic = 1"
| "generality kPlatform_Arm_Mali = 2"
| "generality kPlatform_Amlogic_Generic = 3"
| "generality _ = 4"

lemma FindPlatformCosts_next:
  "FindPlatformCosts lib k p = Some e \<Longrightarrow> generality (next_platform e) < generality p"
  by (cases p) (auto simp: FindPlatformCosts_def kPlatformCosts_def kGeneric_Costs_def kArm_Mali_Costs_def
      kAmlogic_Generic_Costs_def kAmlogic_S912_Costs_def kAmlogic_S905D2_Costs_def kAmlogic_T931_Costs_def
      kAmlogic_A311D_Costs_def)

function match_loop ::
  "sysmem_lib \<Rightarrow> cost_lib \<Rightarrow> collection_constraints \<Rightarrow> nat \<Rightarrow> Platform \<Rightarrow>
   UsagePixelFormatCostEntry option \<Rightarrow> UsagePixelFormatCostEntry option option" where
  "match_loop lib k constraints index p best_match =
     (case FindPlatformCosts lib k p of
        None \<Rightarrow> Some best_match
      | Some e \<Rightarrow> do {
          best_match \<leftarrow> foldM (match_step lib constraints index) best_match (costs e);
          match_loop lib k constraints index (next_platform e) best_match })"
  by pat_completeness auto
termination
  by (relation "measure (\<lambda>(lib, k, constraints, index, p, best_match). generality p)")
    (auto dest: FindPlatformCosts_next)

declare match_loop.simps [simp del]

definition GetCostInternal ::
  "sysmem_lib \<Rightarrow> cost_lib \<Rightarrow> collection_constraints \<Rightarrow> nat \<Rightarrow> Platform \<Rightarrow> nat option" where
  "GetCostInternal lib k constraints index p =
     (case FindPlatformCosts lib k p of
        None \<Rightarrow> Some kDefaultCost
      | Some _ \<Rightarrow> do {
          best_match \<leftarrow> match_loop lib k constraints index p None;
          Some (case best_match of None \<Rightarrow> kDefaultCost | Some e \<Rightarrow> cost e) })"

definition GetCost ::
  "sysmem_lib \<Rightarrow> cost_lib \<Rightarrow> nat \<Rightarrow> nat \<Rightarrow> collection_constraints \<Rightarrow> nat \<Rightarrow> nat option" where
  "GetCost lib k vid pid constraints index =
     (let p = FindPlatform k vid pid in
      if p = kPlatform_None then Some kDefaultCost else GetCostInternal lib k constraints index p)"

definition Compare ::
  "sysmem_lib \<Rightarrow> cost_lib \<Rightarrow> nat \<Rightarrow> nat \<Rightarrow> collection_constraints \<Rightarrow> nat \<Rightarrow> nat \<Rightarrow> int option" where
  "Compare lib k vid pid constraints index_a index_b = do {
     cost_a \<leftarrow> GetCost lib k vid pid constraints index_a;
     cost_b \<leftarrow> GetCost lib k vid pid constraints index_b;
     Some (if cost_a < cost_b then - 1 else if cost_a > cost_b then 1 else 0) }"

section \<open>Comparing image formats\<close>

text \<open>A 32-bit difference that overflows is undefined behaviour, \<^term>\<open>None\<close> here.\<close>

definition to_int32 :: "nat \<Rightarrow> int" where
  "to_int32 n = (let m = int (n mod W32) in if m < 2 ^ 31 then m else m - 2 ^ 32)"

definition clamp_difference :: "int \<Rightarrow> int \<Rightarrow> int option" where
  "clamp_difference a b =
     (let raw_result = a - b in
      if raw_result < - (2 ^ 31) \<or> raw_result \<ge> 2 ^ 31 then None
      else Some (if raw_result > 0 then 1 else if raw_result < 0 then - 1 else raw_result))"

text \<open>After the defaults are set both formats have a modifier, so the second comparison gives 0.\<close>

definition CompareImageFormatConstraintsTieBreaker ::
  "image_constraints \<Rightarrow> image_constraints \<Rightarrow> int option" where
  "CompareImageFormatConstraintsTieBreaker a b = do {
     result \<leftarrow> clamp_difference (to_int32 (pf_type (i_pixel_format a))) (to_int32 (pf_type (i_pixel_format b)));
     if result \<noteq> 0 then Some result
     else do {
       result \<leftarrow> clamp_difference 1 1;
       if result \<noteq> 0 then Some result
       else clamp_difference (to_int32 (format_modifier_value (i_pixel_format a)))
              (to_int32 (format_modifier_value (i_pixel_format b))) } }"

definition CompareImageFormatConstraintsByIndex ::
  "sysmem_lib \<Rightarrow> cost_lib \<Rightarrow> nat \<Rightarrow> nat \<Rightarrow> collection_constraints \<Rightarrow> nat \<Rightarrow> nat \<Rightarrow> int option" where
  "CompareImageFormatConstraintsByIndex lib k vid pid constraints index_a index_b = do {
     cost_compare \<leftarrow> Compare lib k vid pid constraints index_a index_b;
     if cost_compare \<noteq> 0 then Some cost_compare
     else CompareImageFormatConstraintsTieBreaker (image_format_constraints constraints ! index_a)
            (image_format_constraints constraints ! index_b) }"

section \<open>Counting bits\<close>

lemma shared_bits_loop_card:
  "n \<le> 32 \<Longrightarrow> shared_bits_loop w c n = c + card {i. 32 - n \<le> i \<and> i < 32 \<and> bit w i}"
proof (induction n arbitrary: c)
  case (Suc n)
  define S where "S m = {i. 32 - m \<le> i \<and> i < 32 \<and> bit w i}" for m
  have fin: "finite (S n)" by (rule finite_subset [of _ "{..<32}"]) (auto simp: S_def)
  have new: "31 - n \<notin> S n" using Suc.prems by (auto simp: S_def)
  have below: "32 - Suc n \<le> i \<longleftrightarrow> i = 31 - n \<or> 32 - n \<le> i" for i
    using Suc.prems by arith
  have "31 - n < 32" by simp
  then have step: "S (Suc n) = (if bit w (31 - n) then insert (31 - n) (S n) else S n)"
    unfolding S_def below by auto
  have "w AND push_bit (31 - n) 1 \<noteq> 0 \<longleftrightarrow> bit w (31 - n)"
    using Suc.prems by (simp add: and_exp_eq_0_iff_not_bit push_bit_eq_mult)
  moreover have "shared_bits_loop w d n = d + card (S n)" for d
    using Suc.IH [of d] Suc.prems by (simp add: S_def)
  ultimately have "shared_bits_loop w c (Suc n) = c + card (S (Suc n))"
    using fin new step by simp
  then show ?case by (simp only: S_def)
qed simp

lemma SharedBitsCount_card: "SharedBitsCount a b = card {i. i < 32 \<and> bit a i \<and> bit b i}"
  using shared_bits_loop_card [of 32 "a AND b" 0] by (simp add: SharedBitsCount_def bit_and_iff)

lemma HasAllRequiredBits_iff: "HasAllRequiredBits a r \<longleftrightarrow> (\<forall>i<32. bit r i \<longrightarrow> bit a i)"
  unfolding HasAllRequiredBits_def by (auto simp: bit_eq_iff bit_and_iff)

section \<open>The closest match\<close>

text \<open>
  What the comment on the table promises: among the entries that match the query, in the order of
  the effective list of the platform, the first one with the most required usage bits.
\<close>

definition entry_matches ::
  "sysmem_lib \<Rightarrow> collection_constraints \<Rightarrow> nat \<Rightarrow> UsagePixelFormatCostEntry \<Rightarrow> bool" where
  "entry_matches lib constraints index e \<longleftrightarrow>
     ImageFormatIsPixelFormatEqual lib (e_pixel_format e)
       (format_table (i_pixel_format (image_format_constraints constraints ! index))) \<and>
     HasAllRequiredUsageBits (usage_table (usage constraints)) (required_buffer_usage_bits e)"

definition entry_bits :: "collection_constraints \<Rightarrow> UsagePixelFormatCostEntry \<Rightarrow> nat" where
  "entry_bits constraints e =
     SharedUsageBitsCount (usage_table (usage constraints)) (required_buffer_usage_bits e)"

definition first_best :: "('e \<Rightarrow> bool) \<Rightarrow> ('e \<Rightarrow> nat) \<Rightarrow> 'e list \<Rightarrow> 'e option \<Rightarrow> bool" where
  "first_best P f es b \<longleftrightarrow> (case b of
     None \<Rightarrow> \<forall>e\<in>set es. \<not> P e
   | Some e \<Rightarrow> P e \<and> (\<exists>pre post. es = pre @ e # post \<and> (\<forall>x\<in>set pre. P x \<longrightarrow> f x < f e) \<and>
       (\<forall>x\<in>set post. P x \<longrightarrow> f x \<le> f e)))"

definition better :: "('e \<Rightarrow> bool) \<Rightarrow> ('e \<Rightarrow> nat) \<Rightarrow> 'e option \<Rightarrow> 'e \<Rightarrow> 'e option" where
  "better P f b e = (if P e \<and> (case b of None \<Rightarrow> True | Some x \<Rightarrow> f e > f x) then Some e else b)"

lemma first_best_last: "P e \<Longrightarrow> \<forall>x\<in>set es. P x \<longrightarrow> f x < f e \<Longrightarrow> first_best P f (es @ [e]) (Some e)"
  unfolding first_best_def option.case by (intro conjI exI [of _ es] exI [of _ "[]"]) simp_all

lemma first_best_snoc:
  assumes "first_best P f es b"
  shows "first_best P f (es @ [e]) (better P f b e)"
proof (cases b)
  case None
  then have "\<forall>x\<in>set es. \<not> P x" using assms by (simp add: first_best_def)
  then show ?thesis
    using None first_best_last [of P e es f] by (cases "P e") (auto simp: better_def first_best_def [of P f _ None])
next
  case (Some x)
  then obtain pre post where x: "P x" "es = pre @ x # post" "\<forall>y\<in>set pre. P y \<longrightarrow> f y < f x"
    "\<forall>y\<in>set post. P y \<longrightarrow> f y \<le> f x"
    using assms by (auto simp: first_best_def)
  show ?thesis
  proof (cases "P e \<and> f e > f x")
    case True
    then have lt: "f x < f e" by simp
    have "\<forall>y\<in>set es. P y \<longrightarrow> f y < f e"
      unfolding x(2) using x(3,4) lt by (auto intro: order.strict_trans order.strict_trans1)
    then have "first_best P f (es @ [e]) (Some e)" using True by (intro first_best_last) auto
    then show ?thesis using True Some by (simp add: better_def)
  next
    case False
    then have "es @ [e] = pre @ x # (post @ [e])" "\<forall>y\<in>set (post @ [e]). P y \<longrightarrow> f y \<le> f x"
      using x by auto
    then have "first_best P f (es @ [e]) (Some x)"
      unfolding first_best_def option.case using x(1,3) by blast
    moreover have "better P f b e = Some x" using False Some by (auto simp: better_def)
    ultimately show ?thesis by simp
  qed
qed

lemma match_step_better:
  assumes "index < length (image_format_constraints c)"
    and "\<forall>b. best = Some b \<longrightarrow> entry_matches lib c index b"
  shows "match_step lib c index best e = Some (better (entry_matches lib c index) (entry_bits c) best e)"
  using assms
  by (auto simp: match_step_def IsBetterMatch_def better_def entry_matches_def entry_bits_def Let_def
      split: option.split)

text \<open>The effective list of entries of a platform.\<close>

function effective_costs :: "sysmem_lib \<Rightarrow> cost_lib \<Rightarrow> Platform \<Rightarrow> UsagePixelFormatCostEntry list" where
  "effective_costs lib k p =
     (case FindPlatformCosts lib k p of
        None \<Rightarrow> []
      | Some e \<Rightarrow> costs e @ effective_costs lib k (next_platform e))"
  by pat_completeness auto
termination
  by (relation "measure (\<lambda>(lib, k, p). generality p)") (auto dest: FindPlatformCosts_next)

declare effective_costs.simps [simp del]

lemma match_entries:
  assumes "index < length (image_format_constraints c)"
    and "first_best (entry_matches lib c index) (entry_bits c) pre best"
  shows "\<exists>r. foldM (match_step lib c index) best es = Some r \<and>
    first_best (entry_matches lib c index) (entry_bits c) (pre @ es) r"
  using assms(2)
proof (induction es arbitrary: pre best)
  case (Cons e es)
  have "\<forall>b. best = Some b \<longrightarrow> entry_matches lib c index b"
    using Cons.prems by (auto simp: first_best_def)
  from match_step_better [OF assms(1) this, of e]
  show ?case using Cons.IH [OF first_best_snoc [OF Cons.prems, of e]] by simp
qed simp

lemma match_loop_best:
  assumes "index < length (image_format_constraints c)"
    and "first_best (entry_matches lib c index) (entry_bits c) pre best"
  shows "\<exists>r. match_loop lib k c index p best = Some r \<and>
    first_best (entry_matches lib c index) (entry_bits c) (pre @ effective_costs lib k p) r"
  using assms
proof (induction lib k c index p best arbitrary: pre rule: match_loop.induct)
  case (1 lib k c index p best)
  show ?case
  proof (cases "FindPlatformCosts lib k p")
    case None
    then show ?thesis
      using "1.prems" by (simp add: match_loop.simps [of lib k c index p] effective_costs.simps [of lib k p])
  next
    case (Some e)
    obtain b where b: "foldM (match_step lib c index) best (costs e) = Some b"
      "first_best (entry_matches lib c index) (entry_bits c) (pre @ costs e) b"
      using match_entries [OF "1.prems"] by blast
    show ?thesis
      using "1.IH" [OF Some b(1) "1.prems"(1) b(2)] Some b(1)
      by (simp add: match_loop.simps [of lib k c index p] effective_costs.simps [of lib k p])
  qed
qed

lemma GetCost_spec:
  assumes "index < length (image_format_constraints c)"
  shows "\<exists>b. first_best (entry_matches lib c index) (entry_bits c) (effective_costs lib k (FindPlatform k vid pid)) b \<and>
    GetCost lib k vid pid c index = Some (case b of None \<Rightarrow> kDefaultCost | Some e \<Rightarrow> cost e)"
proof -
  define p where "p = FindPlatform k vid pid"
  have "first_best (entry_matches lib c index) (entry_bits c) [] None" by (simp add: first_best_def)
  from match_loop_best [OF assms this] obtain b where
    b: "match_loop lib k c index p None = Some b"
      "first_best (entry_matches lib c index) (entry_bits c) (effective_costs lib k p) b" by auto
  have n: "p = kPlatform_None \<Longrightarrow> FindPlatformCosts lib k p = None" by (simp add: FindPlatformCosts_def)
  show ?thesis
  proof (cases "FindPlatformCosts lib k p")
    case None
    then have "b = None" using b(1) by (simp add: match_loop.simps [of lib k c index p])
    then show ?thesis
      using None b(2) by (auto simp: GetCost_def GetCostInternal_def p_def [symmetric] Let_def)
  next
    case (Some e)
    then have "p \<noteq> kPlatform_None" using n by auto
    then show ?thesis
      using Some b by (auto simp: GetCost_def GetCostInternal_def p_def [symmetric] Let_def)
  qed
qed

lemma Compare_sign:
  assumes "i < length (image_format_constraints c)" "j < length (image_format_constraints c)"
  shows "\<exists>a b. GetCost lib k vid pid c i = Some a \<and> GetCost lib k vid pid c j = Some b \<and>
    Compare lib k vid pid c i j = Some (sgn (int a - int b))"
proof -
  obtain a b where "GetCost lib k vid pid c i = Some a" "GetCost lib k vid pid c j = Some b"
    using GetCost_spec [OF assms(1)] GetCost_spec [OF assms(2)] by blast
  then show ?thesis by (auto simp: Compare_def sgn_if)
qed

end
