(* ===== verification/Sysmem_Allocation.thy ===== *)
theory Sysmem_Allocation
  imports Sysmem_Format_Cost
begin

text \<open>
  From combined constraints to the settings of the buffers: the choice of a heap and of a coherency
  domain, the choice of an image format, the size of the smallest image, and the checks of
  \<open>GenerateUnpopulatedBufferCollectionInfo\<close>. The lookups of \<open>device.cc\<close> are modelled over the device's table of
  allocators. A result is \<^term>\<open>Inl\<close> of an error or \<^term>\<open>Inr\<close> of a value; \<^term>\<open>None\<close> is an abort.
\<close>

section \<open>Data\<close>

record coherency_support =
  cpu_supported :: bool
  ram_supported :: bool
  inaccessible_supported :: bool

record heap_properties =
  coherency_domain_support :: "coherency_support option"

record memory_settings =
  size_bytes :: nat
  is_physically_contiguous :: bool
  is_secure :: bool
  coherency_domain :: CoherencyDomain
  heap :: heap_type

record image_format =
  f_pixel_format :: pixel_format
  f_coded_width :: nat
  f_coded_height :: nat
  f_bytes_per_row :: nat
  f_color_space :: color_space

record collection_info =
  vmo_usable_starts :: "nat list"
  r_buffer_settings :: memory_settings
  r_image_format_constraints :: "image_constraints option"

text \<open>The device: its allocators, each with the properties of its heap, and its settings.\<close>

record sysmem_device =
  contiguous_system_ram_allocator :: "heap_properties option"
  allocators :: "heap_type \<Rightarrow> heap_properties option"
  max_allocation_size :: nat
  pdev_device_info_vid :: nat
  pdev_device_info_pid :: nat

record alloc_lib =
  ImageFormatImageSize :: "image_format \<Rightarrow> nat"
  kMaxCountBufferCollectionInfoBuffers :: nat

definition kMaxTotalSizeBytesPerCollection :: nat where
  "kMaxTotalSizeBytesPerCollection = 1 * 1024 * 1024 * 1024"

definition kMaxSizeBytesPerBuffer :: nat where
  "kMaxSizeBytesPerBuffer = 256 * 1024 * 1024"

definition kNeedAuxVmoAlso :: nat where
  "kNeedAuxVmoAlso = 1"

section \<open>Heap and coherency domain\<close>

definition GetAllocator :: "sysmem_device \<Rightarrow> heap_type \<Rightarrow> bool \<Rightarrow> heap_properties option" where
  "GetAllocator dev h contiguous =
     (if h = kSystemRam \<and> contiguous then contiguous_system_ram_allocator dev else allocators dev h)"

definition GetHeapProperties :: "sysmem_device \<Rightarrow> heap_type \<Rightarrow> heap_properties option" where
  "GetHeapProperties dev h = do {
     zx_assert (allocators dev h \<noteq> None);
     allocators dev h }"

fun find_heap :: "sysmem_device \<Rightarrow> memory_constraints \<Rightarrow> heap_type list \<Rightarrow> (zx_status + heap_type) option" where
  "find_heap dev c [] = Some (Inl ZX_ERR_NOT_FOUND)"
| "find_heap dev c (h # hs) = do {
     props \<leftarrow> GetHeapProperties dev h;
     if (case coherency_domain_support props of
           None \<Rightarrow> False
         | Some s \<Rightarrow> cpu_supported s \<and> cpu_domain_supported c \<or> ram_supported s \<and> ram_domain_supported c \<or>
             inaccessible_supported s \<and> inaccessible_domain_supported c)
     then Some (Inr h) else find_heap dev c hs }"

definition GetHeap :: "sysmem_device \<Rightarrow> memory_constraints \<Rightarrow> (zx_status + heap_type) option" where
  "GetHeap dev c =
     (if secure_required c then do {
        zx_assert (\<not> secure_required c \<or> IsSecurePermitted c);
        if IsHeapPermitted c kAmlogicSecure then Some (Inr kAmlogicSecure)
        else do {
          zx_assert (IsHeapPermitted c kAmlogicSecureVdec);
          Some (Inr kAmlogicSecureVdec) } }
      else if IsHeapPermitted c kSystemRam then Some (Inr kSystemRam)
      else find_heap dev c (heap_permitted c))"

definition GetCoherencyDomain ::
  "collection_constraints \<Rightarrow> heap_properties \<Rightarrow> CoherencyDomain option option" where
  "GetCoherencyDomain c props =
     (case coherency_domain_support props of
        None \<Rightarrow> None
      | Some s \<Rightarrow>
          let m = buffer_memory_constraints c in
          Some
            (if display (usage c) \<noteq> 0 \<and> ram_domain_supported m then Some kRam
             else if cpu_supported s \<and> cpu_domain_supported m then Some kCpu
             else if ram_supported s \<and> ram_domain_supported m then Some kRam
             else if inaccessible_supported s \<and> inaccessible_domain_supported m then Some kInaccessible
             else None))"

section \<open>The image format and the smallest image\<close>

definition AlignUp :: "nat \<Rightarrow> nat \<Rightarrow> nat" where
  "AlignUp value divisor = u32_mul (u32_sub (u32_add value divisor) 1 div divisor) divisor"

text \<open>
  The loop that picks the image format: \<^term>\<open>best\<close> is \<^term>\<open>None\<close> for the index \<open>UINT32_MAX\<close> it starts from. A format
  that does not work with protected memory is skipped when the buffers are secure.
\<close>

fun pick_format ::
  "(nat \<Rightarrow> bool) \<Rightarrow> (nat \<Rightarrow> nat \<Rightarrow> int option) \<Rightarrow> nat option \<Rightarrow> nat list \<Rightarrow> nat option option" where
  "pick_format usable compare best [] = Some best"
| "pick_format usable compare best (i # is) =
     (if \<not> usable i then pick_format usable compare best is
      else case best of
        None \<Rightarrow> pick_format usable compare (Some i) is
      | Some b \<Rightarrow> do {
          r \<leftarrow> compare i b;
          pick_format usable compare (Some (if r < 0 then i else b)) is })"

definition best_format ::
  "sysmem_lib \<Rightarrow> cost_lib \<Rightarrow> sysmem_device \<Rightarrow> collection_constraints \<Rightarrow> bool \<Rightarrow> nat option option" where
  "best_format lib k dev c secure =
     pick_format
       (\<lambda>i. \<not> (secure \<and> \<not> ImageFormatCompatibleWithProtectedMemory lib
                 (i_pixel_format (image_format_constraints c ! i))))
       (CompareImageFormatConstraintsByIndex lib k (pdev_device_info_vid dev) (pdev_device_info_pid dev) c)
       None [0..<length (image_format_constraints c)]"

definition min_image_of :: "sysmem_lib \<Rightarrow> image_constraints \<Rightarrow> image_format option option" where
  "min_image_of lib i =
     (let w = AlignUp (max (min_coded_width i) (required_max_coded_width i)) (coded_width_divisor i);
          h = AlignUp (max (min_coded_height i) (required_max_coded_height i)) (coded_height_divisor i);
          b = AlignUp (max (min_bytes_per_row i)
                (u32_mul (ImageFormatStrideBytesPerWidthPixel lib (i_pixel_format i)) w))
                (bytes_per_row_divisor i)
      in if w > max_coded_width i then Some None
         else if h > max_coded_height i then Some None
         else if b > max_bytes_per_row i then Some None
         else if u32_mul w h > max_coded_width_times_coded_height i then Some None
         else do {
           zx_assert (length (color_spaces i) \<ge> 1);
           Some (Some \<lparr>f_pixel_format = i_pixel_format i, f_coded_width = w, f_coded_height = h,
             f_bytes_per_row = b, f_color_space = hd (color_spaces i)\<rparr>) })"

text \<open>The size in bytes that the image format asks for, within the bounds of the memory constraints.\<close>

definition image_size_bytes ::
  "sysmem_lib \<Rightarrow> alloc_lib \<Rightarrow> nat \<Rightarrow> nat \<Rightarrow> image_constraints \<Rightarrow> nat option option" where
  "image_size_bytes lib al min_size max_size i = do {
     r \<leftarrow> min_image_of lib i;
     case r of
       None \<Rightarrow> Some None
     | Some min_image \<Rightarrow>
         let image_min_size_bytes = ImageFormatImageSize al min_image in
         if image_min_size_bytes > min_size
         then if image_min_size_bytes > max_size then Some None else Some (Some image_min_size_bytes)
         else Some (Some min_size) }"

definition pick_image ::
  "sysmem_lib \<Rightarrow> cost_lib \<Rightarrow> sysmem_device \<Rightarrow> collection_constraints \<Rightarrow> bool \<Rightarrow>
   (zx_status + image_constraints option) option" where
  "pick_image lib k dev c secure =
     (if image_format_constraints c = [] then Some (Inr None)
      else do {
        best \<leftarrow> best_format lib k dev c secure;
        Some (case best of
           None \<Rightarrow> Inl ZX_ERR_NOT_SUPPORTED
         | Some i \<Rightarrow> Inr (Some (image_format_constraints c ! i))) })"

definition buffer_size ::
  "sysmem_lib \<Rightarrow> alloc_lib \<Rightarrow> memory_constraints \<Rightarrow> image_constraints option \<Rightarrow> nat option option" where
  "buffer_size lib al m img =
     (case img of
        None \<Rightarrow> Some (Some (min_size_bytes m))
      | Some i \<Rightarrow> image_size_bytes lib al (min_size_bytes m) (max_size_bytes m) i)"

section \<open>The collection info\<close>

text \<open>The part of the function after the heap and the domain are known.\<close>

definition generate_sizes ::
  "sysmem_lib \<Rightarrow> cost_lib \<Rightarrow> alloc_lib \<Rightarrow> sysmem_device \<Rightarrow> collection_constraints \<Rightarrow> nat \<Rightarrow> memory_settings \<Rightarrow>
   (zx_status + collection_info) option" where
  "generate_sizes lib k al dev c n settings = do {
     let m = buffer_memory_constraints c;
     ri \<leftarrow> pick_image lib k dev c (is_secure settings);
     case ri of
       Inl e \<Rightarrow> Some (Inl e)
     | Inr img \<Rightarrow> do {
         rs \<leftarrow> buffer_size lib al m img;
         case rs of
           None \<Rightarrow> Some (Inl ZX_ERR_NOT_SUPPORTED)
         | Some sz \<Rightarrow>
             if sz = 0 then Some (Inl ZX_ERR_NOT_SUPPORTED)
             else if u64_mul sz n > kMaxTotalSizeBytesPerCollection then Some (Inl ZX_ERR_NO_MEMORY)
             else if sz > kMaxSizeBytesPerBuffer then Some (Inl ZX_ERR_NO_MEMORY)
             else do {
               zx_assert (sz \<le> u32_max);
               if sz > max_allocation_size dev then Some (Inl ZX_ERR_NO_MEMORY)
               else Some (Inr
                 \<lparr>vmo_usable_starts = replicate n
                    (if is_secure settings \<and> need_clear_aux_buffers_for_secure c then kNeedAuxVmoAlso else 0),
                  r_buffer_settings = settings\<lparr>size_bytes := sz\<rparr>,
                  r_image_format_constraints = img\<rparr>) } } }"

definition GenerateUnpopulatedBufferCollectionInfo ::
  "sysmem_lib \<Rightarrow> cost_lib \<Rightarrow> alloc_lib \<Rightarrow> sysmem_device \<Rightarrow> collection_constraints \<Rightarrow>
   (zx_status + collection_info) option" where
  "GenerateUnpopulatedBufferCollectionInfo lib k al dev c =
     (let sum = u32_add (u32_add (min_buffer_count_for_camping c) (min_buffer_count_for_dedicated_slack c))
                  (min_buffer_count_for_shared_slack c);
          n = max sum (min_buffer_count c);
          m = buffer_memory_constraints c
      in if n > max_buffer_count c then Some (Inl ZX_ERR_NOT_SUPPORTED)
         else if n > kMaxCountBufferCollectionInfoBuffers al then Some (Inl ZX_ERR_NOT_SUPPORTED)
         else do {
           zx_assert (IsSecurePermitted m \<or> \<not> secure_required m);
           if secure_required m \<and> need_clear_aux_buffers_for_secure c \<and> \<not> allow_clear_aux_buffers_for_secure c
           then Some (Inl ZX_ERR_NOT_SUPPORTED)
           else do {
             rh \<leftarrow> GetHeap dev m;
             case rh of
               Inl e \<Rightarrow> Some (Inl e)
             | Inr h \<Rightarrow>
                 (case GetAllocator dev h (physically_contiguous_required m) of
                    None \<Rightarrow> Some (Inl ZX_ERR_NO_MEMORY)
                  | Some props \<Rightarrow> do {
                      rd \<leftarrow> GetCoherencyDomain c props;
                      case rd of
                        None \<Rightarrow> Some (Inl ZX_ERR_NOT_SUPPORTED)
                      | Some d \<Rightarrow>
                          generate_sizes lib k al dev c n
                            \<lparr>size_bytes = 0, is_physically_contiguous = physically_contiguous_required m,
                             is_secure = secure_required m, coherency_domain = d, heap = h\<rparr> }) } })"

section \<open>Allocating the buffers\<close>

text \<open>
  \<open>Allocate\<close> fills in the handles. \<open>AllocateVmo\<close>, which makes the kernel calls, is the argument \<open>allocate_vmo\<close>: for
  some settings and an index it makes a buffer, or it fails before the buffer is entered in \<open>parent_vmos_\<close>, or it fails
  in \<open>SetupChildVmo\<close> when the buffer is already entered there. The call for the buffer comes before the
  one for its auxiliary buffer, and the first failure ends the loop. Next to its result the loop gives the handles that
  it entered in \<open>parent_vmos_\<close>, which stay there after a failure.

  The code reads the first buffer without looking at the number of buffers. For settings without buffers that read is
  outside the array and the language gives it no meaning; \<^term>\<open>None\<close> stands for this case as it does for an abort, and
  no property rests on it.
\<close>

datatype 'v vmo_result = Vmo_made 'v | Setup_failed 'v | Vmo_failed

fun tracked :: "'v vmo_result \<Rightarrow> 'v list" where
  "tracked (Vmo_made v) = [v]"
| "tracked (Setup_failed v) = [v]"
| "tracked Vmo_failed = []"

record 'v vmo_buffer =
  vmo :: 'v
  aux_vmo :: "'v option"
  vmo_usable_start :: nat

definition aux_settings :: "memory_settings \<Rightarrow> memory_settings" where
  "aux_settings s = \<lparr>size_bytes = size_bytes s, is_physically_contiguous = False, is_secure = False,
     coherency_domain = kCpu, heap = kSystemRam\<rparr>"

fun allocate_aux ::
  "(memory_settings \<Rightarrow> nat \<Rightarrow> 'v vmo_result) \<Rightarrow> memory_settings option \<Rightarrow> nat \<Rightarrow> 'v list \<times> (zx_status + 'v option)" where
  "allocate_aux allocate_vmo None i = ([], Inr None)"
| "allocate_aux allocate_vmo (Some t) i =
     (let r = allocate_vmo t i in
      (tracked r, case r of Vmo_made a \<Rightarrow> Inr (Some a) | _ \<Rightarrow> Inl ZX_ERR_NO_MEMORY))"

fun allocate_loop ::
  "(memory_settings \<Rightarrow> nat \<Rightarrow> 'v vmo_result) \<Rightarrow> memory_settings \<Rightarrow> memory_settings option \<Rightarrow> nat list \<Rightarrow>
   'v list \<times> (zx_status + 'v vmo_buffer list)" where
  "allocate_loop allocate_vmo s aux [] = ([], Inr [])"
| "allocate_loop allocate_vmo s aux (i # is) =
     (case allocate_vmo s i of
        Vmo_made v \<Rightarrow>
          (case allocate_aux allocate_vmo aux i of
             (ts, Inl e) \<Rightarrow> (v # ts, Inl e)
           | (ts, Inr a) \<Rightarrow>
               (case allocate_loop allocate_vmo s aux is of
                  (us, Inl e) \<Rightarrow> (v # ts @ us, Inl e)
                | (us, Inr bs) \<Rightarrow> (v # ts @ us, Inr (\<lparr>vmo = v, aux_vmo = a, vmo_usable_start = 0\<rparr> # bs))))
      | r \<Rightarrow> (tracked r, Inl ZX_ERR_NO_MEMORY))"

definition Allocate ::
  "sysmem_device \<Rightarrow> (memory_settings \<Rightarrow> nat \<Rightarrow> 'v vmo_result) \<Rightarrow> collection_constraints \<Rightarrow> collection_info \<Rightarrow>
   ('v list \<times> (zx_status + 'v vmo_buffer list)) option" where
  "Allocate dev allocate_vmo c info =
     (let s = r_buffer_settings info in
      case GetAllocator dev (heap s) (is_physically_contiguous s) of
        None \<Rightarrow> Some ([], Inl ZX_ERR_NO_MEMORY)
      | Some _ \<Rightarrow>
        (case vmo_usable_starts info of
           [] \<Rightarrow> None
         | start # _ \<Rightarrow>
             let need_aux = (start AND kNeedAuxVmoAlso \<noteq> 0) in do {
               zx_assert (need_aux = (is_secure s \<and> need_clear_aux_buffers_for_secure c));
               zx_assert (need_aux \<longrightarrow>
                 GetAllocator dev (heap (aux_settings s)) (is_physically_contiguous (aux_settings s)) \<noteq> None);
               zx_assert (size_bytes s \<le> max_allocation_size dev);
               Some (allocate_loop allocate_vmo s (if need_aux then Some (aux_settings s) else None)
                 [0..<length (vmo_usable_starts info)]) }))"

section \<open>Lemmas\<close>

lemma AlignUp_no_wrap:
  assumes "v + d \<le> W32" "0 < d" "0 < v + d"
  shows "AlignUp v d = (v + d - 1) div d * d"
proof -
  have "u32_sub (u32_add v d) 1 = v + d - 1"
  proof (cases "v + d = W32")
    case True
    then show ?thesis by (simp add: u32_add_def u32_sub_def W32_def)
  next
    case False
    then show ?thesis using assms by (simp add: u32_add_def u32_sub_def mod_if)
  qed
  moreover have "(v + d - 1) div d * d < W32"
    using div_times_less_eq_dividend [of "v + d - 1" d] assms by linarith
  ultimately show ?thesis by (simp add: AlignUp_def u32_mul_def)
qed

lemma AlignUp_spec:
  assumes "v + d \<le> W32" "0 < d"
  shows "v \<le> AlignUp v d" "d dvd AlignUp v d" "AlignUp v d < v + d"
    and "\<And>x. v \<le> x \<Longrightarrow> d dvd x \<Longrightarrow> AlignUp v d \<le> x"
proof -
  have e: "AlignUp v d = (v + d - 1) div d * d" using AlignUp_no_wrap [of v d] assms by simp
  define q where "q = (v + d - 1) div d"
  have q: "q * d + (v + d - 1) mod d = v + d - 1" by (simp add: q_def)
  have m: "(v + d - 1) mod d < d" using assms(2) by simp
  show "d dvd AlignUp v d" by (simp add: e)
  show "v \<le> AlignUp v d" "AlignUp v d < v + d"
    using q m assms(2) unfolding e q_def [symmetric] by linarith+
  fix x assume x: "v \<le> x" "d dvd x"
  then obtain y where y: "x = d * y" by auto
  have "q < y + 1"
  proof (rule ccontr)
    assume "\<not> q < y + 1"
    then have "(y + 1) * d \<le> q * d" by (intro mult_le_mono1) simp
    then have "d * y + d \<le> q * d" by (simp add: algebra_simps)
    then show False using q x(1) y assms(2) by linarith
  qed
  then show "AlignUp v d \<le> x" unfolding e q_def [symmetric] using y by (simp add: mult.commute)
qed

lemma GetHeap_permitted:
  assumes "GetHeap dev c = Some (Inr h)"
  shows "IsHeapPermitted c h" and "secure_required c \<Longrightarrow> h = kAmlogicSecure \<or> h = kAmlogicSecureVdec"
proof -
  have *: "find_heap dev c hs = Some (Inr h) \<Longrightarrow> h \<in> set hs" for hs
    by (induction hs) (auto simp: bind_eq_Some_conv split: if_splits)
  have mem: "h \<in> set (heap_permitted c) \<Longrightarrow> IsHeapPermitted c h" by (simp add: IsHeapPermitted_def)
  show "IsHeapPermitted c h"
    using assms * [of "heap_permitted c"] mem
    by (auto simp: GetHeap_def bind_eq_Some_conv split: if_splits)
  show "secure_required c \<Longrightarrow> h = kAmlogicSecure \<or> h = kAmlogicSecureVdec"
    using assms by (auto simp: GetHeap_def bind_eq_Some_conv split: if_splits)
qed

lemma GetCoherencyDomain_Some:
  assumes "GetCoherencyDomain c props = Some (Some d)"
  shows "case d of kCpu \<Rightarrow> cpu_domain_supported (buffer_memory_constraints c)
    | kRam \<Rightarrow> ram_domain_supported (buffer_memory_constraints c)
    | kInaccessible \<Rightarrow> inaccessible_domain_supported (buffer_memory_constraints c)"
  using assms by (auto simp: GetCoherencyDomain_def Let_def split: option.splits if_splits)

text \<open>The picked format is usable and has the least cost of the usable ones.\<close>

lemma pick_format_least:
  fixes f :: "nat \<Rightarrow> nat"
  assumes "\<And>i j r. i < n \<Longrightarrow> j < n \<Longrightarrow> compare i j = Some r \<Longrightarrow> (r < 0 \<longrightarrow> f i \<le> f j) \<and> (\<not> r < 0 \<longrightarrow> f j \<le> f i)"
    and "set is \<subseteq> {..<n}" "\<forall>b. best = Some b \<longrightarrow> b < n \<and> usable b"
    and "pick_format usable compare best is = Some r"
  shows "(\<forall>b. r = Some b \<longrightarrow> b < n \<and> usable b \<and> (\<forall>x. best = Some x \<longrightarrow> f b \<le> f x) \<and>
      (\<forall>i\<in>set is. usable i \<longrightarrow> f b \<le> f i)) \<and>
    (r = None \<longleftrightarrow> best = None \<and> (\<forall>i\<in>set is. \<not> usable i))"
  using assms(2-)
proof (induction "is" arbitrary: best)
  case (Cons i "is")
  show ?case
  proof (cases "usable i")
    case False
    then show ?thesis using Cons.IH [of best] Cons.prems by simp
  next
    case u: True
    have i: "i < n" "set is \<subseteq> {..<n}" using Cons.prems(1) by simp_all
    show ?thesis
    proof (cases best)
      case None
      then have "pick_format usable compare (Some i) is = Some r" using Cons.prems(3) u by simp
      from Cons.IH [OF i(2) _ this] show ?thesis using None u i(1) by auto
    next
      case (Some b)
      then obtain s where s: "compare i b = Some s"
        "pick_format usable compare (Some (if s < 0 then i else b)) is = Some r"
        using Cons.prems(3) u by (auto simp: bind_eq_Some_conv)
      have b: "b < n" "usable b" using Cons.prems(2) Some by simp_all
      have "(s < 0 \<longrightarrow> f i \<le> f b) \<and> (\<not> s < 0 \<longrightarrow> f b \<le> f i)" by (rule assms(1) [OF i(1) b(1) s(1)])
      then show ?thesis
        using Cons.IH [OF i(2) _ s(2)] Some u i(1) b by (cases "s < 0") fastforce+
    qed
  qed
qed simp

lemma best_format_least:
  assumes "best_format lib k dev c secure = Some r"
  defines "usable i \<equiv> \<not> (secure \<and> \<not> ImageFormatCompatibleWithProtectedMemory lib
      (i_pixel_format (image_format_constraints c ! i)))"
  defines "f i \<equiv> the (GetCost lib k (pdev_device_info_vid dev) (pdev_device_info_pid dev) c i)"
  shows "(\<forall>b. r = Some b \<longrightarrow> b < length (image_format_constraints c) \<and> usable b \<and>
      (\<forall>i<length (image_format_constraints c). usable i \<longrightarrow> f b \<le> f i)) \<and>
    (r = None \<longleftrightarrow> (\<forall>i<length (image_format_constraints c). \<not> usable i))"
proof -
  let ?cmp = "CompareImageFormatConstraintsByIndex lib k (pdev_device_info_vid dev) (pdev_device_info_pid dev) c"
  let ?n = "length (image_format_constraints c)"
  have cmp: "(s < 0 \<longrightarrow> f i \<le> f j) \<and> (\<not> s < 0 \<longrightarrow> f j \<le> f i)"
    if ij: "i < ?n" "j < ?n" and s: "?cmp i j = Some s" for i j s
  proof -
    obtain a b where ab: "GetCost lib k (pdev_device_info_vid dev) (pdev_device_info_pid dev) c i = Some a"
      "GetCost lib k (pdev_device_info_vid dev) (pdev_device_info_pid dev) c j = Some b"
      "Compare lib k (pdev_device_info_vid dev) (pdev_device_info_pid dev) c i j = Some (sgn (int a - int b))"
      using Compare_sign [OF ij] by blast
    have f: "f i = a" "f j = b" by (simp_all add: f_def ab(1,2))
    consider "a < b" | "b < a" | "a = b" by linarith
    then show ?thesis
    proof cases
      case 1
      then have "s = - 1" using s ab(3) by (simp add: CompareImageFormatConstraintsByIndex_def)
      then show ?thesis using 1 f by simp
    next
      case 2
      then have "s = 1" using s ab(3) by (simp add: CompareImageFormatConstraintsByIndex_def)
      then show ?thesis using 2 f by simp
    next
      case 3
      then show ?thesis using f by simp
    qed
  qed
  have run: "pick_format usable ?cmp None [0..<?n] = Some r"
    using assms(1) unfolding best_format_def usable_def .
  have "set [0..<?n] \<subseteq> {..<?n}" by auto
  moreover have "\<forall>b. None = Some b \<longrightarrow> b < ?n \<and> usable b" by simp
  ultimately have spec: "(\<forall>b. r = Some b \<longrightarrow> b < ?n \<and> usable b \<and> (\<forall>x. (None :: nat option) = Some x \<longrightarrow> f b \<le> f x) \<and>
      (\<forall>i\<in>set [0..<?n]. usable i \<longrightarrow> f b \<le> f i)) \<and>
    (r = None \<longleftrightarrow> (None :: nat option) = None \<and> (\<forall>i\<in>set [0..<?n]. \<not> usable i))"
    by (intro pick_format_least [where n = ?n and compare = ?cmp] cmp run)
  have in_n: "i \<in> set [0..<?n] \<longleftrightarrow> i < ?n" for i by auto
  show ?thesis using spec unfolding Ball_def in_n by blast
qed

text \<open>What is known once the settings are generated.\<close>

lemma image_size_Some:
  assumes "image_size_bytes lib al lo hi i = Some (Some sz)" "lo \<le> hi"
  shows "lo \<le> sz \<and> sz \<le> hi \<and> min_image_of lib i \<noteq> Some None"
proof -
  obtain x where x: "min_image_of lib i = Some (Some x)"
    "(if ImageFormatImageSize al x > lo
      then if ImageFormatImageSize al x > hi then Some None else Some (Some (ImageFormatImageSize al x))
      else Some (Some lo)) = Some (Some sz)"
    using assms(1) unfolding image_size_bytes_def Let_def by (elim bind_SomeE case_failE) blast
  then show ?thesis using assms(2) by (cases "ImageFormatImageSize al x > lo") (auto split: if_splits)
qed

lemma pick_image_Inr:
  assumes "pick_image lib k dev c secure = Some (Inr img)"
  shows "case img of None \<Rightarrow> image_format_constraints c = []
    | Some i \<Rightarrow> \<exists>b. best_format lib k dev c secure = Some (Some b) \<and> i = image_format_constraints c ! b"
  using assms by (auto simp: pick_image_def bind_eq_Some_conv split: if_splits option.splits)

lemma buffer_size_Some:
  assumes "buffer_size lib al m img = Some (Some sz)" "min_size_bytes m \<le> max_size_bytes m"
  shows "min_size_bytes m \<le> sz \<and> sz \<le> max_size_bytes m"
  using assms image_size_Some [of lib al "min_size_bytes m" "max_size_bytes m" _ sz]
  by (cases img) (auto simp: buffer_size_def)

lemma generate_sizes_Some:
  assumes "generate_sizes lib k al dev c n settings = Some (Inr info)"
  shows "\<exists>sz. pick_image lib k dev c (is_secure settings) = Some (Inr (r_image_format_constraints info)) \<and>
    buffer_size lib al (buffer_memory_constraints c) (r_image_format_constraints info) = Some (Some sz) \<and>
    r_buffer_settings info = settings\<lparr>size_bytes := sz\<rparr> \<and> 1 \<le> sz \<and>
    u64_mul sz n \<le> kMaxTotalSizeBytesPerCollection \<and> sz \<le> kMaxSizeBytesPerBuffer \<and> sz \<le> max_allocation_size dev \<and>
    vmo_usable_starts info = replicate n
      (if is_secure settings \<and> need_clear_aux_buffers_for_secure c then kNeedAuxVmoAlso else 0)"
  using assms unfolding generate_sizes_def Let_def
  by (elim succeed_InrE) (simp add: not_less, force)

lemma generate_Some:
  assumes "GenerateUnpopulatedBufferCollectionInfo lib k al dev c = Some (Inr info)"
  shows "\<exists>n h props d. n = max (u32_add (u32_add (min_buffer_count_for_camping c) (min_buffer_count_for_dedicated_slack c))
        (min_buffer_count_for_shared_slack c)) (min_buffer_count c) \<and>
    n \<le> max_buffer_count c \<and> n \<le> kMaxCountBufferCollectionInfoBuffers al \<and>
    (secure_required (buffer_memory_constraints c) \<longrightarrow>
      need_clear_aux_buffers_for_secure c \<longrightarrow> allow_clear_aux_buffers_for_secure c) \<and>
    GetHeap dev (buffer_memory_constraints c) = Some (Inr h) \<and>
    GetAllocator dev h (physically_contiguous_required (buffer_memory_constraints c)) = Some props \<and>
    GetCoherencyDomain c props = Some (Some d) \<and>
    generate_sizes lib k al dev c n
      \<lparr>size_bytes = 0, is_physically_contiguous = physically_contiguous_required (buffer_memory_constraints c),
       is_secure = secure_required (buffer_memory_constraints c), coherency_domain = d, heap = h\<rparr> = Some (Inr info)"
  using assms unfolding GenerateUnpopulatedBufferCollectionInfo_def Let_def
  by (elim succeed_InrE) (simp add: not_less)

text \<open>The buffers that the loop of \<open>Allocate\<close> returns; their handles are those in \<open>parent_vmos_\<close>.\<close>

definition handles_of :: "'v vmo_buffer list \<Rightarrow> 'v list" where
  "handles_of bs = concat (map (\<lambda>b. vmo b # (case aux_vmo b of None \<Rightarrow> [] | Some v \<Rightarrow> [v])) bs)"

lemma allocate_aux_Inr:
  assumes "allocate_aux allocate_vmo aux i = (ts, Inr a)"
  shows "case aux of None \<Rightarrow> a = None \<and> ts = [] | Some t \<Rightarrow> \<exists>v. a = Some v \<and> allocate_vmo t i = Vmo_made v \<and> ts = [v]"
  using assms by (cases aux) (auto simp: Let_def split: vmo_result.splits)

lemma allocate_loop_Inr:
  assumes "allocate_loop allocate_vmo s aux is = (hs, Inr bs)"
  shows "list_all2 (\<lambda>i b. allocate_vmo s i = Vmo_made (vmo b) \<and> vmo_usable_start b = 0 \<and>
     (aux_vmo b = None \<longleftrightarrow> aux = None)) is bs \<and> hs = handles_of bs"
  using assms
proof (induction "is" arbitrary: hs bs)
  case Nil
  then show ?case by (simp add: handles_of_def)
next
  case (Cons i "is")
  obtain v where v: "allocate_vmo s i = Vmo_made v" using Cons.prems by (cases "allocate_vmo s i") auto
  obtain ts a where a: "allocate_aux allocate_vmo aux i = (ts, Inr a)"
    using Cons.prems v by (auto split: prod.splits sum.splits)
  obtain us cs where cs: "allocate_loop allocate_vmo s aux is = (us, Inr cs)"
    using Cons.prems v a by (auto split: prod.splits sum.splits)
  have bs: "bs = \<lparr>vmo = v, aux_vmo = a, vmo_usable_start = 0\<rparr> # cs" "hs = v # ts @ us"
    using Cons.prems v a cs by auto
  show ?case using Cons.IH [OF cs] v bs allocate_aux_Inr [OF a] by (auto simp: handles_of_def split: option.splits)
qed

end
