(* ===== verification/Sysmem_Settings_Examples.thy ===== *)
theory Sysmem_Settings_Examples
  imports Sysmem_Sanitize Sysmem_Allocation
begin

text \<open>
  A concrete image format library, device and participants: a video decoder and a display that share
  buffers. They show that the assumptions on the library can hold, and the properties are applied to them.
\<close>

definition ex_lib :: sysmem_lib where
  "ex_lib =
     \<lparr>ImageFormatIsSupported = (\<lambda>p. pf_type p = 1 \<or> pf_type p = 2),
      ImageFormatStrideBytesPerWidthPixel = (\<lambda>p. if pf_type p = 1 then 4 else 1),
      ImageFormatIsSupportedColorSpaceForPixelFormat =
        (\<lambda>s p. case s of None \<Rightarrow> False | Some t \<Rightarrow> kColorSpaceRanking t \<noteq> None),
      ImageFormatIsPixelFormatEqual = (\<lambda>p q. p = q),
      ImageFormatCodedWidthMinDivisor = (\<lambda>p. if pf_type p = 1 then 1 else 2),
      ImageFormatCodedHeightMinDivisor = (\<lambda>p. if pf_type p = 1 then 1 else 2),
      ImageFormatSampleAlignment = (\<lambda>p. if pf_type p = 1 then 4 else 2),
      ImageFormatCompatibleWithProtectedMemory = (\<lambda>p. pf_type p = 2),
      zx_system_get_page_size = 4096, kInvalid_PixelFormatType = 0, kNoneUsage = 1,
      kCpuUsageWriteOften = 8, kCpuUsageWrite = 4, kVulkanUsageTransferDst = 2, kVulkanUsageStorage = 8,
      kVideoUsageHwDecoder = 1, kVideoUsageHwDecoderInternal = 2, kVideoUsageDecryptorOutput = 4,
      kVideoUsageHwEncoder = 8\<rparr>"

lemma ex_lib_ok: "lib_ok ex_lib"
proof -
  have "IsNonZeroPowerOf2 1" "IsNonZeroPowerOf2 2" "IsNonZeroPowerOf2 4"
    unfolding IsNonZeroPowerOf2_iff by (rule exI [of _ 0], simp, rule exI [of _ 1], simp, rule exI [of _ 2], simp)
  then show ?thesis
    by (auto simp: lib_ok_def ex_lib_def format_table_def split: option.splits)
qed

definition ex_image :: "nat \<Rightarrow> color_space list \<Rightarrow> w_image_constraints" where
  "ex_image t spaces =
     \<lparr>w_pixel_format = Some \<lparr>w_pf_type = Some t, w_format_modifier_value = None\<rparr>,
      w_color_spaces = Some spaces,
      w_min_coded_width = None, w_max_coded_width = None, w_min_coded_height = None,
      w_max_coded_height = None, w_min_bytes_per_row = None, w_max_bytes_per_row = None,
      w_max_coded_width_times_coded_height = None, w_coded_width_divisor = None,
      w_coded_height_divisor = None, w_bytes_per_row_divisor = None, w_start_offset_divisor = None,
      w_display_width_divisor = None, w_display_height_divisor = None,
      w_required_min_coded_width = None, w_required_max_coded_width = None,
      w_required_min_coded_height = None, w_required_max_coded_height = None,
      w_required_min_bytes_per_row = None, w_required_max_bytes_per_row = None\<rparr>"

definition ex_decoder :: w_collection_constraints where
  "ex_decoder = empty_constraints\<lparr>
     w_usage := Some (empty_usage\<lparr>w_video := Some 1\<rparr>),
     w_min_buffer_count_for_camping := Some 3,
     w_image_format_constraints := Some
       [(ex_image 2 [Some kRec601Ntsc, Some kRec709])\<lparr>
          w_min_coded_width := Some 16, w_max_coded_width := Some 4096,
          w_min_coded_height := Some 16, w_max_coded_height := Some 2304,
          w_required_min_coded_width := Some 640, w_required_max_coded_width := Some 640,
          w_required_min_coded_height := Some 480, w_required_max_coded_height := Some 480\<rparr>]\<rparr>"

definition ex_display :: w_collection_constraints where
  "ex_display = empty_constraints\<lparr>
     w_usage := Some (empty_usage\<lparr>w_display := Some 1\<rparr>),
     w_min_buffer_count_for_camping := Some 2,
     w_max_buffer_count := Some 8,
     w_image_format_constraints := Some
       [ex_image 1 [Some kSrgb],
        (ex_image 2 [Some kRec709, Some kRec601Ntsc])\<lparr>w_coded_width_divisor := Some 16,
          w_bytes_per_row_divisor := Some 32\<rparr>]\<rparr>"

definition ex_combined_image :: image_constraints where
  "ex_combined_image =
     \<lparr>i_pixel_format = \<lparr>pf_type = 2, format_modifier_value = 0\<rparr>, color_spaces = [Some kRec709],
      min_coded_width = 16, max_coded_width = 4096, min_coded_height = 16, max_coded_height = 2304,
      min_bytes_per_row = 16, max_bytes_per_row = 4294967295,
      max_coded_width_times_coded_height = 4294967295,
      coded_width_divisor = 16, coded_height_divisor = 2, bytes_per_row_divisor = 32,
      start_offset_divisor = 2, display_width_divisor = 1, display_height_divisor = 1,
      required_min_coded_width = 640, required_max_coded_width = 640,
      required_min_coded_height = 480, required_max_coded_height = 480,
      required_min_bytes_per_row = 4294967295, required_max_bytes_per_row = 0\<rparr>"

definition ex_combined :: collection_constraints where
  "ex_combined =
     \<lparr>usage = \<lparr>none = 1, cpu = 0, vulkan = 0, display = 1, video = 1\<rparr>,
      min_buffer_count_for_camping = 5, min_buffer_count_for_dedicated_slack = 0,
      min_buffer_count_for_shared_slack = 0, min_buffer_count = 0, max_buffer_count = 8,
      buffer_memory_constraints =
        \<lparr>min_size_bytes = 1, max_size_bytes = 4294967295, physically_contiguous_required = False,
         secure_required = False, cpu_domain_supported = True, ram_domain_supported = True,
         inaccessible_domain_supported = True, heap_permitted = []\<rparr>,
      image_format_constraints = [ex_combined_image],
      need_clear_aux_buffers_for_secure = False, allow_clear_aux_buffers_for_secure = False\<rparr>"

lemma ex_combine: "CombineConstraints ex_lib 2 [ex_decoder, ex_display] = Some (Some ex_combined)"
  by code_simp

text \<open>A setting that both participants admit.\<close>

definition ex_setting :: setting where
  "ex_setting = \<lparr>g_count = 5,
     g_buffer = \<lparr>s_size = 460800, s_contiguous = False, s_secure = False, s_domain = kRam, s_heap = kSystemRam\<rparr>,
     g_image = Some \<lparr>p_format = \<lparr>pf_type = 2, format_modifier_value = 0\<rparr>, p_color = Some kRec709,
       p_width = 640, p_height = 480, p_bytes_per_row = 640, p_start_offset = 0,
       p_display_width = 640, p_display_height = 480\<rparr>\<rparr>"

lemma ex_setting_combined: "collection_admits ex_lib ex_combined ex_setting"
  by (simp add: collection_admits_def ex_combined_def ex_setting_def memory_sat_def IsHeapPermitted_def
      images_admit_def ex_combined_image_def image_admits_def image_sat_def point_aligned_def ex_lib_def)

text \<open>What the two participants ask for once the defaults are set.\<close>

definition ex_decoder_checked :: collection_constraints where
  "ex_decoder_checked =
     the (the (CheckSanitizeBufferCollectionConstraints ex_lib kNotAggregated ex_decoder))"

definition ex_display_checked :: collection_constraints where
  "ex_display_checked =
     the (the (CheckSanitizeBufferCollectionConstraints ex_lib kNotAggregated ex_display))"

lemma ex_decoder_ok: "sanitized ex_lib ex_decoder ex_decoder_checked"
proof -
  have "CheckSanitizeBufferCollectionConstraints ex_lib kNotAggregated ex_decoder =
      Some (Some ex_decoder_checked)" by code_simp
  then show ?thesis by (simp add: sanitized_def)
qed

lemma ex_display_ok: "sanitized ex_lib ex_display ex_display_checked"
proof -
  have "CheckSanitizeBufferCollectionConstraints ex_lib kNotAggregated ex_display =
      Some (Some ex_display_checked)" by code_simp
  then show ?thesis by (simp add: sanitized_def)
qed

lemma ex_all_ok: "list_all2 (sanitized ex_lib) [ex_decoder, ex_display] [ex_decoder_checked, ex_display_checked]"
  by (simp add: ex_decoder_ok ex_display_ok)

text \<open>Two participants that ask for more buffers than 32 bits can count.\<close>

definition ex_greedy :: w_collection_constraints where
  "ex_greedy = ex_decoder\<lparr>w_min_buffer_count_for_camping := Some 2147483648\<rparr>"

text \<open>
  Two participants that support the same two formats, with nothing in common for the first and the same for the second.
\<close>

definition ex_narrow :: w_collection_constraints where
  "ex_narrow = empty_constraints\<lparr>
     w_usage := Some (empty_usage\<lparr>w_display := Some 1\<rparr>),
     w_image_format_constraints := Some
       [(ex_image 1 [Some kSrgb])\<lparr>w_min_coded_width := Some 16, w_min_coded_height := Some 16,
          w_max_coded_width := Some 100\<rparr>,
        ex_image 2 [Some kRec709]]\<rparr>"

definition ex_wide :: w_collection_constraints where
  "ex_wide = empty_constraints\<lparr>
     w_usage := Some (empty_usage\<lparr>w_video := Some 1\<rparr>),
     w_image_format_constraints := Some
       [(ex_image 1 [Some kSrgb])\<lparr>w_min_coded_width := Some 200, w_min_coded_height := Some 16\<rparr>,
        ex_image 2 [Some kRec709]]\<rparr>"

text \<open>A device with one heap in system RAM, and the platform constants.\<close>

definition ex_device :: sysmem_device where
  "ex_device =
     (let ram = \<lparr>coherency_domain_support =
                  Some \<lparr>cpu_supported = True, ram_supported = True, inaccessible_supported = False\<rparr>\<rparr>
      in \<lparr>contiguous_system_ram_allocator = Some ram,
          allocators = (\<lambda>h. if h = kSystemRam then Some ram else None),
          max_allocation_size = 18446744073709551615, pdev_device_info_vid = 5, pdev_device_info_pid = 4\<rparr>)"

definition ex_costs :: cost_lib where
  "ex_costs =
     \<lparr>kBgra32 = 1, kR8G8B8A8 = 3, kNv12 = 2, PDEV_VID_AMLOGIC = 5, PDEV_PID_AMLOGIC_S912 = 2,
      PDEV_PID_AMLOGIC_S905D2 = 4, PDEV_PID_AMLOGIC_T931 = 5, PDEV_PID_AMLOGIC_A311D = 6,
      kArmAfbc16X16SplitBlockSparseYuvTeTiledHeader = 0x3071, kArmAfbc16X16Te = 0x1001, kArmAfbc32X8Te = 0x1002,
      kArmAfbc16X16SplitBlockSparseYuvTe = 0x1071, kArmAfbc16X16SplitBlockSparseYuvTiledHeader = 0x2071,
      kArmAfbc16X16SplitBlockSparseYuv = 0x71, kArmAfbc16X16YuvTiledHeader = 0x2011, kArmAfbc16X16 = 0x01,
      kArmAfbc32X8 = 0x02, kArmLinearTe = 0x1000, kArmYuvBit = 0x10, kArmTiledHeaderBit = 0x2000,
      kArmSparseBit = 0x40, kArmTeBit = 0x1000,
      kIntelI915YfTiledCcs = 0x100005, kIntelI915YTiledCcs = 0x100004, kIntelI915YfTiled = 0x100003,
      kIntelI915YTiled = 0x100002, kIntelI915XTiled = 0x100001\<rparr>"

definition ex_alloc :: alloc_lib where
  "ex_alloc = \<lparr>ImageFormatImageSize = (\<lambda>i. f_bytes_per_row i * f_coded_height i * 3 div 2),
     kMaxCountBufferCollectionInfoBuffers = 64\<rparr>"

definition ex_info :: collection_info where
  "ex_info = \<lparr>vmo_usable_starts = [0, 0, 0, 0, 0],
     r_buffer_settings = \<lparr>size_bytes = 460800, is_physically_contiguous = False, is_secure = False,
       coherency_domain = kRam, heap = kSystemRam\<rparr>,
     r_image_format_constraints = Some ex_combined_image\<rparr>"

lemma ex_generate: "GenerateUnpopulatedBufferCollectionInfo ex_lib ex_costs ex_alloc ex_device ex_combined =
    Some (Inr ex_info)"
  by code_simp

text \<open>The constraints of both before the last checks.\<close>

definition ex_acc :: collection_constraints where
  "ex_acc = ex_combined\<lparr>image_format_constraints :=
     [ex_combined_image\<lparr>color_spaces := [Some kRec601Ntsc, Some kRec709]\<rparr>]\<rparr>"

lemma ex_aggregate:
  "CheckSanitizeBufferCollectionConstraints ex_lib kAggregated (collection_table ex_acc) = Some (Some ex_combined)"
  by code_simp

lemma ex_acc_ok: "collection_ok ex_lib ex_acc"
proof -
  have p: "IsNonZeroPowerOf2 1" "IsNonZeroPowerOf2 2" "IsNonZeroPowerOf2 16" "IsNonZeroPowerOf2 32"
    by code_simp+
  have s: "ImageFormatIsSupported ex_lib \<lparr>pf_type = 2, format_modifier_value = 0\<rparr>" by (simp add: ex_lib_def)
  show ?thesis
    using p [unfolded One_nat_def] s
    by (simp add: collection_ok_def ex_acc_def ex_combined_def images_ok_def ex_lib_ok image_ok_def
        ex_combined_image_def)
qed

text \<open>A participant that only permits a heap that the device does not have.\<close>

definition ex_other_heap :: w_collection_constraints where
  "ex_other_heap = ex_decoder\<lparr>w_buffer_memory_constraints :=
     Some (empty_memory\<lparr>w_heap_permitted := Some [OtherHeap 7]\<rparr>)\<rparr>"

text \<open>Handles for the buffers, by index.\<close>

definition ex_handles :: "memory_settings \<Rightarrow> nat \<Rightarrow> nat vmo_result" where
  "ex_handles s i = Vmo_made (100 + i)"

end
