(* ===== verification/Sysmem_Settings_Correct.thy ===== *)
theory Sysmem_Settings_Correct
  imports Sysmem_Settings_Examples
begin

text \<open>
  The properties of the aggregation of constraints, of the choice of a pixel format and of the
  settings computed from them, each followed by an instance on the decoder and the display of the examples.
\<close>

section \<open>Combining constraints\<close>

text \<open>
  C16: Whatever setting the combined constraints admit, every participant admits it: for each
  participant the constraints passed the checks, and a setting of buffer count, memory and image
  within the combined constraints is within that participant's own.
\<close>

theorem combine_sound:
  assumes "lib_ok lib" "CombineConstraints lib n ws = Some (Some r)" "w \<in> set ws"
  shows "\<exists>c. CheckSanitizeBufferCollectionConstraints lib kNotAggregated w = Some (Some c) \<and>
    (\<forall>s. collection_admits lib r s \<longrightarrow> collection_admits lib c s)"
  using CombineConstraints_admits [OF assms] by (auto simp: sanitized_def)

theorem combine_sound_witness: "\<exists>c. CheckSanitizeBufferCollectionConstraints ex_lib kNotAggregated ex_display = Some (Some c) \<and>
    collection_admits ex_lib c ex_setting"
  using combine_sound [OF ex_lib_ok ex_combine, of ex_display] ex_setting_combined by auto

text \<open>
  C17: The image sizes that participants require are within what the combined constraints allow. For each
  image format of the result and each participant with image formats there is a format of that
  participant with the same pixel format, and its required widths, heights and row sizes are between the
  bounds of the result.
\<close>

theorem combine_keeps_required:
  assumes "lib_ok lib" "CombineConstraints lib n ws = Some (Some r)" "w \<in> set ws"
    and "i \<in> set (image_format_constraints r)"
  shows "\<exists>c. CheckSanitizeBufferCollectionConstraints lib kNotAggregated w = Some (Some c) \<and>
    (image_format_constraints c = [] \<or> (\<exists>j\<in>set (image_format_constraints c).
       i_pixel_format j = i_pixel_format i \<and>
       min_coded_width i \<le> required_min_coded_width j \<and> required_max_coded_width j \<le> max_coded_width i \<and>
       min_coded_height i \<le> required_min_coded_height j \<and> required_max_coded_height j \<le> max_coded_height i \<and>
       min_bytes_per_row i \<le> required_min_bytes_per_row j \<and> required_max_bytes_per_row j \<le> max_bytes_per_row i))"
proof -
  obtain acc cs where a: "list_all2 (sanitized lib) ws cs" "\<forall>c\<in>set cs. collection_ok lib c" "collection_ok lib acc"
    "fold_step (AccumulateConstraintBufferCollection lib) (initial_constraints lib) cs = Some (Some acc)"
    "CheckSanitizeBufferCollectionConstraints lib kAggregated (collection_table acc) = Some (Some r)"
    using CombineConstraints_Some [OF assms(1,2)] by blast
  obtain c where c: "c \<in> set cs" "sanitized lib w c"
    using list_all2_set1 [OF a(1) assms(3)] by blast
  have "collection_requires acc c"
    using fold_requires [OF initial_constraints(2) [OF assms(1)] a(2,4)] c(1) by blast
  then have rc: "collection_requires r c"
    using collection_requires_trans [OF aggregated_narrows(2) [OF a(3,5)]] by blast
  obtain x where "image_narrows lib i x"
    using list_all2_set1 [OF aggregated_Some(1) [OF a(3,5)] assms(4)] by blast
  then have k: "image_checks lib (i\<lparr>color_spaces := color_spaces x\<rparr>)" by (simp add: image_narrows_def)
  have bounds: "min_coded_width i \<le> required_min_coded_width i" "required_max_coded_width i \<le> max_coded_width i"
    "min_coded_height i \<le> required_min_coded_height i" "required_max_coded_height i \<le> max_coded_height i"
    "min_bytes_per_row i \<le> required_min_bytes_per_row i" "required_max_bytes_per_row i \<le> max_bytes_per_row i"
    using k by (simp_all add: image_checks_def not_less)
  have "image_format_constraints c = [] \<or> (\<exists>j\<in>set (image_format_constraints c). image_requires i j)"
    using rc assms(4) by (auto simp: collection_requires_def)
  then show ?thesis
    using c(2) bounds unfolding sanitized_def image_requires_def by (fastforce intro: order_trans)
qed

theorem combine_keeps_required_witness:
  "\<exists>c. CheckSanitizeBufferCollectionConstraints ex_lib kNotAggregated ex_decoder = Some (Some c) \<and>
    (image_format_constraints c = [] \<or> (\<exists>j\<in>set (image_format_constraints c). i_pixel_format j = \<lparr>pf_type = 2, format_modifier_value = 0\<rparr> \<and>
       16 \<le> required_min_coded_width j \<and> required_max_coded_width j \<le> 4096))"
proof -
  have i: "ex_combined_image \<in> set (image_format_constraints ex_combined)" by (simp add: ex_combined_def)
  show ?thesis
    using combine_keeps_required [OF ex_lib_ok ex_combine _ i, of ex_decoder] by (auto simp: ex_combined_image_def)
qed

text \<open>
  C18: Combining constraints never aborts: with at least one connected client and one set of constraints, no assertion on
  the way fires, whatever tables the participants sent.
\<close>

theorem combine_never_asserts:
  assumes "lib_ok lib" "n \<noteq> 0" "ws \<noteq> []"
  shows "CombineConstraints lib n ws \<noteq> None"
proof -
  have acc: "accumulate_all lib (initial_constraints lib) ws \<noteq> None"
    by (rule accumulate_all_total [OF assms(1) initial_constraints(2) [OF assms(1)]])
  have agg: "CheckSanitizeBufferCollectionConstraints lib kAggregated (collection_table x) \<noteq> None" for x
    by (rule sanitize_collection_total [OF assms(1)]) (simp_all add: collection_table_def)
  show ?thesis
    unfolding CombineConstraints_def IsMinBufferSizeSpecifiedByAnyParticipant_def initial_constraints(1)
    by (intro totalI) (use assms acc agg in auto)
qed

theorem combine_never_asserts_witness: "CombineConstraints ex_lib 1 [ex_narrow, ex_wide] \<noteq> None"
  by (rule combine_never_asserts) (simp_all add: ex_lib_ok)

text \<open>
  C19: Accumulating the constraints of the participants fails only when they have no setting in
  common, and the order in which they are taken does not matter: when a setting is within all of
  them, then in any order the accumulation succeeds, and what it returns admits exactly the settings that
  all of them admit.
\<close>

theorem accumulate_any_order:
  assumes "lib_ok lib" "list_all2 (sanitized lib) ws cs" "\<forall>c\<in>set cs. collection_admits lib c s"
    and "g_count s \<le> u32_max" "1 \<le> s_size (g_buffer s)" "s_size (g_buffer s) \<le> u32_max"
    and "mset ws' = mset ws"
  shows "\<exists>r. accumulate_all lib (initial_constraints lib) ws' = Some (Some r) \<and>
    (\<forall>t. collection_admits lib r t \<longleftrightarrow> collection_admits lib (initial_constraints lib) t \<and>
       (\<forall>c\<in>set cs. collection_admits lib c t))"
proof -
  note init = initial_constraints(2) [OF assms(1)]
  obtain cs' where cs': "list_all2 (sanitized lib) ws' cs'" "mset cs' = mset cs"
    using list_all2_reorder_left_invariance [OF assms(2,7)] by metis
  have same: "set cs' = set cs" using cs'(2) by (rule mset_eq_setD)
  have ok: "\<forall>c\<in>set cs'. collection_ok lib c" by (rule sanitized_ok [OF assms(1) cs'(1)])
  have s0: "collection_admits lib (initial_constraints lib) s" using assms(4-6) by (simp add: initial_constraints(4))
  obtain r where r: "fold_step (AccumulateConstraintBufferCollection lib) (initial_constraints lib) cs' = Some (Some r)"
    using collection.fold_common [OF init ok s0] assms(3) same by auto
  show ?thesis
    using r collection.fold_meet [OF init ok r] same by (auto simp: accumulate_all_fold [OF cs'(1)])
qed

theorem accumulate_any_order_witness:
  "\<exists>r. accumulate_all ex_lib (initial_constraints ex_lib) [ex_display, ex_decoder] = Some (Some r) \<and>
    collection_admits ex_lib r ex_setting"
proof -
  have d: "collection_admits ex_lib ex_decoder_checked ex_setting" "collection_admits ex_lib ex_display_checked ex_setting"
    using CombineConstraints_admits [OF ex_lib_ok ex_combine, of ex_decoder]
      CombineConstraints_admits [OF ex_lib_ok ex_combine, of ex_display]
      ex_setting_combined ex_decoder_ok ex_display_ok by (auto simp: sanitized_def)
  have "collection_admits ex_lib (initial_constraints ex_lib) ex_setting"
    by (simp add: initial_constraints(4) ex_setting_def u32_max_def W32_def)
  moreover have "mset [ex_display, ex_decoder] = mset [ex_decoder, ex_display]" by simp
  ultimately show ?thesis
    using accumulate_any_order [OF ex_lib_ok ex_all_ok, of ex_setting "[ex_display, ex_decoder]"] d
    by (auto simp: ex_setting_def u32_max_def W32_def)
qed

text \<open>
  The aggregated constraints keep a single colour space per image format. It is one of those the
  participants have in common, and none of them has a lower rank.
\<close>

theorem aggregated_best_color:
  assumes "collection_ok lib acc" "k < length (image_format_constraints acc)"
    and "CheckSanitizeBufferCollectionConstraints lib kAggregated (collection_table acc) = Some (Some r)"
  shows "\<exists>t m. color_spaces (image_format_constraints r ! k) = [Some t] \<and>
    Some t \<in> set (color_spaces (image_format_constraints acc ! k)) \<and> kColorSpaceRanking t = Some m \<and>
    (\<nexists>u v. Some u \<in> set (color_spaces (image_format_constraints acc ! k)) \<and> kColorSpaceRanking u = Some v \<and> v < m)"
proof -
  have lib: "lib_ok lib" using assms(1) by (simp add: collection_ok_def images_ok_def)
  obtain images where s:
    "sanitize_images lib kAggregated (map image_table (image_format_constraints acc)) = Some (Some images)"
    "choose_color_spaces images = Some (image_format_constraints r)"
    using sanitize_collection_Some [OF assms(3)] by (auto simp: collection_table_def field_default_def)
  have ch: "list_all2 color_chosen images (image_format_constraints r)"
    using choose_color_spaces_spec [of images lib] sanitize_images_ok [OF s(1) lib] s(2) by auto
  have sk: "CheckSanitizeImageFormatConstraints lib kAggregated (image_table (image_format_constraints acc ! k)) =
      Some (Some (images ! k))" and k: "k < length images"
    using sanitize_images_Some [OF s(1)] assms(2) by (auto simp: list_all2_conv_all_nth)
  have e: "images ! k = (image_format_constraints acc ! k)\<lparr>min_bytes_per_row := min_bytes_per_row (images ! k)\<rparr>"
    using sanitize_image_Some(4) [OF sk] by simp
  have "color_spaces (images ! k) = color_spaces (image_format_constraints acc ! k)" by (subst e) simp
  moreover have "color_chosen (images ! k) (image_format_constraints r ! k)"
    using ch k by (simp add: list_all2_conv_all_nth)
  ultimately show ?thesis unfolding color_chosen_def by (force simp: not_less)
qed
theorem aggregated_best_color_witness:
  "\<exists>t m. color_spaces (image_format_constraints ex_combined ! 0) = [Some t] \<and>
    Some t \<in> set (color_spaces (image_format_constraints ex_acc ! 0)) \<and> kColorSpaceRanking t = Some m \<and>
    (\<nexists>u v. Some u \<in> set (color_spaces (image_format_constraints ex_acc ! 0)) \<and> kColorSpaceRanking u = Some v \<and> v < m)"
  by (rule aggregated_best_color [OF ex_acc_ok _ ex_aggregate]) (simp add: ex_acc_def)

text \<open>
  The buffers that participants need together: those they hold at once, the slack that each wants for itself, and the
  largest slack that they can share.
\<close>

definition asked_together :: "w_collection_constraints list \<Rightarrow> nat" where
  "asked_together ws = (\<Sum>w\<leftarrow>ws. default_zero (w_min_buffer_count_for_camping w)) +
     (\<Sum>w\<leftarrow>ws. default_zero (w_min_buffer_count_for_dedicated_slack w)) +
     fold max (map (\<lambda>w. default_zero (w_min_buffer_count_for_shared_slack w)) ws) 0"

text \<open>
  C25: The number of buffers is exactly what the participants ask for. If the counts do not overflow 32 bits, the
  settings have as many buffers as all participants hold at once plus the slack each wants for itself plus the largest slack
  they share, or the largest minimum that one of them gave if that is more.
\<close>

theorem generated_count_exact:
  assumes "lib_ok lib" "CombineConstraints lib n ws = Some (Some c)"
    and "GenerateUnpopulatedBufferCollectionInfo lib k al dev c = Some (Inr info)" "asked_together ws < 2 ^ 32"
  shows "length (vmo_usable_starts info) =
    max (asked_together ws) (fold max (map (\<lambda>w. default_zero (w_min_buffer_count w)) ws) 0)"
proof -
  obtain n where n: "n = max (u32_add (u32_add (min_buffer_count_for_camping c) (min_buffer_count_for_dedicated_slack c))
      (min_buffer_count_for_shared_slack c)) (min_buffer_count c)" "length (vmo_usable_starts info) = n"
    using generate_Some [OF assms(3)] generate_sizes_Some by fastforce
  note t = CombineConstraints_counts [OF assms(1,2)]
  have "u32_add (u32_add (min_buffer_count_for_camping c) (min_buffer_count_for_dedicated_slack c))
      (min_buffer_count_for_shared_slack c) = asked_together ws"
    using assms(4) by (simp add: t asked_together_def u32_add_def W32_def)
  then show ?thesis using n t(4) by simp
qed

theorem generated_count_exact_witness: "length (vmo_usable_starts ex_info) = 5"
proof -
  have "asked_together [ex_decoder, ex_display] = 5" by code_simp
  moreover have "fold max (map (\<lambda>w. default_zero (w_min_buffer_count w)) [ex_decoder, ex_display]) 0 = 0" by code_simp
  ultimately show ?thesis using generated_count_exact [OF ex_lib_ok ex_combine ex_generate] by simp
qed

text \<open>
  C20: Two participants that each hold \<open>2^31\<close> buffers at once are combined to a collection in which participants
  hold none: the sum wraps, and the settings are generated with no error and no buffers.
\<close>

theorem camping_sum_wraps:
  "\<exists>r. CombineConstraints ex_lib 2 [ex_greedy, ex_greedy] = Some (Some r) \<and> min_buffer_count_for_camping r = 0 \<and>
    (\<exists>info. GenerateUnpopulatedBufferCollectionInfo ex_lib ex_costs ex_alloc ex_device r = Some (Inr info) \<and>
       vmo_usable_starts info = [])"
proof -
  define r where "r = the (the (CombineConstraints ex_lib 2 [ex_greedy, ex_greedy]))"
  define info where "info = projr (the (GenerateUnpopulatedBufferCollectionInfo ex_lib ex_costs ex_alloc ex_device r))"
  have "CombineConstraints ex_lib 2 [ex_greedy, ex_greedy] = Some (Some r)" unfolding r_def by code_simp
  moreover have "min_buffer_count_for_camping r = 0" unfolding r_def by code_simp
  moreover have "GenerateUnpopulatedBufferCollectionInfo ex_lib ex_costs ex_alloc ex_device r = Some (Inr info)"
    unfolding info_def r_def by code_simp
  moreover have "vmo_usable_starts info = []" unfolding info_def r_def by code_simp
  ultimately show ?thesis by blast
qed

text \<open>
  C21: A pixel format that all participants support, but with no size in common, is not dropped: the whole
  combination is refused, although the participants agree on a setting of their other format.
\<close>

theorem empty_format_refuses_all:
  "\<exists>c d s. CheckSanitizeBufferCollectionConstraints ex_lib kNotAggregated ex_narrow = Some (Some c) \<and>
    CheckSanitizeBufferCollectionConstraints ex_lib kNotAggregated ex_wide = Some (Some d) \<and>
    collection_admits ex_lib c s \<and> collection_admits ex_lib d s \<and>
    CombineConstraints ex_lib 2 [ex_narrow, ex_wide] = Some None"
proof -
  define c where "c = the (the (CheckSanitizeBufferCollectionConstraints ex_lib kNotAggregated ex_narrow))"
  define d where "d = the (the (CheckSanitizeBufferCollectionConstraints ex_lib kNotAggregated ex_wide))"
  have c: "CheckSanitizeBufferCollectionConstraints ex_lib kNotAggregated ex_narrow = Some (Some c)"
    unfolding c_def by code_simp
  have d: "CheckSanitizeBufferCollectionConstraints ex_lib kNotAggregated ex_wide = Some (Some d)"
    unfolding d_def by code_simp
  define i where "i = image_format_constraints c ! 1"
  have mem: "buffer_memory_constraints c = buffer_memory_constraints (initial_constraints ex_lib)"
    "buffer_memory_constraints d = buffer_memory_constraints (initial_constraints ex_lib)"
    "min_buffer_count c = 0" "max_buffer_count c = 4294967295"
    "min_buffer_count d = 0" "max_buffer_count d = 4294967295"
    unfolding c_def d_def by code_simp+
  have im: "i \<in> set (image_format_constraints c)" "i \<in> set (image_format_constraints d)"
    unfolding i_def c_def d_def by code_simp+
  have i: "i = ex_combined_image\<lparr>min_coded_width := 0, max_coded_width := 4294967295, min_coded_height := 0,
      max_coded_height := 4294967295, min_bytes_per_row := 0, coded_width_divisor := 1, coded_height_divisor := 1,
      bytes_per_row_divisor := 1, start_offset_divisor := 1, required_min_coded_width := 4294967295,
      required_max_coded_width := 0, required_min_coded_height := 4294967295, required_max_coded_height := 0\<rparr>"
    unfolding i_def c_def by code_simp
  define p where "p = the (g_image ex_setting)"
  have p: "g_image ex_setting = Some p" "image_admits ex_lib i p"
    by (simp_all add: p_def ex_setting_def i ex_combined_image_def image_admits_def image_sat_def
        point_aligned_def ex_lib_def)
  have "collection_admits ex_lib (initial_constraints ex_lib) ex_setting"
    by (simp add: initial_constraints(4) ex_setting_def u32_max_def W32_def)
  then have "collection_admits ex_lib c ex_setting" "collection_admits ex_lib d ex_setting"
    using p im mem by (auto simp: collection_admits_def images_admit_def ex_setting_def)
  moreover have "CombineConstraints ex_lib 2 [ex_narrow, ex_wide] = Some None" by code_simp
  ultimately show ?thesis using c d by blast
qed

section \<open>Choosing a pixel format\<close>

text \<open>
  C22: The cost of an image format is that of the closest matching entry of the effective table of the platform,
  as the comment on the table promises: among the entries with an equal pixel format whose usage bits are
  all in use, the first one with the most bits; the default cost if there is none. The
  loop over the chain of platforms ends.
\<close>

theorem cost_of_closest_match:
  assumes "index < length (image_format_constraints c)"
  shows "\<exists>b. GetCost lib k vid pid c index = Some (case b of None \<Rightarrow> kDefaultCost | Some e \<Rightarrow> cost e) \<and>
    first_best (entry_matches lib c index) (entry_bits c) (effective_costs lib k (FindPlatform k vid pid)) b"
  using GetCost_spec [OF assms] by blast

theorem cost_of_closest_match_witness:
  "\<exists>b. GetCost ex_lib ex_costs 5 4 ex_combined 0 = Some (case b of None \<Rightarrow> kDefaultCost | Some e \<Rightarrow> cost e) \<and>
    first_best (entry_matches ex_lib ex_combined 0) (entry_bits ex_combined)
      (effective_costs ex_lib ex_costs (FindPlatform ex_costs 5 4)) b"
  by (rule cost_of_closest_match) (simp add: ex_combined_def)

text \<open>The loop over the 32 bits counts the bits set in both words.\<close>

theorem shared_bits_popcount: "SharedBitsCount a b = card {i. i < 32 \<and> bit a i \<and> bit b i}"
  by (rule SharedBitsCount_card)

text \<open>
  C23: The image format that is picked has the least cost of those that can be used, that is of all
  of them or, for secure buffers, of those that work with protected memory; none is picked exactly when none can be used.
\<close>

theorem picked_format_least_cost:
  assumes "best_format lib k dev c secure = Some r"
  defines "usable i \<equiv> \<not> (secure \<and> \<not> ImageFormatCompatibleWithProtectedMemory lib
      (i_pixel_format (image_format_constraints c ! i)))"
  defines "f i \<equiv> the (GetCost lib k (pdev_device_info_vid dev) (pdev_device_info_pid dev) c i)"
  shows "(\<forall>b. r = Some b \<longrightarrow> b < length (image_format_constraints c) \<and> usable b \<and>
      (\<forall>i<length (image_format_constraints c). usable i \<longrightarrow> f b \<le> f i)) \<and>
    (r = None \<longleftrightarrow> (\<forall>i<length (image_format_constraints c). \<not> usable i))"
  unfolding usable_def f_def by (rule best_format_least [OF assms(1)])

theorem picked_format_least_cost_witness:
  "best_format ex_lib ex_costs ex_device ex_combined True = Some (Some 0) \<and>
   ImageFormatCompatibleWithProtectedMemory ex_lib (i_pixel_format (image_format_constraints ex_combined ! 0))"
proof -
  have e: "best_format ex_lib ex_costs ex_device ex_combined True = Some (Some 0)" by code_simp
  show ?thesis using picked_format_least_cost [OF e] e by simp
qed

section \<open>Settings\<close>

text \<open>When nothing wraps, \<open>AlignUp\<close> gives the least multiple of the divisor that is not below the value.\<close>

theorem AlignUp_least:
  assumes "v + d \<le> 2 ^ 32" "0 < d"
  shows "v \<le> AlignUp v d \<and> d dvd AlignUp v d \<and> (\<nexists>x. v \<le> x \<and> d dvd x \<and> x < AlignUp v d)"
  using AlignUp_spec [of v d] assms by (fastforce simp: W32_def not_less)

theorem AlignUp_least_witness: "641 \<le> AlignUp 641 16 \<and> 16 dvd AlignUp 641 16 \<and>
    (\<nexists>x. 641 \<le> x \<and> 16 dvd x \<and> x < AlignUp 641 16)"
  by (rule AlignUp_least) simp_all

text \<open>
  C24: The generated settings are within fixed limits: at most 256 MiB per buffer and 1 GiB in all, computed
  without wrap-around, never more buffers than the protocol allows, and no buffer of size 0.
\<close>

theorem generated_sizes_bounded:
  assumes "GenerateUnpopulatedBufferCollectionInfo lib k al dev c = Some (Inr info)"
    and "kMaxCountBufferCollectionInfoBuffers al \<le> 2 ^ 32"
  shows "1 \<le> size_bytes (r_buffer_settings info) \<and> size_bytes (r_buffer_settings info) \<le> 256 * 1024 * 1024 \<and>
    size_bytes (r_buffer_settings info) * length (vmo_usable_starts info) \<le> 1024 * 1024 * 1024 \<and>
    length (vmo_usable_starts info) \<le> kMaxCountBufferCollectionInfoBuffers al"
proof -
  obtain n s where n: "n \<le> kMaxCountBufferCollectionInfoBuffers al" "generate_sizes lib k al dev c n s = Some (Inr info)"
    using generate_Some [OF assms(1)] by blast
  obtain sz where sz: "1 \<le> sz" "r_buffer_settings info = s\<lparr>size_bytes := sz\<rparr>"
    "u64_mul sz n \<le> kMaxTotalSizeBytesPerCollection" "sz \<le> kMaxSizeBytesPerBuffer"
    "length (vmo_usable_starts info) = n"
    using generate_sizes_Some [OF n(2)] by auto
  have "sz * n \<le> 2 ^ 28 * 2 ^ 32"
    using sz(4) n(1) assms(2) by (intro mult_le_mono) (simp_all add: kMaxSizeBytesPerBuffer_def)
  then have "u64_mul sz n = sz * n" by (simp add: u64_mul_def W64_def)
  then show ?thesis
    using sz n(1) by (simp add: kMaxSizeBytesPerBuffer_def kMaxTotalSizeBytesPerCollection_def)
qed

theorem generated_sizes_bounded_witness:
  "size_bytes (r_buffer_settings ex_info) * length (vmo_usable_starts ex_info) \<le> 1024 * 1024 * 1024"
  using generated_sizes_bounded [OF ex_generate] by (simp add: ex_alloc_def)

text \<open>
  When \<open>Allocate\<close> succeeds there is one buffer per entry of the settings, each with the handle that was made
  for its index and with its start reset to 0; a buffer has an auxiliary handle exactly when the
  buffers are secure and some participant needs one; and exactly the handles of the buffers were entered in
  \<open>parent_vmos_\<close>.
\<close>

theorem Allocate_buffers:
  assumes "Allocate dev allocate_vmo c info = Some (hs, Inr bs)"
  shows "length bs = length (vmo_usable_starts info) \<and> hs = handles_of bs \<and>
    list_all (\<lambda>b. vmo_usable_start b = 0 \<and>
      (aux_vmo b = None \<longleftrightarrow> \<not> (is_secure (r_buffer_settings info) \<and> need_clear_aux_buffers_for_secure c))) bs \<and>
    map (\<lambda>b. Vmo_made (vmo b)) bs = map (allocate_vmo (r_buffer_settings info)) [0..<length bs]"
proof -
  define aux where "aux = (if is_secure (r_buffer_settings info) \<and> need_clear_aux_buffers_for_secure c
    then Some (aux_settings (r_buffer_settings info)) else None)"
  have run: "allocate_loop allocate_vmo (r_buffer_settings info) aux [0..<length (vmo_usable_starts info)] = (hs, Inr bs)"
    using assms unfolding Allocate_def Let_def aux_def
    by (auto simp: bind_eq_Some_conv split: option.splits list.splits)
  note a = conjunct1 [OF allocate_loop_Inr [OF run]]
  have len: "length bs = length (vmo_usable_starts info)" using list_all2_lengthD [OF a] by simp
  have each: "allocate_vmo (r_buffer_settings info) i = Vmo_made (vmo (bs ! i))" "vmo_usable_start (bs ! i) = 0"
    "aux_vmo (bs ! i) = None \<longleftrightarrow> aux = None" if "i < length bs" for i
    using list_all2_nthD2 [OF a that] len that by (simp, simp, metis)
  have aux: "aux = None \<longleftrightarrow> \<not> (is_secure (r_buffer_settings info) \<and> need_clear_aux_buffers_for_secure c)"
    by (simp add: aux_def)
  show ?thesis
    using len each(2,3) aux allocate_loop_Inr [OF run] by (auto simp: list_all_length each(1) intro!: nth_equalityI)
qed

theorem Allocate_buffers_witness:
  "\<exists>hs bs. Allocate ex_device ex_handles ex_combined ex_info = Some (hs, Inr bs) \<and> length bs = 5"
proof -
  have "Allocate ex_device ex_handles ex_combined ex_info = Some ([100, 101, 102, 103, 104],
      Inr (map (\<lambda>i. \<lparr>vmo = 100 + i, aux_vmo = None, vmo_usable_start = 0\<rparr>) [0, 1, 2, 3, 4]))" by code_simp
  from Allocate_buffers [OF this] this show ?thesis by (simp add: ex_info_def)
qed

text \<open>
  C26: A participant that permits only a heap which the device does not have gets no error: looking up the
  properties of that heap aborts.
\<close>

theorem unknown_heap_aborts:
  "\<exists>r. CombineConstraints ex_lib 1 [ex_other_heap] = Some (Some r) \<and>
    GenerateUnpopulatedBufferCollectionInfo ex_lib ex_costs ex_alloc ex_device r = None"
proof -
  define r where "r = the (the (CombineConstraints ex_lib 1 [ex_other_heap]))"
  have "CombineConstraints ex_lib 1 [ex_other_heap] = Some (Some r)" unfolding r_def by code_simp
  moreover have "GenerateUnpopulatedBufferCollectionInfo ex_lib ex_costs ex_alloc ex_device r = None"
    unfolding r_def by code_simp
  ultimately show ?thesis by blast
qed

end
