(* ===== verification/Sysmem_Nodes.thy ===== *)
theory Sysmem_Nodes
  imports Sysmem_Allocation
begin

text \<open>
  The tree of nodes of a logical buffer collection: \<open>node_properties.cc\<close>, \<open>node.cc\<close> and the parts of
  \<open>logical_buffer_collection.cc\<close> that only look at the tree or at the counts kept in it.

  The code links \<open>NodeProperties\<close> objects with raw pointers. Here a store maps addresses to objects: an address is an index
  into a list, a deleted object leaves \<^term>\<open>None\<close> behind, and a new object gets an address that was never used.
  Following a pointer to a deleted object is an abort (\<^term>\<open>None\<close>). The children of a node are kept in an
  \<open>unordered_map\<close>; the order of the list stands for its order of iteration, on which nothing below depends.
\<close>

section \<open>Data\<close>

datatype ErrorPropagationMode = kPropagate | kPropagateBeforeAllocation | kDoNotPropagate

type_synonym addr = nat

text \<open>The settings with the handles of the buffers, and what a node is told once buffers are allocated.\<close>

record populated_info =
  unpopulated :: collection_info
  buffers :: "nat vmo_buffer list"

record AllocationResult =
  result_status :: zx_status
  buffer_collection_info :: "populated_info option"

text \<open>
  The state of a token and of a collection. A transaction that waits for buffers and the server end of
  a lifetime tracking request are numbers.
\<close>

record token_state =
  t_is_done :: bool
  buffer_collection_request :: bool
  t_server_binding :: bool
  t_async_failure_result :: "zx_status option"

record collection_state =
  is_set_constraints_seen :: bool
  is_set_constraints_aux_buffers_seen :: bool
  constraints_aux_buffers :: bool
  is_done :: bool
  server_binding :: bool
  async_failure_result :: "zx_status option"
  logical_allocation_result :: "AllocationResult option"
  pending_wait_for_buffers_allocated :: "nat list"
  pending_lifetime_tracking :: "(nat \<times> nat) list"

datatype node = Token token_state | Collection collection_state | Orphaned

record node_properties =
  parent :: "addr option"
  node :: "node option"
  children :: "addr list"
  client_debug_info :: "string \<times> nat"
  rights_attenuation_mask :: "32 word"
  error_propagation_mode :: ErrorPropagationMode
  buffers_logically_allocated :: bool
  buffer_collection_constraints :: "w_collection_constraints option"
  node_count :: nat
  connected_client_count :: nat
  buffer_collection_count :: nat
  buffer_collection_token_count :: nat

type_synonym node_store = "node_properties option list"

definition node_at :: "node_store \<Rightarrow> addr \<Rightarrow> node_properties option" where
  "node_at st a = (if a < length st then st ! a else None)"

definition put :: "node_store \<Rightarrow> addr \<Rightarrow> node_properties \<Rightarrow> node_store" where
  "put st a p = st[a := Some p]"

definition new_properties :: node_properties where
  "new_properties =
     \<lparr>parent = None, node = None, children = [], client_debug_info = ([], 0), rights_attenuation_mask = - 1,
      error_propagation_mode = kPropagate, buffers_logically_allocated = False, buffer_collection_constraints = None,
      node_count = 0, connected_client_count = 0, buffer_collection_count = 0, buffer_collection_token_count = 0\<rparr>"

section \<open>The kinds of node\<close>

fun is_connected :: "node \<Rightarrow> bool" where
  "is_connected (Token t) = True"
| "is_connected (Collection c) = True"
| "is_connected Orphaned = False"

fun is_buffer_collection :: "node \<Rightarrow> bool" where
  "is_buffer_collection (Collection c) = True"
| "is_buffer_collection _ = False"

fun is_buffer_collection_token :: "node \<Rightarrow> bool" where
  "is_buffer_collection_token (Token t) = True"
| "is_buffer_collection_token _ = False"

fun ReadyForAllocation :: "node_properties \<Rightarrow> node \<Rightarrow> bool" where
  "ReadyForAllocation p (Token t) = False"
| "ReadyForAllocation p (Collection c) = (buffer_collection_constraints p \<noteq> None)"
| "ReadyForAllocation p Orphaned = True"

section \<open>Counts\<close>

definition adjust_one :: "(nat \<Rightarrow> nat) \<Rightarrow> node \<Rightarrow> node_properties \<Rightarrow> node_properties" where
  "adjust_one visitor n p = p\<lparr>node_count := visitor (node_count p),
     connected_client_count := (if is_connected n then visitor (connected_client_count p) else connected_client_count p),
     buffer_collection_count :=
       (if is_buffer_collection n then visitor (buffer_collection_count p) else buffer_collection_count p),
     buffer_collection_token_count :=
       (if is_buffer_collection_token n then visitor (buffer_collection_token_count p)
        else buffer_collection_token_count p)\<rparr>"

partial_function (option) AdjustRelevantNodeCounts ::
  "addr option \<Rightarrow> node \<Rightarrow> (nat \<Rightarrow> nat) \<Rightarrow> node_store \<Rightarrow> node_store option" where
  "AdjustRelevantNodeCounts iter n visitor st =
     (case iter of
        None \<Rightarrow> Some st
      | Some a \<Rightarrow> do {
          p \<leftarrow> node_at st a;
          AdjustRelevantNodeCounts (parent p) n visitor (put st a (adjust_one visitor n p)) })"

declare AdjustRelevantNodeCounts.simps [code]

definition AddCountsForNode :: "node_store \<Rightarrow> addr \<Rightarrow> node \<Rightarrow> node_store option" where
  "AddCountsForNode st a n = AdjustRelevantNodeCounts (Some a) n (\<lambda>c. u32_add c 1) st"

definition RemoveCountsForNode :: "node_store \<Rightarrow> addr \<Rightarrow> node \<Rightarrow> node_store option" where
  "RemoveCountsForNode st a n = AdjustRelevantNodeCounts (Some a) n (\<lambda>c. u32_sub c 1) st"

section \<open>Making, changing and deleting nodes\<close>

definition NewRoot :: "node_store \<Rightarrow> node_store \<times> addr" where
  "NewRoot st = (st @ [Some new_properties], length st)"

definition NewChild :: "node_store \<Rightarrow> addr \<Rightarrow> (node_store \<times> addr) option" where
  "NewChild st a = do {
     p \<leftarrow> node_at st a;
     Some (put st a (p\<lparr>children := children p @ [length st]\<rparr>) @
         [Some (new_properties\<lparr>parent := Some a, client_debug_info := client_debug_info p,
            rights_attenuation_mask := rights_attenuation_mask p\<rparr>)],
       length st) }"

text \<open>The destructor. It walks up from the node to take it out of the counts.\<close>

definition delete_node :: "node_store \<Rightarrow> addr \<Rightarrow> node_store option" where
  "delete_node st a = do {
     p \<leftarrow> node_at st a;
     zx_assert (children p = []);
     st \<leftarrow> (case node p of None \<Rightarrow> Some st | Some n \<Rightarrow> RemoveCountsForNode st a n);
     Some (st[a := None]) }"

definition DeleteRoot :: "node_store \<Rightarrow> addr option \<Rightarrow> (node_store \<times> addr option) option" where
  "DeleteRoot st root = (case root of
      None \<Rightarrow> Some (st, None)
    | Some r \<Rightarrow> do { st \<leftarrow> delete_node st r; Some (st, None) })"

definition RemoveFromTreeAndDelete ::
  "node_store \<Rightarrow> addr option \<Rightarrow> addr \<Rightarrow> (node_store \<times> addr option) option" where
  "RemoveFromTreeAndDelete st root a = do {
     p \<leftarrow> node_at st a;
     zx_assert (children p = []);
     case parent p of
       Some local_parent \<Rightarrow> do {
         let st = put st a (p\<lparr>parent := None\<rparr>);
         q \<leftarrow> node_at st local_parent;
         st \<leftarrow> delete_node (put st local_parent (q\<lparr>children := remove1 a (children q)\<rparr>)) a;
         Some (st, root) }
     | None \<Rightarrow> DeleteRoot st root }"

definition SetBuffersLogicallyAllocated :: "node_store \<Rightarrow> addr \<Rightarrow> node_store option" where
  "SetBuffersLogicallyAllocated st a = do {
     p \<leftarrow> node_at st a;
     zx_assert (\<not> buffers_logically_allocated p);
     Some (put st a (p\<lparr>buffers_logically_allocated := True\<rparr>)) }"

definition SetBufferCollectionConstraints :: "node_store \<Rightarrow> addr \<Rightarrow> w_collection_constraints \<Rightarrow> node_store option" where
  "SetBufferCollectionConstraints st a c = do {
     p \<leftarrow> node_at st a;
     zx_assert (buffer_collection_constraints p = None);
     Some (put st a (p\<lparr>buffer_collection_constraints := Some c\<rparr>)) }"

definition NewTemporary :: "w_collection_constraints \<Rightarrow> string \<Rightarrow> node_properties" where
  "NewTemporary c debug_name =
     new_properties\<lparr>buffer_collection_constraints := Some c, client_debug_info := (debug_name, 0)\<rparr>"

definition SetNode :: "node_store \<Rightarrow> addr \<Rightarrow> node \<Rightarrow> node_store option" where
  "SetNode st a n = do {
     st \<leftarrow> AddCountsForNode st a n;
     p \<leftarrow> node_at st a;
     st \<leftarrow> (case node p of None \<Rightarrow> Some st | Some old \<Rightarrow> RemoveCountsForNode st a old);
     p \<leftarrow> node_at st a;
     Some (put st a (p\<lparr>node := Some n\<rparr>)) }"

section \<open>Breadth-first order\<close>

record NodeFilterResult =
  keep_node :: bool
  iterate_children :: bool

text \<open>A filter looks at the store and may itself abort. With no filter every node is kept.\<close>

type_synonym node_filter = "addr \<Rightarrow> NodeFilterResult option"

definition all_nodes :: node_filter where
  "all_nodes a = Some \<lparr>keep_node = True, iterate_children = True\<rparr>"

text \<open>The inner loop: the children to add to the result and those to visit later.\<close>

fun visit_children :: "node_filter \<Rightarrow> addr list \<Rightarrow> (addr list \<times> addr list) option" where
  "visit_children filt [] = Some ([], [])"
| "visit_children filt (c # cs) = do {
     r \<leftarrow> filt c;
     (kept, later) \<leftarrow> visit_children filt cs;
     Some ((if keep_node r then c # kept else kept), (if iterate_children r then c # later else later)) }"

text \<open>
  The outer loop. The list holds the entries of \<open>iterate_children_tmp\<close> from the index on; new entries go to its end.
\<close>

partial_function (option) breadth_first ::
  "addr list \<Rightarrow> addr list \<Rightarrow> node_store \<Rightarrow> node_filter \<Rightarrow> addr list option" where
  "breadth_first pending result st filt =
     (case pending of
        [] \<Rightarrow> Some result
      | a # pending \<Rightarrow> do {
          p \<leftarrow> node_at st a;
          (kept, later) \<leftarrow> visit_children filt (children p);
          breadth_first (pending @ later) (result @ kept) st filt })"

declare breadth_first.simps [code]

definition BreadthFirstOrder :: "node_store \<Rightarrow> node_filter \<Rightarrow> addr \<Rightarrow> addr list option" where
  "BreadthFirstOrder st filt a = do {
     r \<leftarrow> filt a;
     breadth_first (if iterate_children r then [a] else []) (if keep_node r then [a] else []) st filt }"

section \<open>Questions about the tree\<close>

partial_function (option) included_loop :: "node_store \<Rightarrow> bool \<Rightarrow> addr option \<Rightarrow> bool option" where
  "included_loop st included iter =
     (case iter of
        None \<Rightarrow> Some included
      | Some a \<Rightarrow> do {
          p \<leftarrow> node_at st a;
          included_loop st (if error_propagation_mode p = kDoNotPropagate then False else included) (parent p) })"

declare included_loop.simps [code]

definition IsPotentiallyIncludedInInitialAllocation :: "node_store \<Rightarrow> addr \<Rightarrow> bool option" where
  "IsPotentiallyIncludedInInitialAllocation st a = included_loop st True (Some a)"

text \<open>The loop of \<open>FindTreeToFail\<close>; logging is left out.\<close>

partial_function (option) FindTreeToFail :: "node_store \<Rightarrow> addr \<Rightarrow> addr option" where
  "FindTreeToFail st iter = do {
     p \<leftarrow> node_at st iter;
     case parent p of
       None \<Rightarrow> Some iter
     | Some up \<Rightarrow>
         (case error_propagation_mode p of
            kPropagate \<Rightarrow> FindTreeToFail st up
          | kPropagateBeforeAllocation \<Rightarrow> do {
              q \<leftarrow> node_at st up;
              zx_assert (buffers_logically_allocated q = buffers_logically_allocated p);
              if \<not> buffers_logically_allocated p then FindTreeToFail st up else Some iter }
          | kDoNotPropagate \<Rightarrow> Some iter) }"

declare FindTreeToFail.simps [code]

definition failure_domain_filter :: "node_store \<Rightarrow> node_filter" where
  "failure_domain_filter st a = do {
     p \<leftarrow> node_at st a;
     Some (if parent p = None then \<lparr>keep_node = True, iterate_children = True\<rparr>
           else if error_propagation_mode p \<noteq> kPropagate then \<lparr>keep_node = True, iterate_children = True\<rparr>
           else \<lparr>keep_node = False, iterate_children = True\<rparr>) }"

definition FailureDomainSubtrees :: "node_store \<Rightarrow> addr option \<Rightarrow> addr list option" where
  "FailureDomainSubtrees st root = (case root of
      None \<Rightarrow> Some []
    | Some r \<Rightarrow> BreadthFirstOrder st (failure_domain_filter st) r)"

definition eligible_filter :: "node_store \<Rightarrow> node_filter" where
  "eligible_filter st a = do {
     p \<leftarrow> node_at st a;
     if buffers_logically_allocated p then Some \<lparr>keep_node = False, iterate_children = True\<rparr>
     else do {
       parent_allocated \<leftarrow> (case parent p of
           None \<Rightarrow> Some True
         | Some b \<Rightarrow> do { q \<leftarrow> node_at st b; Some (buffers_logically_allocated q) });
       if \<not> parent_allocated then Some \<lparr>keep_node = False, iterate_children = False\<rparr>
       else do {
         zx_assert (parent p = None \<or> error_propagation_mode p = kDoNotPropagate);
         Some \<lparr>keep_node = True, iterate_children = False\<rparr> } } }"

definition PrunedSubtreesEligibleForLogicalAllocation :: "node_store \<Rightarrow> addr option \<Rightarrow> addr list option" where
  "PrunedSubtreesEligibleForLogicalAllocation st root = (case root of
      None \<Rightarrow> Some []
    | Some r \<Rightarrow> BreadthFirstOrder st (eligible_filter st) r)"

text \<open>The filter that walks up to the root of the sub-tree.\<close>

partial_function (option) pruned_filter :: "node_store \<Rightarrow> addr \<Rightarrow> addr option \<Rightarrow> NodeFilterResult option" where
  "pruned_filter st subtree iter =
     (case iter of
        None \<Rightarrow> Some \<lparr>keep_node = False, iterate_children = True\<rparr>
      | Some a \<Rightarrow>
          if a = subtree then Some \<lparr>keep_node = True, iterate_children = True\<rparr>
          else do {
            p \<leftarrow> node_at st a;
            if error_propagation_mode p = kDoNotPropagate
            then Some \<lparr>keep_node = False, iterate_children = False\<rparr>
            else pruned_filter st subtree (parent p) })"

declare pruned_filter.simps [code]

definition NodesOfPrunedSubtreeEligibleForLogicalAllocation ::
  "node_store \<Rightarrow> addr option \<Rightarrow> addr \<Rightarrow> addr list option" where
  "NodesOfPrunedSubtreeEligibleForLogicalAllocation st root subtree = do {
     p \<leftarrow> node_at st subtree;
     zx_assert (\<not> buffers_logically_allocated p);
     parent_allocated \<leftarrow> (if root = Some subtree then Some True
       else case parent p of None \<Rightarrow> None
         | Some b \<Rightarrow> do { q \<leftarrow> node_at st b; Some (buffers_logically_allocated q) });
     zx_assert parent_allocated;
     BreadthFirstOrder st (\<lambda>a. pruned_filter st subtree (Some a)) subtree }"

text \<open>
  \<open>FailDownFrom\<close>: the nodes of a sub-tree are failed and deleted from the last of the breadth-first order to the first. The result
  also has the nodes whose channel \<open>Fail\<close> closes, in order.
\<close>

fun Fail_closes :: "node \<Rightarrow> bool" where
  "Fail_closes (Token t) = t_server_binding t"
| "Fail_closes (Collection c) = server_binding c"
| "Fail_closes Orphaned = False"

fun fail_loop :: "node_store \<Rightarrow> addr option \<Rightarrow> addr list \<Rightarrow> (node_store \<times> addr option \<times> addr list) option" where
  "fail_loop st root [] = Some (st, root, [])"
| "fail_loop st root (child_most # rest) = do {
     p \<leftarrow> node_at st child_most;
     zx_assert (children p = []);
     n \<leftarrow> node p;
     (st, root) \<leftarrow> RemoveFromTreeAndDelete st root child_most;
     (st, root, closed) \<leftarrow> fail_loop st root rest;
     Some (st, root, if Fail_closes n then child_most # closed else closed) }"

definition FailDownFrom :: "node_store \<Rightarrow> addr option \<Rightarrow> addr \<Rightarrow> (node_store \<times> addr option \<times> addr list) option" where
  "FailDownFrom st root tree_to_fail = do {
     order \<leftarrow> BreadthFirstOrder st all_nodes tree_to_fail;
     fail_loop st root (rev order) }"

definition FailNode :: "node_store \<Rightarrow> addr option \<Rightarrow> addr \<Rightarrow> (node_store \<times> addr option \<times> addr list) option" where
  "FailNode st root member_node = do {
     tree_to_fail \<leftarrow> FindTreeToFail st member_node;
     FailDownFrom st root tree_to_fail }"

fun collections_of :: "node_store \<Rightarrow> addr list \<Rightarrow> addr list option" where
  "collections_of st [] = Some []"
| "collections_of st (a # as) = do {
     p \<leftarrow> node_at st a;
     n \<leftarrow> node p;
     rest \<leftarrow> collections_of st as;
     Some (if is_buffer_collection n then a # rest else rest) }"

definition collection_views :: "node_store \<Rightarrow> addr option \<Rightarrow> addr list option" where
  "collection_views st root = (case root of
      None \<Rightarrow> Some []
    | Some r \<Rightarrow> do { ns \<leftarrow> BreadthFirstOrder st all_nodes r; collections_of st ns })"

end
