(* ===== verification/Sysmem_Collection.thy ===== *)
theory Sysmem_Collection
  imports Sysmem_Nodes
begin

text \<open>
  A logical buffer collection and the messages its participants send: \<open>buffer_collection_token.cc\<close>, \<open>buffer_collection.cc\<close>,
  \<open>orphaned_node.cc\<close> and the parts of \<open>logical_buffer_collection.cc\<close> that create, allocate and fail. Every handler takes the
  state and returns the next one, or \<^term>\<open>None\<close> for an abort. What is sent to the clients is appended to \<open>outputs\<close>.

  The channel library is not modelled: a message is one call of a handler, and the end of a channel is a call of the error handler with the status
  that the library reports. Functions of other libraries (cloning tables, converting between versions of the protocol, creating
  a VMO) are fields of \<open>collection_lib\<close>; the bytes of an encoded table are only compared, by \<open>BytesMatch\<close> on the tables. Logging, tracing, inspection and timers are left out, as are the tables of the
  device that find a token by the identity of its channel.
\<close>

section \<open>Data\<close>

text \<open>What a client receives of the buffers.\<close>

record sent_info =
  sent_settings :: collection_info
  sent_vmos :: "(nat option \<times> nat option) list"

datatype client_output =
  Synced addr
| NewTokens addr "addr list"
| Closed addr zx_status
| Checked addr zx_status
| Allocated addr nat zx_status "sent_info option"
| AuxBuffers addr sent_info
| LifetimeEnded nat

record collection_lib =
  c_lib :: sysmem_lib
  c_costs :: cost_lib
  c_alloc :: alloc_lib
  c_device :: sysmem_device
  AllocateVmo :: "memory_settings \<Rightarrow> nat \<Rightarrow> nat vmo_result"
  V2CloneBufferCollectionInfo :: "collection_info \<Rightarrow> zx_status + collection_info"
  V2CloneForSending :: "populated_info \<Rightarrow> 32 word \<Rightarrow> 32 word \<Rightarrow> zx_status + sent_info"
  V1MoveFromV2BufferCollectionInfo :: "sent_info \<Rightarrow> sent_info option"
  V1AuxBuffersMoveFromV2BufferCollectionInfo :: "sent_info \<Rightarrow> sent_info option"
  BytesMatch :: "collection_info \<Rightarrow> collection_info \<Rightarrow> bool"
  reply_result :: "nat \<Rightarrow> zx_status"
  ZX_RIGHT_SAME_RIGHTS :: "32 word"
  ZX_RIGHT_TRANSFER :: "32 word"
  ZX_RIGHT_DUPLICATE :: "32 word"
  ZX_RIGHT_WAIT :: "32 word"
  ZX_RIGHT_READ :: "32 word"
  ZX_RIGHT_WRITE :: "32 word"
  ZX_RIGHTS_PROPERTY :: "32 word"
  ZX_RIGHT_MAP :: "32 word"

record lbc =
  store :: node_store
  tree_root :: "addr option"
  is_allocate_attempted :: bool
  has_allocation_result :: bool
  allocation_result_status :: zx_status
  allocation_result_info :: "populated_info option"
  info_before_population :: "collection_info option"
  linearized_before_population :: "collection_info option"
  collection_name :: "(nat \<times> string) option"
  lifetime_tracking :: "(nat \<times> nat) list"
  parent_vmos :: "nat list"
  outputs :: "client_output list"

definition emit :: "lbc \<Rightarrow> client_output \<Rightarrow> lbc" where
  "emit l x = l\<lparr>outputs := outputs l @ [x]\<rparr>"

definition update_node :: "lbc \<Rightarrow> addr \<Rightarrow> (node_properties \<Rightarrow> node_properties) \<Rightarrow> lbc option" where
  "update_node l a f = do { p \<leftarrow> node_at (store l) a; Some (l\<lparr>store := put (store l) a (f p)\<rparr>) }"

definition get_token :: "lbc \<Rightarrow> addr \<Rightarrow> token_state option" where
  "get_token l a = do {
     p \<leftarrow> node_at (store l) a;
     n \<leftarrow> node p;
     case n of Token t \<Rightarrow> Some t | _ \<Rightarrow> None }"

definition set_token :: "lbc \<Rightarrow> addr \<Rightarrow> token_state \<Rightarrow> lbc option" where
  "set_token l a t = update_node l a (\<lambda>p. p\<lparr>node := Some (Token t)\<rparr>)"

definition get_collection :: "lbc \<Rightarrow> addr \<Rightarrow> collection_state option" where
  "get_collection l a = do {
     p \<leftarrow> node_at (store l) a;
     n \<leftarrow> node p;
     case n of Collection c \<Rightarrow> Some c | _ \<Rightarrow> None }"

definition set_collection :: "lbc \<Rightarrow> addr \<Rightarrow> collection_state \<Rightarrow> lbc option" where
  "set_collection l a c = update_node l a (\<lambda>p. p\<lparr>node := Some (Collection c)\<rparr>)"

definition new_token :: token_state where
  "new_token = \<lparr>t_is_done = False, buffer_collection_request = False, t_server_binding = False,
     t_async_failure_result = None\<rparr>"

definition new_collection :: collection_state where
  "new_collection = \<lparr>is_set_constraints_seen = False, is_set_constraints_aux_buffers_seen = False,
     constraints_aux_buffers = False, is_done = False, server_binding = False, async_failure_result = None,
     logical_allocation_result = None, pending_wait_for_buffers_allocated = [], pending_lifetime_tracking = []\<rparr>"

section \<open>Failing\<close>

definition fail_down :: "lbc \<Rightarrow> addr \<Rightarrow> zx_status \<Rightarrow> lbc option" where
  "fail_down l tree_to_fail epitaph = do {
     (st, r, closed) \<leftarrow> FailDownFrom (store l) (tree_root l) tree_to_fail;
     let l' = l\<lparr>store := st, tree_root := r, outputs := outputs l @ map (\<lambda>a. Closed a epitaph) closed\<rparr>;
     Some (if tree_root l = Some tree_to_fail then l'\<lparr>allocation_result_info := None\<rparr> else l') }"

definition FailRootNode :: "lbc \<Rightarrow> zx_status \<Rightarrow> lbc option" where
  "FailRootNode l epitaph = do { r \<leftarrow> tree_root l; fail_down l r epitaph }"

definition fail_node :: "lbc \<Rightarrow> addr \<Rightarrow> zx_status \<Rightarrow> lbc option" where
  "fail_node l member_node epitaph = do {
     tree_to_fail \<leftarrow> FindTreeToFail (store l) member_node;
     fail_down l tree_to_fail epitaph }"

text \<open>A handler that refuses a message closes the channel; the rest happens when the end of the channel is reported.\<close>

definition token_FailSync :: "lbc \<Rightarrow> addr \<Rightarrow> zx_status \<Rightarrow> lbc option" where
  "token_FailSync l a status = do {
     t \<leftarrow> get_token l a;
     l \<leftarrow> set_token l a (t\<lparr>t_async_failure_result := Some status\<rparr>);
     Some (emit l (Closed a status)) }"

definition token_FailAsync :: "lbc \<Rightarrow> addr \<Rightarrow> zx_status \<Rightarrow> lbc option" where
  "token_FailAsync l a status = do {
     t \<leftarrow> get_token l a;
     if \<not> t_server_binding t then Some l
     else do {
       l \<leftarrow> set_token l a (t\<lparr>t_async_failure_result := Some status, t_server_binding := False\<rparr>);
       Some (emit l (Closed a status)) } }"

definition FailSync :: "lbc \<Rightarrow> addr \<Rightarrow> zx_status \<Rightarrow> lbc option" where
  "FailSync l a status = do {
     c \<leftarrow> get_collection l a;
     l \<leftarrow> set_collection l a (c\<lparr>async_failure_result := Some status\<rparr>);
     Some (emit l (Closed a status)) }"

definition FailAsync :: "lbc \<Rightarrow> addr \<Rightarrow> zx_status \<Rightarrow> lbc option" where
  "FailAsync l a status = do {
     c \<leftarrow> get_collection l a;
     if \<not> server_binding c then Some l
     else do {
       l \<leftarrow> set_collection l a (c\<lparr>async_failure_result := Some status, server_binding := False\<rparr>);
       Some (emit l (Closed a status)) } }"

section \<open>The rights of a client\<close>

definition kMaxClientVmoRights :: "collection_lib \<Rightarrow> 32 word" where
  "kMaxClientVmoRights env = ZX_RIGHT_TRANSFER env OR ZX_RIGHT_DUPLICATE env OR ZX_RIGHT_WAIT env OR ZX_RIGHT_READ env OR
     ZX_RIGHT_WRITE env OR ZX_RIGHTS_PROPERTY env OR ZX_RIGHT_MAP env"

definition GetUsageBasedRightsAttenuation :: "collection_lib \<Rightarrow> node_properties \<Rightarrow> 32 word option" where
  "GetUsageBasedRightsAttenuation env p = do {
     c \<leftarrow> buffer_collection_constraints p;
     Some (case w_usage c of
        None \<Rightarrow> NOT (ZX_RIGHT_WRITE env)
      | Some u \<Rightarrow> if IsWriteUsage (c_lib env) u then - 1 else NOT (ZX_RIGHT_WRITE env)) }"

definition GetClientVmoRights :: "collection_lib \<Rightarrow> node_properties \<Rightarrow> 32 word option" where
  "GetClientVmoRights env p = do {
     attenuation \<leftarrow> GetUsageBasedRightsAttenuation env p;
     Some (kMaxClientVmoRights env AND attenuation AND rights_attenuation_mask p) }"

definition GetClientAuxVmoRights :: "collection_lib \<Rightarrow> node_properties \<Rightarrow> 32 word option" where
  "GetClientAuxVmoRights env p = GetClientVmoRights env p"

definition no_vmos :: "sent_info \<Rightarrow> sent_info" where
  "no_vmos v = v\<lparr>sent_vmos := map (\<lambda>_. (None, None)) (sent_vmos v)\<rparr>"

definition CloneResultForSendingV2 ::
  "collection_lib \<Rightarrow> lbc \<Rightarrow> addr \<Rightarrow> populated_info \<Rightarrow> (lbc \<times> sent_info option) option" where
  "CloneResultForSendingV2 env l a info = do {
     p \<leftarrow> node_at (store l) a;
     rights \<leftarrow> GetClientVmoRights env p;
     aux_rights \<leftarrow> GetClientAuxVmoRights env p;
     case V2CloneForSending env info rights aux_rights of
       Inl e \<Rightarrow> do { l \<leftarrow> FailAsync l a e; Some (l, None) }
     | Inr v \<Rightarrow> do {
         c \<leftarrow> buffer_collection_constraints p;
         Some (l, Some (case w_usage c of
            None \<Rightarrow> no_vmos v
          | Some u \<Rightarrow> if IsAnyUsage u then v else no_vmos v)) } }"

definition CloneResultForSendingV1 ::
  "collection_lib \<Rightarrow> (sent_info \<Rightarrow> sent_info option) \<Rightarrow> lbc \<Rightarrow> addr \<Rightarrow> populated_info \<Rightarrow> (lbc \<times> sent_info option) option" where
  "CloneResultForSendingV1 env to_v1 l a info = do {
     (l, v2) \<leftarrow> CloneResultForSendingV2 env l a info;
     case v2 of
       None \<Rightarrow> Some (l, None)
     | Some v \<Rightarrow>
         (case to_v1 v of
            None \<Rightarrow> do { l \<leftarrow> FailAsync l a ZX_ERR_INVALID_ARGS; Some (l, None) }
          | Some v1 \<Rightarrow> Some (l, Some v1)) }"

section \<open>Telling the participants about buffers\<close>

text \<open>What a waiting client is sent: nothing if copying failed, otherwise the settings after a success.\<close>

definition result_to_send ::
  "collection_lib \<Rightarrow> AllocationResult \<Rightarrow> lbc \<Rightarrow> addr \<Rightarrow> (lbc \<times> sent_info option option) option" where
  "result_to_send env r l a =
     (if result_status r = ZX_OK
      then do {
        info \<leftarrow> buffer_collection_info r;
        (l, v1) \<leftarrow> CloneResultForSendingV1 env (V1MoveFromV2BufferCollectionInfo env) l a info;
        Some (l, map_option Some v1) }
      else Some (l, Some None))"

fun complete_waits :: "collection_lib \<Rightarrow> AllocationResult \<Rightarrow> addr \<Rightarrow> nat list \<Rightarrow> lbc \<Rightarrow> lbc option" where
  "complete_waits env r a [] l = Some l"
| "complete_waits env r a (txn # rest) l = do {
     c \<leftarrow> get_collection l a;
     l \<leftarrow> set_collection l a (c\<lparr>pending_wait_for_buffers_allocated := rest\<rparr>);
     (l, v1) \<leftarrow> result_to_send env r l a;
     case v1 of
       None \<Rightarrow> Some l
     | Some v \<Rightarrow>
         let l = emit l (Allocated a txn (result_status r) v) in
         if reply_result env txn \<noteq> ZX_OK then FailAsync l a (reply_result env txn)
         else complete_waits env r a rest l }"

definition MaybeCompleteWaitForBuffersAllocated :: "collection_lib \<Rightarrow> lbc \<Rightarrow> addr \<Rightarrow> lbc option" where
  "MaybeCompleteWaitForBuffersAllocated env l a = do {
     c \<leftarrow> get_collection l a;
     case logical_allocation_result c of
       None \<Rightarrow> Some l
     | Some r \<Rightarrow> complete_waits env r a (pending_wait_for_buffers_allocated c) l }"

text \<open>
  Lifetime tracking: the requests are kept in the order of the number of buffers that may remain, and the sweep drops requests from
  the end as long as no more buffers than that are left.
\<close>

function sweep :: "nat \<Rightarrow> (nat \<times> nat) list \<Rightarrow> (nat \<times> nat) list \<times> nat list" where
  "sweep n xs =
     (if xs = [] then ([], [])
      else if fst (last xs) < n then (xs, [])
      else let (ys, ended) = sweep n (butlast xs) in (ys, snd (last xs) # ended))"
  by pat_completeness auto
termination by (relation "measure (\<lambda>(n, xs). length xs)") auto

declare sweep.simps [simp del]

definition SweepLifetimeTracking :: "lbc \<Rightarrow> lbc" where
  "SweepLifetimeTracking l =
     (let (xs, ended) = sweep (length (parent_vmos l)) (lifetime_tracking l)
      in l\<lparr>lifetime_tracking := xs, outputs := outputs l @ map LifetimeEnded ended\<rparr>)"

definition AttachLifetimeTracking :: "lbc \<Rightarrow> nat \<Rightarrow> nat \<Rightarrow> lbc" where
  "AttachLifetimeTracking l server_end buffers_remaining =
     (let xs = lifetime_tracking l in
      SweepLifetimeTracking (l\<lparr>lifetime_tracking :=
        takeWhile (\<lambda>(n, _). n \<le> buffers_remaining) xs @ (buffers_remaining, server_end) #
        dropWhile (\<lambda>(n, _). n \<le> buffers_remaining) xs\<rparr>))"

definition flush_pending :: "lbc \<Rightarrow> AllocationResult \<Rightarrow> (nat \<times> nat) list \<Rightarrow> lbc" where
  "flush_pending l r pending =
     (if result_status r \<noteq> ZX_OK then l
      else fold (\<lambda>(server_end, n) l. AttachLifetimeTracking l server_end n) pending l)"

definition MaybeFlushPendingLifetimeTracking :: "lbc \<Rightarrow> addr \<Rightarrow> lbc option" where
  "MaybeFlushPendingLifetimeTracking l a = do {
     p \<leftarrow> node_at (store l) a;
     c \<leftarrow> get_collection l a;
     if \<not> buffers_logically_allocated p then Some l
     else do {
       r \<leftarrow> logical_allocation_result c;
       set_collection (flush_pending l r (pending_lifetime_tracking c)) a (c\<lparr>pending_lifetime_tracking := []\<rparr>) } }"

definition allocation_result :: "lbc \<Rightarrow> AllocationResult option" where
  "allocation_result l = do {
     zx_assert (has_allocation_result l \<or> allocation_result_status l = ZX_OK \<and> allocation_result_info l = None);
     zx_assert (\<not> (has_allocation_result l \<and> allocation_result_status l = ZX_OK \<and> allocation_result_info l = None));
     Some \<lparr>result_status = allocation_result_status l, buffer_collection_info = allocation_result_info l\<rparr> }"

definition set_allocated :: "lbc \<Rightarrow> addr \<Rightarrow> lbc option" where
  "set_allocated l a = do { st \<leftarrow> SetBuffersLogicallyAllocated (store l) a; Some (l\<lparr>store := st\<rparr>) }"

definition OnBuffersAllocated :: "collection_lib \<Rightarrow> AllocationResult \<Rightarrow> lbc \<Rightarrow> addr \<Rightarrow> lbc option" where
  "OnBuffersAllocated env r l a = do {
     p \<leftarrow> node_at (store l) a;
     n \<leftarrow> node p;
     case n of
       Token t \<Rightarrow> None
     | Orphaned \<Rightarrow> set_allocated l a
     | Collection c \<Rightarrow> do {
         zx_assert (logical_allocation_result c = None);
         zx_assert ((result_status r = ZX_OK) = (buffer_collection_info r \<noteq> None));
         l \<leftarrow> set_allocated l a;
         l \<leftarrow> set_collection l a (c\<lparr>logical_allocation_result := Some r\<rparr>);
         l \<leftarrow> MaybeCompleteWaitForBuffersAllocated env l a;
         MaybeFlushPendingLifetimeTracking l a } }"

text \<open>The loops that tell a list of nodes, with the assertions before and after each node.\<close>

fun notify_all :: "collection_lib \<Rightarrow> AllocationResult \<Rightarrow> lbc \<Rightarrow> addr list \<Rightarrow> lbc option" where
  "notify_all env r l [] = Some l"
| "notify_all env r l (a # as) = do {
     p \<leftarrow> node_at (store l) a;
     zx_assert (\<not> buffers_logically_allocated p);
     l \<leftarrow> OnBuffersAllocated env r l a;
     q \<leftarrow> node_at (store l) a;
     zx_assert (buffers_logically_allocated q);
     notify_all env r l as }"

end
