(* ===== verification/Sysmem_Logical_Allocation.thy ===== *)
theory Sysmem_Logical_Allocation
  imports Sysmem_Collection
begin

text \<open>
  The allocation of a logical buffer collection: \<open>TryAllocate\<close> for the first allocation, \<open>TryLateLogicalAllocation\<close> for
  sub-trees attached later, and the loop of \<open>MaybeAllocate\<close> that fails sub-trees without clients and then allocates what is ready.
\<close>

section \<open>Setting the result\<close>

text \<open>The status and the info do not change while the nodes are told, so the result is taken once.\<close>

definition SendAllocationResult :: "collection_lib \<Rightarrow> lbc \<Rightarrow> addr list \<Rightarrow> lbc option" where
  "SendAllocationResult env l ns = do {
     zx_assert (has_allocation_result l);
     r \<leftarrow> tree_root l;
     p \<leftarrow> node_at (store l) r;
     zx_assert (buffer_collection_count p \<noteq> 0);
     zx_assert (ns \<noteq> [] \<and> hd ns = r);
     res \<leftarrow> allocation_result l;
     l \<leftarrow> notify_all env res l ns;
     if allocation_result_status l \<noteq> ZX_OK then FailRootNode l (allocation_result_status l) else Some l }"

definition SetFailedAllocationResult :: "collection_lib \<Rightarrow> lbc \<Rightarrow> zx_status \<Rightarrow> lbc option" where
  "SetFailedAllocationResult env l status = do {
     zx_assert (status \<noteq> ZX_OK);
     zx_assert (\<not> has_allocation_result l);
     zx_assert (allocation_result_status l = ZX_OK);
     zx_assert (allocation_result_info l = None);
     let l = l\<lparr>allocation_result_status := status, has_allocation_result := True\<rparr>;
     r \<leftarrow> tree_root l;
     ns \<leftarrow> BreadthFirstOrder (store l) all_nodes r;
     SendAllocationResult env l ns }"

definition SetAllocationResult :: "collection_lib \<Rightarrow> lbc \<Rightarrow> addr list \<Rightarrow> populated_info \<Rightarrow> lbc option" where
  "SetAllocationResult env l ns info = do {
     zx_assert (\<not> has_allocation_result l);
     zx_assert (allocation_result_status l = ZX_OK);
     SendAllocationResult env
       (l\<lparr>allocation_result_status := ZX_OK, allocation_result_info := Some info, has_allocation_result := True\<rparr>) ns }"

definition SetFailedLateLogicalAllocationResult :: "collection_lib \<Rightarrow> lbc \<Rightarrow> addr \<Rightarrow> zx_status \<Rightarrow> lbc option" where
  "SetFailedLateLogicalAllocationResult env l tree status = do {
     zx_assert (status \<noteq> ZX_OK);
     ns \<leftarrow> BreadthFirstOrder (store l) all_nodes tree;
     l \<leftarrow> notify_all env \<lparr>result_status = status, buffer_collection_info = None\<rparr> l ns;
     fail_down l tree status }"

definition SetSucceededLateLogicalAllocationResult :: "collection_lib \<Rightarrow> lbc \<Rightarrow> addr list \<Rightarrow> lbc option" where
  "SetSucceededLateLogicalAllocationResult env l ns = do {
     res \<leftarrow> allocation_result l;
     zx_assert (result_status res = ZX_OK);
     notify_all env res l ns }"

section \<open>The first allocation\<close>

text \<open>The constraints of those nodes that have any. Every node of the list must be ready.\<close>

fun ready_constraints :: "node_store \<Rightarrow> addr list \<Rightarrow> w_collection_constraints list option" where
  "ready_constraints st [] = Some []"
| "ready_constraints st (a # as) = do {
     p \<leftarrow> node_at st a;
     n \<leftarrow> node p;
     zx_assert (ReadyForAllocation p n);
     cs \<leftarrow> ready_constraints st as;
     Some (case buffer_collection_constraints p of None \<Rightarrow> cs | Some c \<Rightarrow> c # cs) }"

text \<open>
  The part after the constraints were combined. The buffers that \<open>Allocate\<close> made stay in \<open>parent_vmos_\<close> also when it
  fails; each leaves when its last child is gone (\<open>OnZeroChildren\<close>).
\<close>

definition allocate_combined :: "collection_lib \<Rightarrow> lbc \<Rightarrow> addr list \<Rightarrow> collection_constraints \<Rightarrow> lbc option" where
  "allocate_combined env l ns combined = do {
     g \<leftarrow> GenerateUnpopulatedBufferCollectionInfo (c_lib env) (c_costs env) (c_alloc env) (c_device env) combined;
     case g of
       Inl e \<Rightarrow> SetFailedAllocationResult env l e
     | Inr info \<Rightarrow> do {
         zx_assert (info_before_population l = None);
         case V2CloneBufferCollectionInfo env info of
           Inl e \<Rightarrow> SetFailedAllocationResult env l e
         | Inr before \<Rightarrow>
             let l = l\<lparr>info_before_population := Some before\<rparr> in
             (case V2CloneBufferCollectionInfo env info of
                Inl e \<Rightarrow> SetFailedAllocationResult env l e
              | Inr tmp \<Rightarrow> do {
                  let l = l\<lparr>linearized_before_population := Some tmp\<rparr>;
                  (vmos, a) \<leftarrow> Allocate (c_device env) (AllocateVmo env) combined info;
                  let l = l\<lparr>parent_vmos := parent_vmos l @ vmos\<rparr>;
                  case a of
                    Inl e \<Rightarrow> SetFailedAllocationResult env l e
                  | Inr bs \<Rightarrow> SetAllocationResult env l ns
                      \<lparr>unpopulated = info, buffers = bs\<rparr> }) } }"

definition TryAllocate :: "collection_lib \<Rightarrow> lbc \<Rightarrow> addr list \<Rightarrow> lbc option" where
  "TryAllocate env l ns = do {
     r \<leftarrow> tree_root l;
     p \<leftarrow> node_at (store l) r;
     zx_assert (connected_client_count p \<noteq> 0);
     zx_assert (\<not> buffers_logically_allocated p);
     zx_assert (ns \<noteq> [] \<and> hd ns = r);
     ws \<leftarrow> ready_constraints (store l) ns;
     zx_assert (ws \<noteq> []);
     combined \<leftarrow> CombineConstraints (c_lib env) (connected_client_count p) ws;
     case combined of
       None \<Rightarrow> SetFailedAllocationResult env l ZX_ERR_NOT_SUPPORTED
     | Some c \<Rightarrow> allocate_combined env l ns c }"

section \<open>Later allocations\<close>

definition IsSecureHeap :: "heap_type \<Rightarrow> bool" where
  "IsSecureHeap h \<longleftrightarrow> h = kAmlogicSecure \<or> h = kAmlogicSecureVdec"

definition logically_allocated_filter :: "node_store \<Rightarrow> node_filter" where
  "logically_allocated_filter st a = do {
     p \<leftarrow> node_at st a;
     Some \<lparr>keep_node = buffers_logically_allocated p, iterate_children = buffers_logically_allocated p\<rparr> }"

fun constraints_of :: "node_store \<Rightarrow> addr list \<Rightarrow> w_collection_constraints list option" where
  "constraints_of st [] = Some []"
| "constraints_of st (a # as) = do {
     p \<leftarrow> node_at st a;
     cs \<leftarrow> constraints_of st as;
     Some (case buffer_collection_constraints p of None \<Rightarrow> cs | Some c \<Rightarrow> c # cs) }"

text \<open>Constraints that ask for what is already allocated.\<close>

definition existing_constraints :: "sysmem_lib \<Rightarrow> collection_info \<Rightarrow> w_collection_constraints option" where
  "existing_constraints lib existing = do {
     let s = r_buffer_settings existing;
     let n = length (vmo_usable_starts existing) mod W32;
     zx_assert (is_secure s = IsSecureHeap (heap s));
     zx_assert (vmo_usable_starts existing \<noteq> []);
     let need_aux = (hd (vmo_usable_starts existing) AND kNeedAuxVmoAlso \<noteq> 0);
     Some (empty_constraints\<lparr>
       w_usage := Some (empty_usage\<lparr>w_none := Some (kNoneUsage lib)\<rparr>),
       w_min_buffer_count := Some n,
       w_max_buffer_count := Some n,
       w_buffer_memory_constraints := Some (empty_memory\<lparr>
         w_min_size_bytes := Some (size_bytes s),
         w_max_size_bytes := Some (size_bytes s),
         w_physically_contiguous_required := (if is_physically_contiguous s then Some True else None),
         w_secure_required := (if is_secure s then Some True else None),
         w_cpu_domain_supported := Some (coherency_domain s = kCpu),
         w_ram_domain_supported := Some (coherency_domain s = kRam),
         w_inaccessible_domain_supported := Some (coherency_domain s = kInaccessible),
         w_heap_permitted := Some [heap s]\<rparr>),
       w_image_format_constraints := (case r_image_format_constraints existing of
           None \<Rightarrow> None | Some i \<Rightarrow> Some [image_table i]),
       w_need_clear_aux_buffers_for_secure := (if need_aux then Some True else None),
       w_allow_clear_aux_buffers_for_secure := Some True\<rparr>) }"

text \<open>All the constraints of a later allocation, in the order of the list that is combined.\<close>

definition late_constraints :: "collection_lib \<Rightarrow> lbc \<Rightarrow> addr list \<Rightarrow> w_collection_constraints list option" where
  "late_constraints env l ns = do {
     r \<leftarrow> tree_root l;
     allocated \<leftarrow> BreadthFirstOrder (store l) (logically_allocated_filter (store l)) r;
     old \<leftarrow> constraints_of (store l) allocated;
     new \<leftarrow> ready_constraints (store l) ns;
     existing \<leftarrow> info_before_population l;
     e \<leftarrow> existing_constraints (c_lib env) existing;
     tmp \<leftarrow> buffer_collection_constraints (NewTemporary e ''sysmem-internals-no-fewer'');
     Some (old @ new @ [tmp]) }"

definition TryLateLogicalAllocation :: "collection_lib \<Rightarrow> lbc \<Rightarrow> addr list \<Rightarrow> lbc option" where
  "TryLateLogicalAllocation env l ns = do {
     zx_assert (is_allocate_attempted l);
     res \<leftarrow> allocation_result l;
     zx_assert (result_status res = ZX_OK \<and> buffer_collection_info res \<noteq> None);
     r \<leftarrow> tree_root l;
     p \<leftarrow> node_at (store l) r;
     zx_assert (connected_client_count p \<noteq> 0);
     ws \<leftarrow> late_constraints env l ns;
     zx_assert (ns \<noteq> []);
     combined \<leftarrow> CombineConstraints (c_lib env) (connected_client_count p) ws;
     case combined of
       None \<Rightarrow> SetFailedLateLogicalAllocationResult env l (hd ns) ZX_ERR_NOT_SUPPORTED
     | Some c \<Rightarrow> do {
         g \<leftarrow> GenerateUnpopulatedBufferCollectionInfo (c_lib env) (c_costs env) (c_alloc env) (c_device env) c;
         case g of
           Inl e \<Rightarrow> SetFailedLateLogicalAllocationResult env l (hd ns) e
         | Inr info \<Rightarrow>
             (case V2CloneBufferCollectionInfo env info of
                Inl e \<Rightarrow> SetFailedLateLogicalAllocationResult env l (hd ns) e
              | Inr tmp \<Rightarrow> do {
                  original \<leftarrow> linearized_before_population l;
                  if \<not> BytesMatch env original tmp
                  then SetFailedLateLogicalAllocationResult env l (hd ns) ZX_ERR_NOT_SUPPORTED
                  else SetSucceededLateLogicalAllocationResult env l ns }) } }"

section \<open>The loop\<close>

fun find_empty :: "node_store \<Rightarrow> addr list \<Rightarrow> addr option option" where
  "find_empty st [] = Some None"
| "find_empty st (a # as) = do {
     p \<leftarrow> node_at st a;
     if connected_client_count p = 0 then Some (Some a) else find_empty st as }"

text \<open>
  Failing domains without clients, from the last to the first, starting over after each. The second component says that the root was
  the one without clients, where the caller returns at once.
\<close>

partial_function (option) fail_empty_domains :: "lbc \<Rightarrow> (lbc \<times> bool) option" where
  "fail_empty_domains l = do {
     failure_domains \<leftarrow> FailureDomainSubtrees (store l) (tree_root l);
     e \<leftarrow> find_empty (store l) (rev failure_domains);
     case e of
       None \<Rightarrow> Some (l, False)
     | Some d \<Rightarrow> do {
         l' \<leftarrow> fail_node l d ZX_ERR_PEER_CLOSED;
         if tree_root l = Some d then Some (l', True) else fail_empty_domains l' } }"

declare fail_empty_domains.simps [code]

fun all_ready :: "node_store \<Rightarrow> addr list \<Rightarrow> bool option" where
  "all_ready st [] = Some True"
| "all_ready st (a # as) = do {
     p \<leftarrow> node_at st a;
     n \<leftarrow> node p;
     if ReadyForAllocation p n then all_ready st as else Some False }"

text \<open>
  The loop over the eligible sub-trees. The result has the state, whether something was done, and whether
  the function returns because the root is gone. The second argument is the number of eligible sub-trees.
\<close>

fun allocate_subtrees :: "collection_lib \<Rightarrow> nat \<Rightarrow> lbc \<Rightarrow> bool \<Rightarrow> addr list \<Rightarrow> (lbc \<times> bool \<times> bool) option" where
  "allocate_subtrees env k l did [] = Some (l, did, False)"
| "allocate_subtrees env k l did (eligible_subtree # rest) =
     (if tree_root l = None then Some (l, did, True)
      else do {
        ns \<leftarrow> NodesOfPrunedSubtreeEligibleForLogicalAllocation (store l) (tree_root l) eligible_subtree;
        zx_assert (ns \<noteq> [] \<and> hd ns = eligible_subtree);
        ready \<leftarrow> all_ready (store l) ns;
        if \<not> ready then allocate_subtrees env k l did rest
        else do {
          zx_assert ((\<not> is_allocate_attempted l) = (tree_root l = Some eligible_subtree));
          zx_assert (is_allocate_attempted l \<or> k = 1);
          if is_allocate_attempted l
          then do {
            l \<leftarrow> TryLateLogicalAllocation env l ns;
            allocate_subtrees env k l True rest }
          else do {
            l \<leftarrow> TryAllocate env (l\<lparr>is_allocate_attempted := True\<rparr>) ns;
            zx_assert (k = 1);
            allocate_subtrees env k l True rest } } })"

partial_function (option) MaybeAllocate :: "collection_lib \<Rightarrow> lbc \<Rightarrow> lbc option" where
  "MaybeAllocate env l = do {
     x \<leftarrow> fail_empty_domains l;
     if snd x \<or> tree_root (fst x) = None then Some (fst x)
     else do {
       eligible_subtrees \<leftarrow> PrunedSubtreesEligibleForLogicalAllocation (store (fst x)) (tree_root (fst x));
       if eligible_subtrees = [] then Some (fst x)
       else do {
         y \<leftarrow> allocate_subtrees env (length eligible_subtrees) (fst x) False eligible_subtrees;
         if snd (snd y) \<or> \<not> fst (snd y) then Some (fst y) else MaybeAllocate env (fst y) } } }"

declare MaybeAllocate.simps [code]

end
