(* ===== verification/Sysmem_Messages.thy ===== *)
theory Sysmem_Messages
  imports Sysmem_Logical_Allocation
begin

text \<open>
  The handlers of the messages on a token and on a collection, the error handlers that run when a channel ends, and the
  steps of a logical buffer collection as a relation. A handler that calls into a library gets what the library answers as an argument.
\<close>

section \<open>Creating tokens and collections\<close>

text \<open>\<open>koids\<close> is the status of reading the identities of the channel.\<close>

definition CreateBufferCollectionToken :: "lbc \<Rightarrow> addr \<Rightarrow> zx_status \<Rightarrow> lbc option" where
  "CreateBufferCollectionToken l new_node_properties koids = do {
     st \<leftarrow> SetNode (store l) new_node_properties (Token new_token);
     let l = l\<lparr>store := st\<rparr>;
     if koids \<noteq> ZX_OK then fail_node l new_node_properties koids
     else set_token l new_node_properties (new_token\<lparr>t_server_binding := True\<rparr>) }"

definition empty_lbc :: lbc where
  "empty_lbc = \<lparr>store = [], tree_root = None, is_allocate_attempted = False, has_allocation_result = False,
     allocation_result_status = ZX_OK, allocation_result_info = None, info_before_population = None,
     linearized_before_population = None, collection_name = None, lifetime_tracking = [], parent_vmos = [], outputs = []\<rparr>"

definition Create :: "zx_status \<Rightarrow> lbc option" where
  "Create koids =
     (let (st, r) = NewRoot (store empty_lbc)
      in CreateBufferCollectionToken (empty_lbc\<lparr>store := st, tree_root := Some r\<rparr>) r koids)"

definition OrphanedNode_EmplaceInTree :: "lbc \<Rightarrow> addr \<Rightarrow> lbc option" where
  "OrphanedNode_EmplaceInTree l a = do { st \<leftarrow> SetNode (store l) a Orphaned; Some (l\<lparr>store := st\<rparr>) }"

definition BindSharedCollectionInternal :: "lbc \<Rightarrow> addr \<Rightarrow> lbc option" where
  "BindSharedCollectionInternal l a = do {
     st \<leftarrow> SetNode (store l) a (Collection new_collection);
     set_collection (l\<lparr>store := st\<rparr>) a (new_collection\<lparr>server_binding := True\<rparr>) }"

definition SetName :: "lbc \<Rightarrow> nat \<Rightarrow> string \<Rightarrow> lbc" where
  "SetName l priority nm =
     (case collection_name l of
        None \<Rightarrow> l\<lparr>collection_name := Some (priority, nm)\<rparr>
      | Some (old, _) \<Rightarrow> if priority > old then l\<lparr>collection_name := Some (priority, nm)\<rparr> else l)"

definition SetDebugClientInfoInternal :: "lbc \<Rightarrow> addr \<Rightarrow> string \<Rightarrow> nat \<Rightarrow> lbc option" where
  "SetDebugClientInfoInternal l a nm i = update_node l a (\<lambda>p. p\<lparr>client_debug_info := (nm, i)\<rparr>)"

section \<open>Messages on a token\<close>

definition attenuate :: "collection_lib \<Rightarrow> 32 word \<Rightarrow> node_properties \<Rightarrow> node_properties" where
  "attenuate env rmask p =
     (if rmask \<noteq> ZX_RIGHT_SAME_RIGHTS env
      then p\<lparr>rights_attenuation_mask := rights_attenuation_mask p AND rmask\<rparr> else p)"

definition new_child :: "lbc \<Rightarrow> addr \<Rightarrow> (lbc \<times> addr) option" where
  "new_child l a = do { (st, c) \<leftarrow> NewChild (store l) a; Some (l\<lparr>store := st\<rparr>, c) }"

text \<open>For each rmask, the statuses of creating the channel and of reading its identity. The result says which tokens were made.\<close>

fun duplicate_loop ::
  "collection_lib \<Rightarrow> lbc \<Rightarrow> addr \<Rightarrow> (32 word \<times> zx_status \<times> zx_status) list \<Rightarrow> (lbc \<times> addr list option) option" where
  "duplicate_loop env l a [] = Some (l, Some [])"
| "duplicate_loop env l a ((rmask, endpoints, koids) # rest) =
     (if endpoints \<noteq> ZX_OK then do { l \<leftarrow> token_FailSync l a endpoints; Some (l, None) }
      else do {
        (l, c) \<leftarrow> new_child l a;
        l \<leftarrow> update_node l c (attenuate env rmask);
        l \<leftarrow> CreateBufferCollectionToken l c koids;
        (l, made) \<leftarrow> duplicate_loop env l a rest;
        Some (l, map_option (\<lambda>cs. c # cs) made) })"

definition DuplicateSync ::
  "collection_lib \<Rightarrow> lbc \<Rightarrow> addr \<Rightarrow> (32 word \<times> zx_status \<times> zx_status) list \<Rightarrow> lbc option" where
  "DuplicateSync env l a masks = do {
     t \<leftarrow> get_token l a;
     if t_is_done t then token_FailSync l a ZX_ERR_BAD_STATE
     else do {
       (l, made) \<leftarrow> duplicate_loop env l a masks;
       Some (case made of None \<Rightarrow> l | Some cs \<Rightarrow> emit l (NewTokens a cs)) } }"

definition Duplicate :: "collection_lib \<Rightarrow> lbc \<Rightarrow> addr \<Rightarrow> 32 word \<Rightarrow> zx_status \<Rightarrow> lbc option" where
  "Duplicate env l a rmask koids = do {
     t \<leftarrow> get_token l a;
     if t_is_done t then token_FailSync l a ZX_ERR_BAD_STATE
     else do {
       (l, c) \<leftarrow> new_child l a;
       l \<leftarrow> update_node l c (attenuate env (if rmask = 0 then ZX_RIGHT_SAME_RIGHTS env else rmask));
       CreateBufferCollectionToken l c koids } }"

definition token_Sync :: "lbc \<Rightarrow> addr \<Rightarrow> lbc option" where
  "token_Sync l a = do {
     t \<leftarrow> get_token l a;
     if t_is_done t then token_FailSync l a ZX_ERR_BAD_STATE else Some (emit l (Synced a)) }"

definition token_Close :: "lbc \<Rightarrow> addr \<Rightarrow> lbc option" where
  "token_Close l a = do {
     t \<leftarrow> get_token l a;
     if t_is_done t \<or> buffer_collection_request t then token_FailSync l a ZX_ERR_BAD_STATE
     else set_token l a (t\<lparr>t_is_done := True\<rparr>) }"

definition SetBufferCollectionRequest :: "lbc \<Rightarrow> addr \<Rightarrow> lbc option" where
  "SetBufferCollectionRequest l a = do {
     t \<leftarrow> get_token l a;
     if t_is_done t \<or> buffer_collection_request t then token_FailAsync l a ZX_ERR_BAD_STATE
     else set_token l a (t\<lparr>buffer_collection_request := True\<rparr>) }"

text \<open>Exchanging a token that was found for a collection, with the debug info of the client if it has any.\<close>

definition BindSharedCollection :: "lbc \<Rightarrow> addr \<Rightarrow> (string \<times> nat) option \<Rightarrow> lbc option" where
  "BindSharedCollection l a info = do {
     l \<leftarrow> SetBufferCollectionRequest l a;
     case info of None \<Rightarrow> Some l | Some (nm, i) \<Rightarrow> SetDebugClientInfoInternal l a nm i }"

definition SetDispensableInternal :: "lbc \<Rightarrow> addr \<Rightarrow> lbc option" where
  "SetDispensableInternal l a =
     update_node l a (\<lambda>p. if error_propagation_mode p = kPropagate
       then p\<lparr>error_propagation_mode := kPropagateBeforeAllocation\<rparr> else p)"

definition token_error_handler :: "collection_lib \<Rightarrow> lbc \<Rightarrow> addr \<Rightarrow> zx_status \<Rightarrow> lbc option" where
  "token_error_handler env l a status = do {
     zx_assert (status \<noteq> ZX_OK);
     if status = ZX_ERR_BAD_STATE then FailRootNode l status
     else do {
       zx_assert (tree_root l \<noteq> None);
       t \<leftarrow> get_token l a;
       l \<leftarrow> set_token l a (t\<lparr>buffer_collection_request := False\<rparr>);
       let requested = buffer_collection_request t;
       if \<not> (status = ZX_ERR_PEER_CLOSED \<and> (t_is_done t \<or> requested)) then fail_node l a status
       else do {
         zx_assert (\<not> (t_is_done t \<and> requested));
         if \<not> requested
         then do {
           p \<leftarrow> node_at (store l) a;
           zx_assert (\<not> buffers_logically_allocated p);
           l \<leftarrow> OrphanedNode_EmplaceInTree l a;
           MaybeAllocate env l }
         else BindSharedCollectionInternal l a } } }"

section \<open>Messages on a collection\<close>

definition SetConstraintsAuxBuffers :: "lbc \<Rightarrow> addr \<Rightarrow> lbc option" where
  "SetConstraintsAuxBuffers l a = do {
     c \<leftarrow> get_collection l a;
     if is_set_constraints_aux_buffers_seen c then FailSync l a ZX_ERR_NOT_SUPPORTED
     else do {
       let c = c\<lparr>is_set_constraints_aux_buffers_seen := True\<rparr>;
       l \<leftarrow> set_collection l a c;
       if is_done c then FailSync l a ZX_ERR_BAD_STATE
       else if is_set_constraints_seen c then FailSync l a ZX_ERR_NOT_SUPPORTED
       else do {
         zx_assert (\<not> constraints_aux_buffers c);
         set_collection l a (c\<lparr>constraints_aux_buffers := True\<rparr>) } } }"

text \<open>\<open>converted\<close> is what \<open>V2CopyFromV1BufferCollectionConstraints\<close> makes of the constraints, or a failure.\<close>

definition SetConstraints ::
  "collection_lib \<Rightarrow> lbc \<Rightarrow> addr \<Rightarrow> bool \<Rightarrow> w_collection_constraints option \<Rightarrow> lbc option" where
  "SetConstraints env l a has_constraints converted = do {
     c \<leftarrow> get_collection l a;
     if is_set_constraints_seen c then FailSync l a ZX_ERR_NOT_SUPPORTED
     else do {
       let c = c\<lparr>is_set_constraints_seen := True\<rparr>;
       l \<leftarrow> set_collection l a c;
       if is_done c then FailSync l a ZX_ERR_BAD_STATE
       else if \<not> has_constraints \<and> is_set_constraints_aux_buffers_seen c then FailSync l a ZX_ERR_NOT_SUPPORTED
       else do {
         p \<leftarrow> node_at (store l) a;
         zx_assert (buffer_collection_constraints p = None);
         zx_assert (\<not> constraints_aux_buffers c \<or> has_constraints);
         case converted of
           None \<Rightarrow> FailSync l a ZX_ERR_INVALID_ARGS
         | Some w \<Rightarrow> do {
             zx_assert (w \<noteq> empty_constraints \<or> \<not> has_constraints);
             st \<leftarrow> SetBufferCollectionConstraints (store l) a w;
             l \<leftarrow> set_collection (l\<lparr>store := st\<rparr>) a (c\<lparr>constraints_aux_buffers := False\<rparr>);
             MaybeAllocate env l } } } }"

definition WaitForBuffersAllocated :: "collection_lib \<Rightarrow> lbc \<Rightarrow> addr \<Rightarrow> nat \<Rightarrow> lbc option" where
  "WaitForBuffersAllocated env l a txn = do {
     c \<leftarrow> get_collection l a;
     if is_done c then FailSync l a ZX_ERR_BAD_STATE
     else do {
       l \<leftarrow> set_collection l a
         (c\<lparr>pending_wait_for_buffers_allocated := pending_wait_for_buffers_allocated c @ [txn]\<rparr>);
       MaybeCompleteWaitForBuffersAllocated env l a } }"

definition CheckBuffersAllocated :: "lbc \<Rightarrow> addr \<Rightarrow> lbc option" where
  "CheckBuffersAllocated l a = do {
     c \<leftarrow> get_collection l a;
     if is_done c then FailSync l a ZX_ERR_BAD_STATE
     else case logical_allocation_result c of
       None \<Rightarrow> Some (emit l (Checked a ZX_ERR_UNAVAILABLE))
     | Some r \<Rightarrow> Some (emit l (Checked a (result_status r))) }"

definition GetAuxBuffers :: "collection_lib \<Rightarrow> lbc \<Rightarrow> addr \<Rightarrow> lbc option" where
  "GetAuxBuffers env l a = do {
     c \<leftarrow> get_collection l a;
     case logical_allocation_result c of
       None \<Rightarrow> FailSync l a ZX_ERR_BAD_STATE
     | Some r \<Rightarrow>
         if result_status r \<noteq> ZX_OK then FailSync l a ZX_ERR_BAD_STATE
         else do {
           info \<leftarrow> buffer_collection_info r;
           (l, v1) \<leftarrow> CloneResultForSendingV1 env (V1AuxBuffersMoveFromV2BufferCollectionInfo env) l a info;
           case v1 of
             None \<Rightarrow> FailSync l a ZX_ERR_INTERNAL
           | Some v \<Rightarrow> Some (emit l (AuxBuffers a v)) } }"

definition attached_name :: "string \<Rightarrow> string" where
  "attached_name nm = (if nm \<noteq> [] then nm @ '' then AttachToken()'' else ''from AttachToken()'')"

definition AttachToken :: "collection_lib \<Rightarrow> lbc \<Rightarrow> addr \<Rightarrow> 32 word \<Rightarrow> zx_status \<Rightarrow> lbc option" where
  "AttachToken env l a rmask koids = do {
     c \<leftarrow> get_collection l a;
     if is_done c then FailSync l a ZX_ERR_BAD_STATE
     else if rmask = 0 then FailSync l a ZX_ERR_INVALID_ARGS
     else do {
       (l, d) \<leftarrow> new_child l a;
       l \<leftarrow> update_node l d (\<lambda>p. (attenuate env rmask
         (p\<lparr>client_debug_info := (attached_name (fst (client_debug_info p)), snd (client_debug_info p))\<rparr>))
           \<lparr>error_propagation_mode := kDoNotPropagate\<rparr>);
       CreateBufferCollectionToken l d koids } }"

definition collection_AttachLifetimeTracking :: "lbc \<Rightarrow> addr \<Rightarrow> nat \<Rightarrow> nat \<Rightarrow> lbc option" where
  "collection_AttachLifetimeTracking l a server_end buffers_remaining = do {
     c \<leftarrow> get_collection l a;
     if is_done c then FailSync l a ZX_ERR_BAD_STATE
     else do {
       l \<leftarrow> set_collection l a
         (c\<lparr>pending_lifetime_tracking := pending_lifetime_tracking c @ [(server_end, buffers_remaining)]\<rparr>);
       MaybeFlushPendingLifetimeTracking l a } }"

text \<open>The four messages about single buffers.\<close>

definition SingleBuffer_not_implemented :: "lbc \<Rightarrow> addr \<Rightarrow> lbc option" where
  "SingleBuffer_not_implemented l a = do {
     c \<leftarrow> get_collection l a;
     if is_done c then FailSync l a ZX_ERR_BAD_STATE else FailSync l a ZX_ERR_NOT_SUPPORTED }"

definition collection_Close :: "lbc \<Rightarrow> addr \<Rightarrow> lbc option" where
  "collection_Close l a = do {
     c \<leftarrow> get_collection l a;
     if is_done c then FailSync l a ZX_ERR_BAD_STATE else set_collection l a (c\<lparr>is_done := True\<rparr>) }"

definition collection_error_handler :: "collection_lib \<Rightarrow> lbc \<Rightarrow> addr \<Rightarrow> zx_status \<Rightarrow> lbc option" where
  "collection_error_handler env l a status = do {
     zx_assert (status \<noteq> ZX_OK);
     if status = ZX_ERR_BAD_STATE then FailRootNode l status
     else do {
       p \<leftarrow> node_at (store l) a;
       zx_assert (parent p \<noteq> None \<or> tree_root l = Some a);
       c \<leftarrow> get_collection l a;
       if \<not> (status = ZX_ERR_PEER_CLOSED \<and> is_done c) then fail_node l a status
       else do {
         l \<leftarrow> OrphanedNode_EmplaceInTree l a;
         MaybeAllocate env l } } }"

section \<open>The end of a channel\<close>

text \<open>
  The library reports a status and whether the server closed the channel itself; then a status noted earlier takes its place.
\<close>

definition Unbound :: "collection_lib \<Rightarrow> lbc \<Rightarrow> addr \<Rightarrow> zx_status \<Rightarrow> bool \<Rightarrow> lbc option" where
  "Unbound env l a info_status is_kClose = do {
     p \<leftarrow> node_at (store l) a;
     n \<leftarrow> node p;
     case n of
       Token t \<Rightarrow> token_error_handler env l a
         (case t_async_failure_result t of Some s \<Rightarrow> if is_kClose then s else info_status | None \<Rightarrow> info_status)
     | Collection c \<Rightarrow> collection_error_handler env l a
         (case async_failure_result c of Some s \<Rightarrow> if is_kClose then s else info_status | None \<Rightarrow> info_status)
     | Orphaned \<Rightarrow> None }"

text \<open>All the clients' references to a buffer are gone.\<close>

definition OnZeroChildren :: "lbc \<Rightarrow> nat \<Rightarrow> lbc" where
  "OnZeroChildren l h = SweepLifetimeTracking (l\<lparr>parent_vmos := remove1 h (parent_vmos l)\<rparr>)"

section \<open>Steps\<close>

datatype event =
  MDuplicateSync addr "(32 word \<times> zx_status \<times> zx_status) list"
| MDuplicate addr "32 word" zx_status
| MTokenSync addr
| MTokenClose addr
| MSetDispensable addr
| MBindSharedCollection addr "(string \<times> nat) option"
| MSetName nat string
| MSetDebugClientInfo addr string nat
| MCollectionSync addr
| MSetConstraintsAuxBuffers addr
| MSetConstraints addr bool "w_collection_constraints option"
| MWaitForBuffersAllocated addr nat
| MCheckBuffersAllocated addr
| MGetAuxBuffers addr
| MAttachToken addr "32 word" zx_status
| MAttachLifetimeTracking addr nat nat
| MSingleBuffer addr
| MCollectionClose addr
| EUnbound addr zx_status bool
| EZeroChildren nat

fun handle :: "collection_lib \<Rightarrow> lbc \<Rightarrow> event \<Rightarrow> lbc option" where
  "handle env l (MDuplicateSync a masks) = DuplicateSync env l a masks"
| "handle env l (MDuplicate a rmask koids) = Duplicate env l a rmask koids"
| "handle env l (MTokenSync a) = token_Sync l a"
| "handle env l (MTokenClose a) = token_Close l a"
| "handle env l (MSetDispensable a) = do { _ \<leftarrow> get_token l a; SetDispensableInternal l a }"
| "handle env l (MBindSharedCollection a info) = BindSharedCollection l a info"
| "handle env l (MSetName priority nm) = Some (SetName l priority nm)"
| "handle env l (MSetDebugClientInfo a nm i) = SetDebugClientInfoInternal l a nm i"
| "handle env l (MCollectionSync a) = do { _ \<leftarrow> get_collection l a; Some (emit l (Synced a)) }"
| "handle env l (MSetConstraintsAuxBuffers a) = SetConstraintsAuxBuffers l a"
| "handle env l (MSetConstraints a has converted) = SetConstraints env l a has converted"
| "handle env l (MWaitForBuffersAllocated a txn) = WaitForBuffersAllocated env l a txn"
| "handle env l (MCheckBuffersAllocated a) = CheckBuffersAllocated l a"
| "handle env l (MGetAuxBuffers a) = GetAuxBuffers env l a"
| "handle env l (MAttachToken a rmask koids) = AttachToken env l a rmask koids"
| "handle env l (MAttachLifetimeTracking a h n) = collection_AttachLifetimeTracking l a h n"
| "handle env l (MSingleBuffer a) = SingleBuffer_not_implemented l a"
| "handle env l (MCollectionClose a) = collection_Close l a"
| "handle env l (EUnbound a status is_kClose) = Unbound env l a status is_kClose"
| "handle env l (EZeroChildren h) = Some (OnZeroChildren l h)"

inductive reachable :: "collection_lib \<Rightarrow> lbc \<Rightarrow> bool" for env where
  created: "Create koids = Some l \<Longrightarrow> reachable env l"
| handled: "reachable env l \<Longrightarrow> handle env l e = Some l' \<Longrightarrow> reachable env l'"

fun handle_all :: "collection_lib \<Rightarrow> lbc \<Rightarrow> event list \<Rightarrow> lbc option" where
  "handle_all env l [] = Some l"
| "handle_all env l (e # es) = do { l \<leftarrow> handle env l e; handle_all env l es }"

end
