(* ===== verification/Sysmem_Tree.thy ===== *)
theory Sysmem_Tree
  imports Sysmem_Nodes
begin

text \<open>
  What the operations on the tree of nodes do when the tree is well formed: the pointers between parents and children
  agree, a parent was made before its children, and the root is the only node without a parent.
\<close>

named_theorems store_simps \<open>reading a store after a write\<close>

section \<open>Reading and writing\<close>

lemma node_at_None [simp]: "length st \<le> a \<Longrightarrow> node_at st a = None"
  by (simp add: node_at_def)

lemma node_at_less: "node_at st a = Some p \<Longrightarrow> a < length st"
  by (simp add: node_at_def split: if_splits)

lemma length_put [simp]: "length (put st a p) = length st"
  by (simp add: put_def)

lemma node_at_put [store_simps]: "node_at (put st a p) b = (if b = a \<and> a < length st then Some p else node_at st b)"
  by (simp add: node_at_def put_def nth_list_update)

lemma node_at_put_live [simp]: "node_at st a = Some q \<Longrightarrow> node_at (put st a p) b = (if b = a then Some p else node_at st b)"
  by (auto simp: node_at_put dest: node_at_less)

lemma node_at_clear [store_simps]: "node_at (st[a := None]) b = (if b = a then None else node_at st b)"
  by (simp add: node_at_def nth_list_update)

lemma node_at_snoc [store_simps]: "node_at (st @ [x]) b = (if b = length st then x else node_at st b)"
  by (simp add: node_at_def nth_append)

section \<open>Well-formed trees\<close>

definition tree_ok :: "node_store \<Rightarrow> addr option \<Rightarrow> bool" where
  "tree_ok st root \<longleftrightarrow>
     (\<forall>a p. node_at st a = Some p \<longrightarrow>
        distinct (children p) \<and>
        (\<forall>c\<in>set (children p). \<exists>q. node_at st c = Some q \<and> parent q = Some a) \<and>
        (case parent p of None \<Rightarrow> root = Some a
         | Some b \<Rightarrow> b < a \<and> (\<exists>q. node_at st b = Some q \<and> a \<in> set (children q)))) \<and>
     (\<forall>r. root = Some r \<longrightarrow> (\<exists>p. node_at st r = Some p \<and> parent p = None))"

lemma tree_ok_distinct: "tree_ok st root \<Longrightarrow> node_at st a = Some p \<Longrightarrow> distinct (children p)"
  by (simp add: tree_ok_def)

lemma tree_ok_child:
  "tree_ok st root \<Longrightarrow> node_at st a = Some p \<Longrightarrow> c \<in> set (children p) \<Longrightarrow> \<exists>q. node_at st c = Some q \<and> parent q = Some a"
  by (auto simp: tree_ok_def)

lemma tree_ok_parent:
  assumes "tree_ok st root" "node_at st a = Some p" "parent p = Some b"
  shows "b < a" and "\<exists>q. node_at st b = Some q \<and> a \<in> set (children q)"
proof -
  have "case parent p of None \<Rightarrow> root = Some a
      | Some b \<Rightarrow> b < a \<and> (\<exists>q. node_at st b = Some q \<and> a \<in> set (children q))"
    using assms(1,2) unfolding tree_ok_def by blast
  then show "b < a" "\<exists>q. node_at st b = Some q \<and> a \<in> set (children q)" using assms(3) by simp_all
qed

lemma tree_ok_no_parent:
  assumes "tree_ok st root" "node_at st a = Some p"
  shows "parent p = None \<longleftrightarrow> root = Some a"
proof -
  have "case parent p of None \<Rightarrow> root = Some a
      | Some b \<Rightarrow> b < a \<and> (\<exists>q. node_at st b = Some q \<and> a \<in> set (children q))"
    using assms unfolding tree_ok_def by blast
  moreover have "root = Some a \<longrightarrow> parent p = None" using assms by (auto simp: tree_ok_def)
  ultimately show ?thesis by (auto split: option.splits)
qed

lemma tree_ok_root: "tree_ok st (Some r) \<Longrightarrow> \<exists>p. node_at st r = Some p \<and> parent p = None"
  by (simp add: tree_ok_def)

lemma tree_ok_child_less:
  "tree_ok st root \<Longrightarrow> node_at st a = Some p \<Longrightarrow> c \<in> set (children p) \<Longrightarrow> a < c \<and> c < length st"
  using tree_ok_child [of st root a p c] tree_ok_parent(1) [of st root c] node_at_less by blast

text \<open>The nodes of a sub-tree.\<close>

inductive_set subtree :: "node_store \<Rightarrow> addr \<Rightarrow> addr set" for st a where
  subtree_refl [intro, simp]: "a \<in> subtree st a"
| subtree_child: "c \<in> subtree st a \<Longrightarrow> node_at st d = Some q \<Longrightarrow> parent q = Some c \<Longrightarrow> d \<in> subtree st a"

lemma subtree_trans: "d \<in> subtree st c \<Longrightarrow> c \<in> subtree st a \<Longrightarrow> d \<in> subtree st a"
  by (induction rule: subtree.induct) (auto intro: subtree_child)

lemma subtree_ge: "tree_ok st root \<Longrightarrow> d \<in> subtree st a \<Longrightarrow> a \<le> d"
  by (rotate_tac, induction rule: subtree.induct) (auto dest: tree_ok_parent(1))

lemma subtree_live: "d \<in> subtree st a \<Longrightarrow> node_at st a = Some p \<Longrightarrow> \<exists>q. node_at st d = Some q"
  by (induction rule: subtree.induct) auto

lemma subtree_up:
  assumes "d \<in> subtree st a" "d \<noteq> a" "node_at st d = Some q"
  shows "\<exists>b. parent q = Some b \<and> b \<in> subtree st a"
  using assms by (cases rule: subtree.cases) auto

text \<open>The nodes above a node form a chain.\<close>

lemma subtree_chain:
  assumes "d \<in> subtree st a" "d \<in> subtree st b"
  shows "a \<in> subtree st b \<or> b \<in> subtree st a"
  using assms
proof (induction rule: subtree.induct)
  case (subtree_child c d q)
  show ?case
  proof (cases "d = b")
    case True
    then show ?thesis using subtree_child.hyps by (auto intro: subtree.subtree_child)
  next
    case False
    then have "c \<in> subtree st b" using subtree_up [OF subtree_child.prems _ subtree_child.hyps(2)] subtree_child.hyps(3) by simp
    then show ?thesis by (rule subtree_child.IH)
  qed
qed simp

lemma siblings_disjoint:
  assumes "tree_ok st root" "node_at st a = Some p" "c \<in> set (children p)" "d \<in> set (children p)" "c \<noteq> d"
  shows "subtree st c \<inter> subtree st d = {}"
proof (rule ccontr)
  have *: "False" if cd: "c \<in> subtree st d" "c \<noteq> d" "c \<in> set (children p)" "d \<in> set (children p)" for c d
  proof -
    obtain q where q: "node_at st c = Some q" "parent q = Some a" using tree_ok_child [OF assms(1,2) cd(3)] by blast
    then have "a \<in> subtree st d" using subtree_up [OF cd(1,2) q(1)] by simp
    then show False
      using subtree_ge [OF assms(1)] tree_ok_child_less [OF assms(1,2) cd(4)] by fastforce
  qed
  assume "subtree st c \<inter> subtree st d \<noteq> {}"
  then show False using subtree_chain [of _ st c d] * [of c d] * [of d c] assms(3-5) by blast
qed

lemma parent_not_below_child:
  "tree_ok st root \<Longrightarrow> node_at st a = Some p \<Longrightarrow> c \<in> set (children p) \<Longrightarrow> a \<notin> subtree st c"
  using subtree_ge [of st root a c] tree_ok_child_less [of st root a p c] by fastforce

lemma child_in_subtree:
  "tree_ok st root \<Longrightarrow> node_at st a = Some p \<Longrightarrow> c \<in> set (children p) \<Longrightarrow> c \<in> subtree st a"
  using tree_ok_child [of st root a p c] by (auto intro: subtree_child)

section \<open>Breadth-first order\<close>

text \<open>
  The run of the loop as a relation, for a filter that answers \<open>r\<close>: from the nodes whose children are still to be visited to the nodes it
  adds to the result.
\<close>

inductive bfs_run :: "node_store \<Rightarrow> (addr \<Rightarrow> NodeFilterResult) \<Rightarrow> addr list \<Rightarrow> addr list \<Rightarrow> bool" for st r where
  bfs_done: "bfs_run st r [] []"
| bfs_next: "node_at st a = Some p \<Longrightarrow>
    bfs_run st r (pending @ filter (\<lambda>c. iterate_children (r c)) (children p)) xs \<Longrightarrow>
    bfs_run st r (a # pending) (filter (\<lambda>c. keep_node (r c)) (children p) @ xs)"

definition live :: "node_store \<Rightarrow> addr \<Rightarrow> bool" where
  "live st a \<longleftrightarrow> node_at st a \<noteq> None"

lemma live_iff: "live st a \<longleftrightarrow> (\<exists>p. node_at st a = Some p)"
  by (simp add: live_def)

lemma visit_children_total:
  "(\<forall>c\<in>set cs. filt c = Some (r c)) \<Longrightarrow>
   visit_children filt cs = Some (filter (\<lambda>c. keep_node (r c)) cs, filter (\<lambda>c. iterate_children (r c)) cs)"
  by (induction cs) auto

text \<open>
  The loop ends: a visited node is replaced by nodes with larger addresses, so the addresses decrease in the order of
  multisets, counted down from the size of the store.
\<close>

lemma bfs_run_exists:
  assumes ok: "tree_ok st root"
  shows "\<forall>a\<in>set pending. live st a \<Longrightarrow> \<exists>xs. bfs_run st r pending xs"
proof (induction "image_mset (\<lambda>a. length st - a) (mset pending)" arbitrary: pending
    rule: wf_induct_rule [OF wf_mult1 [OF wf_less_than]])
  case 1
  show ?case
  proof (cases pending)
    case Nil
    then show ?thesis using bfs_done by blast
  next
    case (Cons a rest)
    then obtain p where p: "node_at st a = Some p" using 1(2) by (auto simp: live_iff)
    let ?next = "rest @ filter (\<lambda>c. iterate_children (r c)) (children p)"
    have "\<forall>c\<in>set (children p). length st - c < length st - a"
      using tree_ok_child_less [OF ok p] node_at_less [OF p] by (auto intro!: diff_less_mono2)
    then have "(image_mset (\<lambda>a. length st - a) (mset ?next), image_mset (\<lambda>a. length st - a) (mset pending)) \<in> mult1 less_than"
      by (intro mult1I [of _ "length st - a" "image_mset (\<lambda>a. length st - a) (mset rest)" _
          "image_mset (\<lambda>a. length st - a) (mset (filter (\<lambda>c. iterate_children (r c)) (children p)))"])
        (auto simp: Cons)
    moreover have "\<forall>c\<in>set ?next. live st c"
      using 1(2) Cons tree_ok_child [OF ok p] by (auto simp: live_iff)
    ultimately obtain xs where "bfs_run st r ?next xs" using 1(1) by blast
    then show ?thesis using Cons bfs_next [OF p] by blast
  qed
qed

lemma bfs_run_breadth_first:
  assumes "bfs_run st r pending xs" "tree_ok st root" "\<And>c. live st c \<Longrightarrow> filt c = Some (r c)"
  shows "breadth_first pending result st filt = Some (result @ xs)"
  using assms(1)
proof (induction arbitrary: result rule: bfs_run.induct)
  case bfs_done
  then show ?case by (simp add: breadth_first.simps)
next
  case (bfs_next a p pending xs)
  have "\<forall>c\<in>set (children p). filt c = Some (r c)"
    using tree_ok_child [OF assms(2) bfs_next.hyps(1)] by (intro ballI assms(3)) (auto simp: live_iff)
  note v = visit_children_total [OF this]
  show ?case
    using bfs_next by (subst breadth_first.simps) (simp add: v)
qed

text \<open>The nodes reached from a node when only some nodes are iterated over.\<close>

inductive_set below :: "node_store \<Rightarrow> (addr \<Rightarrow> bool) \<Rightarrow> addr \<Rightarrow> addr set" for st it a where
  below_child: "node_at st a = Some p \<Longrightarrow> c \<in> set (children p) \<Longrightarrow> c \<in> below st it a"
| below_step: "d \<in> below st it a \<Longrightarrow> it d \<Longrightarrow> node_at st d = Some p \<Longrightarrow> c \<in> set (children p) \<Longrightarrow> c \<in> below st it a"

lemma below_trans: "d \<in> below st it c \<Longrightarrow> it c \<Longrightarrow> c \<in> below st it a \<Longrightarrow> d \<in> below st it a"
  by (induction rule: below.induct) (auto intro: below.intros)

lemma below_unfold:
  assumes "node_at st a = Some p"
  shows "below st it a = set (children p) \<union> (\<Union>c\<in>{c\<in>set (children p). it c}. below st it c)" (is "?l = ?r")
proof
  show "?l \<subseteq> ?r"
  proof
    fix d assume "d \<in> ?l"
    then show "d \<in> ?r"
      by (induction rule: below.induct) (use assms in \<open>auto intro: below.intros\<close>)
  qed
  show "?r \<subseteq> ?l" using assms by (auto intro: below_child below_trans)
qed

lemma bfs_run_set:
  assumes "bfs_run st r pending xs"
  shows "set xs = {d. keep_node (r d) \<and> (\<exists>a\<in>set pending. d \<in> below st (\<lambda>c. iterate_children (r c)) a)}"
  using assms
proof (induction rule: bfs_run.induct)
  case (bfs_next a p pending xs)
  then show ?case by (auto simp: below_unfold [OF bfs_next.hyps(1)])
qed simp

lemma below_subtree: "tree_ok st root \<Longrightarrow> d \<in> below st it a \<Longrightarrow> d \<in> subtree st a \<and> d \<noteq> a"
proof -
  assume ok: "tree_ok st root"
  assume d: "d \<in> below st it a"
  then show ?thesis
  proof (induction rule: below.induct)
    case (below_child p c)
    then show ?case using child_in_subtree [OF ok] tree_ok_child_less [OF ok] by fastforce
  next
    case (below_step d p c)
    then have "c \<in> subtree st d" "d < c" using child_in_subtree [OF ok] tree_ok_child_less [OF ok] by blast+
    then show ?case using below_step.IH subtree_trans subtree_ge [OF ok] by fastforce
  qed
qed

lemma subtree_below: "tree_ok st root \<Longrightarrow> d \<in> subtree st a \<Longrightarrow> d = a \<or> d \<in> below st (\<lambda>_. True) a"
proof -
  assume ok: "tree_ok st root"
  assume "d \<in> subtree st a"
  then show ?thesis
  proof (induction rule: subtree.induct)
    case (subtree_child c d q)
    then obtain p where "node_at st c = Some p" "d \<in> set (children p)" using tree_ok_parent(2) [OF ok] by blast
    then show ?case using subtree_child.IH by (auto intro: below.intros)
  qed simp
qed

text \<open>Nodes with disjoint sub-trees give a result without repetitions.\<close>

definition apart :: "node_store \<Rightarrow> addr list \<Rightarrow> bool" where
  "apart st as \<longleftrightarrow> distinct as \<and> (\<forall>a\<in>set as. \<forall>b\<in>set as. a \<noteq> b \<longrightarrow> subtree st a \<inter> subtree st b = {})"

lemma apart_next:
  assumes ok: "tree_ok st root" and p: "node_at st a = Some p" and ap: "apart st (a # pending)"
  shows "apart st (pending @ filter it (children p))"
proof -
  have sub: "subtree st c \<subseteq> subtree st a" if "c \<in> set (children p)" for c
    using child_in_subtree [OF ok p that] subtree_trans by blast
  have dis: "subtree st a \<inter> subtree st b = {}" if "b \<in> set pending" for b
    using ap that by (auto simp: apart_def)
  have new: "c \<notin> set pending" if "c \<in> set (children p)" for c
    using dis sub [OF that] subtree_refl by blast
  have old: "subtree st x \<inter> subtree st y = {}" if "x \<in> set pending" "y \<in> set pending" "x \<noteq> y" for x y
    using ap that by (auto simp: apart_def)
  have mixed: "subtree st c \<inter> subtree st b = {}" if "c \<in> set (children p)" "b \<in> set pending" for b c
    using sub [OF that(1)] dis [OF that(2)] by blast
  have D: "subtree st x \<inter> subtree st y = {}"
    if "x \<in> set pending \<union> set (children p)" "y \<in> set pending \<union> set (children p)" "x \<noteq> y" for x y
    using that old mixed siblings_disjoint [OF ok p] by blast
  have E: "distinct (pending @ filter it (children p))"
    using ap new tree_ok_distinct [OF ok p] by (auto simp: apart_def)
  show ?thesis unfolding apart_def by (intro conjI ballI impI E D) auto
qed

lemma bfs_run_distinct:
  assumes "bfs_run st r pending xs" "tree_ok st root"
  shows "apart st pending \<Longrightarrow> distinct xs"
  using assms(1)
proof (induction rule: bfs_run.induct)
  case (bfs_next a p pending xs)
  note ok = assms(2) and p = bfs_next.hyps(1)
  have c: False if c: "c \<in> set (children p)" "c \<in> set xs" for c
  proof -
    let ?it = "\<lambda>c. iterate_children (r c)"
    obtain b where b: "b \<in> set pending \<or> b \<in> set (children p)" "c \<in> below st ?it b"
      using c(2) bfs_run_set [OF bfs_next.hyps(2)] by auto
    have cb: "c \<in> subtree st b" "c \<noteq> b" using below_subtree [OF ok b(2)] by blast+
    from b(1) show False
    proof
      assume "b \<in> set pending"
      then have "subtree st a \<inter> subtree st b = {}" using bfs_next.prems by (auto simp: apart_def)
      then show False using child_in_subtree [OF ok p c(1)] cb(1) by blast
    next
      assume "b \<in> set (children p)"
      then show False using siblings_disjoint [OF ok p c(1)] cb by fastforce
    qed
  qed
  then show ?case
    using bfs_next.IH apart_next [OF ok p bfs_next.prems] tree_ok_distinct [OF ok p] by auto
qed simp

text \<open>In the order of all nodes, the children of a node come after it.\<close>

definition children_later :: "node_store \<Rightarrow> addr list \<Rightarrow> bool" where
  "children_later st xs \<longleftrightarrow>
     (\<forall>ys a zs p. xs = ys @ a # zs \<longrightarrow> node_at st a = Some p \<longrightarrow> set (children p) \<subseteq> set zs)"

lemma children_later_append:
  assumes "children_later st xs" "\<forall>c\<in>set cs. \<forall>p. node_at st c = Some p \<longrightarrow> set (children p) \<subseteq> set xs"
  shows "children_later st (cs @ xs)"
  using assms(2)
proof (induction cs)
  case Nil
  then show ?case using assms(1) by simp
next
  case (Cons c cs)
  then have IH: "children_later st (cs @ xs)" by simp
  show ?case
    unfolding children_later_def
  proof (intro allI impI)
    fix ys a zs p assume e: "(c # cs) @ xs = ys @ a # zs" and p: "node_at st a = Some p"
    show "set (children p) \<subseteq> set zs"
    proof (cases ys)
      case Nil
      then have "a = c" "zs = cs @ xs" using e by simp_all
      then show ?thesis using Cons.prems p by auto
    next
      case (Cons y ys')
      then show ?thesis using e p IH unfolding children_later_def by auto
    qed
  qed
qed

lemma bfs_run_children_later:
  assumes "bfs_run st r pending xs" "\<forall>c. keep_node (r c) \<and> iterate_children (r c)"
  shows "(\<forall>a\<in>set pending. \<forall>p. node_at st a = Some p \<longrightarrow> set (children p) \<subseteq> set xs) \<and> children_later st xs"
  using assms(1)
proof (induction rule: bfs_run.induct)
  case bfs_done
  then show ?case by (simp add: children_later_def)
next
  case (bfs_next a p pending xs)
  have "filter (\<lambda>c. keep_node (r c)) (children p) = children p"
    "filter (\<lambda>c. iterate_children (r c)) (children p) = children p"
    using assms(2) by simp_all
  then show ?case
    using bfs_next children_later_append [of st xs "children p"] by auto
qed

lemma BreadthFirstOrder_run:
  assumes ok: "tree_ok st root" and a: "live st a" and filt: "\<And>c. live st c \<Longrightarrow> filt c = Some (r c)"
  shows "\<exists>xs. bfs_run st r (if iterate_children (r a) then [a] else []) xs \<and>
    BreadthFirstOrder st filt a = Some ((if keep_node (r a) then [a] else []) @ xs)"
proof -
  obtain xs where "bfs_run st r (if iterate_children (r a) then [a] else []) xs"
    using bfs_run_exists [OF ok, of "if iterate_children (r a) then [a] else []"] a by auto
  then show ?thesis
    using bfs_run_breadth_first [OF _ ok filt] filt [OF a] by (auto simp: BreadthFirstOrder_def)
qed

text \<open>What a filtered order has: the nodes reached through iterated nodes, as far as they are kept.\<close>

lemma BreadthFirstOrder_filtered:
  assumes ok: "tree_ok st root" and a: "live st a" and filt: "\<And>c. live st c \<Longrightarrow> filt c = Some (r c)"
  shows "\<exists>xs. BreadthFirstOrder st filt a = Some xs \<and> distinct xs \<and>
    set xs = {d. keep_node (r d) \<and> (d = a \<or> iterate_children (r a) \<and> d \<in> below st (\<lambda>c. iterate_children (r c)) a)} \<and>
    (keep_node (r a) \<longrightarrow> hd xs = a \<and> xs \<noteq> [])"
proof -
  obtain xs where xs: "bfs_run st r (if iterate_children (r a) then [a] else []) xs"
    "BreadthFirstOrder st filt a = Some ((if keep_node (r a) then [a] else []) @ xs)"
    using BreadthFirstOrder_run [of st root a filt r] ok a filt by blast
  have s: "set xs = {d. keep_node (r d) \<and> iterate_children (r a) \<and> d \<in> below st (\<lambda>c. iterate_children (r c)) a}"
    using bfs_run_set [OF xs(1)] by auto
  have "distinct xs" using bfs_run_distinct [OF xs(1) ok] by (simp add: apart_def)
  moreover have "a \<notin> set xs" using s below_subtree [OF ok] by blast
  ultimately show ?thesis using xs(2) s by auto
qed

lemma BreadthFirstOrder_all:
  assumes ok: "tree_ok st root" and a: "live st a"
  shows "\<exists>xs. BreadthFirstOrder st all_nodes a = Some (a # xs) \<and> distinct (a # xs) \<and> set (a # xs) = subtree st a \<and>
    children_later st (a # xs)"
proof -
  let ?r = "\<lambda>_. \<lparr>keep_node = True, iterate_children = True\<rparr>"
  have f: "all_nodes c = Some (?r c)" for c by (simp add: all_nodes_def)
  obtain xs where xs: "bfs_run st ?r [a] xs" "BreadthFirstOrder st all_nodes a = Some (a # xs)"
    using BreadthFirstOrder_run [where filt = all_nodes and r = ?r, OF ok a f] by auto
  have s: "set xs = below st (\<lambda>_. True) a" using bfs_run_set [OF xs(1)] by simp
  have "set (a # xs) = subtree st a"
    unfolding list.set s using below_subtree [OF ok] subtree_below [OF ok] by blast
  moreover have "distinct (a # xs)"
    using bfs_run_distinct [OF xs(1) ok] s below_subtree [OF ok] by (auto simp: apart_def)
  moreover have "children_later st (a # xs)"
    using bfs_run_children_later [OF xs(1)] children_later_append [of st xs "[a]"] by simp
  ultimately show ?thesis using xs(2) by blast
qed


section \<open>Changes that keep the shape of the tree\<close>

definition same_shape :: "node_store \<Rightarrow> node_store \<Rightarrow> bool" where
  "same_shape st st' \<longleftrightarrow>
     (\<forall>a. map_option (\<lambda>p. (parent p, children p)) (node_at st' a) = map_option (\<lambda>p. (parent p, children p)) (node_at st a))"

lemma same_shape_refl [simp]: "same_shape st st"
  by (simp add: same_shape_def)

lemma same_shape_trans: "same_shape a b \<Longrightarrow> same_shape b c \<Longrightarrow> same_shape a c"
  by (simp add: same_shape_def)

lemma same_shape_Some:
  assumes "same_shape st st'"
  shows "node_at st' a = Some p' \<Longrightarrow> \<exists>p. node_at st a = Some p \<and> parent p = parent p' \<and> children p = children p'"
    and "node_at st a = Some p \<Longrightarrow> \<exists>p'. node_at st' a = Some p' \<and> parent p' = parent p \<and> children p' = children p"
proof -
  have e: "map_option (\<lambda>p. (parent p, children p)) (node_at st' a) =
      map_option (\<lambda>p. (parent p, children p)) (node_at st a)"
    using assms by (simp add: same_shape_def)
  show "node_at st' a = Some p' \<Longrightarrow> \<exists>p. node_at st a = Some p \<and> parent p = parent p' \<and> children p = children p'"
    using e by (cases "node_at st a") auto
  show "node_at st a = Some p \<Longrightarrow> \<exists>p'. node_at st' a = Some p' \<and> parent p' = parent p \<and> children p' = children p"
    using e by (cases "node_at st' a") auto
qed

lemma same_shape_sym: "same_shape st st' \<Longrightarrow> same_shape st' st"
  by (simp add: same_shape_def)

lemma same_shape_put:
  "node_at st a = Some p \<Longrightarrow> parent q = parent p \<Longrightarrow> children q = children p \<Longrightarrow> same_shape st (put st a q)"
  by (simp add: same_shape_def)

lemma subtree_same_shape: "same_shape st st' \<Longrightarrow> subtree st' a = subtree st a"
proof -
  have sub: "subtree st a \<subseteq> subtree st' a" if s: "same_shape st st'" for st st'
  proof
    fix d assume "d \<in> subtree st a"
    then show "d \<in> subtree st' a"
    proof (induction rule: subtree.induct)
      case (subtree_child c d q)
      then show ?case using same_shape_Some(2) [OF s subtree_child.hyps(2)] subtree.subtree_child by metis
    qed simp
  qed
  assume "same_shape st st'"
  then show ?thesis using sub same_shape_sym by blast
qed

lemma tree_ok_same_shape:
  assumes s: "same_shape st st'" and ok: "tree_ok st root"
  shows "tree_ok st' root"
  unfolding tree_ok_def
proof (intro conjI allI impI)
  fix a p' assume p': "node_at st' a = Some p'"
  then obtain p where p: "node_at st a = Some p" "parent p = parent p'" "children p = children p'"
    using same_shape_Some(1) [OF s] by blast
  show "distinct (children p')" using tree_ok_distinct [OF ok p(1)] p(3) by simp
  show "\<forall>c\<in>set (children p'). \<exists>q. node_at st' c = Some q \<and> parent q = Some a"
    using tree_ok_child [OF ok p(1)] p(3) same_shape_Some(2) [OF s] by metis
  show "case parent p' of None \<Rightarrow> root = Some a
      | Some b \<Rightarrow> b < a \<and> (\<exists>q. node_at st' b = Some q \<and> a \<in> set (children q))"
  proof (cases "parent p'")
    case None
    then show ?thesis using tree_ok_no_parent [OF ok p(1)] p(2) by simp
  next
    case (Some b)
    then have "b < a" "\<exists>q. node_at st b = Some q \<and> a \<in> set (children q)"
      using tree_ok_parent [OF ok p(1)] p(2) by simp_all
    then show ?thesis using Some same_shape_Some(2) [OF s] by fastforce
  qed
next
  fix r assume "root = Some r"
  then show "\<exists>p. node_at st' r = Some p \<and> parent p = None"
    using tree_ok_root ok same_shape_Some(2) [OF s] by metis
qed

section \<open>Counts\<close>

lemma adjust_one_shape [simp]:
  "parent (adjust_one f n p) = parent p" "children (adjust_one f n p) = children p"
  "node (adjust_one f n p) = node p"
  "rights_attenuation_mask (adjust_one f n p) = rights_attenuation_mask p"
  "error_propagation_mode (adjust_one f n p) = error_propagation_mode p"
  "buffers_logically_allocated (adjust_one f n p) = buffers_logically_allocated p"
  "buffer_collection_constraints (adjust_one f n p) = buffer_collection_constraints p"
  by (simp_all add: adjust_one_def)

lemma above_iff:
  assumes "tree_ok st root" "node_at st a = Some p" "parent p = Some b"
  shows "a \<in> subtree st c \<longleftrightarrow> c = a \<or> b \<in> subtree st c"
  using subtree_up [of a st c p] assms(2,3) by (auto intro: subtree_child)

text \<open>Adjusting the counts for a node changes exactly the node and the nodes above it.\<close>

lemma AdjustRelevantNodeCounts_Some:
  assumes "tree_ok st root" "live st a"
  shows "\<exists>st'. AdjustRelevantNodeCounts (Some a) n f st = Some st' \<and> length st' = length st \<and>
    (\<forall>b. node_at st' b = (if a \<in> subtree st b then map_option (adjust_one f n) (node_at st b) else node_at st b))"
  using assms
proof (induction a arbitrary: st rule: less_induct)
  case (less a)
  then obtain p where p: "node_at st a = Some p" by (auto simp: live_iff)
  let ?st = "put st a (adjust_one f n p)"
  have shape: "same_shape st ?st" by (rule same_shape_put [OF p]) simp_all
  have run: "AdjustRelevantNodeCounts (Some a) n f st = AdjustRelevantNodeCounts (parent p) n f ?st"
    using p by (simp add: AdjustRelevantNodeCounts.simps [of "Some a"])
  show ?case
  proof (cases "parent p")
    case None
    have "a \<in> subtree st b \<longleftrightarrow> b = a" for b using subtree_up [of a st b p] p None by auto
    then show ?thesis using run p None by (auto simp: AdjustRelevantNodeCounts.simps)
  next
    case (Some b)
    note b = tree_ok_parent [OF less.prems(1) p Some]
    have "live ?st b" using b(2) p by (auto simp: live_iff)
    then obtain st' where st': "AdjustRelevantNodeCounts (Some b) n f ?st = Some st'" "length st' = length st"
      "\<forall>c. node_at st' c = (if b \<in> subtree st c then map_option (adjust_one f n) (node_at ?st c) else node_at ?st c)"
      using less.IH [OF b(1) tree_ok_same_shape [OF shape less.prems(1)]] subtree_same_shape [OF shape] by auto
    have "b \<notin> subtree st a" using subtree_ge [OF less.prems(1)] b(1) by fastforce
    then show ?thesis
      using run Some st' p above_iff [OF less.prems(1) p Some] by (intro exI [of _ st']) auto
  qed
qed

lemma adjust_same_shape:
  assumes "\<forall>b. node_at st' b = (if a \<in> subtree st b then map_option (adjust_one f n) (node_at st b) else node_at st b)"
  shows "same_shape st st'"
  using assms by (auto simp: same_shape_def option.map_comp comp_def)

section \<open>Deleting a leaf\<close>

lemma delete_orphan:
  assumes "node_at st a = Some p" "children p = []" "parent p = None"
  shows "\<exists>st'. delete_node st a = Some st' \<and> length st' = length st \<and>
    (\<forall>b. node_at st' b = (if b = a then None else node_at st b))"
proof (cases "node p")
  case None
  then show ?thesis using assms by (auto simp: delete_node_def store_simps)
next
  case (Some n)
  have "RemoveCountsForNode st a n = Some (put st a (adjust_one (\<lambda>c. u32_sub c 1) n p))"
    using assms by (simp add: RemoveCountsForNode_def AdjustRelevantNodeCounts.simps)
  then show ?thesis using assms Some by (auto simp: delete_node_def store_simps)
qed

text \<open>
  Removing a leaf from the tree deletes it and takes it out of the children of its parent. Nothing else changes, not
  even the counts of the nodes above: at the time the destructor walks up, the parent pointer is gone.
\<close>

lemma RemoveFromTreeAndDelete_child:
  assumes "tree_ok st root" "node_at st a = Some p" "children p = []" "parent p = Some b"
  shows "\<exists>st' q. RemoveFromTreeAndDelete st root a = Some (st', root) \<and> length st' = length st \<and> node_at st b = Some q \<and>
    (\<forall>c. node_at st' c = (if c = a then None
       else if c = b then Some (q\<lparr>children := remove1 a (children q)\<rparr>) else node_at st c))"
proof -
  obtain q where q: "node_at st b = Some q" and ba: "b \<noteq> a" using tree_ok_parent [OF assms(1,2,4)] by auto
  let ?st = "put (put st a (p\<lparr>parent := None\<rparr>)) b (q\<lparr>children := remove1 a (children q)\<rparr>)"
  have at: "node_at ?st c = (if c = b then Some (q\<lparr>children := remove1 a (children q)\<rparr>)
      else if c = a then Some (p\<lparr>parent := None\<rparr>) else node_at st c)" for c
    using node_at_less [OF q] node_at_less [OF assms(2)] by (simp add: store_simps)
  obtain st' where "delete_node ?st a = Some st'" "length st' = length st"
    "\<forall>c. node_at st' c = (if c = a then None else node_at ?st c)"
    using delete_orphan [of ?st a "p\<lparr>parent := None\<rparr>"] at ba assms(3) by auto
  then show ?thesis
    using assms q ba at by (auto simp: RemoveFromTreeAndDelete_def)
qed

lemma RemoveFromTreeAndDelete_root:
  assumes "tree_ok st root" "node_at st a = Some p" "children p = []" "parent p = None"
  shows "\<exists>st'. RemoveFromTreeAndDelete st root a = Some (st', None) \<and> length st' = length st \<and>
    (\<forall>c. node_at st' c = (if c = a then None else node_at st c))"
  using delete_orphan [OF assms(2,3,4)] tree_ok_no_parent [OF assms(1,2)] assms
  by (auto simp: RemoveFromTreeAndDelete_def DeleteRoot_def)

text \<open>The store without some of its nodes.\<close>

definition without :: "node_store \<Rightarrow> addr set \<Rightarrow> addr \<Rightarrow> node_properties option" where
  "without st S b = (if b \<in> S then None
     else map_option (\<lambda>p. p\<lparr>children := filter (\<lambda>c. c \<notin> S) (children p)\<rparr>) (node_at st b))"

lemma filter_children_id: "(\<forall>c\<in>set (children p). P c) \<Longrightarrow> p\<lparr>children := filter P (children p)\<rparr> = p"
  by (cases p) (simp add: filter_id_conv)

lemma remove_leaf:
  assumes "tree_ok st root" "node_at st a = Some p" "children p = []"
  shows "\<exists>st'. RemoveFromTreeAndDelete st root a = Some (st', if root = Some a then None else root) \<and> length st' = length st \<and>
    (\<forall>c. node_at st' c = without st {a} c)"
proof -
  have not_child: "a \<notin> set (children q)" if "node_at st c = Some q" "parent p \<noteq> Some c" for c q
    using tree_ok_child [OF assms(1) that(1), of a] assms(2) that(2) by auto
  have same: "without st {a} c = node_at st c" if "c \<noteq> a" "parent p \<noteq> Some c" for c
  proof (cases "node_at st c")
    case (Some q)
    then have "\<forall>d\<in>set (children q). d \<notin> {a}" using not_child [OF Some that(2)] by auto
    then show ?thesis using that(1) Some filter_children_id [of q "\<lambda>d. d \<notin> {a}"] by (simp add: without_def)
  qed (simp add: without_def)
  show ?thesis
  proof (cases "parent p")
    case None
    then show ?thesis
      using RemoveFromTreeAndDelete_root [OF assms None] tree_ok_no_parent [OF assms(1,2)] same
      by (auto simp: without_def [of st "{a}" a])
  next
    case (Some b)
    obtain st' q where st': "RemoveFromTreeAndDelete st root a = Some (st', root)" "length st' = length st" "node_at st b = Some q"
      "\<forall>c. node_at st' c = (if c = a then None
         else if c = b then Some (q\<lparr>children := remove1 a (children q)\<rparr>) else node_at st c)"
      using RemoveFromTreeAndDelete_child [OF assms Some] by blast
    have "root \<noteq> Some a" using tree_ok_no_parent [OF assms(1,2)] Some by simp
    moreover have "b \<noteq> a" using tree_ok_parent(1) [OF assms(1,2) Some] by simp
    moreover have "remove1 a (children q) = filter (\<lambda>c. c \<notin> {a}) (children q)"
      using distinct_remove1_removeAll [OF tree_ok_distinct [OF assms(1) st'(3)]]
      by (simp add: removeAll_filter_not_eq) (rule filter_cong, auto)
    ultimately have "\<forall>c. node_at st' c = without st {a} c"
      using st'(3,4) same Some by (auto simp: without_def [of st "{a}" a] without_def [of st "{a}" b])
    then show ?thesis using st'(1,2) \<open>root \<noteq> Some a\<close> by auto
  qed
qed

lemma tree_ok_without:
  assumes ok: "tree_ok st root" and closed: "\<And>c p. c \<in> S \<Longrightarrow> node_at st c = Some p \<Longrightarrow> set (children p) \<subseteq> S"
    and at: "\<forall>c. node_at st' c = without st S c"
    and root': "root' = (if root \<in> Some ` S then None else root)"
  shows "tree_ok st' root'"
  unfolding tree_ok_def
proof (intro conjI allI impI)
  fix a p' assume "node_at st' a = Some p'"
  then obtain p where p: "node_at st a = Some p" "a \<notin> S" "p' = p\<lparr>children := filter (\<lambda>c. c \<notin> S) (children p)\<rparr>"
    using at by (auto simp: without_def split: if_splits)
  show "distinct (children p')" using tree_ok_distinct [OF ok p(1)] p(3) by simp
  show "\<forall>c\<in>set (children p'). \<exists>q. node_at st' c = Some q \<and> parent q = Some a"
    using tree_ok_child [OF ok p(1)] p(3) at by (fastforce simp: without_def)
  show "case parent p' of None \<Rightarrow> root' = Some a
      | Some b \<Rightarrow> b < a \<and> (\<exists>q. node_at st' b = Some q \<and> a \<in> set (children q))"
  proof (cases "parent p'")
    case None
    then show ?thesis using tree_ok_no_parent [OF ok p(1)] p root' by auto
  next
    case (Some b)
    then have b: "parent p = Some b" using p(3) by simp
    obtain q where q: "b < a" "node_at st b = Some q" "a \<in> set (children q)" using tree_ok_parent [OF ok p(1) b] by blast
    then have "b \<notin> S" using closed p(2) by blast
    then show ?thesis using Some q p(2) at by (auto simp: without_def)
  qed
next
  fix r assume "root' = Some r"
  then have r: "root = Some r" "r \<notin> S" using root' by (auto split: if_splits)
  then obtain p where "node_at st r = Some p" "parent p = None" using tree_ok_root ok by blast
  then show "\<exists>p. node_at st' r = Some p \<and> parent p = None" using r(2) at by (auto simp: without_def)
qed


section \<open>Failing a sub-tree\<close>

text \<open>
  The list to fail has the children of a node before the node. The loop then finds every node without children, deletes all
  of them and leaves the rest of the store as it was, apart from the children lists.
\<close>

definition children_earlier :: "node_store \<Rightarrow> addr list \<Rightarrow> bool" where
  "children_earlier st xs \<longleftrightarrow>
     (\<forall>ys a zs p. xs = ys @ a # zs \<longrightarrow> node_at st a = Some p \<longrightarrow> set (children p) \<subseteq> set ys)"

lemma children_earlier_rev: "children_later st xs \<Longrightarrow> children_earlier st (rev xs)"
  unfolding children_later_def children_earlier_def
proof (intro allI impI)
  fix ys a zs p
  assume later: "\<forall>ys a zs p. xs = ys @ a # zs \<longrightarrow> node_at st a = Some p \<longrightarrow> set (children p) \<subseteq> set zs"
    and e: "rev xs = ys @ a # zs" and p: "node_at st a = Some p"
  have "xs = rev zs @ a # rev ys" using arg_cong [OF e, of rev] by simp
  then show "set (children p) \<subseteq> set ys" using later p by fastforce
qed

lemma children_earlier_Cons:
  assumes "children_earlier st (a # xs)" "a \<notin> set xs" "\<forall>c. node_at st' c = without st {a} c"
  shows "children_earlier st' xs"
  unfolding children_earlier_def
proof (intro allI impI)
  fix ys b zs q assume e: "xs = ys @ b # zs" and q: "node_at st' b = Some q"
  then obtain p where p: "node_at st b = Some p" "q = p\<lparr>children := filter (\<lambda>c. c \<notin> {a}) (children p)\<rparr>"
    using assms(3) by (auto simp: without_def split: if_splits)
  have "a # xs = (a # ys) @ b # zs" using e by simp
  then have "set (children p) \<subseteq> set (a # ys)" using assms(1) p(1) unfolding children_earlier_def by blast
  then show "set (children q) \<subseteq> set ys" using p(2) by auto
qed

lemma without_without:
  assumes "\<forall>c. node_at st' c = without st S c"
  shows "without st' T c = without st (S \<union> T) c"
proof -
  have "filter (\<lambda>c. c \<notin> T) (filter (\<lambda>c. c \<notin> S) cs) = filter (\<lambda>c. c \<notin> S \<union> T) cs" for cs :: "addr list"
    by (auto simp: intro: filter_cong)
  then show ?thesis
    using assms by (auto simp: without_def option.map_comp comp_def intro: option.map_cong)
qed

lemma without_empty [simp]: "without st {} c = node_at st c"
proof (cases "node_at st c")
  case (Some p)
  then show ?thesis using filter_children_id [of p "\<lambda>_. True"] by (simp add: without_def)
qed (simp add: without_def)

definition all_nodes_set :: "node_store \<Rightarrow> bool" where
  "all_nodes_set st \<longleftrightarrow> (\<forall>a p. node_at st a = Some p \<longrightarrow> node p \<noteq> None)"

lemma fail_loop_Some:
  assumes "tree_ok st root" "all_nodes_set st" "distinct xs" "\<forall>a\<in>set xs. live st a" "children_earlier st xs"
  shows "\<exists>st' closed. fail_loop st root xs = Some (st', if root \<in> Some ` set xs then None else root, closed) \<and>
    length st' = length st \<and> (\<forall>c. node_at st' c = without st (set xs) c) \<and>
    tree_ok st' (if root \<in> Some ` set xs then None else root) \<and>
    closed = filter (\<lambda>a. \<exists>p n. node_at st a = Some p \<and> node p = Some n \<and> Fail_closes n) xs"
  using assms
proof (induction xs arbitrary: st root)
  case Nil
  then show ?case by auto
next
  case (Cons a xs)
  then obtain p where p: "node_at st a = Some p" by (auto simp: live_iff)
  have leaf: "children p = []"
    using Cons.prems(5) p unfolding children_earlier_def by (metis append_Nil empty_iff empty_set subset_empty set_empty)
  obtain n where n: "node p = Some n" using Cons.prems(2) p by (auto simp: all_nodes_set_def)
  obtain st1 where st1: "RemoveFromTreeAndDelete st root a = Some (st1, if root = Some a then None else root)"
    "length st1 = length st" "\<forall>c. node_at st1 c = without st {a} c"
    using remove_leaf [OF Cons.prems(1) p leaf] by blast
  let ?root = "if root = Some a then None else root"
  have ok1: "tree_ok st1 ?root"
    by (rule tree_ok_without [OF Cons.prems(1) _ st1(3)]) (use p leaf in auto)
  have "all_nodes_set st1"
    using Cons.prems(2) st1(3) by (auto simp: all_nodes_set_def without_def split: if_splits)
  moreover have "\<forall>c\<in>set xs. live st1 c"
    using Cons.prems(3,4) st1(3) by (auto simp: live_iff without_def)
  moreover have "children_earlier st1 xs"
    using children_earlier_Cons [OF Cons.prems(5) _ st1(3)] Cons.prems(3) by simp
  ultimately obtain st' closed where IH:
    "fail_loop st1 ?root xs = Some (st', if ?root \<in> Some ` set xs then None else ?root, closed)" "length st' = length st1"
    "\<forall>c. node_at st' c = without st1 (set xs) c" "tree_ok st' (if ?root \<in> Some ` set xs then None else ?root)"
    "closed = filter (\<lambda>a. \<exists>p n. node_at st1 a = Some p \<and> node p = Some n \<and> Fail_closes n) xs"
    using Cons.IH [OF ok1] Cons.prems(3) by auto
  have root: "(if ?root \<in> Some ` set xs then None else ?root) = (if root \<in> Some ` set (a # xs) then None else root)"
    by auto
  have "\<forall>c. node_at st' c = without st (set (a # xs)) c"
    using IH(3) without_without [OF st1(3)] by simp
  moreover have "(\<exists>p n. node_at st1 c = Some p \<and> node p = Some n \<and> Fail_closes n) \<longleftrightarrow>
      (\<exists>p n. node_at st c = Some p \<and> node p = Some n \<and> Fail_closes n)" if "c \<in> set xs" for c
    using st1(3) that Cons.prems(3) by (auto simp: without_def)
  then have "closed = filter (\<lambda>a. \<exists>p n. node_at st a = Some p \<and> node p = Some n \<and> Fail_closes n) xs"
    unfolding IH(5) by (rule filter_cong [OF refl])
  ultimately show ?case
    using IH(1,2,4) st1(1,2) p leaf n unfolding root by auto
qed

lemma FailDownFrom_Some:
  assumes ok: "tree_ok st root" and set: "all_nodes_set st" and a: "live st a"
  shows "\<exists>st' closed. FailDownFrom st root a = Some (st', if root = Some a then None else root, closed) \<and>
    length st' = length st \<and> (\<forall>c. node_at st' c = without st (subtree st a) c) \<and>
    tree_ok st' (if root = Some a then None else root) \<and>
    set closed = {c\<in>subtree st a. \<exists>p n. node_at st c = Some p \<and> node p = Some n \<and> Fail_closes n}"
proof -
  obtain xs where xs: "BreadthFirstOrder st all_nodes a = Some (a # xs)" "distinct (a # xs)" "set (a # xs) = subtree st a"
    "children_later st (a # xs)"
    using BreadthFirstOrder_all [OF ok a] by blast
  have s: "set (rev (a # xs)) = subtree st a" using xs(3) by (simp only: set_rev)
  have live: "\<forall>c\<in>set (rev (a # xs)). live st c"
    unfolding s using subtree_live a by (fastforce simp: live_iff)
  have "root \<in> Some ` subtree st a \<longleftrightarrow> root = Some a"
  proof
    assume "root \<in> Some ` subtree st a"
    then obtain r where r: "root = Some r" "r \<in> subtree st a" by blast
    obtain p where "node_at st r = Some p" "parent p = None" using tree_ok_root ok r(1) by blast
    then show "root = Some a" using subtree_up [OF r(2)] r(1) by fastforce
  qed auto
  then show ?thesis
    using fail_loop_Some [OF ok set _ live children_earlier_rev [OF xs(4)]] xs(1,2)
    unfolding s FailDownFrom_def by (auto simp: xs(3) simp del: rev.simps list.set)
qed


end
