(* ===== verification/Sysmem_Tree_Invariant.thy ===== *)
theory Sysmem_Tree_Invariant
  imports Sysmem_Tree
begin

text \<open>
  Where a failure stops on its way up, and what the operations that make and change nodes keep: an interface for invariants that
  speak about single nodes and about the link from a node to its parent.
\<close>

section \<open>The tree to fail\<close>

text \<open>
  Buffers are allocated for a parent before a child, and for both together unless the child was attached.
\<close>

definition allocation_link :: "node_properties \<Rightarrow> node_properties \<Rightarrow> bool" where
  "allocation_link p q \<longleftrightarrow>
     (buffers_logically_allocated p \<longrightarrow> buffers_logically_allocated q) \<and>
     (error_propagation_mode p \<noteq> kDoNotPropagate \<longrightarrow> buffers_logically_allocated q \<longrightarrow> buffers_logically_allocated p)"

definition links_ok :: "(node_properties \<Rightarrow> node_properties \<Rightarrow> bool) \<Rightarrow> node_store \<Rightarrow> bool" where
  "links_ok E st \<longleftrightarrow> (\<forall>a p b q. node_at st a = Some p \<longrightarrow> parent p = Some b \<longrightarrow> node_at st b = Some q \<longrightarrow> E p q)"

text \<open>A failure does not go further up from the root, from an attached node, or from a dispensable node with buffers.\<close>

definition failure_stops :: "node_properties \<Rightarrow> bool" where
  "failure_stops p \<longleftrightarrow> parent p = None \<or> error_propagation_mode p = kDoNotPropagate \<or>
     error_propagation_mode p = kPropagateBeforeAllocation \<and> buffers_logically_allocated p"

lemma FindTreeToFail_Some:
  assumes ok: "tree_ok st root" and al: "links_ok allocation_link st"
  shows "live st a \<Longrightarrow> \<exists>t p. FindTreeToFail st a = Some t \<and> node_at st t = Some p \<and> failure_stops p \<and> a \<in> subtree st t \<and>
    (\<forall>c q. a \<in> subtree st c \<longrightarrow> c \<in> subtree st t \<longrightarrow> c \<noteq> t \<longrightarrow> node_at st c = Some q \<longrightarrow> \<not> failure_stops q)"
proof (induction a rule: less_induct)
  case (less a)
  then obtain p where p: "node_at st a = Some p" by (auto simp: live_iff)
  have here: "c = a" if "a \<in> subtree st c" "c \<in> subtree st a" for c
    using subtree_ge [OF ok that(1)] subtree_ge [OF ok that(2)] by simp
  show ?case
  proof (cases "failure_stops p")
    case True
    have "FindTreeToFail st a = Some a"
    proof (cases "parent p")
      case (Some b)
      then obtain q where "node_at st b = Some q" using tree_ok_parent(2) [OF ok p] by blast
      moreover have "allocation_link p q" using al p Some \<open>node_at st b = Some q\<close> by (auto simp: links_ok_def)
      ultimately show ?thesis
        using True p Some
        by (subst FindTreeToFail.simps) (auto simp: failure_stops_def allocation_link_def split: ErrorPropagationMode.splits)
    qed (use p in \<open>simp add: FindTreeToFail.simps\<close>)
    then show ?thesis using p True here by (intro exI [of _ a] exI [of _ p]) auto
  next
    case False
    then obtain b where b: "parent p = Some b" by (auto simp: failure_stops_def)
    obtain q where q: "b < a" "node_at st b = Some q" using tree_ok_parent [OF ok p b] by blast
    have "allocation_link p q" using al p b q(2) by (auto simp: links_ok_def)
    then have run: "FindTreeToFail st a = FindTreeToFail st b"
      using False p b q(2)
      by (subst FindTreeToFail.simps) (auto simp: failure_stops_def allocation_link_def split: ErrorPropagationMode.splits)
    obtain t r where t: "FindTreeToFail st b = Some t" "node_at st t = Some r" "failure_stops r" "b \<in> subtree st t"
      "\<forall>c q. b \<in> subtree st c \<longrightarrow> c \<in> subtree st t \<longrightarrow> c \<noteq> t \<longrightarrow> node_at st c = Some q \<longrightarrow> \<not> failure_stops q"
      using less.IH [OF q(1)] q(2) by (auto simp: live_iff)
    have "a \<in> subtree st t" by (rule subtree_child [OF t(4) p b])
    moreover have "\<not> failure_stops x"
      if "a \<in> subtree st c" "c \<in> subtree st t" "c \<noteq> t" "node_at st c = Some x" for c x
      using that t(5) False p above_iff [OF ok p b, of c] by auto
    ultimately show ?thesis using t(1-3) run by auto
  qed
qed

section \<open>Making nodes\<close>

text \<open>A node without its counts.\<close>

definition forget_counts :: "node_properties \<Rightarrow> node_properties" where
  "forget_counts p = p\<lparr>node_count := 0, connected_client_count := 0, buffer_collection_count := 0,
     buffer_collection_token_count := 0\<rparr>"

lemma forget_counts_simps [simp]:
  "parent (forget_counts p) = parent p" "children (forget_counts p) = children p" "node (forget_counts p) = node p"
  "rights_attenuation_mask (forget_counts p) = rights_attenuation_mask p"
  "error_propagation_mode (forget_counts p) = error_propagation_mode p"
  "buffers_logically_allocated (forget_counts p) = buffers_logically_allocated p"
  "buffer_collection_constraints (forget_counts p) = buffer_collection_constraints p"
  "client_debug_info (forget_counts p) = client_debug_info p"
  "forget_counts (adjust_one f n p) = forget_counts p"
  "forget_counts (p\<lparr>node := x\<rparr>) = (forget_counts p)\<lparr>node := x\<rparr>"
  by (simp_all add: forget_counts_def adjust_one_def)

lemma SetNode_Some:
  assumes ok: "tree_ok st root" and p: "node_at st a = Some p"
  shows "\<exists>st'. SetNode st a n = Some st' \<and> length st' = length st \<and> same_shape st st' \<and>
    (\<forall>b. map_option forget_counts (node_at st' b) =
       (if b = a then Some (forget_counts (p\<lparr>node := Some n\<rparr>)) else map_option forget_counts (node_at st b)))"
proof -
  obtain st1 where st1: "AddCountsForNode st a n = Some st1" "length st1 = length st"
    "\<forall>b. node_at st1 b = (if a \<in> subtree st b then map_option (adjust_one (\<lambda>c. u32_add c 1) n) (node_at st b) else node_at st b)"
    using AdjustRelevantNodeCounts_Some [OF ok, of a n "\<lambda>c. u32_add c 1"] p by (auto simp: AddCountsForNode_def live_iff)
  have shape1: "same_shape st st1" by (rule adjust_same_shape [OF st1(3)])
  have p1: "node_at st1 a = Some (adjust_one (\<lambda>c. u32_add c 1) n p)" using st1(3) p by simp
  have core1: "map_option forget_counts (node_at st1 b) = map_option forget_counts (node_at st b)" for b
    using st1(3) by (simp add: option.map_comp comp_def)
  have "\<exists>st2. (case node p of None \<Rightarrow> Some st1 | Some old \<Rightarrow> RemoveCountsForNode st1 a old) = Some st2 \<and>
      length st2 = length st \<and> same_shape st st2 \<and>
      (\<forall>b. map_option forget_counts (node_at st2 b) = map_option forget_counts (node_at st b))"
  proof (cases "node p")
    case None
    then show ?thesis using st1(2) shape1 core1 by simp
  next
    case (Some old)
    obtain st2 where st2: "RemoveCountsForNode st1 a old = Some st2" "length st2 = length st1"
      "\<forall>b. node_at st2 b =
         (if a \<in> subtree st1 b then map_option (adjust_one (\<lambda>c. u32_sub c 1) old) (node_at st1 b) else node_at st1 b)"
      using AdjustRelevantNodeCounts_Some [OF tree_ok_same_shape [OF shape1 ok], of a old "\<lambda>c. u32_sub c 1"] p1
      by (auto simp: RemoveCountsForNode_def live_iff)
    have "map_option forget_counts (node_at st2 b) = map_option forget_counts (node_at st b)" for b
      using st2(3) core1 by (simp add: option.map_comp comp_def)
    then show ?thesis
      using Some st1(2) st2(1,2) same_shape_trans [OF shape1 adjust_same_shape [OF st2(3)]] by simp
  qed
  then obtain st2 where st2: "(case node p of None \<Rightarrow> Some st1 | Some old \<Rightarrow> RemoveCountsForNode st1 a old) = Some st2"
    "length st2 = length st" "same_shape st st2"
    "\<And>b. map_option forget_counts (node_at st2 b) = map_option forget_counts (node_at st b)" by blast
  obtain p2 where p2: "node_at st2 a = Some p2" "forget_counts p2 = forget_counts p"
    using st2(4) [of a] p by (cases "node_at st2 a") auto
  let ?st = "put st2 a (p2\<lparr>node := Some n\<rparr>)"
  have "same_shape st ?st"
    using same_shape_trans [OF st2(3)] same_shape_put [OF p2(1)] by simp
  moreover have "\<forall>b. map_option forget_counts (node_at ?st b) =
      (if b = a then Some (forget_counts (p\<lparr>node := Some n\<rparr>)) else map_option forget_counts (node_at st b))"
    using p2 st2(4) by auto
  moreover have "SetNode st a n = Some ?st" using st1(1) p1 st2(1) p2(1) by (simp add: SetNode_def)
  ultimately show ?thesis using st2(2) by auto
qed

lemma NewChild_Some:
  assumes p: "node_at st a = Some p"
  shows "NewChild st a = Some (put st a (p\<lparr>children := children p @ [length st]\<rparr>) @
      [Some (new_properties\<lparr>parent := Some a, client_debug_info := client_debug_info p,
         rights_attenuation_mask := rights_attenuation_mask p\<rparr>)], length st)"
  using p by (simp add: NewChild_def)

lemma NewChild_tree_ok:
  assumes ok: "tree_ok st root" and p: "node_at st a = Some p" and st': "NewChild st a = Some (st', c)"
  shows "tree_ok st' root"
proof -
  let ?n = "new_properties\<lparr>parent := Some a, client_debug_info := client_debug_info p,
    rights_attenuation_mask := rights_attenuation_mask p\<rparr>"
  have a: "a < length st" by (rule node_at_less [OF p])
  have at: "node_at st' b = (if b = length st then Some ?n
      else if b = a then Some (p\<lparr>children := children p @ [length st]\<rparr>) else node_at st b)" for b
    using st' p a by (auto simp: NewChild_Some store_simps)
  have fresh: "length st \<notin> set (children q)" if "node_at st b = Some q" for b q
    using tree_ok_child_less [OF ok that] by blast
  show ?thesis
    unfolding tree_ok_def
  proof (intro conjI allI impI)
    fix b q assume q: "node_at st' b = Some q"
    show "distinct (children q)"
      using q at p tree_ok_distinct [OF ok] fresh by (auto simp: new_properties_def split: if_splits)
    show "\<forall>d\<in>set (children q). \<exists>x. node_at st' d = Some x \<and> parent x = Some b"
      using q at p tree_ok_child [OF ok] a fresh by (fastforce simp: new_properties_def split: if_splits)
    show "case parent q of None \<Rightarrow> root = Some b
        | Some d \<Rightarrow> d < b \<and> (\<exists>x. node_at st' d = Some x \<and> b \<in> set (children x))"
    proof (cases "b = length st")
      case True
      then show ?thesis using q at a by (auto simp: new_properties_def)
    next
      case False
      then obtain x where x: "node_at st b = Some x" "parent x = parent q" using q at p by (auto split: if_splits)
      show ?thesis
      proof (cases "parent q")
        case None
        then show ?thesis using tree_ok_no_parent [OF ok x(1)] x(2) by simp
      next
        case (Some d)
        then obtain y where y: "d < b" "node_at st d = Some y" "b \<in> set (children y)"
          using tree_ok_parent [OF ok x(1)] x(2) by auto
        then show ?thesis using Some at p node_at_less [OF y(2)] by auto
      qed
    qed
  next
    fix r assume "root = Some r"
    then obtain x where "node_at st r = Some x" "parent x = None" using tree_ok_root ok by blast
    then show "\<exists>x. node_at st' r = Some x \<and> parent x = None" using at p node_at_less by fastforce
  qed
qed

section \<open>Invariants of nodes and links\<close>

definition nodes_ok :: "(node_properties \<Rightarrow> bool) \<Rightarrow> node_store \<Rightarrow> bool" where
  "nodes_ok N st \<longleftrightarrow> (\<forall>a p. node_at st a = Some p \<longrightarrow> N p)"

text \<open>
  An invariant that says something about every node and about every link, and that looks neither at the counts nor at the children nor,
  for links, at the kind of the nodes.
\<close>

locale link_invariant =
  fixes N :: "node_properties \<Rightarrow> bool" and E :: "node_properties \<Rightarrow> node_properties \<Rightarrow> bool"
  assumes N_counts: "N (forget_counts p) = N p"
    and N_children: "N (p\<lparr>children := cs\<rparr>) = N p"
    and E_counts: "E (forget_counts p) (forget_counts q) = E p q"
    and E_children: "E (p\<lparr>children := cs\<rparr>) (q\<lparr>children := ds\<rparr>) = E p q"
    and E_node: "E (p\<lparr>node := m\<rparr>) (q\<lparr>node := n\<rparr>) = E p q"
begin

lemma links_without:
  assumes inv: "nodes_ok N st" "links_ok E st" and at: "\<forall>c. node_at st' c = without st S c"
  shows "nodes_ok N st'" and "links_ok E st'"
proof -
  have keep: "\<exists>q. node_at st a = Some q \<and> p = q\<lparr>children := filter (\<lambda>c. c \<notin> S) (children q)\<rparr>"
    if "node_at st' a = Some p" for a p
    using at that by (auto simp: without_def split: if_splits)
  show "nodes_ok N st'"
    unfolding nodes_ok_def
  proof (intro allI impI)
    fix a p assume "node_at st' a = Some p"
    then obtain q where "node_at st a = Some q" "p = q\<lparr>children := filter (\<lambda>c. c \<notin> S) (children q)\<rparr>" using keep by blast
    then show "N p" using inv(1) N_children by (simp add: nodes_ok_def)
  qed
  show "links_ok E st'"
    unfolding links_ok_def
  proof (intro allI impI)
    fix a p b q assume *: "node_at st' a = Some p" "parent p = Some b" "node_at st' b = Some q"
    obtain p0 where p0: "node_at st a = Some p0" "p = p0\<lparr>children := filter (\<lambda>c. c \<notin> S) (children p0)\<rparr>"
      using keep [OF *(1)] by blast
    obtain q0 where q0: "node_at st b = Some q0" "q = q0\<lparr>children := filter (\<lambda>c. c \<notin> S) (children q0)\<rparr>"
      using keep [OF *(3)] by blast
    have "parent p0 = Some b" using *(2) p0(2) by simp
    then have "E p0 q0" using inv(2) p0(1) q0(1) by (simp add: links_ok_def)
    then show "E p q" unfolding p0(2) q0(2) E_children .
  qed
qed

lemma links_put:
  assumes inv: "nodes_ok N st" "links_ok E st" and p: "node_at st a = Some p" and new: "parent p' = parent p" "N p'"
    and up: "\<And>b q. parent p = Some b \<Longrightarrow> node_at st b = Some q \<Longrightarrow> E p' q"
    and down: "\<And>c r. node_at st c = Some r \<Longrightarrow> parent r = Some a \<Longrightarrow> E r p'"
    and loop: "parent p \<noteq> Some a"
  shows "nodes_ok N (put st a p')" and "links_ok E (put st a p')"
proof -
  show "nodes_ok N (put st a p')" using inv(1) p new(2) by (simp add: nodes_ok_def)
  show "links_ok E (put st a p')"
    unfolding links_ok_def
  proof (intro allI impI)
    fix c r b q assume *: "node_at (put st a p') c = Some r" "parent r = Some b" "node_at (put st a p') b = Some q"
    consider "c = a" "b \<noteq> a" | "c \<noteq> a" "b = a" | "c \<noteq> a" "b \<noteq> a" using * p new(1) loop by (auto split: if_splits)
    then show "E r q"
    proof cases
      case 1
      then have "parent p = Some b" "node_at st b = Some q" "r = p'" using * p new(1) by simp_all
      then show ?thesis using up by blast
    next
      case 2
      then show ?thesis using * p down by simp
    next
      case 3
      then show ?thesis using * p inv(2) by (simp add: links_ok_def)
    qed
  qed
qed

lemma links_counts:
  assumes inv: "nodes_ok N st" "links_ok E st"
    and at: "\<forall>b. map_option forget_counts (node_at st' b) = map_option forget_counts (node_at st b)"
  shows "nodes_ok N st'" and "links_ok E st'"
proof -
  have keep: "\<exists>q. node_at st a = Some q \<and> forget_counts p = forget_counts q" if "node_at st' a = Some p" for a p
    using spec [OF at, of a] that by (cases "node_at st a") auto
  show "nodes_ok N st'" using inv(1) keep N_counts unfolding nodes_ok_def by metis
  show "links_ok E st'"
    unfolding links_ok_def
  proof (intro allI impI)
    fix a p b q assume *: "node_at st' a = Some p" "parent p = Some b" "node_at st' b = Some q"
    obtain p0 q0 where 0: "node_at st a = Some p0" "forget_counts p = forget_counts p0"
      "node_at st b = Some q0" "forget_counts q = forget_counts q0"
      using keep *(1,3) by blast
    moreover have "parent p0 = Some b" using *(2) forget_counts_simps(1) 0(2) by metis
    ultimately have "E p0 q0" using inv(2) by (simp add: links_ok_def)
    then show "E p q" using E_counts 0(2,4) by metis
  qed
qed

lemma links_SetNode:
  assumes inv: "nodes_ok N st" "links_ok E st" and ok: "tree_ok st root" and p: "node_at st a = Some p"
    and st': "SetNode st a n = Some st'" and new: "N (p\<lparr>node := Some n\<rparr>)"
  shows "nodes_ok N st'" and "links_ok E st'"
proof -
  let ?p = "p\<lparr>node := Some n\<rparr>"
  have E1: "E ?p q = E p q" "E r ?p = E r p" for q r
    using E_node [where p = p and m = "Some n" and q = q and n = "node q"]
      E_node [where p = r and m = "node r" and q = p and n = "Some n"] by simp_all
  have loop: "parent p \<noteq> Some a" using tree_ok_parent(1) [OF ok p, of a] by auto
  have up: "E ?p q" if "parent p = Some b" "node_at st b = Some q" for b q
    unfolding E1 using inv(2) p that by (simp add: links_ok_def)
  have down: "E r ?p" if "node_at st c = Some r" "parent r = Some a" for c r
    unfolding E1 using inv(2) p that by (simp add: links_ok_def)
  have "nodes_ok N (put st a ?p)" "links_ok E (put st a ?p)"
    using links_put [OF inv p _ new up down loop] by simp_all
  moreover have "\<forall>b. map_option forget_counts (node_at st' b) = map_option forget_counts (node_at (put st a ?p) b)"
    using SetNode_Some [OF ok p, of n] st' p by auto
  ultimately show "nodes_ok N st'" "links_ok E st'" using links_counts by blast+
qed

lemma links_grow:
  assumes inv: "nodes_ok N st" "links_ok E st" and ok: "tree_ok st root" and p: "node_at st a = Some p"
    and at: "\<And>b. node_at st' b = (if b = length st then Some n
      else if b = a then Some (p\<lparr>children := children p @ [length st]\<rparr>) else node_at st b)"
    and up: "parent n = Some a" and new: "N n" "E n p"
  shows "nodes_ok N st'" and "links_ok E st'"
proof -
  have a: "a < length st" by (rule node_at_less [OF p])
  have E1: "E r (p\<lparr>children := cs\<rparr>) = E r p" for r p cs
    using E_children [where p = r and cs = "children r" and q = p and ds = cs] by simp
  have E2: "E (r\<lparr>children := cs\<rparr>) p = E r p" "E r (p\<lparr>children := cs\<rparr>) = E r p" for r p cs
    using E_children [where p = r and cs = cs and q = p and ds = "children p"] E1 by simp_all
  have fresh: "parent q \<noteq> Some (length st)" if "node_at st b = Some q" for b q
    using tree_ok_parent [OF ok that] node_at_less by fastforce
  have "N (p\<lparr>children := cs\<rparr>)" for cs using inv(1) p N_children by (simp add: nodes_ok_def)
  then show "nodes_ok N st'" using inv(1) new(1) at by (simp add: nodes_ok_def)
  show "links_ok E st'"
    unfolding links_ok_def
  proof (intro allI impI)
    fix x r b q assume *: "node_at st' x = Some r" "parent r = Some b" "node_at st' b = Some q"
    show "E r q"
    proof (cases "x = length st")
      case True
      then show ?thesis using * at up a new(2) E1 by auto
    next
      case False
      then obtain r0 where r0: "node_at st x = Some r0" "parent r0 = Some b" "r = r0 \<or> x = a \<and> r = r0\<lparr>children := children r0 @ [length st]\<rparr>"
        using * at p by (auto split: if_splits)
      have "b \<noteq> length st" using fresh [OF r0(1)] r0(2) by auto
      then obtain q0 where q0: "node_at st b = Some q0" "q = q0 \<or> q = q0\<lparr>children := children q0 @ [length st]\<rparr>"
        using *(3) at p by (auto split: if_splits)
      have "E r0 q0" using inv(2) r0(1,2) q0(1) by (simp add: links_ok_def)
      then show ?thesis using r0(3) q0(2) E2 by auto
    qed
  qed
qed

end

text \<open>A client never has a right that a node above it does not have.\<close>

definition rights_link :: "node_properties \<Rightarrow> node_properties \<Rightarrow> bool" where
  "rights_link p q \<longleftrightarrow> rights_attenuation_mask p AND rights_attenuation_mask q = rights_attenuation_mask p"

interpretation rights: link_invariant "\<lambda>_. True" rights_link
  by unfold_locales (simp_all add: rights_link_def)

text \<open>Buffers are never allocated for a token.\<close>

definition token_unallocated :: "node_properties \<Rightarrow> bool" where
  "token_unallocated p \<longleftrightarrow> (\<forall>t. node p = Some (Token t) \<longrightarrow> \<not> buffers_logically_allocated p)"

interpretation allocation: link_invariant token_unallocated allocation_link
  by unfold_locales (simp_all add: allocation_link_def token_unallocated_def)

section \<open>The nodes that allocate together\<close>

inductive_set pruned :: "node_store \<Rightarrow> addr \<Rightarrow> addr set" for st s where
  pruned_top [intro, simp]: "s \<in> pruned st s"
| pruned_child: "c \<in> pruned st s \<Longrightarrow> node_at st d = Some q \<Longrightarrow> parent q = Some c \<Longrightarrow>
    error_propagation_mode q \<noteq> kDoNotPropagate \<Longrightarrow> d \<in> pruned st s"

lemma pruned_subtree: "d \<in> pruned st s \<Longrightarrow> d \<in> subtree st s"
  by (induction rule: pruned.induct) (auto intro: subtree_child)

lemma pruned_up:
  assumes "d \<in> pruned st s" "d \<noteq> s" "node_at st d = Some q"
  shows "\<exists>b. parent q = Some b \<and> b \<in> pruned st s \<and> error_propagation_mode q \<noteq> kDoNotPropagate"
  using assms by (cases rule: pruned.cases) auto

lemma pruned_filter_Some:
  assumes ok: "tree_ok st root"
  shows "live st a \<Longrightarrow> \<exists>r. pruned_filter st s (Some a) = Some r \<and> (keep_node r \<longleftrightarrow> a \<in> pruned st s) \<and>
    (a \<in> subtree st s \<longrightarrow> iterate_children r = keep_node r)"
proof (induction a rule: less_induct)
  case (less a)
  then obtain p where p: "node_at st a = Some p" by (auto simp: live_iff)
  show ?case
  proof (cases "a = s")
    case True
    then show ?thesis by (simp add: pruned_filter.simps)
  next
    case as: False
    show ?thesis
    proof (cases "error_propagation_mode p = kDoNotPropagate")
      case True
      then show ?thesis using as p pruned_up [OF _ as p] by (auto simp: pruned_filter.simps)
    next
      case False
      then have run: "pruned_filter st s (Some a) = pruned_filter st s (parent p)"
        using as p by (simp add: pruned_filter.simps [of _ _ "Some a"])
      show ?thesis
      proof (cases "parent p")
        case None
        then show ?thesis using run as p pruned_up [OF _ as p] subtree_up [OF _ as p]
          by (auto simp: pruned_filter.simps [of _ _ None])
      next
        case (Some b)
        then obtain q where b: "b < a" "node_at st b = Some q" using tree_ok_parent [OF ok p] by blast
        have "a \<in> pruned st s \<longleftrightarrow> b \<in> pruned st s"
          using pruned_up [OF _ as p] Some False pruned_child [OF _ p Some] by auto
        moreover have "a \<in> subtree st s \<longleftrightarrow> b \<in> subtree st s"
          using subtree_up [OF _ as p] Some subtree_child [OF _ p Some] by auto
        ultimately show ?thesis using less.IH [OF b(1)] b(2) run Some by (auto simp: live_iff)
      qed
    qed
  qed
qed

lemma pruned_below:
  assumes ok: "tree_ok st root" and r: "\<And>c. c \<in> pruned st s \<Longrightarrow> it c"
  shows "d \<in> pruned st s \<Longrightarrow> d = s \<or> d \<in> below st it s"
proof (induction rule: pruned.induct)
  case (pruned_child c d q)
  obtain p where "node_at st c = Some p" "d \<in> set (children p)"
    using tree_ok_parent(2) [OF ok pruned_child.hyps(2,3)] by blast
  then show ?case using pruned_child.IH r [OF pruned_child.hyps(1)] by (auto intro: below.intros)
qed simp

lemma NodesOfPruned_Some:
  assumes ok: "tree_ok st root" and run: "NodesOfPrunedSubtreeEligibleForLogicalAllocation st root s = Some ns"
  shows "set ns = pruned st s" and "distinct ns" and "ns \<noteq> [] \<and> hd ns = s" and "live st s"
    and "\<And>p. node_at st s = Some p \<Longrightarrow> \<not> buffers_logically_allocated p"
    and "\<And>p b q. node_at st s = Some p \<Longrightarrow> parent p = Some b \<Longrightarrow> node_at st b = Some q \<Longrightarrow> buffers_logically_allocated q"
proof -
  obtain p where p: "node_at st s = Some p" "\<not> buffers_logically_allocated p"
    "BreadthFirstOrder st (\<lambda>a. pruned_filter st s (Some a)) s = Some ns"
    using run by (auto simp: NodesOfPrunedSubtreeEligibleForLogicalAllocation_def elim!: bind_SomeE)
  show live: "live st s" using p(1) by (simp add: live_iff)
  show "\<And>p. node_at st s = Some p \<Longrightarrow> \<not> buffers_logically_allocated p" using p(1,2) by simp
  show "\<And>p b q. node_at st s = Some p \<Longrightarrow> parent p = Some b \<Longrightarrow> node_at st b = Some q \<Longrightarrow> buffers_logically_allocated q"
    using run tree_ok_no_parent [OF ok p(1)] p(1)
    by (auto simp: NodesOfPrunedSubtreeEligibleForLogicalAllocation_def elim!: bind_SomeE split: if_splits)
  define r where "r a = the (pruned_filter st s (Some a))" for a
  have r: "pruned_filter st s (Some a) = Some (r a)" "keep_node (r a) \<longleftrightarrow> a \<in> pruned st s"
    "a \<in> subtree st s \<longrightarrow> iterate_children (r a) = keep_node (r a)" if "live st a" for a
    using pruned_filter_Some [OF ok that, of s] by (auto simp: r_def)
  obtain xs where xs: "BreadthFirstOrder st (\<lambda>a. pruned_filter st s (Some a)) s = Some xs" "distinct xs"
    "set xs = {d. keep_node (r d) \<and> (d = s \<or> iterate_children (r s) \<and> d \<in> below st (\<lambda>c. iterate_children (r c)) s)}"
    "keep_node (r s) \<longrightarrow> hd xs = s \<and> xs \<noteq> []"
    using BreadthFirstOrder_filtered [OF ok live, of "\<lambda>a. pruned_filter st s (Some a)" r] r(1) by blast
  have ns: "xs = ns" using xs(1) p(3) by simp
  have top: "keep_node (r s)" "iterate_children (r s)" using r [OF live] by simp_all
  have in_sub: "live st d" if "d \<in> subtree st s" for d using subtree_live [OF that p(1)] by (simp add: live_iff)
  have below_live: "d \<in> subtree st s" if "d \<in> below st (\<lambda>c. iterate_children (r c)) s" for d
    using below_subtree [OF ok that] by simp
  have "d \<in> set xs \<longleftrightarrow> d \<in> pruned st s" for d
  proof
    assume "d \<in> set xs"
    then have "keep_node (r d)" "d \<in> subtree st s" using xs(3) below_live by auto
    then show "d \<in> pruned st s" using r(2) [OF in_sub] by blast
  next
    assume d: "d \<in> pruned st s"
    have it: "iterate_children (r c)" if "c \<in> pruned st s" for c
      using r(2,3) [OF in_sub [OF pruned_subtree [OF that]]] that pruned_subtree by blast
    show "d \<in> set xs"
      using pruned_below [OF ok it d] r(2) [OF in_sub [OF pruned_subtree [OF d]]] d top(2) xs(3) by auto
  qed
  then show "set ns = pruned st s" using ns by blast
  show "distinct ns" "ns \<noteq> [] \<and> hd ns = s" using xs(2,4) ns top(1) by simp_all
qed


end
