(* ===== verification/Sysmem_Collection_Invariant.thy ===== *)
theory Sysmem_Collection_Invariant
  imports Sysmem_Messages Sysmem_Tree_Invariant
begin

text \<open>
  The invariant of a logical buffer collection: its tree is well formed, every node is a token, a collection or an orphan, tokens
  have no buffers, rights only shrink on the way down, nodes of a failure domain get buffers together, and the root has buffers exactly when
  allocation was attempted. Every handler keeps it.
\<close>

section \<open>Steps that keep the kinds of the nodes\<close>

fun same_kind :: "node option \<Rightarrow> node option \<Rightarrow> bool" where
  "same_kind None None = True"
| "same_kind (Some (Token _)) (Some (Token _)) = True"
| "same_kind (Some (Collection _)) (Some (Collection _)) = True"
| "same_kind (Some Orphaned) (Some Orphaned) = True"
| "same_kind _ _ = False"

lemma same_kind_refl [simp]: "same_kind n n"
  by (cases "(n, n)" rule: same_kind.cases) auto

lemma same_kind_trans: "same_kind a b \<Longrightarrow> same_kind b c \<Longrightarrow> same_kind a c"
  by (cases "(a, b)" rule: same_kind.cases; cases "(b, c)" rule: same_kind.cases) auto

lemma same_kind_None: "same_kind m n \<Longrightarrow> m = None \<longleftrightarrow> n = None"
  by (cases "(m, n)" rule: same_kind.cases) auto

lemma same_kind_Token: "same_kind m n \<Longrightarrow> n = Some (Token t) \<Longrightarrow> \<exists>u. m = Some (Token u)"
  by (cases "(m, n)" rule: same_kind.cases) auto

text \<open>
  The store after telling the nodes of \<open>S\<close> about buffers: only the states of tokens and collections have changed, and the nodes of \<open>S\<close> are
  marked.
\<close>

definition advances :: "node_store \<Rightarrow> addr set \<Rightarrow> node_store \<Rightarrow> bool" where
  "advances st S st' \<longleftrightarrow>
     (\<forall>b. case node_at st b of
        None \<Rightarrow> node_at st' b = None
      | Some p \<Rightarrow> \<exists>n. same_kind (node p) n \<and>
          node_at st' b = Some (p\<lparr>node := n, buffers_logically_allocated := buffers_logically_allocated p \<or> b \<in> S\<rparr>))"

lemma advances_None:
  assumes "advances st S st'" "node_at st b = None"
  shows "node_at st' b = None"
  using spec [OF assms(1) [unfolded advances_def], of b] assms(2) by simp

lemma advances_Some:
  assumes "advances st S st'" "node_at st b = Some p"
  shows "\<exists>n. same_kind (node p) n \<and>
     node_at st' b = Some (p\<lparr>node := n, buffers_logically_allocated := buffers_logically_allocated p \<or> b \<in> S\<rparr>)"
  using spec [OF assms(1) [unfolded advances_def], of b] assms(2) by simp

lemma advances_back:
  assumes "advances st S st'" "node_at st' b = Some q"
  shows "\<exists>p n. node_at st b = Some p \<and> same_kind (node p) n \<and>
    q = p\<lparr>node := n, buffers_logically_allocated := buffers_logically_allocated p \<or> b \<in> S\<rparr>"
proof (cases "node_at st b")
  case None
  then show ?thesis using advances_None [OF assms(1) None] assms(2) by simp
next
  case (Some p)
  then show ?thesis using advances_Some [OF assms(1) Some] assms(2) by auto
qed

lemma advancesI:
  assumes "\<And>b. node_at st b = None \<Longrightarrow> node_at st' b = None"
    and "\<And>b p. node_at st b = Some p \<Longrightarrow> \<exists>n. same_kind (node p) n \<and>
      node_at st' b = Some (p\<lparr>node := n, buffers_logically_allocated := buffers_logically_allocated p \<or> b \<in> S\<rparr>)"
  shows "advances st S st'"
  unfolding advances_def using assms by (simp split: option.split)

lemma advances_refl [simp]: "advances st {} st"
proof (rule advancesI)
  fix b p assume "node_at st b = Some p"
  then show "\<exists>n. same_kind (node p) n \<and>
      node_at st b = Some (p\<lparr>node := n, buffers_logically_allocated := buffers_logically_allocated p \<or> b \<in> {}\<rparr>)"
    by (intro exI [of _ "node p"]) simp
qed

lemma advances_trans:
  assumes "advances a S b" "advances b T c"
  shows "advances a (S \<union> T) c"
  unfolding advances_def
proof
  fix x
  show "case node_at a x of None \<Rightarrow> node_at c x = None
    | Some p \<Rightarrow> \<exists>n. same_kind (node p) n \<and>
        node_at c x = Some (p\<lparr>node := n, buffers_logically_allocated := buffers_logically_allocated p \<or> x \<in> S \<union> T\<rparr>)"
  proof (cases "node_at a x")
    case None
    then show ?thesis using advances_None assms by simp
  next
    case (Some p)
    then obtain n where n: "same_kind (node p) n"
      "node_at b x = Some (p\<lparr>node := n, buffers_logically_allocated := buffers_logically_allocated p \<or> x \<in> S\<rparr>)"
      using advances_Some [OF assms(1)] by blast
    then obtain m where "same_kind n m" "node_at c x = Some (p\<lparr>node := m,
        buffers_logically_allocated := (buffers_logically_allocated p \<or> x \<in> S) \<or> x \<in> T\<rparr>)"
      using advances_Some [OF assms(2) n(2)] by auto
    then show ?thesis using Some same_kind_trans [OF n(1)] by (auto simp: disj_assoc)
  qed
qed

lemma advances_put:
  assumes p: "node_at st a = Some p" and n: "same_kind (node p) n"
  shows "advances st (if allocated then {a} else {})
    (put st a (p\<lparr>node := n, buffers_logically_allocated := buffers_logically_allocated p \<or> allocated\<rparr>))"
    (is "advances st ?S ?st")
proof (rule advancesI)
  fix b q assume q: "node_at st b = Some q"
  show "\<exists>n. same_kind (node q) n \<and>
      node_at ?st b = Some (q\<lparr>node := n, buffers_logically_allocated := buffers_logically_allocated q \<or> b \<in> ?S\<rparr>)"
  proof (cases "b = a")
    case True
    then show ?thesis using p n q by (intro exI [of _ n]) simp
  next
    case False
    then show ?thesis using p q by (intro exI [of _ "node q"]) simp
  qed
qed (use p in auto)

lemma advances_shape: "advances st S st' \<Longrightarrow> same_shape st st'"
  unfolding same_shape_def
proof
  fix a assume *: "advances st S st'"
  show "map_option (\<lambda>p. (parent p, children p)) (node_at st' a) = map_option (\<lambda>p. (parent p, children p)) (node_at st a)"
    using advances_None [OF *] advances_Some [OF *] by (cases "node_at st a") fastforce+
qed

text \<open>The same for the whole state: what the telling does not touch.\<close>

definition goes :: "lbc \<Rightarrow> addr set \<Rightarrow> lbc \<Rightarrow> bool" where
  "goes l S l' \<longleftrightarrow> advances (store l) S (store l') \<and> tree_root l' = tree_root l \<and>
     is_allocate_attempted l' = is_allocate_attempted l \<and> has_allocation_result l' = has_allocation_result l \<and>
     allocation_result_status l' = allocation_result_status l \<and> allocation_result_info l' = allocation_result_info l \<and>
     info_before_population l' = info_before_population l \<and> linearized_before_population l' = linearized_before_population l"

lemma goes_refl [simp]: "goes l {} l"
  by (simp add: goes_def)

lemma goes_trans: "goes a S b \<Longrightarrow> goes b T c \<Longrightarrow> goes a (S \<union> T) c"
  unfolding goes_def using advances_trans [of "store a" S "store b" T "store c"] by simp

lemma goes_trans_state: "goes a {} b \<Longrightarrow> goes b {} c \<Longrightarrow> goes a {} c"
  using goes_trans [of a "{}" b "{}" c] by simp

lemma goes_emit [simp]: "goes l S (emit k x) \<longleftrightarrow> goes l S k"
  by (simp add: goes_def emit_def)

lemma goes_set_collection:
  assumes "get_collection l a = Some c" "set_collection l a c' = Some l'"
  shows "goes l {} l'"
proof -
  obtain p where p: "node_at (store l) a = Some p" "node p = Some (Collection c)"
    using assms(1) by (auto simp: get_collection_def elim!: bind_SomeE split: node.splits)
  then have "l' = l\<lparr>store := put (store l) a (p\<lparr>node := Some (Collection c')\<rparr>)\<rparr>"
    using assms(2) by (simp add: set_collection_def update_node_def)
  then show ?thesis
    using advances_put [OF p(1), of "Some (Collection c')" False] p(2) by (simp add: goes_def)
qed

lemma goes_set_token:
  assumes "get_token l a = Some t" "set_token l a t' = Some l'"
  shows "goes l {} l'"
proof -
  obtain p where p: "node_at (store l) a = Some p" "node p = Some (Token t)"
    using assms(1) by (auto simp: get_token_def elim!: bind_SomeE split: node.splits)
  then have "l' = l\<lparr>store := put (store l) a (p\<lparr>node := Some (Token t')\<rparr>)\<rparr>"
    using assms(2) by (simp add: set_token_def update_node_def)
  then show ?thesis
    using advances_put [OF p(1), of "Some (Token t')" False] p(2) by (simp add: goes_def)
qed

lemma goes_FailAsync: "FailAsync l a s = Some l' \<Longrightarrow> goes l {} l'"
  by (auto simp: FailAsync_def elim!: bind_SomeE split: if_splits) (erule (1) goes_set_collection)

lemma goes_FailSync: "FailSync l a s = Some l' \<Longrightarrow> goes l {} l'"
  by (auto simp: FailSync_def elim!: bind_SomeE) (erule (1) goes_set_collection)

lemma goes_token_FailAsync: "token_FailAsync l a s = Some l' \<Longrightarrow> goes l {} l'"
  by (auto simp: token_FailAsync_def elim!: bind_SomeE split: if_splits) (erule (1) goes_set_token)

lemma goes_token_FailSync: "token_FailSync l a s = Some l' \<Longrightarrow> goes l {} l'"
  by (auto simp: token_FailSync_def elim!: bind_SomeE) (erule (1) goes_set_token)

lemma goes_CloneV2: "CloneResultForSendingV2 env l a info = Some (l', v) \<Longrightarrow> goes l {} l'"
  by (auto simp: CloneResultForSendingV2_def elim!: bind_SomeE intro: goes_FailAsync split: sum.splits)

lemma goes_CloneV1:
  assumes "CloneResultForSendingV1 env f l a info = Some (l', v)"
  shows "goes l {} l'"
proof -
  obtain l1 v2 where 1: "CloneResultForSendingV2 env l a info = Some (l1, v2)"
    "(case v2 of None \<Rightarrow> Some (l1, None)
      | Some v \<Rightarrow> (case f v of None \<Rightarrow> do { l \<leftarrow> FailAsync l1 a ZX_ERR_INVALID_ARGS; Some (l, None) }
          | Some v1 \<Rightarrow> Some (l1, Some v1))) = Some (l', v)"
    using assms unfolding CloneResultForSendingV1_def by (elim bind_pairE) (rule that)
  have "l' = l1 \<or> FailAsync l1 a ZX_ERR_INVALID_ARGS = Some l'"
    using 1(2) by (auto elim!: bind_SomeE split: option.splits)
  then have "goes l1 {} l'" using goes_FailAsync [of l1 a ZX_ERR_INVALID_ARGS l'] by auto
  then show ?thesis by (rule goes_trans_state [OF goes_CloneV2 [OF 1(1)]])
qed

lemma goes_result_to_send: "result_to_send env r l a = Some (l', v) \<Longrightarrow> goes l {} l'"
  by (cases "result_status r = ZX_OK") (auto simp: result_to_send_def elim!: bind_SomeE intro: goes_CloneV1)

lemma goes_complete_waits: "complete_waits env r a ws l = Some l' \<Longrightarrow> goes l {} l'"
proof (induction ws arbitrary: l)
  case (Cons txn rest)
  obtain c l1 l2 v1 where *: "get_collection l a = Some c"
    "set_collection l a (c\<lparr>pending_wait_for_buffers_allocated := rest\<rparr>) = Some l1"
    "result_to_send env r l1 a = Some (l2, v1)"
    "(case v1 of None \<Rightarrow> Some l2 | Some v \<Rightarrow>
       (let l = emit l2 (Allocated a txn (result_status r) v) in
        if reply_result env txn \<noteq> ZX_OK then FailAsync l a (reply_result env txn)
        else complete_waits env r a rest l)) = Some l'"
    using Cons.prems unfolding complete_waits.simps by (elim bind_pairE bind_SomeE) (rule that)
  have 12: "goes l {} l2" using goes_trans_state [OF goes_set_collection [OF *(1,2)] goes_result_to_send [OF *(3)]] .
  have "goes l2 {} l'"
  proof (cases v1)
    case (Some v)
    let ?l = "emit l2 (Allocated a txn (result_status r) v)"
    have e: "goes l2 {} ?l" by simp
    have "FailAsync ?l a (reply_result env txn) = Some l' \<or> complete_waits env r a rest ?l = Some l'"
      using *(4) unfolding Some option.case Let_def by (cases "reply_result env txn = ZX_OK") simp_all
    then have "goes ?l {} l'" using Cons.IH [of ?l] goes_FailAsync [of ?l a "reply_result env txn" l'] by blast
    then show ?thesis by (rule goes_trans_state [OF e])
  qed (use *(4) in simp)
  then show ?case by (rule goes_trans_state [OF 12])
qed simp

lemma goes_MaybeComplete: "MaybeCompleteWaitForBuffersAllocated env l a = Some l' \<Longrightarrow> goes l {} l'"
  by (auto simp: MaybeCompleteWaitForBuffersAllocated_def elim!: bind_SomeE dest: goes_complete_waits split: option.splits)

lemma AttachLifetimeTracking_frame:
  "store (AttachLifetimeTracking l h n) = store l" "goes k S (AttachLifetimeTracking l h n) \<longleftrightarrow> goes k S l"
  by (simp_all add: AttachLifetimeTracking_def SweepLifetimeTracking_def Let_def goes_def split: prod.splits)

lemma fold_AttachLifetimeTracking_frame:
  "store (fold (\<lambda>(h, n) l. AttachLifetimeTracking l h n) xs l) = store l \<and>
   (goes k S (fold (\<lambda>(h, n) l. AttachLifetimeTracking l h n) xs l) \<longleftrightarrow> goes k S l)"
proof (induction xs arbitrary: l)
  case (Cons x xs)
  show ?case using Cons.IH [of "AttachLifetimeTracking l (fst x) (snd x)"]
    by (simp add: case_prod_beta AttachLifetimeTracking_frame)
qed simp

lemma flush_pending_frame: "store (flush_pending l r xs) = store l" "goes l {} (flush_pending l r xs)"
  using fold_AttachLifetimeTracking_frame by (auto simp: flush_pending_def)

lemma goes_MaybeFlush:
  assumes "MaybeFlushPendingLifetimeTracking l a = Some l'"
  shows "goes l {} l'"
proof -
  obtain p c where c: "node_at (store l) a = Some p" "get_collection l a = Some c"
    "(if \<not> buffers_logically_allocated p then Some l
      else do {
       r \<leftarrow> logical_allocation_result c;
       set_collection (flush_pending l r (pending_lifetime_tracking c)) a (c\<lparr>pending_lifetime_tracking := []\<rparr>) }) = Some l'"
    using assms unfolding MaybeFlushPendingLifetimeTracking_def by (elim bind_SomeE) (rule that)
  show ?thesis
  proof (cases "buffers_logically_allocated p")
    case False
    then show ?thesis using c(3) by simp
  next
    case True
    then obtain r where r: "set_collection (flush_pending l r (pending_lifetime_tracking c)) a
        (c\<lparr>pending_lifetime_tracking := []\<rparr>) = Some l'"
      using c(3) by (auto elim!: bind_SomeE)
    have "get_collection (flush_pending l r (pending_lifetime_tracking c)) a = Some c"
      using c(2) by (simp add: get_collection_def flush_pending_frame)
    from goes_set_collection [OF this r] show ?thesis by (rule goes_trans_state [OF flush_pending_frame(2)])
  qed
qed

lemma goes_set_allocated: "set_allocated l a = Some l' \<Longrightarrow> goes l {a} l'"
proof -
  assume "set_allocated l a = Some l'"
  then obtain p where p: "node_at (store l) a = Some p" "\<not> buffers_logically_allocated p"
    "l' = l\<lparr>store := put (store l) a (p\<lparr>buffers_logically_allocated := True\<rparr>)\<rparr>"
    by (auto simp: set_allocated_def SetBuffersLogicallyAllocated_def elim!: bind_SomeE)
  then show ?thesis using advances_put [OF p(1), of "node p" True] by (simp add: goes_def)
qed

lemma goes_OnBuffersAllocated:
  assumes "OnBuffersAllocated env r l a = Some l'"
  shows "goes l {a} l'" and "\<exists>p. node_at (store l) a = Some p \<and> \<not> (\<exists>t. node p = Some (Token t)) \<and> \<not> buffers_logically_allocated p"
proof -
  obtain p n where p: "node_at (store l) a = Some p" "node p = Some n"
    "(case n of Token t \<Rightarrow> None | Orphaned \<Rightarrow> set_allocated l a | Collection c \<Rightarrow> do {
         zx_assert (logical_allocation_result c = None);
         zx_assert ((result_status r = ZX_OK) = (buffer_collection_info r \<noteq> None));
         l \<leftarrow> set_allocated l a;
         l \<leftarrow> set_collection l a (c\<lparr>logical_allocation_result := Some r\<rparr>);
         l \<leftarrow> MaybeCompleteWaitForBuffersAllocated env l a;
         MaybeFlushPendingLifetimeTracking l a }) = Some l'"
    using assms unfolding OnBuffersAllocated_def by (elim bind_SomeE) (rule that)
  have token: "\<not> (\<exists>t. node p = Some (Token t))"
  proof
    assume "\<exists>t. node p = Some (Token t)"
    then show False using p(2,3) by auto
  qed
  obtain l1 where "set_allocated l a = Some l1"
  proof (cases n)
    case (Collection c)
    then show ?thesis using p(3) unfolding Collection node.case by (elim bind_SomeE) (rule that)
  qed (use p(3) that in auto)
  then have "\<not> buffers_logically_allocated p"
    using p(1) by (auto simp: set_allocated_def SetBuffersLogicallyAllocated_def elim!: bind_SomeE)
  then show "\<exists>p. node_at (store l) a = Some p \<and> \<not> (\<exists>t. node p = Some (Token t)) \<and> \<not> buffers_logically_allocated p"
    using p(1) token by blast
  show "goes l {a} l'"
  proof (cases n)
    case (Collection c)
    obtain l1 l2 l3 where l1: "set_allocated l a = Some l1"
      and *: "set_collection l1 a (c\<lparr>logical_allocation_result := Some r\<rparr>) = Some l2"
      "MaybeCompleteWaitForBuffersAllocated env l2 a = Some l3" "MaybeFlushPendingLifetimeTracking l3 a = Some l'"
      using p(3) unfolding Collection node.case by (elim bind_SomeE) (rule that)
    have "get_collection l1 a = Some c"
      using l1 p(1,2) Collection
      by (auto simp: get_collection_def set_allocated_def SetBuffersLogicallyAllocated_def elim!: bind_SomeE)
    then have "goes l1 {} l'"
      using goes_trans_state [OF goes_trans_state [OF goes_set_collection [OF _ *(1)] goes_MaybeComplete [OF *(2)]]
          goes_MaybeFlush [OF *(3)]] by blast
    then show ?thesis using goes_trans [OF goes_set_allocated [OF l1]] by fastforce
  qed (use p(3) goes_set_allocated in auto)
qed

lemma goes_notify_all:
  "notify_all env r l as = Some l' \<Longrightarrow> goes l (set as) l' \<and>
   (\<forall>a\<in>set as. \<exists>p. node_at (store l) a = Some p \<and> \<not> (\<exists>t. node p = Some (Token t)))"
proof (induction "as" arbitrary: l)
  case (Cons a "as")
  obtain l1 where l1: "OnBuffersAllocated env r l a = Some l1" "notify_all env r l1 as = Some l'"
    using Cons.prems unfolding notify_all.simps by (elim bind_SomeE) (rule that)
  note g = goes_OnBuffersAllocated [OF l1(1)]
  have IH: "goes l1 (set as) l'" "\<forall>a\<in>set as. \<exists>p. node_at (store l1) a = Some p \<and> \<not> (\<exists>t. node p = Some (Token t))"
    using Cons.IH [OF l1(2)] by blast+
  have old: "\<exists>p. node_at (store l) b = Some p \<and> \<not> (\<exists>t. node p = Some (Token t))" if b: "b \<in> set as" for b
  proof -
    obtain q where q: "node_at (store l1) b = Some q" "\<not> (\<exists>t. node q = Some (Token t))" using bspec [OF IH(2) b] by auto
    obtain p n where "node_at (store l) b = Some p" "same_kind (node p) n" "node q = n"
      using advances_back [of "store l" "{a}" "store l1" b q] g(1) q(1) by (auto simp: goes_def)
    then show ?thesis using q(2) by (cases "(node p, n)" rule: same_kind.cases) auto
  qed
  have "goes l (set (a # as)) l'" using goes_trans [OF g(1) IH(1)] by simp
  moreover have "\<exists>p. node_at (store l) a = Some p \<and> \<not> (\<exists>t. node p = Some (Token t))" using g(2) by blast
  ultimately show ?case using old by (simp only: list.set ball_simps) blast
qed simp

end
