(* ===== verification/Sysmem_Collection_Safe.thy ===== *)
theory Sysmem_Collection_Safe
  imports Sysmem_Collection_Invariant
begin

text \<open>Every step of a logical buffer collection keeps its invariant.\<close>

section \<open>The invariant\<close>

definition core_ok :: "lbc \<Rightarrow> bool" where
  "core_ok l \<longleftrightarrow> tree_ok (store l) (tree_root l) \<and> all_nodes_set (store l) \<and> nodes_ok token_unallocated (store l) \<and>
     links_ok allocation_link (store l) \<and> links_ok rights_link (store l)"

definition attempted_ok :: "lbc \<Rightarrow> bool" where
  "attempted_ok l \<longleftrightarrow> (\<forall>r p. tree_root l = Some r \<longrightarrow> node_at (store l) r = Some p \<longrightarrow>
     is_allocate_attempted l = buffers_logically_allocated p)"

definition lbc_ok :: "lbc \<Rightarrow> bool" where
  "lbc_ok l \<longleftrightarrow> core_ok l \<and> attempted_ok l"

lemma any_nodes_ok [simp]: "nodes_ok (\<lambda>_. True) st"
  by (simp add: nodes_ok_def)

lemma core_ok_frame: "core_ok l \<Longrightarrow> store l' = store l \<Longrightarrow> tree_root l' = tree_root l \<Longrightarrow> core_ok l'"
  by (simp add: core_ok_def)

lemma lbc_ok_frame:
  "lbc_ok l \<Longrightarrow> store l' = store l \<Longrightarrow> tree_root l' = tree_root l \<Longrightarrow>
   is_allocate_attempted l' = is_allocate_attempted l \<Longrightarrow> lbc_ok l'"
  by (simp add: lbc_ok_def core_ok_def attempted_ok_def)

lemma core_ok_tree: "core_ok l \<Longrightarrow> tree_ok (store l) (tree_root l)"
  by (simp add: core_ok_def)

text \<open>A set of nodes that may get buffers together.\<close>

definition may_allocate :: "node_store \<Rightarrow> addr set \<Rightarrow> bool" where
  "may_allocate st S \<longleftrightarrow>
     (\<forall>a p. a \<in> S \<longrightarrow> node_at st a = Some p \<longrightarrow> \<not> (\<exists>t. node p = Some (Token t))) \<and>
     (\<forall>a p b q. a \<in> S \<longrightarrow> node_at st a = Some p \<longrightarrow> parent p = Some b \<longrightarrow> node_at st b = Some q \<longrightarrow>
        b \<in> S \<or> buffers_logically_allocated q) \<and>
     (\<forall>a p b. b \<in> S \<longrightarrow> node_at st a = Some p \<longrightarrow> parent p = Some b \<longrightarrow> error_propagation_mode p \<noteq> kDoNotPropagate \<longrightarrow>
        a \<in> S)"

lemma may_allocate_none [simp]: "may_allocate st {}"
  by (simp add: may_allocate_def)

lemma core_ok_goes:
  assumes ok: "core_ok l" and g: "goes l S l'" and S: "may_allocate (store l) S"
  shows "core_ok l'"
proof -
  have adv: "advances (store l) S (store l')" and root: "tree_root l' = tree_root l" using g by (simp_all add: goes_def)
  note bk = advances_back [OF adv]
  have inv: "tree_ok (store l) (tree_root l)" "all_nodes_set (store l)" "nodes_ok token_unallocated (store l)"
    "links_ok allocation_link (store l)" "links_ok rights_link (store l)"
    using ok by (simp_all add: core_ok_def)
  have "tree_ok (store l') (tree_root l')"
    using tree_ok_same_shape [OF advances_shape [OF adv] inv(1)] root by simp
  moreover have "all_nodes_set (store l')"
    unfolding all_nodes_set_def
  proof (intro allI impI)
    fix a q assume "node_at (store l') a = Some q"
    then obtain p n where "node_at (store l) a = Some p" "same_kind (node p) n" "node q = n" using bk by force
    then show "node q \<noteq> None" using inv(2) same_kind_None unfolding all_nodes_set_def by blast
  qed
  moreover have "nodes_ok token_unallocated (store l')"
    unfolding nodes_ok_def token_unallocated_def
  proof (intro allI impI)
    fix a q t assume q: "node_at (store l') a = Some q" "node q = Some (Token t)"
    then obtain p n where p: "node_at (store l) a = Some p" "same_kind (node p) n" "node q = n"
      "buffers_logically_allocated q \<longleftrightarrow> buffers_logically_allocated p \<or> a \<in> S"
      using bk [OF q(1)] by auto
    then obtain u where "node p = Some (Token u)" using same_kind_Token q(2) by blast
    then show "\<not> buffers_logically_allocated q"
      using p(1,4) inv(3) S unfolding nodes_ok_def token_unallocated_def may_allocate_def by blast
  qed
  moreover have "links_ok allocation_link (store l') \<and> links_ok rights_link (store l')"
    unfolding links_ok_def
  proof (rule conjI; intro allI impI)
    fix a p' b q' assume "node_at (store l') a = Some p'" "parent p' = Some b" "node_at (store l') b = Some q'"
    then obtain p q m n where *: "node_at (store l) a = Some p" "node_at (store l) b = Some q" "parent p = Some b"
      "p' = p\<lparr>node := m, buffers_logically_allocated := buffers_logically_allocated p \<or> a \<in> S\<rparr>"
      "q' = q\<lparr>node := n, buffers_logically_allocated := buffers_logically_allocated q \<or> b \<in> S\<rparr>"
      using bk [of a p'] bk [of b q'] by auto
    have "allocation_link p q" "rights_link p q" using inv(4,5) *(1-3) by (simp_all add: links_ok_def)
    moreover have "a \<in> S \<longrightarrow> b \<in> S \<or> buffers_logically_allocated q"
      using S *(1-3) unfolding may_allocate_def by blast
    moreover have "b \<in> S \<longrightarrow> error_propagation_mode p \<noteq> kDoNotPropagate \<longrightarrow> a \<in> S"
      using S *(1,3) unfolding may_allocate_def by blast
    ultimately show "allocation_link p' q'" "rights_link p' q'"
      unfolding *(4,5) allocation_link_def rights_link_def by auto
  qed
  ultimately show ?thesis by (simp add: core_ok_def)
qed

lemma lbc_ok_goes: "lbc_ok l \<Longrightarrow> goes l {} l' \<Longrightarrow> lbc_ok l'"
proof -
  assume ok: "lbc_ok l" and g: "goes l {} l'"
  have "attempted_ok l'"
    unfolding attempted_ok_def
  proof (intro allI impI)
    fix r q assume r: "tree_root l' = Some r" "node_at (store l') r = Some q"
    have adv: "advances (store l) {} (store l')" using g by (simp add: goes_def)
    obtain p where "node_at (store l) r = Some p" "buffers_logically_allocated q = buffers_logically_allocated p"
      using advances_back [OF adv r(2)] by auto
    moreover have "tree_root l = Some r" "is_allocate_attempted l' = is_allocate_attempted l"
      using g r(1) unfolding goes_def by simp_all
    ultimately show "is_allocate_attempted l' = buffers_logically_allocated q"
      using ok unfolding lbc_ok_def attempted_ok_def by simp
  qed
  then show ?thesis using ok core_ok_goes [OF _ g] by (simp add: lbc_ok_def)
qed

section \<open>Failing\<close>

lemma fail_down_ok:
  assumes ok: "core_ok l" and live: "live (store l) t" and run: "fail_down l t e = Some l'"
  shows "core_ok l'" and "attempted_ok l \<Longrightarrow> attempted_ok l'" and "tree_root l = Some t \<Longrightarrow> tree_root l' = None"
proof -
  have inv: "tree_ok (store l) (tree_root l)" "all_nodes_set (store l)" "nodes_ok token_unallocated (store l)"
    "links_ok allocation_link (store l)" "links_ok rights_link (store l)"
    using ok by (simp_all add: core_ok_def)
  obtain st closed where f: "FailDownFrom (store l) (tree_root l) t =
      Some (st, if tree_root l = Some t then None else tree_root l, closed)"
    "\<forall>c. node_at st c = without (store l) (subtree (store l) t) c"
    "tree_ok st (if tree_root l = Some t then None else tree_root l)"
    using FailDownFrom_Some [OF inv(1,2) live] by blast
  have l': "store l' = st" "tree_root l' = (if tree_root l = Some t then None else tree_root l)"
    "is_allocate_attempted l' = is_allocate_attempted l"
    using run f(1) by (auto simp: fail_down_def Let_def split: if_splits)
  have "all_nodes_set st" using inv(2) f(2) by (auto simp: all_nodes_set_def without_def split: if_splits)
  then show "core_ok l'"
    using f(3) allocation.links_without [OF inv(3,4) f(2)] rights.links_without [OF any_nodes_ok inv(5) f(2)]
    by (simp add: core_ok_def l')
  show "attempted_ok l \<Longrightarrow> attempted_ok l'"
    using f(2) by (auto simp: attempted_ok_def l' without_def split: if_splits)
  show "tree_root l = Some t \<Longrightarrow> tree_root l' = None" by (simp add: l')
qed

lemma fail_node_ok:
  assumes ok: "core_ok l" and run: "fail_node l a e = Some l'"
  shows "core_ok l'" and "attempted_ok l \<Longrightarrow> attempted_ok l'"
proof -
  obtain t where t: "FindTreeToFail (store l) a = Some t" "fail_down l t e = Some l'"
    using run unfolding fail_node_def by (elim bind_SomeE) (rule that)
  have "live (store l) a"
    using t(1) by (subst (asm) FindTreeToFail.simps) (auto simp: live_iff elim!: bind_SomeE)
  then have "live (store l) t"
    using FindTreeToFail_Some [of "store l" "tree_root l" a] ok t(1) by (auto simp: core_ok_def live_iff)
  then show "core_ok l'" "attempted_ok l \<Longrightarrow> attempted_ok l'" using fail_down_ok [OF ok _ t(2)] by blast+
qed

lemma FailRootNode_ok:
  assumes "core_ok l" "FailRootNode l e = Some l'"
  shows "core_ok l'" and "attempted_ok l \<Longrightarrow> attempted_ok l'"
proof -
  obtain r where r: "tree_root l = Some r" "fail_down l r e = Some l'"
    using assms(2) unfolding FailRootNode_def by (elim bind_SomeE) (rule that)
  have "live (store l) r" using tree_ok_root core_ok_tree [OF assms(1)] r(1) by (auto simp: live_iff)
  then show "core_ok l'" "attempted_ok l \<Longrightarrow> attempted_ok l'" using fail_down_ok [OF assms(1) _ r(2)] by blast+
qed

lemma lbc_ok_fail:
  "lbc_ok l \<Longrightarrow> fail_node l a e = Some l' \<Longrightarrow> lbc_ok l'"
  "lbc_ok l \<Longrightarrow> FailRootNode l e = Some l' \<Longrightarrow> lbc_ok l'"
  "lbc_ok l \<Longrightarrow> live (store l) t \<Longrightarrow> fail_down l t e = Some l' \<Longrightarrow> lbc_ok l'"
  using fail_node_ok [of l a e l'] FailRootNode_ok [of l e l'] fail_down_ok(1,2) [of l t e l'] by (simp_all add: lbc_ok_def)

section \<open>Allocating\<close>

lemma may_allocate_subtree:
  assumes ok: "tree_ok st root" and s: "live st s"
    and token: "\<forall>a\<in>subtree st s. \<exists>p. node_at st a = Some p \<and> \<not> (\<exists>t. node p = Some (Token t))"
    and up: "\<And>p b q. node_at st s = Some p \<Longrightarrow> parent p = Some b \<Longrightarrow> node_at st b = Some q \<Longrightarrow> buffers_logically_allocated q"
  shows "may_allocate st (subtree st s)"
  unfolding may_allocate_def
proof (intro conjI allI impI)
  fix a p assume "a \<in> subtree st s" "node_at st a = Some p"
  then show "\<not> (\<exists>t. node p = Some (Token t))" using bspec [OF token, of a] by auto
next
  fix a p b q assume *: "a \<in> subtree st s" "node_at st a = Some p" "parent p = Some b" "node_at st b = Some q"
  show "b \<in> subtree st s \<or> buffers_logically_allocated q"
  proof (cases "a = s")
    case True
    then show ?thesis using up * by blast
  next
    case False
    then show ?thesis using subtree_up [OF *(1) _ *(2)] *(3) by simp
  qed
next
  fix a p b assume "b \<in> subtree st s" "node_at st a = Some p" "parent p = Some b"
  then show "a \<in> subtree st s" by (rule subtree_child)
qed

lemma may_allocate_pruned:
  assumes token: "\<forall>a\<in>pruned st s. \<exists>p. node_at st a = Some p \<and> \<not> (\<exists>t. node p = Some (Token t))"
    and up: "\<And>p b q. node_at st s = Some p \<Longrightarrow> parent p = Some b \<Longrightarrow> node_at st b = Some q \<Longrightarrow> buffers_logically_allocated q"
  shows "may_allocate st (pruned st s)"
  unfolding may_allocate_def
proof (intro conjI allI impI)
  fix a p assume "a \<in> pruned st s" "node_at st a = Some p"
  then show "\<not> (\<exists>t. node p = Some (Token t))" using bspec [OF token, of a] by auto
next
  fix a p b q assume *: "a \<in> pruned st s" "node_at st a = Some p" "parent p = Some b" "node_at st b = Some q"
  show "b \<in> pruned st s \<or> buffers_logically_allocated q"
  proof (cases "a = s")
    case True
    then show ?thesis using up * by blast
  next
    case False
    then show ?thesis using pruned_up [OF *(1) _ *(2)] *(3) by simp
  qed
next
  fix a p b assume "b \<in> pruned st s" "node_at st a = Some p" "parent p = Some b" "error_propagation_mode p \<noteq> kDoNotPropagate"
  then show "a \<in> pruned st s" by (rule pruned_child)
qed

text \<open>What telling nodes about buffers needs and gives.\<close>

lemma notify_all_ok:
  assumes ok: "core_ok l" and run: "notify_all env r l ns = Some l'"
    and S: "(\<forall>a\<in>set ns. \<exists>p. node_at (store l) a = Some p \<and> \<not> (\<exists>t. node p = Some (Token t))) \<Longrightarrow>
      may_allocate (store l) (set ns)"
  shows "core_ok l'" and "goes l (set ns) l'"
proof -
  have g: "goes l (set ns) l'"
    "\<forall>a\<in>set ns. \<exists>p. node_at (store l) a = Some p \<and> \<not> (\<exists>t. node p = Some (Token t))"
    using goes_notify_all [OF run] by blast+
  show "goes l (set ns) l'" by (rule g(1))
  show "core_ok l'" by (rule core_ok_goes [OF ok g(1) S [OF g(2)]])
qed

lemma attempted_ok_goes:
  assumes "goes l S l'" "is_allocate_attempted l" "\<And>r. tree_root l = Some r \<Longrightarrow> r \<in> S"
  shows "attempted_ok l'"
  unfolding attempted_ok_def
proof (intro allI impI)
  fix r q assume r: "tree_root l' = Some r" "node_at (store l') r = Some q"
  have adv: "advances (store l) S (store l')" and a: "is_allocate_attempted l'" "tree_root l = Some r"
    using assms(1,2) r(1) by (simp_all add: goes_def)
  have "buffers_logically_allocated q" using advances_back [OF adv r(2)] assms(3) [OF a(2)] by auto
  then show "is_allocate_attempted l' = buffers_logically_allocated q" using a(1) by simp
qed

lemma attempted_ok_goes_later:
  assumes "goes l S l'" "is_allocate_attempted l" "attempted_ok l"
  shows "attempted_ok l'"
  unfolding attempted_ok_def
proof (intro allI impI)
  fix r q assume r: "tree_root l' = Some r" "node_at (store l') r = Some q"
  have adv: "advances (store l) S (store l')" and a: "is_allocate_attempted l'" "tree_root l = Some r"
    using assms(1,2) r(1) by (simp_all add: goes_def)
  obtain p where "node_at (store l) r = Some p" "buffers_logically_allocated p \<longrightarrow> buffers_logically_allocated q"
    using advances_back [OF adv r(2)] by auto
  moreover from this(1) have "buffers_logically_allocated p"
    using assms(2,3) a(2) by (simp add: attempted_ok_def)
  ultimately show "is_allocate_attempted l' = buffers_logically_allocated q" using a(1) by simp
qed

lemma SendAllocationResult_ok:
  assumes ok: "core_ok l" and at: "is_allocate_attempted l" and run: "SendAllocationResult env l ns = Some l'"
    and S: "(\<forall>a\<in>set ns. \<exists>p. node_at (store l) a = Some p \<and> \<not> (\<exists>t. node p = Some (Token t))) \<Longrightarrow>
      may_allocate (store l) (set ns)"
  shows "lbc_ok l'"
proof -
  obtain r res l1 where r: "tree_root l = Some r" "zx_assert (ns \<noteq> [] \<and> hd ns = r) = Some ()" "notify_all env res l ns = Some l1"
    "(if allocation_result_status l1 \<noteq> ZX_OK then FailRootNode l1 (allocation_result_status l1) else Some l1) = Some l'"
    using run unfolding SendAllocationResult_def by (elim bind_SomeE) (auto intro: that)
  note n = notify_all_ok [OF ok r(3) S]
  have "r \<in> set ns" using r(2) hd_in_set by auto
  then have "attempted_ok l1" using attempted_ok_goes [OF n(2) at] r(1) by simp
  then have "lbc_ok l1" using n(1) by (simp add: lbc_ok_def)
  then show ?thesis
    using r(4) lbc_ok_fail(2) [of l1 "allocation_result_status l1" l'] by (auto split: if_splits)
qed

lemma SetFailedAllocationResult_ok:
  assumes ok: "core_ok l" and at: "is_allocate_attempted l" and run: "SetFailedAllocationResult env l status = Some l'"
  shows "lbc_ok l'"
proof -
  let ?l = "l\<lparr>allocation_result_status := status, has_allocation_result := True\<rparr>"
  obtain r ns where r': "tree_root ?l = Some r" "BreadthFirstOrder (store ?l) all_nodes r = Some ns"
    "SendAllocationResult env ?l ns = Some l'"
    using run unfolding SetFailedAllocationResult_def Let_def by (elim bind_SomeE) (rule that)
  then have r: "tree_root l = Some r" "BreadthFirstOrder (store l) all_nodes r = Some ns" by simp_all
  have t: "tree_ok (store l) (Some r)" using core_ok_tree [OF ok] r(1) by simp
  obtain p where p: "node_at (store l) r = Some p" "parent p = None" using tree_ok_root [OF t] by blast
  then have live: "live (store l) r" by (simp add: live_iff)
  obtain xs where "BreadthFirstOrder (store l) all_nodes r = Some (r # xs)" "set (r # xs) = subtree (store l) r"
    using BreadthFirstOrder_all [OF t live] by blast
  then have ns: "set ns = subtree (store l) r" using r(2) by (simp only: option.inject)
  have c: "core_ok ?l" by (rule core_ok_frame [OF ok]) simp_all
  have S: "may_allocate (store l) (set ns)"
    if "\<forall>a\<in>set ns. \<exists>p. node_at (store l) a = Some p \<and> \<not> (\<exists>t. node p = Some (Token t))"
    unfolding ns by (rule may_allocate_subtree [OF t live that [unfolded ns]]) (use p in auto)
  show ?thesis by (rule SendAllocationResult_ok [OF c _ r'(3)]) (simp add: at, simp add: S)
qed

lemma SetAllocationResult_ok:
  assumes ok: "core_ok l" and at: "is_allocate_attempted l" and run: "SetAllocationResult env l ns info = Some l'"
    and r: "tree_root l = Some r" and ns: "set ns = pruned (store l) r"
  shows "lbc_ok l'"
proof -
  let ?l = "l\<lparr>allocation_result_status := ZX_OK, allocation_result_info := Some info, has_allocation_result := True\<rparr>"
  have send: "SendAllocationResult env ?l ns = Some l'"
    using run unfolding SetAllocationResult_def by (elim bind_SomeE) simp
  have t: "tree_ok (store l) (Some r)" using core_ok_tree [OF ok] r by simp
  obtain p where p: "node_at (store l) r = Some p" "parent p = None" using tree_ok_root [OF t] by blast
  have c: "core_ok ?l" by (rule core_ok_frame [OF ok]) simp_all
  have S: "may_allocate (store l) (set ns)"
    if "\<forall>a\<in>set ns. \<exists>p. node_at (store l) a = Some p \<and> \<not> (\<exists>t. node p = Some (Token t))"
    unfolding ns by (rule may_allocate_pruned [OF that [unfolded ns]]) (use p in auto)
  show ?thesis by (rule SendAllocationResult_ok [OF c _ send]) (simp add: at, simp add: S)
qed

lemma allocate_combined_ok:
  assumes ok: "core_ok l" and at: "is_allocate_attempted l" and run: "allocate_combined env l ns c = Some l'"
    and r: "tree_root l = Some r" and ns: "set ns = pruned (store l) r"
  shows "lbc_ok l'"
proof -
  have failed: "lbc_ok l'" if "SetFailedAllocationResult env k e = Some l'" "store k = store l" "tree_root k = tree_root l"
    "is_allocate_attempted k = is_allocate_attempted l" for k e
    using SetFailedAllocationResult_ok [OF core_ok_frame [OF ok that(2,3)] _ that(1)] at that(4) by simp
  obtain g where g: "(case g of Inl e \<Rightarrow> SetFailedAllocationResult env l e
     | Inr info \<Rightarrow> do {
         zx_assert (info_before_population l = None);
         case V2CloneBufferCollectionInfo env info of
           Inl e \<Rightarrow> SetFailedAllocationResult env l e
         | Inr before \<Rightarrow>
             let l = l\<lparr>info_before_population := Some before\<rparr> in
             (case V2CloneBufferCollectionInfo env info of
                Inl e \<Rightarrow> SetFailedAllocationResult env l e
              | Inr tmp \<Rightarrow> do {
                  let l = l\<lparr>linearized_before_population := Some tmp\<rparr>;
                  (vmos, a) \<leftarrow> Allocate (c_device env) (AllocateVmo env) c info;
                  let l = l\<lparr>parent_vmos := parent_vmos l @ vmos\<rparr>;
                  case a of
                    Inl e \<Rightarrow> SetFailedAllocationResult env l e
                  | Inr bs \<Rightarrow> SetAllocationResult env l ns
                      \<lparr>unpopulated = info, buffers = bs\<rparr> }) }) = Some l'"
    using run unfolding allocate_combined_def by (elim bind_SomeE) (rule that)
  show ?thesis
  proof (cases g)
    case (Inl e)
    then show ?thesis using g failed [of l e] by simp
  next
    case (Inr info)
    show ?thesis
    proof (cases "V2CloneBufferCollectionInfo env info")
      case (Inl e)
      then have "SetFailedAllocationResult env l e = Some l'"
        using g \<open>g = Inr info\<close> by (cases "info_before_population l = None") simp_all
      then show ?thesis by (rule failed) simp_all
    next
      case (Inr before)
      let ?k = "\<lambda>vs. l\<lparr>info_before_population := Some before, linearized_before_population := Some before,
        parent_vmos := parent_vmos l @ vs\<rparr>"
      obtain vs a where a: "(case a of Inl e \<Rightarrow> SetFailedAllocationResult env (?k vs) e
          | Inr bs \<Rightarrow> SetAllocationResult env (?k vs) ns \<lparr>unpopulated = info, buffers = bs\<rparr>) = Some l'"
        using g Inr \<open>g = Inr info\<close> by (cases "info_before_population l = None") (auto simp: Let_def elim!: bind_SomeE)
      show ?thesis
      proof (cases a)
        case (Inl e)
        then show ?thesis using a failed [of "?k vs" e] by simp
      next
        case (Inr bs)
        have "core_ok (?k vs)" by (rule core_ok_frame [OF ok]) simp_all
        from SetAllocationResult_ok [OF this, of env ns _ l' r] show ?thesis using a Inr at r ns by simp
      qed
    qed
  qed
qed

lemma TryAllocate_ok:
  assumes ok: "core_ok l" and at: "is_allocate_attempted l" and run: "TryAllocate env l ns = Some l'"
    and ns: "\<And>r. tree_root l = Some r \<Longrightarrow> set ns = pruned (store l) r"
  shows "lbc_ok l'"
proof -
  obtain r c where r: "tree_root l = Some r"
    "(case c of None \<Rightarrow> SetFailedAllocationResult env l ZX_ERR_NOT_SUPPORTED | Some c \<Rightarrow> allocate_combined env l ns c) = Some l'"
    using run unfolding TryAllocate_def by (elim bind_SomeE) (rule that)
  show ?thesis
  proof (cases c)
    case None
    then show ?thesis using r(2) SetFailedAllocationResult_ok [OF ok at] by (simp only: option.case)
  next
    case (Some d)
    then have "allocate_combined env l ns d = Some l'" using r(2) by simp
    from allocate_combined_ok [OF ok at this r(1) ns [OF r(1)]] show ?thesis .
  qed
qed

lemma SetFailedLate_ok:
  assumes ok: "lbc_ok l" and at: "is_allocate_attempted l"
    and run: "SetFailedLateLogicalAllocationResult env l s status = Some l'" and live: "live (store l) s"
    and up: "\<And>p b q. node_at (store l) s = Some p \<Longrightarrow> parent p = Some b \<Longrightarrow> node_at (store l) b = Some q \<Longrightarrow>
      buffers_logically_allocated q"
  shows "lbc_ok l'"
proof -
  have c: "core_ok l" "attempted_ok l" using ok by (simp_all add: lbc_ok_def)
  note t = core_ok_tree [OF c(1)]
  obtain ns l1 where r: "BreadthFirstOrder (store l) all_nodes s = Some ns"
    "notify_all env \<lparr>result_status = status, buffer_collection_info = None\<rparr> l ns = Some l1" "fail_down l1 s status = Some l'"
    using run unfolding SetFailedLateLogicalAllocationResult_def by (elim bind_SomeE) (rule that)
  obtain xs where "BreadthFirstOrder (store l) all_nodes s = Some (s # xs)" "set (s # xs) = subtree (store l) s"
    using BreadthFirstOrder_all [OF t live] by blast
  then have ns: "set ns = subtree (store l) s" using r(1) by (simp only: option.inject)
  have S: "may_allocate (store l) (set ns)"
    if "\<forall>a\<in>set ns. \<exists>p. node_at (store l) a = Some p \<and> \<not> (\<exists>t. node p = Some (Token t))"
    unfolding ns by (rule may_allocate_subtree [OF t live that [unfolded ns] up])
  note n = notify_all_ok [OF c(1) r(2) S]
  have "lbc_ok l1" using n(1) attempted_ok_goes_later [OF n(2) at c(2)] by (simp add: lbc_ok_def)
  moreover have "live (store l1) s"
  proof -
    have "advances (store l) (set ns) (store l1)" using n(2) by (simp add: goes_def)
    then show ?thesis using live advances_Some by (fastforce simp: live_iff)
  qed
  ultimately show ?thesis using lbc_ok_fail(3) r(3) by blast
qed

lemma SetSucceededLate_ok:
  assumes ok: "lbc_ok l" and at: "is_allocate_attempted l"
    and run: "SetSucceededLateLogicalAllocationResult env l ns = Some l'" and ns: "set ns = pruned (store l) s"
    and up: "\<And>p b q. node_at (store l) s = Some p \<Longrightarrow> parent p = Some b \<Longrightarrow> node_at (store l) b = Some q \<Longrightarrow>
      buffers_logically_allocated q"
  shows "lbc_ok l'"
proof -
  have c: "core_ok l" "attempted_ok l" using ok by (simp_all add: lbc_ok_def)
  obtain res where r: "notify_all env res l ns = Some l'"
    using run unfolding SetSucceededLateLogicalAllocationResult_def by (elim bind_SomeE) (rule that)
  have S: "may_allocate (store l) (set ns)"
    if "\<forall>a\<in>set ns. \<exists>p. node_at (store l) a = Some p \<and> \<not> (\<exists>t. node p = Some (Token t))"
    unfolding ns by (rule may_allocate_pruned [OF that [unfolded ns] up])
  note n = notify_all_ok [OF c(1) r S]
  show ?thesis using n(1) attempted_ok_goes_later [OF n(2) at c(2)] by (simp add: lbc_ok_def)
qed

text \<open>A later allocation ends by failing the sub-tree or by telling its nodes.\<close>

lemma TryLate_cases:
  assumes "TryLateLogicalAllocation env l ns = Some l'"
  shows "(\<exists>e. SetFailedLateLogicalAllocationResult env l (hd ns) e = Some l') \<or>
    SetSucceededLateLogicalAllocationResult env l ns = Some l'"
proof -
  obtain c where c: "(case c of
       None \<Rightarrow> SetFailedLateLogicalAllocationResult env l (hd ns) ZX_ERR_NOT_SUPPORTED
     | Some c \<Rightarrow> do {
         g \<leftarrow> GenerateUnpopulatedBufferCollectionInfo (c_lib env) (c_costs env) (c_alloc env) (c_device env) c;
         case g of
           Inl e \<Rightarrow> SetFailedLateLogicalAllocationResult env l (hd ns) e
         | Inr info \<Rightarrow>
             (case V2CloneBufferCollectionInfo env info of
                Inl e \<Rightarrow> SetFailedLateLogicalAllocationResult env l (hd ns) e
              | Inr tmp \<Rightarrow> do {
                  original \<leftarrow> linearized_before_population l;
                  if \<not> BytesMatch env original tmp
                  then SetFailedLateLogicalAllocationResult env l (hd ns) ZX_ERR_NOT_SUPPORTED
                  else SetSucceededLateLogicalAllocationResult env l ns }) }) = Some l'"
    using assms unfolding TryLateLogicalAllocation_def by (elim bind_SomeE) (rule that)
  show ?thesis
  proof (cases c)
    case None
    then show ?thesis using c by auto
  next
    case (Some d)
    obtain g where g: "(case g of
           Inl e \<Rightarrow> SetFailedLateLogicalAllocationResult env l (hd ns) e
         | Inr info \<Rightarrow>
             (case V2CloneBufferCollectionInfo env info of
                Inl e \<Rightarrow> SetFailedLateLogicalAllocationResult env l (hd ns) e
              | Inr tmp \<Rightarrow> do {
                  original \<leftarrow> linearized_before_population l;
                  if \<not> BytesMatch env original tmp
                  then SetFailedLateLogicalAllocationResult env l (hd ns) ZX_ERR_NOT_SUPPORTED
                  else SetSucceededLateLogicalAllocationResult env l ns })) = Some l'"
      using c unfolding Some option.case by (elim bind_SomeE) (rule that)
    show ?thesis
    proof (cases g)
      case (Inl e)
      then show ?thesis using g by auto
    next
      case (Inr info)
      then show ?thesis
        using g by (cases "V2CloneBufferCollectionInfo env info") (auto elim!: bind_SomeE split: if_splits)
    qed
  qed
qed

lemma TryLate_ok:
  assumes ok: "lbc_ok l" and at: "is_allocate_attempted l" and run: "TryLateLogicalAllocation env l ns = Some l'"
    and nodes: "NodesOfPrunedSubtreeEligibleForLogicalAllocation (store l) (tree_root l) s = Some ns"
  shows "lbc_ok l'"
proof -
  have t: "tree_ok (store l) (tree_root l)" using ok core_ok_tree by (simp add: lbc_ok_def)
  note n = NodesOfPruned_Some [OF t nodes]
  have hd: "hd ns = s" using n(3) by simp
  from TryLate_cases [OF run] show ?thesis
  proof
    assume "\<exists>e. SetFailedLateLogicalAllocationResult env l (hd ns) e = Some l'"
    then obtain e where "SetFailedLateLogicalAllocationResult env l s e = Some l'" using hd by auto
    then show ?thesis by (rule SetFailedLate_ok [OF ok at _ n(4) n(6)])
  next
    assume "SetSucceededLateLogicalAllocationResult env l ns = Some l'"
    then show ?thesis by (rule SetSucceededLate_ok [OF ok at _ n(1) n(6)])
  qed
qed

section \<open>The loop\<close>

lemma fail_empty_domains_ok:
  "fail_empty_domains l = Some x \<Longrightarrow> lbc_ok l \<Longrightarrow> lbc_ok (fst x)"
proof (induction rule: fail_empty_domains.raw_induct [rotated, consumes 1])
  case (1 f l x)
  obtain ds e where e: "(case e of None \<Rightarrow> Some (l, False) | Some d \<Rightarrow> do {
         l' \<leftarrow> fail_node l d ZX_ERR_PEER_CLOSED;
         if tree_root l = Some d then Some (l', True) else f l' }) = Some x"
    using 1(2) by (elim bind_SomeE) (rule that)
  show ?case
  proof (cases e)
    case None
    then show ?thesis using e 1(3) by auto
  next
    case (Some d)
    obtain l' where l': "fail_node l d ZX_ERR_PEER_CLOSED = Some l'"
      "(if tree_root l = Some d then Some (l', True) else f l') = Some x"
      using e unfolding Some option.case by (elim bind_SomeE) (rule that)
    have "lbc_ok l'" using lbc_ok_fail(1) [OF 1(3) l'(1)] .
    then show ?thesis using l'(2) 1(1) by (auto split: if_splits)
  qed
qed

lemma allocate_subtrees_ok:
  "allocate_subtrees env k l did ss = Some (l', did', gone) \<Longrightarrow> lbc_ok l \<Longrightarrow> lbc_ok l'"
proof (induction ss arbitrary: l did)
  case (Cons s ss)
  show ?case
  proof (cases "tree_root l = None")
    case True
    then show ?thesis using Cons.prems by simp
  next
    case False
    obtain ns ready where ns: "NodesOfPrunedSubtreeEligibleForLogicalAllocation (store l) (tree_root l) s = Some ns"
      "(if \<not> ready then allocate_subtrees env k l did ss
        else do {
          zx_assert ((\<not> is_allocate_attempted l) = (tree_root l = Some s));
          zx_assert (is_allocate_attempted l \<or> k = 1);
          if is_allocate_attempted l
          then do {
            l \<leftarrow> TryLateLogicalAllocation env l ns;
            allocate_subtrees env k l True ss }
          else do {
            l \<leftarrow> TryAllocate env (l\<lparr>is_allocate_attempted := True\<rparr>) ns;
            zx_assert (k = 1);
            allocate_subtrees env k l True ss } }) = Some (l', did', gone)"
      using Cons.prems(1) unfolding allocate_subtrees.simps if_not_P [OF False] by (elim bind_SomeE) (rule that)
    show ?thesis
    proof (cases ready)
      case False
      then show ?thesis using ns(2) Cons.IH [OF _ Cons.prems(2)] by simp
    next
      case ready: True
      have t: "tree_ok (store l) (tree_root l)" using Cons.prems(2) core_ok_tree by (simp add: lbc_ok_def)
      have as: "(\<not> is_allocate_attempted l) = (tree_root l = Some s)"
        "(if is_allocate_attempted l
          then do { l \<leftarrow> TryLateLogicalAllocation env l ns; allocate_subtrees env k l True ss }
          else do {
            l \<leftarrow> TryAllocate env (l\<lparr>is_allocate_attempted := True\<rparr>) ns;
            zx_assert (k = 1);
            allocate_subtrees env k l True ss }) = Some (l', did', gone)"
        using ns(2) ready unfolding not_True_eq_False if_False by (auto elim!: bind_SomeE simp del: not_None_eq)
      show ?thesis
      proof (cases "is_allocate_attempted l")
        case True
        obtain l1 where l1: "TryLateLogicalAllocation env l ns = Some l1" "allocate_subtrees env k l1 True ss = Some (l', did', gone)"
          using as(2) unfolding if_P [OF True] by (elim bind_SomeE) (rule that)
        show ?thesis by (rule Cons.IH [OF l1(2) TryLate_ok [OF Cons.prems(2) True l1(1) ns(1)]])
      next
        case False
        let ?l = "l\<lparr>is_allocate_attempted := True\<rparr>"
        obtain l1 where l1: "TryAllocate env ?l ns = Some l1" "allocate_subtrees env k l1 True ss = Some (l', did', gone)"
          using as(2) unfolding if_not_P [OF False] by (elim bind_SomeE) (rule that)
        have "core_ok ?l" using Cons.prems(2) core_ok_frame [of l ?l] by (simp add: lbc_ok_def)
        moreover have "set ns = pruned (store ?l) r" if "tree_root ?l = Some r" for r
          using as(1) False that NodesOfPruned_Some(1) [OF t ns(1)] by simp
        ultimately have "lbc_ok l1" using TryAllocate_ok [OF _ _ l1(1)] by simp
        then show ?thesis by (rule Cons.IH [OF l1(2)])
      qed
    qed
  qed
qed simp

lemma MaybeAllocate_ok: "MaybeAllocate env l = Some l' \<Longrightarrow> lbc_ok l \<Longrightarrow> lbc_ok l'"
proof (induction rule: MaybeAllocate.raw_induct [rotated, consumes 1])
  case (1 f env l l')
  obtain x where x: "fail_empty_domains l = Some x"
    "(if snd x \<or> tree_root (fst x) = None then Some (fst x)
      else do {
       eligible_subtrees \<leftarrow> PrunedSubtreesEligibleForLogicalAllocation (store (fst x)) (tree_root (fst x));
       if eligible_subtrees = [] then Some (fst x)
       else do {
         y \<leftarrow> allocate_subtrees env (length eligible_subtrees) (fst x) False eligible_subtrees;
         if snd (snd y) \<or> \<not> fst (snd y) then Some (fst y) else f env (fst y) } }) = Some l'"
    using 1(2) by (elim bind_SomeE) (rule that)
  have ok: "lbc_ok (fst x)" by (rule fail_empty_domains_ok [OF x(1) 1(3)])
  show ?case
  proof (cases "snd x \<or> tree_root (fst x) = None")
    case True
    then show ?thesis using x(2) ok by simp
  next
    case False
    obtain ss where ss: "(if ss = [] then Some (fst x)
       else do {
         y \<leftarrow> allocate_subtrees env (length ss) (fst x) False ss;
         if snd (snd y) \<or> \<not> fst (snd y) then Some (fst y) else f env (fst y) }) = Some l'"
      using x(2) unfolding if_not_P [OF False] by (elim bind_SomeE) (rule that)
    show ?thesis
    proof (cases "ss = []")
      case True
      then show ?thesis using ss ok by simp
    next
      case False
      obtain y where y: "allocate_subtrees env (length ss) (fst x) False ss = Some y"
        "(if snd (snd y) \<or> \<not> fst (snd y) then Some (fst y) else f env (fst y)) = Some l'"
        using ss unfolding if_not_P [OF False] by (elim bind_SomeE) (rule that)
      have "lbc_ok (fst y)" using allocate_subtrees_ok [of env _ _ _ _ "fst y" "fst (snd y)" "snd (snd y)"] y(1) ok by simp
      then show ?thesis using y(2) 1(1) [of env "fst y" l'] by (cases "snd (snd y) \<or> \<not> fst (snd y)") simp_all
    qed
  qed
qed


end
