(* ===== verification/Sysmem_Collection_Reachable.thy ===== *)
theory Sysmem_Collection_Reachable
  imports Sysmem_Collection_Safe
begin

text \<open>Every handler keeps the invariant of a logical buffer collection, so every reachable state has it.\<close>

section \<open>Changing a node\<close>

text \<open>A change of a node that the invariant does not see.\<close>

definition keeps :: "node_properties \<Rightarrow> node_properties \<Rightarrow> bool" where
  "keeps p q \<longleftrightarrow> parent q = parent p \<and> children q = children p \<and> node q = node p \<and>
     buffers_logically_allocated q = buffers_logically_allocated p \<and> rights_attenuation_mask q = rights_attenuation_mask p \<and>
     (error_propagation_mode q = kDoNotPropagate \<longleftrightarrow> error_propagation_mode p = kDoNotPropagate)"

lemma put_ok:
  assumes ok: "lbc_ok l" and p: "node_at (store l) a = Some p" and k: "keeps p q"
  shows "lbc_ok (l\<lparr>store := put (store l) a q\<rparr>)"
proof -
  let ?st = "put (store l) a q"
  have inv: "tree_ok (store l) (tree_root l)" "all_nodes_set (store l)" "nodes_ok token_unallocated (store l)"
    "links_ok allocation_link (store l)" "links_ok rights_link (store l)" "attempted_ok l"
    using ok by (simp_all add: lbc_ok_def core_ok_def)
  have loop: "parent p \<noteq> Some a" using tree_ok_parent(1) [OF inv(1) p, of a] by auto
  have E: "allocation_link q r = allocation_link p r" "allocation_link r q = allocation_link r p"
    "rights_link q r = rights_link p r" "rights_link r q = rights_link r p" "token_unallocated q = token_unallocated p" for r
    using k by (auto simp: keeps_def allocation_link_def rights_link_def token_unallocated_def)
  have up: "parent q = parent p" "token_unallocated q"
    using k inv(3) p E(5) by (simp_all add: keeps_def nodes_ok_def)
  have l1: "allocation_link q r" "rights_link q r" if "parent p = Some b" "node_at (store l) b = Some r" for b r
    unfolding E using inv(4,5) p that by (simp_all add: links_ok_def)
  have l2: "allocation_link r q" "rights_link r q" if "node_at (store l) c = Some r" "parent r = Some a" for c r
    unfolding E using inv(4,5) p that by (simp_all add: links_ok_def)
  have "tree_ok ?st (tree_root l)"
    using tree_ok_same_shape [OF same_shape_put [OF p] inv(1)] k by (simp add: keeps_def)
  moreover have "all_nodes_set ?st" using inv(2) p k by (simp add: all_nodes_set_def keeps_def)
  moreover have "attempted_ok (l\<lparr>store := ?st\<rparr>)" using inv(6) p k by (simp add: attempted_ok_def keeps_def)
  ultimately show ?thesis
    using allocation.links_put [OF inv(3,4) p up l1(1) l2(1) loop] rights.links_put [OF any_nodes_ok inv(5) p up(1) _ l1(2) l2(2) loop]
    by (simp add: lbc_ok_def core_ok_def)
qed

lemma update_node_ok:
  "lbc_ok l \<Longrightarrow> update_node l a f = Some l' \<Longrightarrow> (\<And>p. keeps p (f p)) \<Longrightarrow> lbc_ok l'"
  using put_ok by (auto simp: update_node_def elim!: bind_SomeE)

section \<open>Setting what a node is\<close>

text \<open>The invariant while the new node \<open>a\<close> is not yet a token, a collection or an orphan.\<close>

definition almost_ok :: "lbc \<Rightarrow> addr \<Rightarrow> bool" where
  "almost_ok l a \<longleftrightarrow> tree_ok (store l) (tree_root l) \<and>
     (\<forall>b q. node_at (store l) b = Some q \<longrightarrow> b \<noteq> a \<longrightarrow> node q \<noteq> None) \<and> nodes_ok token_unallocated (store l) \<and>
     links_ok allocation_link (store l) \<and> links_ok rights_link (store l) \<and> attempted_ok l"

lemma lbc_ok_almost: "lbc_ok l \<Longrightarrow> almost_ok l a"
  by (simp add: lbc_ok_def core_ok_def almost_ok_def all_nodes_set_def)

lemma SetNode_flags:
  assumes ok: "tree_ok st root" and p: "node_at st a = Some p" and st': "SetNode st a n = Some st'"
    and q: "node_at st' b = Some q"
  shows "\<exists>r. node_at st b = Some r \<and> buffers_logically_allocated q = buffers_logically_allocated r \<and>
    node q = (if b = a then Some n else node r)"
proof -
  have at: "map_option forget_counts (node_at st' b) =
      (if b = a then Some (forget_counts (p\<lparr>node := Some n\<rparr>)) else map_option forget_counts (node_at st b))"
    using SetNode_Some [OF ok p, of n] st' by auto
  obtain r where r: "node_at st b = Some r" "forget_counts q = forget_counts (if b = a then p\<lparr>node := Some n\<rparr> else r)" "b = a \<longrightarrow> r = p"
    using at q p by (cases "b = a"; cases "node_at st b") auto
  have "buffers_logically_allocated q = buffers_logically_allocated (forget_counts q)" "node q = node (forget_counts q)" by simp_all
  then show ?thesis using r unfolding r(2) by auto
qed

lemma SetNode_ok:
  assumes ok: "almost_ok l a" and p: "node_at (store l) a = Some p" and st': "SetNode (store l) a n = Some st'"
    and new: "token_unallocated (p\<lparr>node := Some n\<rparr>)"
  shows "lbc_ok (l\<lparr>store := st'\<rparr>)"
proof -
  have inv: "tree_ok (store l) (tree_root l)" "\<And>b q. node_at (store l) b = Some q \<Longrightarrow> b \<noteq> a \<Longrightarrow> node q \<noteq> None"
    "nodes_ok token_unallocated (store l)" "links_ok allocation_link (store l)" "links_ok rights_link (store l)" "attempted_ok l"
    using ok by (simp_all add: almost_ok_def)
  note at = SetNode_flags [OF inv(1) p st']
  have "same_shape (store l) st'" using SetNode_Some [OF inv(1) p, of n] st' by auto
  then have "tree_ok st' (tree_root l)" using tree_ok_same_shape inv(1) by blast
  moreover have "all_nodes_set st'"
    unfolding all_nodes_set_def
  proof (intro allI impI)
    fix b q assume "node_at st' b = Some q"
    from at [OF this] show "node q \<noteq> None" using inv(2) by (auto split: if_splits)
  qed
  moreover have "attempted_ok (l\<lparr>store := st'\<rparr>)"
    unfolding attempted_ok_def
  proof (intro allI impI)
    fix r q assume r: "tree_root (l\<lparr>store := st'\<rparr>) = Some r" "node_at (store (l\<lparr>store := st'\<rparr>)) r = Some q"
    then have "node_at st' r = Some q" by simp
    from at [OF this] show "is_allocate_attempted (l\<lparr>store := st'\<rparr>) = buffers_logically_allocated q"
      using inv(6) r(1) by (auto simp: attempted_ok_def)
  qed
  ultimately show ?thesis
    using allocation.links_SetNode [OF inv(3,4,1) p st' new] rights.links_SetNode [OF any_nodes_ok inv(5,1) p st' TrueI]
    by (simp add: lbc_ok_def core_ok_def)
qed

lemma EmplaceInTree_ok: "lbc_ok l \<Longrightarrow> OrphanedNode_EmplaceInTree l a = Some l' \<Longrightarrow> lbc_ok l'"
proof -
  assume ok: "lbc_ok l" and run: "OrphanedNode_EmplaceInTree l a = Some l'"
  obtain st where st: "SetNode (store l) a Orphaned = Some st" "l' = l\<lparr>store := st\<rparr>"
    using run by (auto simp: OrphanedNode_EmplaceInTree_def elim!: bind_SomeE)
  obtain p where p: "node_at (store l) a = Some p"
    using st(1) by (cases "node_at (store l) a")
      (simp_all add: SetNode_def AddCountsForNode_def AdjustRelevantNodeCounts.simps)
  show ?thesis
    unfolding st(2) by (rule SetNode_ok [OF lbc_ok_almost [OF ok] p st(1)]) (simp add: token_unallocated_def)
qed

lemma CreateBufferCollectionToken_ok:
  assumes ok: "almost_ok l c" and p: "node_at (store l) c = Some p" "\<not> buffers_logically_allocated p"
    and run: "CreateBufferCollectionToken l c koids = Some l'"
  shows "lbc_ok l'"
proof -
  obtain st where st: "SetNode (store l) c (Token new_token) = Some st"
    "(if koids \<noteq> ZX_OK then fail_node (l\<lparr>store := st\<rparr>) c koids
      else set_token (l\<lparr>store := st\<rparr>) c (new_token\<lparr>t_server_binding := True\<rparr>)) = Some l'"
    using run unfolding CreateBufferCollectionToken_def Let_def by (elim bind_SomeE) (rule that)
  have ok': "lbc_ok (l\<lparr>store := st\<rparr>)"
    by (rule SetNode_ok [OF ok p(1) st(1)]) (simp add: token_unallocated_def p(2))
  show ?thesis
  proof (cases "koids = ZX_OK")
    case True
    have tree: "tree_ok (store l) (tree_root l)" using ok by (simp add: almost_ok_def)
    have "map_option forget_counts (node_at st c) = Some (forget_counts (p\<lparr>node := Some (Token new_token)\<rparr>))"
      using SetNode_Some [OF tree p(1), of "Token new_token"] st(1) by auto
    then obtain q where q: "node_at st c = Some q" "forget_counts q = forget_counts (p\<lparr>node := Some (Token new_token)\<rparr>)"
      by blast
    have "node q = node (forget_counts q)" by simp
    then have "get_token (l\<lparr>store := st\<rparr>) c = Some new_token" unfolding q(2) using q(1) by (simp add: get_token_def)
    from lbc_ok_goes [OF ok' goes_set_token [OF this]] show ?thesis using st(2) True by simp
  next
    case False
    then show ?thesis using st(2) lbc_ok_fail(1) [OF ok'] by simp
  qed
qed

lemma Create_ok: "Create koids = Some l \<Longrightarrow> lbc_ok l"
proof -
  assume run: "Create koids = Some l"
  let ?l = "empty_lbc\<lparr>store := [Some new_properties], tree_root := Some 0\<rparr>"
  have at: "node_at (store ?l) b = (if b = 0 then Some new_properties else None)" for b
    by (simp add: node_at_def)
  have "almost_ok ?l 0"
    unfolding almost_ok_def tree_ok_def nodes_ok_def links_ok_def attempted_ok_def at
    by (simp add: new_properties_def token_unallocated_def empty_lbc_def)
  then show ?thesis
    using run CreateBufferCollectionToken_ok [of ?l 0 new_properties koids l] at
    by (simp add: Create_def NewRoot_def empty_lbc_def new_properties_def node_at_def)
qed

section \<open>Adding a participant\<close>

text \<open>What \<open>Duplicate\<close> and \<open>AttachToken\<close> do to the properties of the new child before it becomes a token.\<close>

definition child_of :: "node_properties \<Rightarrow> addr \<Rightarrow> node_properties" where
  "child_of p a = new_properties\<lparr>parent := Some a, client_debug_info := client_debug_info p,
     rights_attenuation_mask := rights_attenuation_mask p\<rparr>"

definition suits :: "node_properties \<Rightarrow> addr \<Rightarrow> node_properties \<Rightarrow> bool" where
  "suits p a n \<longleftrightarrow> parent n = Some a \<and> children n = [] \<and> node n = None \<and> \<not> buffers_logically_allocated n \<and> rights_link n p \<and>
     (error_propagation_mode n = kDoNotPropagate \<or> \<not> buffers_logically_allocated p)"

lemma grown_ok:
  assumes ok: "lbc_ok l" and p: "node_at (store l) a = Some p" and new: "new_child l a = Some (l1, c)"
    and upd: "update_node l1 c f = Some l2" and n: "suits p a (f (child_of p a))"
  shows "almost_ok l2 c" and "node_at (store l2) c = Some (f (child_of p a))"
    and "\<And>b q. node_at (store l2) b = Some q \<Longrightarrow> b \<noteq> c \<Longrightarrow>
      \<exists>r. node_at (store l) b = Some r \<and> buffers_logically_allocated q = buffers_logically_allocated r"
    and "c = length (store l)"
proof -
  let ?n = "f (child_of p a)"
  have inv: "tree_ok (store l) (tree_root l)" "all_nodes_set (store l)" "nodes_ok token_unallocated (store l)"
    "links_ok allocation_link (store l)" "links_ok rights_link (store l)" "attempted_ok l"
    using ok by (simp_all add: lbc_ok_def core_ok_def)
  have a: "a < length (store l)" by (rule node_at_less [OF p])
  obtain st where st: "NewChild (store l) a = Some (st, c)" "l1 = l\<lparr>store := st\<rparr>"
    using new by (auto simp: new_child_def elim!: bind_SomeE)
  have c: "c = length (store l)" and st1: "st = put (store l) a (p\<lparr>children := children p @ [c]\<rparr>) @ [Some (child_of p a)]"
    using st(1) by (auto simp: NewChild_Some [OF p] child_of_def)
  show "c = length (store l)" by (rule c)
  have atc: "node_at st c = Some (child_of p a)" by (simp add: st1 c store_simps put_def)
  have l2: "l2 = l\<lparr>store := put st c ?n\<rparr>" using upd atc by (simp add: update_node_def st(2))
  have at: "node_at (put st c ?n) b = (if b = length (store l) then Some ?n
      else if b = a then Some (p\<lparr>children := children p @ [length (store l)]\<rparr>) else node_at (store l) b)" for b
    unfolding node_at_put_live [OF atc] using a by (auto simp: st1 c store_simps put_def node_at_def nth_append nth_list_update)
  have "tree_ok st (tree_root l)" by (rule NewChild_tree_ok [OF inv(1) p st(1)])
  then have "tree_ok (put st c ?n) (tree_root l)"
    using tree_ok_same_shape [OF same_shape_put [OF atc, of ?n]] n by (simp add: suits_def child_of_def new_properties_def)
  moreover have "\<forall>b q. node_at (put st c ?n) b = Some q \<longrightarrow> b \<noteq> c \<longrightarrow> node q \<noteq> None"
    using inv(2) p c unfolding at all_nodes_set_def by auto
  moreover have "attempted_ok l2"
  proof -
    have "tree_root l = Some r \<Longrightarrow> r \<noteq> length (store l)" for r
      using tree_ok_root inv(1) node_at_less by fastforce
    then show ?thesis using inv(6) p unfolding attempted_ok_def l2 by (auto simp: at)
  qed
  moreover have N: "token_unallocated ?n" "allocation_link ?n p" "rights_link ?n p" "parent ?n = Some a"
    using n by (auto simp: suits_def token_unallocated_def allocation_link_def)
  ultimately show "almost_ok l2 c"
    using allocation.links_grow [OF inv(3,4,1) p at N(4,1,2)] rights.links_grow [OF any_nodes_ok inv(5,1) p at N(4) _ N(3)]
    by (simp add: almost_ok_def l2)
  show "node_at (store l2) c = Some ?n" by (simp add: l2 atc)
  show "\<exists>r. node_at (store l) b = Some r \<and> buffers_logically_allocated q = buffers_logically_allocated r"
    if "node_at (store l2) b = Some q" "b \<noteq> c" for b q
  proof -
    have "node_at (put st c ?n) b = Some q" using that(1) by (simp add: l2)
    then show ?thesis using that(2) p c unfolding at by (auto split: if_splits)
  qed
qed

lemma add_token_ok:
  assumes ok: "lbc_ok l" and p: "node_at (store l) a = Some p" and new: "new_child l a = Some (l1, c)"
    and upd: "update_node l1 c f = Some l2" and n: "suits p a (f (child_of p a))"
    and run: "CreateBufferCollectionToken l2 c koids = Some l'"
  shows "lbc_ok l'"
  using CreateBufferCollectionToken_ok [OF grown_ok(1,2) [OF ok p new upd n] _ run] n by (simp add: suits_def)


text \<open>Failing a part of the tree and making a token leave the other nodes with or without buffers.\<close>

lemma fail_node_flags:
  assumes ok: "core_ok l" and run: "fail_node l a e = Some l'" and q: "node_at (store l') b = Some q"
  shows "\<exists>r. node_at (store l) b = Some r \<and> buffers_logically_allocated q = buffers_logically_allocated r"
proof -
  have inv: "tree_ok (store l) (tree_root l)" "all_nodes_set (store l)" "links_ok allocation_link (store l)"
    using ok by (simp_all add: core_ok_def)
  obtain t where t: "FindTreeToFail (store l) a = Some t" "fail_down l t e = Some l'"
    using run unfolding fail_node_def by (elim bind_SomeE) (rule that)
  have "live (store l) a"
    using t(1) by (subst (asm) FindTreeToFail.simps) (auto simp: live_iff elim!: bind_SomeE)
  then have "live (store l) t" using FindTreeToFail_Some [OF inv(1,3), of a] t(1) by (auto simp: live_iff)
  then obtain st closed where f: "FailDownFrom (store l) (tree_root l) t =
      Some (st, if tree_root l = Some t then None else tree_root l, closed)"
    "\<forall>c. node_at st c = without (store l) (subtree (store l) t) c"
    using FailDownFrom_Some [OF inv(1,2)] by blast
  have "store l' = st" using t(2) f(1) by (auto simp: fail_down_def Let_def split: if_splits)
  then show ?thesis using q f(2) by (auto simp: without_def split: if_splits)
qed

lemma CreateBufferCollectionToken_flags:
  assumes ok: "almost_ok l c" and p: "node_at (store l) c = Some p" "\<not> buffers_logically_allocated p"
    and run: "CreateBufferCollectionToken l c koids = Some l'" and q: "node_at (store l') b = Some q"
  shows "\<exists>r. node_at (store l) b = Some r \<and> buffers_logically_allocated q = buffers_logically_allocated r"
proof -
  obtain st where st: "SetNode (store l) c (Token new_token) = Some st"
    "(if koids \<noteq> ZX_OK then fail_node (l\<lparr>store := st\<rparr>) c koids
      else set_token (l\<lparr>store := st\<rparr>) c (new_token\<lparr>t_server_binding := True\<rparr>)) = Some l'"
    using run unfolding CreateBufferCollectionToken_def Let_def by (elim bind_SomeE) (rule that)
  have "core_ok (l\<lparr>store := st\<rparr>)"
    using SetNode_ok [OF ok p(1) st(1)] p(2) by (simp add: lbc_ok_def token_unallocated_def)
  then have "\<exists>r. node_at st b = Some r \<and> buffers_logically_allocated q = buffers_logically_allocated r"
    using st(2) q fail_node_flags [of "l\<lparr>store := st\<rparr>" c koids l' b q]
    by (auto simp: set_token_def update_node_def elim!: bind_SomeE split: if_splits)
  then show ?thesis using SetNode_flags [OF _ p(1) st(1)] ok by (fastforce simp: almost_ok_def)
qed

lemma suits_attenuate:
  "\<not> buffers_logically_allocated p \<Longrightarrow> suits p a (attenuate env m (child_of p a))"
  "suits p a ((attenuate env m (child_of p a\<lparr>client_debug_info := d\<rparr>))\<lparr>error_propagation_mode := kDoNotPropagate\<rparr>)"
  by (simp_all add: suits_def attenuate_def child_of_def new_properties_def rights_link_def and.assoc)
     (metis and.assoc and.commute and.idem)+

lemma new_child_live: "new_child l a = Some x \<Longrightarrow> \<exists>p. node_at (store l) a = Some p"
  by (cases "node_at (store l) a") (auto simp: new_child_def NewChild_def)

lemma duplicate_loop_ok:
  "duplicate_loop env l a ms = Some (l', made) \<Longrightarrow> lbc_ok l \<Longrightarrow>
   (\<And>p. node_at (store l) a = Some p \<Longrightarrow> \<not> buffers_logically_allocated p) \<Longrightarrow> lbc_ok l'"
proof (induction ms arbitrary: l made)
  case (Cons m ms)
  obtain rmask endpoints koids where m: "m = (rmask, endpoints, koids)" by (cases m)
  show ?case
  proof (cases "endpoints = ZX_OK")
    case False
    then show ?thesis
      using Cons.prems(1,2) lbc_ok_goes [OF _ goes_token_FailSync] by (auto simp: m elim!: bind_SomeE)
  next
    case True
    obtain l1 c l2 l3 made' where r: "new_child l a = Some (l1, c)" "update_node l1 c (attenuate env rmask) = Some l2"
      "CreateBufferCollectionToken l2 c koids = Some l3" "duplicate_loop env l3 a ms = Some (l', made')"
      using Cons.prems(1) True by (auto simp: m elim!: bind_SomeE)
    obtain p where p: "node_at (store l) a = Some p" using new_child_live r(1) by blast
    note s = suits_attenuate(1) [OF Cons.prems(3) [OF p], of a env rmask]
    note g = grown_ok [OF Cons.prems(2) p r(1,2) s]
    have n: "\<not> buffers_logically_allocated (attenuate env rmask (child_of p a))" using s by (simp add: suits_def)
    have "a \<noteq> c" using g(4) node_at_less [OF p] by simp
    have "\<not> buffers_logically_allocated q" if q: "node_at (store l3) a = Some q" for q
      using CreateBufferCollectionToken_flags [OF g(1,2) n r(3) q] g(3) [OF _ \<open>a \<noteq> c\<close>] Cons.prems(3) by blast
    from Cons.IH [OF r(4) add_token_ok [OF Cons.prems(2) p r(1,2) s r(3)] this] show ?thesis .
  qed
qed simp

lemma get_token_unallocated:
  assumes "lbc_ok l" "get_token l a = Some t" "node_at (store l) a = Some p"
  shows "\<not> buffers_logically_allocated p"
  using assms by (auto simp: lbc_ok_def core_ok_def nodes_ok_def token_unallocated_def get_token_def elim!: bind_SomeE split: node.splits)

section \<open>Messages on a token\<close>

lemma lbc_ok_emit [simp]: "lbc_ok (emit l x) = lbc_ok l"
  by (simp add: lbc_ok_def core_ok_def attempted_ok_def emit_def)

lemma DuplicateSync_ok:
  assumes ok: "lbc_ok l" and run: "DuplicateSync env l a masks = Some l'"
  shows "lbc_ok l'"
proof -
  obtain t where t: "get_token l a = Some t" "(if t_is_done t then token_FailSync l a ZX_ERR_BAD_STATE
     else do {
       (l, made) \<leftarrow> duplicate_loop env l a masks;
       Some (case made of None \<Rightarrow> l | Some cs \<Rightarrow> emit l (NewTokens a cs)) }) = Some l'"
    using run unfolding DuplicateSync_def by (elim bind_SomeE) (rule that)
  show ?thesis
  proof (cases "t_is_done t")
    case True
    then show ?thesis using t(2) lbc_ok_goes [OF ok goes_token_FailSync] by simp
  next
    case False
    then obtain l1 made where "duplicate_loop env l a masks = Some (l1, made)"
      "l' = (case made of None \<Rightarrow> l1 | Some cs \<Rightarrow> emit l1 (NewTokens a cs))"
      using t(2) by (auto elim!: bind_SomeE)
    then show ?thesis using duplicate_loop_ok [OF _ ok get_token_unallocated [OF ok t(1)]] by (simp split: option.split)
  qed
qed

lemma Duplicate_ok:
  assumes ok: "lbc_ok l" and run: "Duplicate env l a rmask koids = Some l'"
  shows "lbc_ok l'"
proof -
  obtain t where t: "get_token l a = Some t" "(if t_is_done t then token_FailSync l a ZX_ERR_BAD_STATE
     else do {
       (l, c) \<leftarrow> new_child l a;
       l \<leftarrow> update_node l c (attenuate env (if rmask = 0 then ZX_RIGHT_SAME_RIGHTS env else rmask));
       CreateBufferCollectionToken l c koids }) = Some l'"
    using run unfolding Duplicate_def by (elim bind_SomeE) (rule that)
  show ?thesis
  proof (cases "t_is_done t")
    case True
    then show ?thesis using t(2) lbc_ok_goes [OF ok goes_token_FailSync] by simp
  next
    case False
    obtain l1 c l2 where r: "new_child l a = Some (l1, c)"
      "update_node l1 c (attenuate env (if rmask = 0 then ZX_RIGHT_SAME_RIGHTS env else rmask)) = Some l2"
      "CreateBufferCollectionToken l2 c koids = Some l'"
      using t(2) unfolding if_not_P [OF False] by (elim bind_pairE bind_SomeE) (rule that)
    obtain p where p: "node_at (store l) a = Some p" using new_child_live r(1) by blast
    show ?thesis
      by (rule add_token_ok [OF ok p r(1,2) suits_attenuate(1) [OF get_token_unallocated [OF ok t(1) p]] r(3)])
  qed
qed


text \<open>Refusing a message, and changing the state of a token or of a collection.\<close>

lemma lbc_ok_refuse:
  "lbc_ok l \<Longrightarrow> FailSync l a e = Some l' \<Longrightarrow> lbc_ok l'" "lbc_ok l \<Longrightarrow> token_FailSync l a e = Some l' \<Longrightarrow> lbc_ok l'"
  "lbc_ok l \<Longrightarrow> token_FailAsync l a e = Some l' \<Longrightarrow> lbc_ok l'"
  "lbc_ok l \<Longrightarrow> get_token l a = Some t \<Longrightarrow> set_token l a t' = Some l' \<Longrightarrow> lbc_ok l'"
  "lbc_ok l \<Longrightarrow> get_collection l a = Some c \<Longrightarrow> set_collection l a c' = Some l' \<Longrightarrow> lbc_ok l'"
  by (erule lbc_ok_goes, erule goes_FailSync, erule lbc_ok_goes, erule goes_token_FailSync, erule lbc_ok_goes,
      erule goes_token_FailAsync, erule lbc_ok_goes, erule (1) goes_set_token, erule lbc_ok_goes, erule (1) goes_set_collection)

lemma token_messages_ok:
  "lbc_ok l \<Longrightarrow> token_Sync l a = Some l' \<Longrightarrow> lbc_ok l'"
  "lbc_ok l \<Longrightarrow> token_Close l a = Some l' \<Longrightarrow> lbc_ok l'"
  "lbc_ok l \<Longrightarrow> SetBufferCollectionRequest l a = Some l' \<Longrightarrow> lbc_ok l'"
  by (auto simp: token_Sync_def token_Close_def SetBufferCollectionRequest_def elim!: bind_SomeE split: if_splits
      intro: lbc_ok_refuse(2,3,4))

lemma SetDebugClientInfo_ok: "lbc_ok l \<Longrightarrow> SetDebugClientInfoInternal l a nm i = Some l' \<Longrightarrow> lbc_ok l'"
  unfolding SetDebugClientInfoInternal_def by (erule (1) update_node_ok) (simp add: keeps_def)

lemma SetDispensable_ok: "lbc_ok l \<Longrightarrow> SetDispensableInternal l a = Some l' \<Longrightarrow> lbc_ok l'"
  unfolding SetDispensableInternal_def by (erule (1) update_node_ok) (simp add: keeps_def)

lemma BindSharedCollection_ok:
  assumes ok: "lbc_ok l" and run: "BindSharedCollection l a info = Some l'"
  shows "lbc_ok l'"
proof -
  obtain l1 where "SetBufferCollectionRequest l a = Some l1"
    "(case info of None \<Rightarrow> Some l1 | Some (nm, i) \<Rightarrow> SetDebugClientInfoInternal l1 a nm i) = Some l'"
    using run unfolding BindSharedCollection_def by (elim bind_SomeE) (rule that)
  then show ?thesis
    using token_messages_ok(3) [OF ok] SetDebugClientInfo_ok [of l1] by (cases info) auto
qed

lemma BindSharedCollectionInternal_ok:
  assumes ok: "lbc_ok l" and run: "BindSharedCollectionInternal l a = Some l'"
  shows "lbc_ok l'"
proof -
  obtain st where st: "SetNode (store l) a (Collection new_collection) = Some st"
    "set_collection (l\<lparr>store := st\<rparr>) a (new_collection\<lparr>server_binding := True\<rparr>) = Some l'"
    using run unfolding BindSharedCollectionInternal_def by (elim bind_SomeE) (rule that)
  have t: "tree_ok (store l) (tree_root l)" using ok by (simp add: lbc_ok_def core_ok_def)
  obtain p where p: "node_at (store l) a = Some p"
    using st(1) by (cases "node_at (store l) a")
      (simp_all add: SetNode_def AddCountsForNode_def AdjustRelevantNodeCounts.simps)
  have ok': "lbc_ok (l\<lparr>store := st\<rparr>)"
    by (rule SetNode_ok [OF lbc_ok_almost [OF ok] p st(1)]) (simp add: token_unallocated_def)
  obtain q where q: "node_at st a = Some q"
    using st(2) by (cases "node_at st a") (simp_all add: set_collection_def update_node_def)
  have "node q = Some (Collection new_collection)" using SetNode_flags [OF t p st(1) q] by auto
  then have "get_collection (l\<lparr>store := st\<rparr>) a = Some new_collection" using q by (simp add: get_collection_def)
  then show ?thesis using lbc_ok_refuse(5) ok' st(2) by blast
qed

lemma orphan_ok:
  assumes ok: "lbc_ok l" and run: "do { l \<leftarrow> OrphanedNode_EmplaceInTree l a; MaybeAllocate env l } = Some l'"
  shows "lbc_ok l'"
proof -
  obtain l1 where "OrphanedNode_EmplaceInTree l a = Some l1" "MaybeAllocate env l1 = Some l'"
    using run by (elim bind_SomeE) (rule that)
  then show ?thesis using EmplaceInTree_ok [OF ok] MaybeAllocate_ok by blast
qed

lemma token_error_handler_ok:
  assumes ok: "lbc_ok l" and run: "token_error_handler env l a status = Some l'"
  shows "lbc_ok l'"
proof (cases "status = ZX_ERR_BAD_STATE")
  case True
  then show ?thesis using run lbc_ok_fail(2) [OF ok] by (auto simp: token_error_handler_def elim!: bind_SomeE)
next
  case False
  obtain t l1 where t: "get_token l a = Some t" "set_token l a (t\<lparr>buffer_collection_request := False\<rparr>) = Some l1"
    "(if \<not> (status = ZX_ERR_PEER_CLOSED \<and> (t_is_done t \<or> buffer_collection_request t)) then fail_node l1 a status
       else do {
         zx_assert (\<not> (t_is_done t \<and> buffer_collection_request t));
         if \<not> buffer_collection_request t
         then do {
           p \<leftarrow> node_at (store l1) a;
           zx_assert (\<not> buffers_logically_allocated p);
           l \<leftarrow> OrphanedNode_EmplaceInTree l1 a;
           MaybeAllocate env l }
         else BindSharedCollectionInternal l1 a }) = Some l'"
    using run unfolding token_error_handler_def if_not_P [OF False] Let_def by (elim bind_SomeE) (rule that)
  have ok1: "lbc_ok l1" by (rule lbc_ok_refuse(4) [OF ok t(1,2)])
  consider "fail_node l1 a status = Some l'" | "BindSharedCollectionInternal l1 a = Some l'"
    | "do { l \<leftarrow> OrphanedNode_EmplaceInTree l1 a; MaybeAllocate env l } = Some l'"
    using t(3) by (simp split: if_splits) (elim bind_SomeE, simp)+
  then show ?thesis
  proof cases
    case 1
    then show ?thesis by (rule lbc_ok_fail(1) [OF ok1])
  next
    case 2
    then show ?thesis by (rule BindSharedCollectionInternal_ok [OF ok1])
  next
    case 3
    then show ?thesis by (rule orphan_ok [OF ok1])
  qed
qed

section \<open>Messages on a collection\<close>


section \<open>Messages on a collection\<close>

lemma get_collection_set:
  "get_collection l a = Some c \<Longrightarrow> set_collection l a c' = Some l' \<Longrightarrow> get_collection l' a = Some c'"
  by (auto simp: get_collection_def set_collection_def update_node_def elim!: bind_SomeE)

lemma SetConstraintsAuxBuffers_ok:
  assumes ok: "lbc_ok l" and run: "SetConstraintsAuxBuffers l a = Some l'"
  shows "lbc_ok l'"
proof -
  obtain c where c: "get_collection l a = Some c" "(if is_set_constraints_aux_buffers_seen c then FailSync l a ZX_ERR_NOT_SUPPORTED
     else do {
       let c = c\<lparr>is_set_constraints_aux_buffers_seen := True\<rparr>;
       l \<leftarrow> set_collection l a c;
       if is_done c then FailSync l a ZX_ERR_BAD_STATE
       else if is_set_constraints_seen c then FailSync l a ZX_ERR_NOT_SUPPORTED
       else do {
         zx_assert (\<not> constraints_aux_buffers c);
         set_collection l a (c\<lparr>constraints_aux_buffers := True\<rparr>) } }) = Some l'"
    using run unfolding SetConstraintsAuxBuffers_def by (elim bind_SomeE) (rule that)
  show ?thesis
  proof (cases "is_set_constraints_aux_buffers_seen c")
    case True
    then show ?thesis using c(2) lbc_ok_refuse(1) [OF ok] by simp
  next
    case False
    let ?c = "c\<lparr>is_set_constraints_aux_buffers_seen := True\<rparr>"
    obtain l1 where l1: "set_collection l a ?c = Some l1"
      "(if is_done ?c then FailSync l1 a ZX_ERR_BAD_STATE
       else if is_set_constraints_seen ?c then FailSync l1 a ZX_ERR_NOT_SUPPORTED
       else do {
         zx_assert (\<not> constraints_aux_buffers ?c);
         set_collection l1 a (?c\<lparr>constraints_aux_buffers := True\<rparr>) }) = Some l'"
      using c(2) unfolding if_not_P [OF False] Let_def by (elim bind_SomeE) (rule that)
    note ok1 = lbc_ok_refuse(5) [OF ok c(1) l1(1)]
    show ?thesis
      using l1(2) lbc_ok_refuse(1) [OF ok1] lbc_ok_refuse(5) [OF ok1 get_collection_set [OF c(1) l1(1)]]
      by (simp split: if_splits) (elim bind_SomeE, simp)
  qed
qed

text \<open>Storing the constraints of a collection, and then allocating if everyone is ready.\<close>

lemma store_constraints_ok:
  assumes ok: "lbc_ok l" and c: "get_collection l a = Some d"
    and st: "SetBufferCollectionConstraints (store l) a w = Some st"
      "set_collection (l\<lparr>store := st\<rparr>) a c = Some l1" "MaybeAllocate env l1 = Some l'"
  shows "lbc_ok l'"
proof -
  obtain p where p: "node_at (store l) a = Some p" "st = put (store l) a (p\<lparr>buffer_collection_constraints := Some w\<rparr>)"
    using st(1) by (auto simp: SetBufferCollectionConstraints_def elim!: bind_SomeE)
  have "lbc_ok (l\<lparr>store := st\<rparr>)" unfolding p(2) by (rule put_ok [OF ok p(1)]) (simp add: keeps_def)
  moreover have "get_collection (l\<lparr>store := st\<rparr>) a = Some d" using c p by (simp add: get_collection_def)
  ultimately have "lbc_ok l1" using lbc_ok_refuse(5) st(2) by blast
  then show ?thesis by (rule MaybeAllocate_ok [OF st(3)])
qed

lemma SetConstraints_ok:
  assumes ok: "lbc_ok l" and run: "SetConstraints env l a has_constraints converted = Some l'"
  shows "lbc_ok l'"
proof -
  obtain c where c: "get_collection l a = Some c" "(if is_set_constraints_seen c then FailSync l a ZX_ERR_NOT_SUPPORTED
     else do {
       let c = c\<lparr>is_set_constraints_seen := True\<rparr>;
       l \<leftarrow> set_collection l a c;
       if is_done c then FailSync l a ZX_ERR_BAD_STATE
       else if \<not> has_constraints \<and> is_set_constraints_aux_buffers_seen c then FailSync l a ZX_ERR_NOT_SUPPORTED
       else do {
         p \<leftarrow> node_at (store l) a;
         zx_assert (buffer_collection_constraints p = None);
         zx_assert (\<not> constraints_aux_buffers c \<or> has_constraints);
         case converted of
           None \<Rightarrow> FailSync l a ZX_ERR_INVALID_ARGS
         | Some w \<Rightarrow> do {
             zx_assert (w \<noteq> empty_constraints \<or> \<not> has_constraints);
             st \<leftarrow> SetBufferCollectionConstraints (store l) a w;
             l \<leftarrow> set_collection (l\<lparr>store := st\<rparr>) a (c\<lparr>constraints_aux_buffers := False\<rparr>);
             MaybeAllocate env l } } }) = Some l'"
    using run unfolding SetConstraints_def by (elim bind_SomeE) (rule that)
  show ?thesis
  proof (cases "is_set_constraints_seen c")
    case True
    then show ?thesis using c(2) lbc_ok_refuse(1) [OF ok] by simp
  next
    case False
    let ?c = "c\<lparr>is_set_constraints_seen := True\<rparr>"
    obtain l1 where l1: "set_collection l a ?c = Some l1"
      "(if is_done ?c then FailSync l1 a ZX_ERR_BAD_STATE
       else if \<not> has_constraints \<and> is_set_constraints_aux_buffers_seen ?c then FailSync l1 a ZX_ERR_NOT_SUPPORTED
       else do {
         p \<leftarrow> node_at (store l1) a;
         zx_assert (buffer_collection_constraints p = None);
         zx_assert (\<not> constraints_aux_buffers ?c \<or> has_constraints);
         case converted of
           None \<Rightarrow> FailSync l1 a ZX_ERR_INVALID_ARGS
         | Some w \<Rightarrow> do {
             zx_assert (w \<noteq> empty_constraints \<or> \<not> has_constraints);
             st \<leftarrow> SetBufferCollectionConstraints (store l1) a w;
             l \<leftarrow> set_collection (l1\<lparr>store := st\<rparr>) a (?c\<lparr>constraints_aux_buffers := False\<rparr>);
             MaybeAllocate env l } }) = Some l'"
      using c(2) unfolding if_not_P [OF False] Let_def by (elim bind_SomeE) (rule that)
    have ok1: "lbc_ok l1" "get_collection l1 a = Some ?c"
      by (rule lbc_ok_refuse(5) [OF ok c(1) l1(1)], rule get_collection_set [OF c(1) l1(1)])
    consider e where "FailSync l1 a e = Some l'"
      | w st l2 where "SetBufferCollectionConstraints (store l1) a w = Some st"
          "set_collection (l1\<lparr>store := st\<rparr>) a (?c\<lparr>constraints_aux_buffers := False\<rparr>) = Some l2" "MaybeAllocate env l2 = Some l'"
    proof -
      note l1(2)
      then show ?thesis
        using that by (cases converted) (auto split: if_splits elim!: bind_SomeE)
    qed
    then show ?thesis
    proof cases
      case 1
      then show ?thesis by (rule lbc_ok_refuse(1) [OF ok1(1)])
    next
      case 2
      from store_constraints_ok [OF ok1 this] show ?thesis .
    qed
  qed
qed

lemma AttachToken_ok:
  assumes ok: "lbc_ok l" and run: "AttachToken env l a rmask koids = Some l'"
  shows "lbc_ok l'"
proof -
  let ?f = "\<lambda>p. (attenuate env rmask
     (p\<lparr>client_debug_info := (attached_name (fst (client_debug_info p)), snd (client_debug_info p))\<rparr>))
       \<lparr>error_propagation_mode := kDoNotPropagate\<rparr>"
  obtain c :: collection_state where c: "(if is_done c then FailSync l a ZX_ERR_BAD_STATE
     else if rmask = 0 then FailSync l a ZX_ERR_INVALID_ARGS
     else do {
       (l, d) \<leftarrow> new_child l a;
       l \<leftarrow> update_node l d ?f;
       CreateBufferCollectionToken l d koids }) = Some l'"
    using run unfolding AttachToken_def by (elim bind_SomeE) (rule that)
  consider e where "FailSync l a e = Some l'"
    | l1 d l2 where "new_child l a = Some (l1, d)" "update_node l1 d ?f = Some l2" "CreateBufferCollectionToken l2 d koids = Some l'"
    using c by (cases "is_done c"; cases "rmask = 0") (auto elim!: bind_pairE bind_SomeE)
  then show ?thesis
  proof cases
    case 1
    then show ?thesis by (rule lbc_ok_refuse(1) [OF ok])
  next
    case 2
    then obtain p where p: "node_at (store l) a = Some p" using new_child_live by blast
    from add_token_ok [OF ok p 2(1,2) suits_attenuate(2) 2(3)] show ?thesis .
  qed
qed

lemma WaitForBuffersAllocated_ok:
  assumes ok: "lbc_ok l" and run: "WaitForBuffersAllocated env l a txn = Some l'"
  shows "lbc_ok l'"
proof -
  obtain c where c: "get_collection l a = Some c" "(if is_done c then FailSync l a ZX_ERR_BAD_STATE
     else do {
       l \<leftarrow> set_collection l a
         (c\<lparr>pending_wait_for_buffers_allocated := pending_wait_for_buffers_allocated c @ [txn]\<rparr>);
       MaybeCompleteWaitForBuffersAllocated env l a }) = Some l'"
    using run unfolding WaitForBuffersAllocated_def by (elim bind_SomeE) (rule that)
  consider "FailSync l a ZX_ERR_BAD_STATE = Some l'"
    | l1 where "set_collection l a (c\<lparr>pending_wait_for_buffers_allocated := pending_wait_for_buffers_allocated c @ [txn]\<rparr>) = Some l1"
        "MaybeCompleteWaitForBuffersAllocated env l1 a = Some l'"
    using c(2) by (cases "is_done c") (auto elim!: bind_SomeE)
  then show ?thesis
  proof cases
    case 1
    then show ?thesis by (rule lbc_ok_refuse(1) [OF ok])
  next
    case 2
    then show ?thesis using lbc_ok_goes [OF lbc_ok_refuse(5) [OF ok c(1) 2(1)] goes_MaybeComplete] by blast
  qed
qed

lemma collection_AttachLifetimeTracking_ok:
  assumes ok: "lbc_ok l" and run: "collection_AttachLifetimeTracking l a h n = Some l'"
  shows "lbc_ok l'"
proof -
  obtain c where c: "get_collection l a = Some c" "(if is_done c then FailSync l a ZX_ERR_BAD_STATE
     else do {
       l \<leftarrow> set_collection l a (c\<lparr>pending_lifetime_tracking := pending_lifetime_tracking c @ [(h, n)]\<rparr>);
       MaybeFlushPendingLifetimeTracking l a }) = Some l'"
    using run unfolding collection_AttachLifetimeTracking_def by (elim bind_SomeE) (rule that)
  consider "FailSync l a ZX_ERR_BAD_STATE = Some l'"
    | l1 where "set_collection l a (c\<lparr>pending_lifetime_tracking := pending_lifetime_tracking c @ [(h, n)]\<rparr>) = Some l1"
        "MaybeFlushPendingLifetimeTracking l1 a = Some l'"
    using c(2) by (cases "is_done c") (auto elim!: bind_SomeE)
  then show ?thesis
  proof cases
    case 1
    then show ?thesis by (rule lbc_ok_refuse(1) [OF ok])
  next
    case 2
    then show ?thesis using lbc_ok_goes [OF lbc_ok_refuse(5) [OF ok c(1) 2(1)] goes_MaybeFlush] by blast
  qed
qed

lemma GetAuxBuffers_ok:
  assumes ok: "lbc_ok l" and run: "GetAuxBuffers env l a = Some l'"
  shows "lbc_ok l'"
proof -
  let ?v1 = "V1AuxBuffersMoveFromV2BufferCollectionInfo env"
  obtain c where c: "get_collection l a = Some c" "(case logical_allocation_result c of
       None \<Rightarrow> FailSync l a ZX_ERR_BAD_STATE
     | Some r \<Rightarrow>
         if result_status r \<noteq> ZX_OK then FailSync l a ZX_ERR_BAD_STATE
         else do {
           info \<leftarrow> buffer_collection_info r;
           (l, v1) \<leftarrow> CloneResultForSendingV1 env ?v1 l a info;
           case v1 of
             None \<Rightarrow> FailSync l a ZX_ERR_INTERNAL
           | Some v \<Rightarrow> Some (emit l (AuxBuffers a v)) }) = Some l'"
    using run unfolding GetAuxBuffers_def by (elim bind_SomeE) (rule that)
  consider "FailSync l a ZX_ERR_BAD_STATE = Some l'"
    | info l1 v1 where "CloneResultForSendingV1 env ?v1 l a info = Some (l1, v1)"
        "(case v1 of None \<Rightarrow> FailSync l1 a ZX_ERR_INTERNAL | Some v \<Rightarrow> Some (emit l1 (AuxBuffers a v))) = Some l'"
    using c(2) by (auto elim!: bind_pairE bind_SomeE split: option.splits if_splits)
  then show ?thesis
  proof cases
    case 1
    then show ?thesis by (rule lbc_ok_refuse(1) [OF ok])
  next
    case 2
    note ok1 = lbc_ok_goes [OF ok goes_CloneV1 [OF 2(1)]]
    show ?thesis using 2(2) ok1 lbc_ok_refuse(1) [OF ok1] by (auto split: option.splits)
  qed
qed

lemma collection_messages_ok:
  "lbc_ok l \<Longrightarrow> CheckBuffersAllocated l a = Some l' \<Longrightarrow> lbc_ok l'"
  "lbc_ok l \<Longrightarrow> SingleBuffer_not_implemented l a = Some l' \<Longrightarrow> lbc_ok l'"
  "lbc_ok l \<Longrightarrow> collection_Close l a = Some l' \<Longrightarrow> lbc_ok l'"
  by (auto simp: CheckBuffersAllocated_def SingleBuffer_not_implemented_def collection_Close_def
      elim!: bind_SomeE split: if_splits option.splits intro: lbc_ok_refuse(1,5))

lemma collection_error_handler_ok:
  assumes ok: "lbc_ok l" and run: "collection_error_handler env l a status = Some l'"
  shows "lbc_ok l'"
proof (cases "status = ZX_ERR_BAD_STATE")
  case True
  then show ?thesis using run lbc_ok_fail(2) [OF ok] by (auto simp: collection_error_handler_def elim!: bind_SomeE)
next
  case False
  obtain c :: collection_state where c: "(if \<not> (status = ZX_ERR_PEER_CLOSED \<and> is_done c) then fail_node l a status
       else do { l \<leftarrow> OrphanedNode_EmplaceInTree l a; MaybeAllocate env l }) = Some l'"
    using run unfolding collection_error_handler_def if_not_P [OF False] by (elim bind_SomeE) (rule that)
  show ?thesis
  proof (cases "status = ZX_ERR_PEER_CLOSED \<and> is_done c")
    case True
    then have "do { l \<leftarrow> OrphanedNode_EmplaceInTree l a; MaybeAllocate env l } = Some l'" using c by simp
    then show ?thesis by (rule orphan_ok [OF ok])
  next
    case False
    then show ?thesis using c lbc_ok_fail(1) [OF ok] by simp
  qed
qed

section \<open>Steps\<close>

lemma Unbound_ok:
  assumes ok: "lbc_ok l" and run: "Unbound env l a status is_kClose = Some l'"
  shows "lbc_ok l'"
  using run token_error_handler_ok [OF ok] collection_error_handler_ok [OF ok]
  by (auto simp: Unbound_def elim!: bind_SomeE split: node.splits)

lemma OnZeroChildren_ok: "lbc_ok l \<Longrightarrow> lbc_ok (OnZeroChildren l h)"
  by (erule lbc_ok_frame) (simp_all add: OnZeroChildren_def SweepLifetimeTracking_def split: prod.splits)

lemma SetName_ok: "lbc_ok l \<Longrightarrow> lbc_ok (SetName l priority nm)"
  by (erule lbc_ok_frame) (simp_all add: SetName_def split: option.splits)

lemmas handlers_ok = DuplicateSync_ok Duplicate_ok token_messages_ok(1,2) SetDispensable_ok BindSharedCollection_ok
  SetDebugClientInfo_ok SetConstraintsAuxBuffers_ok SetConstraints_ok WaitForBuffersAllocated_ok collection_messages_ok
  GetAuxBuffers_ok AttachToken_ok collection_AttachLifetimeTracking_ok Unbound_ok

lemma handle_ok: "lbc_ok l \<Longrightarrow> handle env l e = Some l' \<Longrightarrow> lbc_ok l'"
  by (cases e) (auto elim: handlers_ok elim!: bind_SomeE simp: OnZeroChildren_ok SetName_ok)

lemma reachable_ok: "reachable env l \<Longrightarrow> lbc_ok l"
  by (induction rule: reachable.induct) (auto intro: Create_ok handle_ok)


end
