(* ===== verification/Sysmem_Collection_Examples.thy ===== *)
theory Sysmem_Collection_Examples
  imports Sysmem_Messages Sysmem_Settings_Examples
begin

text \<open>A surrounding for the collection, and the constraints of clients, on which the properties are evaluated.\<close>

definition ex_send :: "populated_info \<Rightarrow> 32 word \<Rightarrow> 32 word \<Rightarrow> zx_status + sent_info" where
  "ex_send info rights aux_rights = Inr \<lparr>sent_settings = unpopulated info,
     sent_vmos = map (\<lambda>b. (Some (vmo b), aux_vmo b)) (buffers info)\<rparr>"

definition ex_env :: collection_lib where
  "ex_env = \<lparr>c_lib = ex_lib, c_costs = ex_costs, c_alloc = ex_alloc, c_device = ex_device,
     AllocateVmo = (\<lambda>s i. Vmo_made (100 + i)), V2CloneBufferCollectionInfo = Inr, V2CloneForSending = ex_send,
     V1MoveFromV2BufferCollectionInfo = Some, V1AuxBuffersMoveFromV2BufferCollectionInfo = Some,
     BytesMatch = (\<lambda>x y. x = y), reply_result = (\<lambda>_. ZX_OK),
     ZX_RIGHT_SAME_RIGHTS = 0x80000000, ZX_RIGHT_TRANSFER = 2, ZX_RIGHT_DUPLICATE = 1, ZX_RIGHT_WAIT = 0x4000,
     ZX_RIGHT_READ = 4, ZX_RIGHT_WRITE = 8, ZX_RIGHTS_PROPERTY = 0xC0, ZX_RIGHT_MAP = 0x20\<rparr>"

definition ex_created :: lbc where
  "ex_created = the (Create ZX_OK)"

text \<open>
  Two clients that share buffers: the token is duplicated with reduced rights, both tokens become collections, and the decoder and the display
  set their constraints.
\<close>

definition ex_shared_events :: "event list" where
  "ex_shared_events = [MDuplicate 0 7 ZX_OK, MBindSharedCollection 0 None, EUnbound 0 ZX_ERR_PEER_CLOSED False,
     MBindSharedCollection 1 None, EUnbound 1 ZX_ERR_PEER_CLOSED False,
     MSetConstraints 0 True (Some ex_decoder), MSetConstraints 1 True (Some ex_display)]"

definition ex_shared :: lbc where
  "ex_shared = the (handle_all ex_env ex_created ex_shared_events)"

text \<open>A collection to which a further token was attached that nobody uses yet.\<close>

definition ex_attached_events :: "event list" where
  "ex_attached_events = [MBindSharedCollection 0 None, EUnbound 0 ZX_ERR_PEER_CLOSED False, MAttachToken 0 7 ZX_OK]"

definition ex_attached :: lbc where
  "ex_attached = the (handle_all ex_env ex_created ex_attached_events)"


text \<open>Constraints that cannot be met: room for at most two buffers, of which three are held at once.\<close>

definition ex_impossible :: w_collection_constraints where
  "ex_impossible = ex_decoder\<lparr>w_max_buffer_count := Some 2\<rparr>"

text \<open>A client that sets constraints and leaves, with or without a token having been attached and dropped before.\<close>

definition ex_leaving :: "event list" where
  "ex_leaving = [MSetConstraints 0 True (Some ex_decoder), MCollectionClose 0, EUnbound 0 ZX_ERR_PEER_CLOSED False]"


end
