(* ===== verification/Sysmem_Collection_Correct.thy ===== *)
theory Sysmem_Collection_Correct
  imports Sysmem_Collection_Reachable Sysmem_Collection_Examples
begin

text \<open>
  The properties of the node tree and of a logical buffer collection over its whole life, each followed by an instance on a
  collection with two clients.
\<close>

section \<open>Facts the properties share\<close>

lemma reachable_handle_all:
  "reachable env l \<Longrightarrow> handle_all env l es = Some l' \<Longrightarrow> reachable env l'"
  by (induction es arbitrary: l) (auto elim!: bind_SomeE intro: reachable.handled)

lemma reachable_created: "reachable ex_env ex_created"
proof -
  have "Create ZX_OK = Some ex_created" unfolding ex_created_def by code_simp
  then show ?thesis by (rule reachable.created)
qed

lemma reachable_shared: "reachable ex_env ex_shared"
proof -
  have "handle_all ex_env ex_created ex_shared_events = Some ex_shared" unfolding ex_shared_def by code_simp
  then show ?thesis by (rule reachable_handle_all [OF reachable_created])
qed

lemma reachable_attached: "reachable ex_env ex_attached"
proof -
  have "handle_all ex_env ex_created ex_attached_events = Some ex_attached" unfolding ex_attached_def by code_simp
  then show ?thesis by (rule reachable_handle_all [OF reachable_created])
qed

text \<open>What the example has at the two clients.\<close>

definition ex_node :: "addr \<Rightarrow> node_properties" where
  "ex_node a = the (node_at (store ex_shared) a)"

definition ex_check :: "lbc \<Rightarrow> bool" where
  "ex_check l \<longleftrightarrow> (case (node_at (store l) 0, node_at (store l) 1) of
     (Some p, Some q) \<Rightarrow> parent q = Some 0 \<and> buffers_logically_allocated q \<and> tree_root l = Some 0 \<and>
       GetClientVmoRights ex_env q = Some 7
   | _ \<Rightarrow> False)"

lemma ex_nodes:
  "node_at (store ex_shared) 0 = Some (ex_node 0)" "node_at (store ex_shared) 1 = Some (ex_node 1)"
  "parent (ex_node 1) = Some 0" "buffers_logically_allocated (ex_node 1)" "tree_root ex_shared = Some 0"
  "GetClientVmoRights ex_env (ex_node 1) = Some 7"
proof -
  have "ex_check ex_shared" by code_simp
  then show "node_at (store ex_shared) 0 = Some (ex_node 0)" "node_at (store ex_shared) 1 = Some (ex_node 1)"
    "parent (ex_node 1) = Some 0" "buffers_logically_allocated (ex_node 1)" "tree_root ex_shared = Some 0"
    "GetClientVmoRights ex_env (ex_node 1) = Some 7"
    unfolding ex_check_def ex_node_def by (auto split: option.splits)
qed

lemma rights_subtree:
  assumes "links_ok rights_link st"
  shows "a \<in> subtree st b \<Longrightarrow> node_at st a = Some p \<Longrightarrow> node_at st b = Some q \<Longrightarrow>
    rights_attenuation_mask p AND rights_attenuation_mask q = rights_attenuation_mask p"
proof (induction arbitrary: p rule: subtree.induct)
  case (subtree_child c d r)
  obtain s where s: "node_at st c = Some s" using subtree_live [OF subtree_child.hyps(1) subtree_child.prems(2)] by blast
  have "rights_link r s" using assms subtree_child.hyps(2,3) s by (simp add: links_ok_def)
  moreover have "p = r" using subtree_child.hyps(2) subtree_child.prems(1) by simp
  ultimately show ?case
    using subtree_child.IH [OF s subtree_child.prems(2)] by (simp add: rights_link_def) (metis and.assoc)
qed simp

text \<open>Failing a node in a state with the invariant.\<close>

lemma fail_node_Some:
  assumes ok: "lbc_ok l" and p: "node_at (store l) a = Some p"
  shows "\<exists>t q l' closed. fail_node l a e = Some l' \<and> node_at (store l) t = Some q \<and> failure_stops q \<and>
    a \<in> subtree (store l) t \<and>
    (\<forall>c r. a \<in> subtree (store l) c \<longrightarrow> c \<in> subtree (store l) t \<longrightarrow> c \<noteq> t \<longrightarrow> node_at (store l) c = Some r \<longrightarrow>
       \<not> failure_stops r) \<and>
    (\<forall>c. node_at (store l') c = without (store l) (subtree (store l) t) c) \<and>
    tree_root l' = (if tree_root l = Some t then None else tree_root l) \<and> length (store l') = length (store l) \<and>
    outputs l' = outputs l @ map (\<lambda>c. Closed c e) closed \<and>
    set closed = {c\<in>subtree (store l) t. \<exists>p n. node_at (store l) c = Some p \<and> node p = Some n \<and> Fail_closes n}"
proof -
  have inv: "tree_ok (store l) (tree_root l)" "all_nodes_set (store l)" "links_ok allocation_link (store l)"
    using ok by (simp_all add: lbc_ok_def core_ok_def)
  obtain t q where t: "FindTreeToFail (store l) a = Some t" "node_at (store l) t = Some q" "failure_stops q"
    "a \<in> subtree (store l) t"
    "\<forall>c r. a \<in> subtree (store l) c \<longrightarrow> c \<in> subtree (store l) t \<longrightarrow> c \<noteq> t \<longrightarrow> node_at (store l) c = Some r \<longrightarrow> \<not> failure_stops r"
    using FindTreeToFail_Some [OF inv(1,3), of a] p by (auto simp: live_iff)
  have "live (store l) t" using t(2) by (simp add: live_iff)
  then obtain st closed where f: "FailDownFrom (store l) (tree_root l) t =
      Some (st, if tree_root l = Some t then None else tree_root l, closed)" "length st = length (store l)"
    "\<forall>c. node_at st c = without (store l) (subtree (store l) t) c"
    "set closed = {c\<in>subtree (store l) t. \<exists>p n. node_at (store l) c = Some p \<and> node p = Some n \<and> Fail_closes n}"
    using FailDownFrom_Some [OF inv(1,2)] by blast
  let ?l = "l\<lparr>store := st, tree_root := if tree_root l = Some t then None else tree_root l,
    outputs := outputs l @ map (\<lambda>c. Closed c e) closed\<rparr>"
  have "fail_node l a e = Some (if tree_root l = Some t then ?l\<lparr>allocation_result_info := None\<rparr> else ?l)"
    using t(1) f(1) by (simp add: fail_node_def fail_down_def Let_def)
  then show ?thesis
    using t(2-5) f(2-4) by (intro exI [of _ t] exI [of _ q] exI [of _ "if tree_root l = Some t then ?l\<lparr>allocation_result_info := None\<rparr> else ?l"]
      exI [of _ closed]) auto
qed

section \<open>The tree over the whole life of a collection\<close>

text \<open>
  C27: In every state that a logical buffer collection can reach by any sequence of messages and channel ends, the nodes form a
  tree with the recorded root: the links between parents and children agree in both directions and no node is reached twice.
  Every node is a token, a collection or an orphan, and no token has buffers. A node has buffers only if its parent has, and has them
  whenever its parent has unless it was attached separately. The root has buffers exactly when allocation was attempted.
\<close>

theorem reachable_wellformed:
  assumes "reachable env l"
  shows "tree_ok (store l) (tree_root l) \<and>
    (\<forall>a p. node_at (store l) a = Some p \<longrightarrow>
       node p \<noteq> None \<and> (\<forall>t. node p = Some (Token t) \<longrightarrow> \<not> buffers_logically_allocated p) \<and>
       (\<forall>b q. parent p = Some b \<longrightarrow> node_at (store l) b = Some q \<longrightarrow>
          (buffers_logically_allocated p \<longrightarrow> buffers_logically_allocated q) \<and>
          (error_propagation_mode p \<noteq> kDoNotPropagate \<longrightarrow> buffers_logically_allocated q \<longrightarrow> buffers_logically_allocated p)) \<and>
       (tree_root l = Some a \<longrightarrow> is_allocate_attempted l = buffers_logically_allocated p))"
proof -
  have "lbc_ok l" by (rule reachable_ok [OF assms])
  then have inv: "tree_ok (store l) (tree_root l)" "all_nodes_set (store l)" "nodes_ok token_unallocated (store l)"
    "links_ok allocation_link (store l)" "attempted_ok l"
    by (simp_all add: lbc_ok_def core_ok_def)
  show ?thesis
    using inv(1) inv(2) [unfolded all_nodes_set_def] inv(3) [unfolded nodes_ok_def token_unallocated_def]
      inv(4) [unfolded links_ok_def allocation_link_def] inv(5) [unfolded attempted_ok_def] by blast
qed

theorem reachable_wellformed_witness:
  "tree_ok (store ex_shared) (tree_root ex_shared) \<and> node (ex_node 1) \<noteq> None \<and>
   buffers_logically_allocated (ex_node 0)"
proof -
  note w = reachable_wellformed [OF reachable_shared]
  note n = mp [OF spec [OF spec [OF conjunct2 [OF w]]] ex_nodes(2)]
  have "node (ex_node 1) \<noteq> None" by (rule conjunct1 [OF n])
  moreover have "buffers_logically_allocated (ex_node 0)"
    using mp [OF mp [OF spec [OF spec [OF conjunct1 [OF conjunct2 [OF conjunct2 [OF n]]]]] ex_nodes(3)] ex_nodes(1)] ex_nodes(4)
    by (simp only: simp_thms)
  ultimately show ?thesis using conjunct1 [OF w] by (intro conjI)
qed

text \<open>
  C28: When a channel fails in a reachable state, the failure goes up to the nearest node at which it stops: the root, an
  attached node, or a dispensable node that has buffers. Exactly the nodes from there down are deleted, in an order in which no node is
  deleted before its children, without an assertion firing. Every deleted node whose channel is still bound
  is closed with the status, no other channel is closed, and the other nodes keep all their properties but the deleted children.
\<close>

theorem fail_node_fails_domain:
  assumes "reachable env l" "node_at (store l) a = Some p"
  shows "\<exists>t q l' closed. fail_node l a e = Some l' \<and> node_at (store l) t = Some q \<and> failure_stops q \<and>
    a \<in> subtree (store l) t \<and>
    (\<forall>c r. a \<in> subtree (store l) c \<longrightarrow> c \<in> subtree (store l) t \<longrightarrow> c \<noteq> t \<longrightarrow> node_at (store l) c = Some r \<longrightarrow>
       \<not> failure_stops r) \<and>
    (\<forall>c. node_at (store l') c = without (store l) (subtree (store l) t) c) \<and>
    tree_root l' = (if tree_root l = Some t then None else tree_root l) \<and>
    outputs l' = outputs l @ map (\<lambda>c. Closed c e) closed \<and>
    set closed = {c\<in>subtree (store l) t. \<exists>p n. node_at (store l) c = Some p \<and> node p = Some n \<and> Fail_closes n}"
  using fail_node_Some [OF reachable_ok [OF assms(1)] assms(2), of e] by (elim exE conjE) (intro exI conjI; assumption)

theorem fail_node_fails_domain_witness:
  "\<exists>t q l'. fail_node ex_shared 1 ZX_ERR_INTERNAL = Some l' \<and> node_at (store ex_shared) t = Some q \<and> failure_stops q \<and>
    1 \<in> subtree (store ex_shared) t"
proof -
  obtain t q l' where "fail_node ex_shared 1 ZX_ERR_INTERNAL = Some l'" "node_at (store ex_shared) t = Some q" "failure_stops q"
    "1 \<in> subtree (store ex_shared) t"
    using fail_node_fails_domain [OF reachable_shared ex_nodes(2), of ZX_ERR_INTERNAL] by (elim exE conjE) (rule that)
  then show ?thesis by (intro exI conjI)
qed

text \<open>
  C29: The handles of the buffers that a client gets carry only rights that every node between it and the root was given: they are
  within the attenuation mask of each node above the client, within the greatest rights a client may have, and do not include
  writing unless the client's own constraints say that it writes.
\<close>

theorem client_rights_attenuated:
  assumes "reachable env l" "node_at (store l) a = Some p" "GetClientVmoRights env p = Some r"
    and "a \<in> subtree (store l) b" "node_at (store l) b = Some q"
  shows "r AND rights_attenuation_mask q = r \<and> r AND kMaxClientVmoRights env = r \<and>
    (\<exists>c. buffer_collection_constraints p = Some c \<and>
       ((\<exists>u. w_usage c = Some u \<and> IsWriteUsage (c_lib env) u) \<or> r AND ZX_RIGHT_WRITE env = 0))"
proof -
  have "links_ok rights_link (store l)" using reachable_ok [OF assms(1)] by (simp add: lbc_ok_def core_ok_def)
  note m = rights_subtree [OF this assms(4,2,5)]
  obtain c x where c: "buffer_collection_constraints p = Some c"
    "x = (case w_usage c of None \<Rightarrow> NOT (ZX_RIGHT_WRITE env)
       | Some u \<Rightarrow> if IsWriteUsage (c_lib env) u then - 1 else NOT (ZX_RIGHT_WRITE env))"
    "r = kMaxClientVmoRights env AND x AND rights_attenuation_mask p"
    using assms(3) by (auto simp: GetClientVmoRights_def GetUsageBasedRightsAttenuation_def elim!: bind_SomeE)
  have "r AND rights_attenuation_mask q = r" unfolding c(3) by (simp add: and.assoc m)
  moreover have "r AND kMaxClientVmoRights env = r" unfolding c(3) by (simp add: and.commute and.left_commute)
  moreover have "r AND ZX_RIGHT_WRITE env = 0" if "x = NOT (ZX_RIGHT_WRITE env)"
    unfolding c(3) that by (intro bit_word_eqI) (auto simp: bit_simps)
  ultimately show ?thesis using c(1,2) by (cases "w_usage c") (auto split: if_splits)
qed

theorem client_rights_attenuated_witness:
  "\<exists>r. GetClientVmoRights ex_env (ex_node 1) = Some r \<and> r AND rights_attenuation_mask (ex_node 0) = r \<and> r AND 8 = 0"
proof -
  have "1 \<in> subtree (store ex_shared) 0" using subtree_child [OF subtree_refl ex_nodes(2,3)] .
  from client_rights_attenuated [OF reachable_shared ex_nodes(2) ex_nodes(6) this ex_nodes(1)]
  have "7 AND rights_attenuation_mask (ex_node 0) = 7" by (rule conjunct1)
  then show ?thesis using ex_nodes(6) by (intro exI [of _ 7]) simp
qed

section \<open>Tearing down\<close>

lemma live_below_root:
  assumes ok: "tree_ok st (Some r)"
  shows "node_at st a = Some p \<Longrightarrow> a \<in> subtree st r"
proof (induction a arbitrary: p rule: less_induct)
  case (less a)
  show ?case
  proof (cases "parent p")
    case None
    then show ?thesis using tree_ok_no_parent [OF ok less.prems] by simp
  next
    case (Some b)
    then obtain q where "b < a" "node_at st b = Some q" using tree_ok_parent [OF ok less.prems] by blast
    then show ?thesis using less.IH subtree_child [OF _ less.prems Some] by blast
  qed
qed

text \<open>
  C30: A failed first allocation aborts the process when a token is in the tree. \<open>SetFailedAllocationResult\<close> tells every node of the
  tree, also the tokens attached by \<open>AttachToken\<close> that no client has exchanged yet, and \<open>BufferCollectionToken::OnBuffersAllocated\<close>
  panics. So one client that attaches a token and then sets constraints that cannot be met ends the driver.
\<close>

theorem failed_allocation_panics:
  assumes "reachable env l" "node_at (store l) a = Some p" "node p = Some (Token t)"
  shows "SetFailedAllocationResult env l status = None"
proof (rule ccontr)
  assume "SetFailedAllocationResult env l status \<noteq> None"
  then obtain l' where run: "SetFailedAllocationResult env l status = Some l'" by blast
  let ?l = "l\<lparr>allocation_result_status := status, has_allocation_result := True\<rparr>"
  obtain r ns where r': "tree_root ?l = Some r" "BreadthFirstOrder (store ?l) all_nodes r = Some ns"
    "SendAllocationResult env ?l ns = Some l'"
    using run unfolding SetFailedAllocationResult_def Let_def by (elim bind_SomeE) (rule that)
  then have r: "tree_root l = Some r" "BreadthFirstOrder (store l) all_nodes r = Some ns" by simp_all
  obtain res l1 where n: "notify_all env res ?l ns = Some l1"
    using r'(3) unfolding SendAllocationResult_def by (elim bind_SomeE) (rule that)
  have tree: "tree_ok (store l) (Some r)" using reachable_ok [OF assms(1)] r(1) by (simp add: lbc_ok_def core_ok_def)
  then have "live (store l) r" using tree_ok_root by (auto simp: live_iff)
  then obtain xs where "BreadthFirstOrder (store l) all_nodes r = Some (r # xs)" "set (r # xs) = subtree (store l) r"
    using BreadthFirstOrder_all [OF tree] by blast
  then have "a \<in> set ns" using live_below_root [OF tree assms(2)] r(2) by (simp only: option.inject)
  then show False using goes_notify_all [OF n] assms(2,3) by fastforce
qed

theorem failed_allocation_panics_witness:
  "SetFailedAllocationResult ex_env ex_attached ZX_ERR_NOT_SUPPORTED = None \<and>
   handle ex_env ex_attached (MSetConstraints 0 True (Some ex_impossible)) = None"
proof -
  have "map_option node (node_at (store ex_attached) 1) = Some (Some (Token (new_token\<lparr>t_server_binding := True\<rparr>)))"
    by code_simp
  then obtain p where "node_at (store ex_attached) 1 = Some p" "node p = Some (Token (new_token\<lparr>t_server_binding := True\<rparr>))"
    by blast
  from failed_allocation_panics [OF reachable_attached this]
  have "SetFailedAllocationResult ex_env ex_attached ZX_ERR_NOT_SUPPORTED = None" .
  moreover have "handle ex_env ex_attached (MSetConstraints 0 True (Some ex_impossible)) = None" by code_simp
  ultimately show ?thesis by (rule conjI)
qed

text \<open>
  Once every node that is left is an orphan, no message and no end of a channel can be about a node any more, and what
  remains (a name, debug information, the end of a buffer) changes neither the root nor the counts.
\<close>

definition node_summary :: "node_store \<Rightarrow> (node option \<times> nat) option list" where
  "node_summary st = map (map_option (\<lambda>p. (node p, connected_client_count p))) st"

lemma stranded_nodes:
  assumes "\<forall>x\<in>set (node_summary (store l)). x = None \<or> (\<exists>n. x = Some (Some Orphaned, n))"
  shows "get_token l a = None" "get_collection l a = None" "Unbound env l a status is_kClose = None"
proof -
  have "node p = Some Orphaned" if "node_at (store l) a = Some p" for p
    using assms that by (fastforce simp: node_summary_def node_at_def in_set_conv_nth split: if_splits)
  then show "get_token l a = None" "get_collection l a = None" "Unbound env l a status is_kClose = None"
    by (auto simp: get_token_def get_collection_def Unbound_def bind_eq_None_conv)
qed

lemma stranded_handle:
  assumes st: "\<forall>x\<in>set (node_summary (store l)). x = None \<or> (\<exists>n. x = Some (Some Orphaned, n))"
    and run: "handle env l e = Some l'"
  shows "tree_root l' = tree_root l \<and> node_summary (store l') = node_summary (store l)"
proof -
  note n = stranded_nodes [OF st]
  have info: "node_summary (store l') = node_summary (store l) \<and> tree_root l' = tree_root l"
    if "SetDebugClientInfoInternal l a nm i = Some l'" for a nm i
    using that unfolding SetDebugClientInfoInternal_def update_node_def
    by (auto simp: node_summary_def put_def node_at_def map_update bind_eq_Some_conv split: if_splits
        intro!: nth_equalityI simp: nth_list_update)
  show ?thesis
    using run
    by (cases e) (auto simp: n info DuplicateSync_def Duplicate_def token_Sync_def token_Close_def
        BindSharedCollection_def SetBufferCollectionRequest_def SetName_def SetConstraintsAuxBuffers_def SetConstraints_def
        WaitForBuffersAllocated_def CheckBuffersAllocated_def GetAuxBuffers_def AttachToken_def
        collection_AttachLifetimeTracking_def SingleBuffer_not_implemented_def collection_Close_def OnZeroChildren_def
        SweepLifetimeTracking_def split: option.splits prod.splits if_splits)
qed

lemma stranded_handle_all:
  assumes "\<forall>x\<in>set (node_summary (store l)). x = None \<or> (\<exists>n. x = Some (Some Orphaned, n))"
    and "handle_all env l es = Some l'"
  shows "tree_root l' = tree_root l \<and> node_summary (store l') = node_summary (store l)"
  using assms
proof (induction es arbitrary: l)
  case (Cons e es)
  obtain k where k: "handle env l e = Some k" "handle_all env k es = Some l'"
    using Cons.prems(2) by (auto simp: bind_eq_Some_conv)
  have s: "tree_root k = tree_root l \<and> node_summary (store k) = node_summary (store l)"
    by (rule stranded_handle [OF Cons.prems(1) k(1)])
  then show ?case using Cons.IH [of k] Cons.prems(1) k(2) by simp
qed simp

lemma handle_all_append:
  "handle_all env l (xs @ ys) = do { l \<leftarrow> handle_all env l xs; handle_all env l ys }"
  by (induction xs arbitrary: l) (auto split: bind_splits)

text \<open>
  C31: A node that is removed stays counted in the nodes above it, because \<open>RemoveFromTreeAndDelete\<close> cuts the link to the
  parent before the destructor walks up to subtract: in every state a collection can reach, when a node fails, each
  node that survives has as many connected clients as before. There is a run in which a collection whose
  only client left after an attached token was dropped ends with an orphan as its root that counts one connected client, and whatever messages and ends of channels and buffers
  come after, the root stays and no client is ever connected again; the same run without the attached token ends with the collection torn down.
\<close>

theorem dropped_token_leaks_collection:
  "(\<forall>env l a p e l' b q. reachable env l \<longrightarrow> node_at (store l) a = Some p \<longrightarrow> fail_node l a e = Some l' \<longrightarrow>
      node_at (store l') b = Some q \<longrightarrow>
      map_option connected_client_count (node_at (store l) b) = Some (connected_client_count q)) \<and>
   (\<exists>l. handle_all ex_env ex_created (take 2 ex_attached_events @ ex_leaving) = Some l \<and> tree_root l = None) \<and>
   (\<exists>l. handle_all ex_env ex_created (ex_attached_events @ [EUnbound 1 ZX_ERR_PEER_CLOSED False] @ ex_leaving) = Some l \<and>
      (\<forall>env es l'. handle_all env l es = Some l' \<longrightarrow>
         tree_root l' = Some 0 \<and> node_summary (store l') = [Some (Some Orphaned, 1), None]))"
proof (intro conjI allI impI)
  fix env l a p e l' b q
  assume r: "reachable env l" and p: "node_at (store l) a = Some p" and f: "fail_node l a e = Some l'"
    and q: "node_at (store l') b = Some q"
  obtain T where "\<forall>c. node_at (store l') c = without (store l) T c"
    using fail_node_Some [OF reachable_ok [OF r] p, of e] f by auto
  then show "map_option connected_client_count (node_at (store l) b) = Some (connected_client_count q)"
    using q by (auto simp: without_def split: if_splits option.splits)
next
  have "map_option tree_root (handle_all ex_env ex_created (take 2 ex_attached_events @ ex_leaving)) = Some None"
    by code_simp
  then show "\<exists>l. handle_all ex_env ex_created (take 2 ex_attached_events @ ex_leaving) = Some l \<and> tree_root l = None" by auto
next
  have "map_option (\<lambda>l. (tree_root l, node_summary (store l)))
      (handle_all ex_env ex_created (ex_attached_events @ [EUnbound 1 ZX_ERR_PEER_CLOSED False] @ ex_leaving)) =
      Some (Some 0, [Some (Some Orphaned, 1), None])" by code_simp
  then obtain l where l: "handle_all ex_env ex_created (ex_attached_events @ [EUnbound 1 ZX_ERR_PEER_CLOSED False] @ ex_leaving) = Some l"
    "tree_root l = Some 0" "node_summary (store l) = [Some (Some Orphaned, 1), None]" by auto
  have "tree_root l' = Some 0 \<and> node_summary (store l') = [Some (Some Orphaned, 1), None]"
    if "handle_all env l es = Some l'" for env es l'
    using stranded_handle_all [OF _ that] l(2,3) by simp
  then show "\<exists>l. handle_all ex_env ex_created (ex_attached_events @ [EUnbound 1 ZX_ERR_PEER_CLOSED False] @ ex_leaving) = Some l \<and>
      (\<forall>env es l'. handle_all env l es = Some l' \<longrightarrow>
         tree_root l' = Some 0 \<and> node_summary (store l') = [Some (Some Orphaned, 1), None])"
    using l(1) by blast
qed

theorem dropped_token_leaks_collection_witness:
  "(\<exists>l' q. fail_node ex_attached 1 ZX_ERR_PEER_CLOSED = Some l' \<and> node_at (store l') 1 = None \<and>
      node_at (store l') 0 = Some q \<and> connected_client_count q = 2) \<and>
   (\<exists>l'. handle_all ex_env ex_created ((ex_attached_events @ [EUnbound 1 ZX_ERR_PEER_CLOSED False] @ ex_leaving) @
      [MSetName 1 ''x'', EZeroChildren 100, EZeroChildren 101, EZeroChildren 102]) = Some l' \<and> tree_root l' = Some 0)"
proof
  have "map_option (\<lambda>l. (node_at (store l) 1 = None, node_at (store l) 0 = None)) (fail_node ex_attached 1 ZX_ERR_PEER_CLOSED) =
      Some (True, False)" by code_simp
  then obtain l' q where l': "fail_node ex_attached 1 ZX_ERR_PEER_CLOSED = Some l'" "node_at (store l') 1 = None"
    "node_at (store l') 0 = Some q" by auto
  have "map_option connected_client_count (node_at (store ex_attached) 0) = Some 2"
    "node_at (store ex_attached) 1 \<noteq> None" by code_simp+
  then have "connected_client_count q = 2"
    using conjunct1 [OF dropped_token_leaks_collection] reachable_attached l'(1,3) by (metis not_None_eq option.inject)
  then show "\<exists>l' q. fail_node ex_attached 1 ZX_ERR_PEER_CLOSED = Some l' \<and> node_at (store l') 1 = None \<and>
      node_at (store l') 0 = Some q \<and> connected_client_count q = 2" using l' by blast
next
  let ?xs = "ex_attached_events @ [EUnbound 1 ZX_ERR_PEER_CLOSED False] @ ex_leaving"
  let ?ys = "[MSetName 1 ''x'', EZeroChildren 100, EZeroChildren 101, EZeroChildren 102]"
  obtain l where l: "handle_all ex_env ex_created ?xs = Some l"
    "\<And>env es l'. handle_all env l es = Some l' \<Longrightarrow> tree_root l' = Some 0"
    using dropped_token_leaks_collection by blast
  obtain l' where l': "handle_all ex_env l ?ys = Some l'" by simp
  have "handle_all ex_env ex_created (?xs @ ?ys) = Some l'" 
    using handle_all_append [of ex_env ex_created ?xs ?ys] unfolding l(1) bind.bind_lunit l' .
  then show "\<exists>l'. handle_all ex_env ex_created (?xs @ ?ys) = Some l' \<and> tree_root l' = Some 0" using l(2) [OF l'] by blast
qed

end
