(* ===== verification/Rtc_Library.thy ===== *)
theory Rtc_Library
  imports Dev_Prelude "HOL-Library.Word"
begin

text \<open>
  The library of the real-time clock drivers: \<open>librtc_llcpp.cc\<close> and its older form \<open>librtc.c\<close>. A time has the fields of the
  FIDL struct, 8 bits wide but for the 16 bits of the year. Reading beyond the table of month lengths is an abort (\<^term>\<open>None\<close>).
  The variable \<open>clock.backstop\<close> of the environment is an argument.
\<close>

unbundle bit_operations_syntax

section \<open>Calendar\<close>

record rtc_time =
  t_seconds :: nat
  t_minutes :: nat
  t_hours :: nat
  t_day :: nat
  t_month :: nat
  t_year :: nat

definition JANUARY :: nat where "JANUARY = 1"
definition FEBRUARY :: nat where "FEBRUARY = 2"
definition DECEMBER :: nat where "DECEMBER = 12"

definition kDaysInMonth :: "nat list" where
  "kDaysInMonth = [0, 31, 28, 31, 30, 31, 30, 31, 31, 30, 31, 30, 31]"

definition kLocalEpoch :: nat where "kLocalEpoch = 946684800"
definition kLocalEpochYear :: nat where "kLocalEpochYear = 2000"
definition kDefaultYear :: nat where "kDefaultYear = 2020"
definition kMaxYear :: nat where "kMaxYear = 2099"

definition kDefaultRtc :: rtc_time where
  "kDefaultRtc = \<lparr>t_seconds = 0, t_minutes = 0, t_hours = 0, t_day = 1, t_month = JANUARY, t_year = kDefaultYear\<rparr>"

definition IsLeapYear :: "nat \<Rightarrow> bool" where
  "IsLeapYear year \<longleftrightarrow> (year mod 4 = 0 \<and> year mod 100 \<noteq> 0) \<or> year mod 400 = 0"

definition DaysInYear :: "nat \<Rightarrow> nat" where
  "DaysInYear year = (if IsLeapYear year then 366 else 365)"

text \<open>The entry of the table, if there is one.\<close>

definition month_entry :: "nat \<Rightarrow> nat option" where
  "month_entry month = (if month < length kDaysInMonth then Some (kDaysInMonth ! month) else None)"

definition DaysInMonth :: "nat \<Rightarrow> nat \<Rightarrow> nat option" where
  "DaysInMonth month year = do {
     days \<leftarrow> month_entry month;
     Some (if month = FEBRUARY \<and> IsLeapYear year then days + 1 else days) }"

definition IsRtcValid :: "rtc_time \<Rightarrow> bool option" where
  "IsRtcValid rtc =
     (if t_year rtc < kLocalEpochYear \<or> t_year rtc > kMaxYear then Some False
      else if t_month rtc < JANUARY \<or> t_month rtc > DECEMBER then Some False
      else do {
        days \<leftarrow> DaysInMonth (t_month rtc) (t_year rtc);
        if t_day rtc > days then Some False
        else if t_day rtc = 0 then Some False
        else if t_hours rtc > 23 \<or> t_minutes rtc > 59 \<or> t_seconds rtc > 59 then Some False
        else Some True })"

section \<open>Between seconds and times\<close>

text \<open>The two loops over years and months. The year is 16 bits wide.\<close>

function year_loop :: "nat \<Rightarrow> nat \<Rightarrow> nat \<times> nat" where
  "year_loop epoch year =
     (if epoch < DaysInYear year then (epoch, year) else year_loop (epoch - DaysInYear year) ((year + 1) mod 65536))"
  by pat_completeness auto
termination
  by (relation "measure fst") (auto simp: DaysInYear_def)

function month_loop :: "nat \<Rightarrow> nat \<Rightarrow> nat \<Rightarrow> (nat \<times> nat) option" where
  "month_loop epoch month year =
     (case DaysInMonth month year of
        None \<Rightarrow> None
      | Some days \<Rightarrow> if epoch < days then Some (epoch, month) else month_loop (epoch - days) (month + 1) year)"
  by pat_completeness auto
termination
  by (relation "measure (\<lambda>(epoch, month, year). 13 - month)")
     (auto simp: DaysInMonth_def month_entry_def kDaysInMonth_def split: if_splits)

declare year_loop.simps [simp del] month_loop.simps [simp del]

definition SecondsToRtc :: "nat \<Rightarrow> rtc_time option" where
  "SecondsToRtc seconds =
     (if seconds < kLocalEpoch then Some kDefaultRtc
      else do {
        let epoch = u64_sub seconds kLocalEpoch;
        let s = epoch mod 60;
        let epoch = epoch div 60;
        let mi = epoch mod 60;
        let epoch = epoch div 60;
        let h = epoch mod 24;
        let epoch = epoch div 24;
        let (epoch, y) = year_loop epoch kLocalEpochYear;
        (epoch, mo) \<leftarrow> month_loop epoch 1 y;
        Some \<lparr>t_seconds = s, t_minutes = mi, t_hours = h, t_day = (epoch mod 256 + 1) mod 256, t_month = mo, t_year = y\<rparr> })"

fun sum_months :: "nat \<Rightarrow> nat list \<Rightarrow> nat \<Rightarrow> nat option" where
  "sum_months days [] year = Some days"
| "sum_months days (m # ms) year = do {
     d \<leftarrow> DaysInMonth m year;
     sum_months (u64_add days d) ms year }"

definition SecondsSinceEpoch :: "rtc_time \<Rightarrow> nat option" where
  "SecondsSinceEpoch rtc = do {
     let days = foldl (\<lambda>days year. u64_add days (DaysInYear year)) 0 [kLocalEpochYear..<t_year rtc];
     days \<leftarrow> sum_months days [JANUARY..<t_month rtc] (t_year rtc);
     let days = u64_add days (u64_sub (t_day rtc) 1);
     let hours = u64_add (u64_mul days 24) (t_hours rtc);
     let minutes = u64_add (u64_mul hours 60) (t_minutes rtc);
     let seconds = u64_add (u64_mul minutes 60) (t_seconds rtc);
     Some (u64_add kLocalEpoch seconds) }"

text \<open>\<open>backstop\<close> is what \<open>RtcBackstopSeconds\<close> reads from the environment, 0 if nothing is set.\<close>

definition SanitizeRtc :: "nat \<Rightarrow> rtc_time \<Rightarrow> rtc_time option" where
  "SanitizeRtc backstop rtc = do {
     valid \<leftarrow> IsRtcValid rtc;
     bad \<leftarrow> (if \<not> valid \<or> t_year rtc < kDefaultYear then Some True
            else do { s \<leftarrow> SecondsSinceEpoch rtc; Some (s < backstop) });
     if bad then (if backstop > 0 then SecondsToRtc backstop else Some kDefaultRtc) else Some rtc }"

section \<open>The older library\<close>

definition is_leap_year :: "nat \<Rightarrow> bool" where
  "is_leap_year year \<longleftrightarrow> (year mod 4 = 0 \<and> year mod 100 \<noteq> 0) \<or> year mod 400 = 0"

fun sum_table :: "nat \<Rightarrow> nat list \<Rightarrow> nat option" where
  "sum_table days [] = Some days"
| "sum_table days (m # ms) = do { d \<leftarrow> month_entry m; sum_table (u64_add days d) ms }"

definition seconds_since_epoch :: "rtc_time \<Rightarrow> nat option" where
  "seconds_since_epoch rtc = do {
     let days = foldl (\<lambda>days year. u64_add days (if is_leap_year year then 366 else 365)) 0 [kLocalEpochYear..<t_year rtc];
     days \<leftarrow> sum_table days [JANUARY..<t_month rtc];
     let days = (if t_month rtc > FEBRUARY \<and> is_leap_year (t_year rtc) then u64_add days 1 else days);
     let days = u64_add days (u64_sub (t_day rtc) 1);
     let hours = u64_add (u64_mul days 24) (t_hours rtc);
     let minutes = u64_add (u64_mul hours 60) (t_minutes rtc);
     let seconds = u64_add (u64_mul minutes 60) (t_seconds rtc);
     Some (u64_add kLocalEpoch seconds) }"

function year_loop_c :: "nat \<Rightarrow> nat \<Rightarrow> nat \<times> nat" where
  "year_loop_c epoch year =
     (let days = (if is_leap_year year then 365 + 1 else 365)
      in if epoch < days then (epoch, year) else year_loop_c (epoch - days) ((year + 1) mod 65536))"
  by pat_completeness auto
termination
  by (relation "measure fst") (auto split: if_splits)

function month_loop_c :: "nat \<Rightarrow> nat \<Rightarrow> nat \<Rightarrow> (nat \<times> nat) option" where
  "month_loop_c epoch month year =
     (case month_entry month of
        None \<Rightarrow> None
      | Some d \<Rightarrow>
          (let days = (if month = FEBRUARY \<and> is_leap_year year then d + 1 else d)
           in if epoch < days then Some (epoch, month) else month_loop_c (epoch - days) (month + 1) year))"
  by pat_completeness auto
termination
  by (relation "measure (\<lambda>(epoch, month, year). 13 - month)")
     (auto simp: month_entry_def kDaysInMonth_def split: if_splits)

declare year_loop_c.simps [simp del] month_loop_c.simps [simp del]

definition seconds_to_rtc :: "nat \<Rightarrow> rtc_time option" where
  "seconds_to_rtc seconds = do {
     let epoch = u64_sub seconds kLocalEpoch;
     let s = epoch mod 60;
     let epoch = epoch div 60;
     let mi = epoch mod 60;
     let epoch = epoch div 60;
     let h = epoch mod 24;
     let epoch = epoch div 24;
     let (epoch, y) = year_loop_c epoch kLocalEpochYear;
     (epoch, mo) \<leftarrow> month_loop_c epoch 1 y;
     Some \<lparr>t_seconds = s, t_minutes = mi, t_hours = h, t_day = (epoch + 1) mod 256, t_month = mo, t_year = y\<rparr> }"

definition to_bcd :: "nat \<Rightarrow> nat" where
  "to_bcd binary = (push_bit 4 (binary div 10) OR (binary mod 10)) mod 256"

definition from_bcd :: "nat \<Rightarrow> nat" where
  "from_bcd bcd = (drop_bit 4 bcd * 10 + (bcd AND 15)) mod 256"

definition rtc_is_valid :: "rtc_time \<Rightarrow> bool" where
  "rtc_is_valid rtc =
     (if t_year rtc < kLocalEpochYear \<or> t_year rtc > kMaxYear then False
      else if t_month rtc < JANUARY \<or> t_month rtc > DECEMBER then False
      else if t_day rtc = 0 then False
      else if (if t_month rtc \<in> {1, 3, 5, 7, 8, 10, 12} then t_day rtc > 31
               else if t_month rtc = FEBRUARY then t_day rtc > (if is_leap_year (t_year rtc) then 29 else 28)
               else t_day rtc > 30) then False
      else if t_hours rtc > 23 \<or> t_minutes rtc > 59 \<or> t_seconds rtc > 59 then False
      else True)"

definition rtc_is_invalid :: "rtc_time \<Rightarrow> bool" where
  "rtc_is_invalid rtc \<longleftrightarrow> \<not> rtc_is_valid rtc"

definition default_year :: nat where "default_year = 2019"

text \<open>
  \<open>rtc_get\<close> and \<open>rtc_set\<close> of the driver act on its context; a status other than \<open>ZX_OK\<close> is an error. The result is the context and the
  time in the caller's buffer, which \<open>rtc_get\<close> fills.
\<close>

definition sanitize_rtc ::
  "('c \<Rightarrow> rtc_time \<Rightarrow> zx_status \<times> rtc_time \<times> 'c) \<Rightarrow> ('c \<Rightarrow> rtc_time \<Rightarrow> (zx_status \<times> 'c) option) \<Rightarrow> nat \<Rightarrow> 'c \<Rightarrow> rtc_time \<Rightarrow> (rtc_time \<times> 'c) option" where
  "sanitize_rtc rtc_get rtc_set backstop ctx rtc = do {
     let backstop_rtc = \<lparr>t_seconds = 0, t_minutes = 0, t_hours = 0, t_day = 1, t_month = JANUARY, t_year = default_year\<rparr>;
     let (result, rtc', ctx) = rtc_get ctx rtc;
     if result \<noteq> ZX_OK then Some (rtc', ctx)
     else do {
       bad \<leftarrow> (if rtc_is_invalid rtc' \<or> t_year rtc' < default_year then Some True
              else do { s \<leftarrow> seconds_since_epoch rtc'; Some (s < backstop) });
       if bad
       then do {
         b \<leftarrow> (if backstop > 0 then seconds_to_rtc backstop else Some backstop_rtc);
         (result, ctx) \<leftarrow> rtc_set ctx b;
         Some (if result \<noteq> ZX_OK then (rtc', ctx) else (b, ctx)) }
       else Some (rtc', ctx) } }"

end
