(* ===== verification/Rtc_Calendar.thy ===== *)
theory Rtc_Calendar
  imports Rtc_Library
begin

text \<open>
  The calendar behind the conversions: the days before a year and before a month, and what the loops of the library compute from them.
\<close>

section \<open>Lengths\<close>

definition days_in_month :: "nat \<Rightarrow> nat \<Rightarrow> nat" where
  "days_in_month m y = (if m = 2 then (if IsLeapYear y then 29 else 28) else if m \<in> {4, 6, 9, 11} then 30 else 31)"

lemma month_cases:
  assumes "1 \<le> m" "m \<le> (12 :: nat)"
  obtains "m = 1" | "m = 2" | "m = 3" | "m = 4" | "m = 5" | "m = 6" | "m = 7" | "m = 8" | "m = 9" | "m = 10" | "m = 11" | "m = 12"
proof -
  have "m = 1 \<or> m = 2 \<or> m = 3 \<or> m = 4 \<or> m = 5 \<or> m = 6 \<or> m = 7 \<or> m = 8 \<or> m = 9 \<or> m = 10 \<or> m = 11 \<or> m = 12"
    using assms by presburger
  then show thesis using that by (elim disjE)
qed

lemma DaysInMonth_Some: "1 \<le> m \<Longrightarrow> m \<le> 12 \<Longrightarrow> DaysInMonth m y = Some (days_in_month m y)"
  by (erule (1) month_cases)
     (simp_all add: DaysInMonth_def month_entry_def kDaysInMonth_def FEBRUARY_def days_in_month_def)

lemma DaysInYear_pos [simp]: "0 < DaysInYear y"
  by (simp add: DaysInYear_def)

lemma days_in_month_pos [simp]: "0 < days_in_month m y"
  by (simp add: days_in_month_def)

lemma year_is_its_months: "sum (\<lambda>m. days_in_month m y) {1..<13} = DaysInYear y"
proof -
  have "[1..<13] = [1, 2, 3, 4, 5, 6, 7, 8, 9, 10, 11, 12 :: nat]" by code_simp
  then have "sum_list (map (\<lambda>m. days_in_month m y) [1..<13]) = DaysInYear y"
    by (simp only: list.map sum_list.Cons sum_list.Nil) (simp add: days_in_month_def DaysInYear_def)
  then show ?thesis by (simp only: interv_sum_list_conv_sum_set_nat set_upt)
qed

lemma century_days: "sum DaysInYear {2000..<2100} = 36525"
proof -
  have "sum_list (map DaysInYear [2000..<2100]) = 36525" by code_simp
  then show ?thesis by (simp only: interv_sum_list_conv_sum_set_nat set_upt)
qed

section \<open>The loops\<close>

text \<open>A loop that subtracts lengths one after the other finds the part that a number falls into.\<close>

lemma year_loop_finds:
  "k \<le> y \<Longrightarrow> y < 65536 \<Longrightarrow> e < DaysInYear y \<Longrightarrow> year_loop (sum DaysInYear {k..<y} + e) k = (e, y)"
proof (induction "y - k" arbitrary: k)
  case (Suc d)
  then have k: "k < y" by linarith
  have s: "sum DaysInYear {k..<y} = DaysInYear k + sum DaysInYear {Suc k..<y}"
    using k by (rule sum.atLeast_Suc_lessThan)
  have "year_loop (sum DaysInYear {k..<y} + e) k = year_loop (sum DaysInYear {Suc k..<y} + e) (Suc k)"
    using k Suc.prems(2) by (subst year_loop.simps) (simp add: s)
  also have "\<dots> = (e, y)" using Suc.hyps(1) [of "Suc k"] Suc.hyps(2) k Suc.prems by simp
  finally show ?case .
qed (simp add: year_loop.simps)

lemma month_loop_finds:
  "1 \<le> k \<Longrightarrow> k \<le> m \<Longrightarrow> m \<le> 12 \<Longrightarrow> e < days_in_month m y \<Longrightarrow>
   month_loop (sum (\<lambda>m. days_in_month m y) {k..<m} + e) k y = Some (e, m)"
proof (induction "m - k" arbitrary: k)
  case 0
  then show ?case by (subst month_loop.simps) (simp add: DaysInMonth_Some)
next
  case (Suc d)
  then have k: "k < m" by linarith
  have s: "sum (\<lambda>m. days_in_month m y) {k..<m} = days_in_month k y + sum (\<lambda>m. days_in_month m y) {Suc k..<m}"
    using k by (rule sum.atLeast_Suc_lessThan)
  have "month_loop (sum (\<lambda>m. days_in_month m y) {k..<m} + e) k y =
      month_loop (sum (\<lambda>m. days_in_month m y) {Suc k..<m} + e) (Suc k) y"
    using k Suc.prems(1,3) by (subst month_loop.simps) (simp add: s DaysInMonth_Some)
  also have "\<dots> = Some (e, m)" using Suc.hyps(1) [of "Suc k"] Suc.hyps(2) k Suc.prems by simp
  finally show ?case .
qed

text \<open>Every number below the sum of some lengths falls into one of them.\<close>

lemma part_exists:
  fixes f :: "nat \<Rightarrow> nat"
  shows "k \<le> b \<Longrightarrow> n < sum f {k..<b} \<Longrightarrow> \<exists>y e. k \<le> y \<and> y < b \<and> e < f y \<and> n = sum f {k..<y} + e"
proof (induction "b - k" arbitrary: k n)
  case (Suc d)
  then have k: "k < b" by linarith
  have s: "sum f {k..<c} = f k + sum f {Suc k..<c}" if "k < c" for c
    using that by (rule sum.atLeast_Suc_lessThan)
  show ?case
  proof (cases "n < f k")
    case True
    then show ?thesis using k by (intro exI [of _ k] exI [of _ n]) simp
  next
    case False
    then have "n - f k < sum f {Suc k..<b}" using Suc.prems(2) s [OF k] by linarith
    moreover have "d = b - Suc k" "Suc k \<le> b" using Suc.hyps(2) by simp_all
    ultimately obtain y e where "Suc k \<le> y" "y < b" "e < f y" "n - f k = sum f {Suc k..<y} + e"
      using Suc.hyps(1) [of "Suc k" "n - f k"] by blast
    then show ?thesis using False s [of y] by (intro exI [of _ y] exI [of _ e]) simp
  qed
qed simp

section \<open>Days\<close>

text \<open>The days from the start of 2000 to a date.\<close>

definition day_number :: "nat \<Rightarrow> nat \<Rightarrow> nat \<Rightarrow> nat" where
  "day_number y m d = sum DaysInYear {2000..<y} + sum (\<lambda>m. days_in_month m y) {1..<m} + (d - 1)"

definition valid_date :: "nat \<Rightarrow> nat \<Rightarrow> nat \<Rightarrow> bool" where
  "valid_date y m d \<longleftrightarrow> 2000 \<le> y \<and> y \<le> 2099 \<and> 1 \<le> m \<and> m \<le> 12 \<and> 1 \<le> d \<and> d \<le> days_in_month m y"

definition valid_time :: "rtc_time \<Rightarrow> bool" where
  "valid_time t \<longleftrightarrow> valid_date (t_year t) (t_month t) (t_day t) \<and> t_hours t < 24 \<and> t_minutes t < 60 \<and> t_seconds t < 60"

lemma IsRtcValid_iff: "IsRtcValid t = Some (valid_time t)"
proof (cases "2000 \<le> t_year t \<and> t_year t \<le> 2099 \<and> 1 \<le> t_month t \<and> t_month t \<le> 12")
  case True
  then show ?thesis
    by (auto simp: IsRtcValid_def valid_time_def valid_date_def DaysInMonth_Some kLocalEpochYear_def kMaxYear_def
        JANUARY_def DECEMBER_def)
next
  case False
  then show ?thesis
    by (auto simp: IsRtcValid_def valid_time_def valid_date_def kLocalEpochYear_def kMaxYear_def JANUARY_def DECEMBER_def)
qed

lemma month_days_less:
  assumes "1 \<le> m" "m \<le> 12" "e < days_in_month m y"
  shows "sum (\<lambda>m. days_in_month m y) {1..<m} + e < DaysInYear y"
proof -
  have "sum (\<lambda>m. days_in_month m y) {1..<m} + days_in_month m y = sum (\<lambda>m. days_in_month m y) {1..<Suc m}"
    using assms(1) by simp
  also have "\<dots> \<le> sum (\<lambda>m. days_in_month m y) {1..<13}" using assms(2) by (intro sum_mono2) auto
  finally show ?thesis using assms(3) year_is_its_months [of y] by linarith
qed

lemma year_days_less:
  assumes "2000 \<le> y" "y \<le> 2099" "e < DaysInYear y"
  shows "sum DaysInYear {2000..<y} + e < 36525"
proof -
  have "sum DaysInYear {2000..<y} + DaysInYear y = sum DaysInYear {2000..<Suc y}" using assms(1) by simp
  also have "\<dots> \<le> sum DaysInYear {2000..<2100}" using assms(2) by (intro sum_mono2) auto
  finally show ?thesis using assms(3) century_days by linarith
qed

lemma day_number_less:
  assumes "valid_date y m d"
  shows "day_number y m d < 36525"
proof -
  have "sum (\<lambda>m. days_in_month m y) {1..<m} + (d - 1) < DaysInYear y"
    using assms by (intro month_days_less) (auto simp: valid_date_def)
  then show ?thesis using assms year_days_less [of y] unfolding day_number_def valid_date_def add.assoc by blast
qed

lemma day_number_date:
  assumes "n < 36525"
  obtains y m d where "valid_date y m d" "day_number y m d = n"
proof -
  obtain y k where y: "2000 \<le> y" "y < 2100" "k < DaysInYear y" "n = sum DaysInYear {2000..<y} + k"
    using part_exists [of 2000 2100 n DaysInYear] assms century_days by auto
  obtain m e where m: "1 \<le> m" "m < 13" "e < days_in_month m y" "k = sum (\<lambda>m. days_in_month m y) {1..<m} + e"
    using part_exists [of 1 13 k "\<lambda>m. days_in_month m y"] y(3) year_is_its_months [of y] by auto
  show ?thesis
    using that [of y m "e + 1"] y m by (simp add: valid_date_def day_number_def)
qed

lemma loops_find_date:
  assumes "valid_date y m d"
  shows "year_loop (day_number y m d) 2000 = (sum (\<lambda>m. days_in_month m y) {1..<m} + (d - 1), y)"
    and "month_loop (sum (\<lambda>m. days_in_month m y) {1..<m} + (d - 1)) 1 y = Some (d - 1, m)"
proof -
  have "d - 1 < days_in_month m y" using assms by (auto simp: valid_date_def)
  then have "sum (\<lambda>m. days_in_month m y) {1..<m} + (d - 1) < DaysInYear y"
    using assms by (intro month_days_less) (auto simp: valid_date_def)
  then show "year_loop (day_number y m d) 2000 = (sum (\<lambda>m. days_in_month m y) {1..<m} + (d - 1), y)"
    unfolding day_number_def add.assoc using assms by (intro year_loop_finds) (simp_all add: valid_date_def)
  show "month_loop (sum (\<lambda>m. days_in_month m y) {1..<m} + (d - 1)) 1 y = Some (d - 1, m)"
    using assms \<open>d - 1 < days_in_month m y\<close> by (intro month_loop_finds) (auto simp: valid_date_def)
qed

section \<open>Seconds\<close>

definition second_number :: "rtc_time \<Rightarrow> nat" where
  "second_number t = ((day_number (t_year t) (t_month t) (t_day t) * 24 + t_hours t) * 60 + t_minutes t) * 60 + t_seconds t"

lemma second_number_less: "valid_time t \<Longrightarrow> second_number t < 3155760000"
  using day_number_less [of "t_year t" "t_month t" "t_day t"] by (auto simp: second_number_def valid_time_def)

lemma mixed_radix [simp]:
  assumes "s < k" 
  shows "(n * k + s) mod k = s" "(n * k + s) div k = (n :: nat)"
  using assms by simp_all

lemma SecondsToRtc_second_number:
  assumes "valid_time t"
  shows "SecondsToRtc (kLocalEpoch + second_number t) = Some t"
proof -
  let ?n = "day_number (t_year t) (t_month t) (t_day t)"
  have v: "valid_date (t_year t) (t_month t) (t_day t)" "t_hours t < 24" "t_minutes t < 60" "t_seconds t < 60"
    using assms by (simp_all add: valid_time_def)
  have sub: "u64_sub (kLocalEpoch + second_number t) kLocalEpoch = second_number t"
    using second_number_less [OF assms] by (subst u64_sub_id) (simp_all add: kLocalEpoch_def W64_def)
  have d: "second_number t mod 60 = t_seconds t" "second_number t div 60 mod 60 = t_minutes t"
    "second_number t div 60 div 60 mod 24 = t_hours t" "second_number t div 60 div 60 div 24 = ?n"
    unfolding second_number_def using v(2-4) by (simp_all only: mixed_radix)
  have "t_day t \<le> 31" "1 \<le> t_day t" using v(1) by (auto simp: valid_date_def days_in_month_def split: if_splits)
  then have day: "((t_day t - 1) mod 256 + 1) mod 256 = t_day t" by simp
  show ?thesis
    unfolding SecondsToRtc_def Let_def sub d kLocalEpochYear_def loops_find_date(1) [OF v(1)]
    by (simp add: loops_find_date(2) [OF v(1)] day JANUARY_def del: One_nat_def)
qed

lemma foldl_u64_add:
  "a + sum_list (map f xs) < W64 \<Longrightarrow> foldl (\<lambda>d x. u64_add d (f x)) a xs = a + sum_list (map f xs)"
proof (induction xs arbitrary: a)
  case (Cons x xs)
  then have "a + f x < W64" by simp
  then show ?case using Cons.IH [of "a + f x"] Cons.prems by (simp add: u64_add_id add.assoc)
qed simp

lemma sum_months_Some:
  "\<forall>m\<in>set ms. 1 \<le> m \<and> m \<le> 12 \<Longrightarrow> a + sum_list (map (\<lambda>m. days_in_month m y) ms) < W64 \<Longrightarrow>
   sum_months a ms y = Some (a + sum_list (map (\<lambda>m. days_in_month m y) ms))"
proof (induction ms arbitrary: a)
  case (Cons m ms)
  then have "a + days_in_month m y < W64" by simp
  then show ?case using Cons.IH [of "a + days_in_month m y"] Cons.prems by (simp add: DaysInMonth_Some u64_add_id add.assoc)
qed simp

lemma SecondsSinceEpoch_valid:
  assumes "valid_time t"
  shows "SecondsSinceEpoch t = Some (kLocalEpoch + second_number t)"
proof -
  let ?y = "sum DaysInYear {2000..<t_year t}" and ?m = "sum (\<lambda>m. days_in_month m (t_year t)) {1..<t_month t}"
  let ?n = "day_number (t_year t) (t_month t) (t_day t)"
  have v: "valid_date (t_year t) (t_month t) (t_day t)" "t_hours t < 24" "t_minutes t < 60" "t_seconds t < 60"
    using assms by (simp_all add: valid_time_def)
  have n: "?n < 36525" "?n = ?y + ?m + (t_day t - 1)" using day_number_less [OF v(1)] by (simp_all add: day_number_def)
  have W: "36525 < W64" by (simp add: W64_def)
  have y: "foldl (\<lambda>days year. u64_add days (DaysInYear year)) 0 [2000..<t_year t] = ?y"
    using foldl_u64_add [of 0 DaysInYear] n W by (simp add: interv_sum_list_conv_sum_set_nat)
  have m: "sum_months ?y [1..<t_month t] (t_year t) = Some (?y + ?m)"
    using sum_months_Some [of "[1..<t_month t]" ?y "t_year t"] v(1) n W
    by (simp add: interv_sum_list_conv_sum_set_nat valid_date_def)
  have d: "u64_add (?y + ?m) (u64_sub (t_day t) 1) = ?n"
    using v(1) n W by (simp add: u64_sub_id u64_add_id valid_date_def days_in_month_def split: if_splits)
  have s: "kLocalEpoch + second_number t < W64" using second_number_less [OF assms] by (simp add: kLocalEpoch_def W64_def)
  have "u64_mul ?n 24 = ?n * 24" "u64_add (?n * 24) (t_hours t) = ?n * 24 + t_hours t"
    "u64_mul (?n * 24 + t_hours t) 60 = (?n * 24 + t_hours t) * 60"
    "u64_add ((?n * 24 + t_hours t) * 60) (t_minutes t) = (?n * 24 + t_hours t) * 60 + t_minutes t"
    "u64_mul ((?n * 24 + t_hours t) * 60 + t_minutes t) 60 = ((?n * 24 + t_hours t) * 60 + t_minutes t) * 60"
    "u64_add (((?n * 24 + t_hours t) * 60 + t_minutes t) * 60) (t_seconds t) = second_number t"
    "u64_add kLocalEpoch (second_number t) = kLocalEpoch + second_number t"
    using s by (simp_all add: u64_mul_def u64_add_id second_number_def)
  then show ?thesis
    by (simp only: SecondsSinceEpoch_def kLocalEpochYear_def JANUARY_def Let_def y m d bind.bind_lunit)
qed

lemma seconds_of_time:
  assumes "n < 3155760000"
  obtains t where "valid_time t" "second_number t = n"
proof -
  have "n div 60 div 60 div 24 < 36525" using assms by (simp add: div_mult2_eq [symmetric] less_mult_imp_div_less)
  then obtain y m d where v: "valid_date y m d" "day_number y m d = n div 60 div 60 div 24" by (rule day_number_date)
  let ?t = "\<lparr>t_seconds = n mod 60, t_minutes = n div 60 mod 60, t_hours = n div 60 div 60 mod 24, t_day = d, t_month = m, t_year = y\<rparr>"
  have "second_number ?t = n" by (simp only: second_number_def rtc_time.simps v(2) div_mult_mod_eq)
  moreover have "valid_time ?t" using v(1) by (simp add: valid_time_def)
  ultimately show ?thesis by (rule that [rotated])
qed

section \<open>Sanitized times\<close>

lemma SecondsToRtc_valid:
  assumes "kLocalEpoch \<le> s" "s < 4102444800"
  obtains t where "SecondsToRtc s = Some t" "valid_time t" "kLocalEpoch + second_number t = s"
proof -
  have "s - kLocalEpoch < 3155760000" using assms by (simp add: kLocalEpoch_def)
  then obtain t where t: "valid_time t" "second_number t = s - kLocalEpoch" by (rule seconds_of_time)
  then have "kLocalEpoch + second_number t = s" using assms(1) by simp
  then show thesis using that [of t] SecondsToRtc_second_number [OF t(1)] t(1) by simp
qed

lemma kDefaultRtc_valid: "valid_time kDefaultRtc"
  by (simp add: valid_time_def valid_date_def kDefaultRtc_def JANUARY_def kDefaultYear_def days_in_month_def)

lemma SanitizeRtc_valid:
  assumes "backstop < 4102444800"
  obtains t' where "SanitizeRtc backstop t = Some t'" "valid_time t'" "backstop \<le> kLocalEpoch + second_number t'"
    "valid_time t \<and> kDefaultYear \<le> t_year t \<and> backstop \<le> kLocalEpoch + second_number t \<longrightarrow> t' = t"
proof (cases "valid_time t \<and> kDefaultYear \<le> t_year t \<and> backstop \<le> kLocalEpoch + second_number t")
  case True
  then have "SanitizeRtc backstop t = Some t" by (simp add: SanitizeRtc_def IsRtcValid_iff SecondsSinceEpoch_valid)
  then show ?thesis using True that by simp
next
  case False
  then have s: "SanitizeRtc backstop t = (if backstop > 0 then SecondsToRtc backstop else Some kDefaultRtc)"
    by (cases "valid_time t") (auto simp: SanitizeRtc_def IsRtcValid_iff SecondsSinceEpoch_valid)
  show ?thesis
  proof (cases "kLocalEpoch \<le> backstop")
    case True
    then obtain t' where "SecondsToRtc backstop = Some t'" "valid_time t'" "kLocalEpoch + second_number t' = backstop"
      using SecondsToRtc_valid assms by metis
    moreover have "0 < backstop" using True by (simp add: kLocalEpoch_def)
    ultimately show ?thesis using that [of t'] s False by auto
  next
    case before: False
    then have "SanitizeRtc backstop t = Some kDefaultRtc" by (simp add: s SecondsToRtc_def)
    then show ?thesis using that [of kDefaultRtc] before False kDefaultRtc_valid by auto
  qed
qed

section \<open>The two libraries\<close>

lemma is_leap_year_eq: "is_leap_year = IsLeapYear"
  by (rule ext) (simp add: is_leap_year_def IsLeapYear_def)

lemma year_loop_c_eq: "year_loop_c e y = year_loop e y"
proof (induction e y rule: year_loop.induct)
  case (1 e y)
  then show ?case
    by (cases "IsLeapYear y"; subst year_loop_c.simps, subst year_loop.simps) (simp_all add: is_leap_year_eq DaysInYear_def Let_def)
qed

lemma month_loop_c_eq: "month_loop_c e m y = month_loop e m y"
proof (induction e m y rule: month_loop.induct)
  case (1 e m y)
  then show ?case
    by (subst month_loop_c.simps, subst month_loop.simps)
       (auto simp: is_leap_year_eq DaysInMonth_def Let_def split: option.splits)
qed

lemma sum_months_no_February: "2 \<notin> set ms \<Longrightarrow> sum_months a ms y = sum_table a ms"
  by (induction ms arbitrary: a) (auto simp: DaysInMonth_def FEBRUARY_def split: option.splits)

lemma sum_table_add_one: "sum_table (u64_add a 1) ms = map_option (\<lambda>s. u64_add s 1) (sum_table a ms)"
proof (induction ms arbitrary: a)
  case (Cons m ms)
  have "u64_add (u64_add a 1) d = u64_add (u64_add a d) 1" for d by (simp add: u64_add_def mod_simps ac_simps)
  then show ?case using Cons.IH by (cases "month_entry m") simp_all
qed simp

lemma sum_months_table:
  "sum_months a [1..<m] y = map_option (\<lambda>s. if m > 2 \<and> IsLeapYear y then u64_add s 1 else s) (sum_table a [1..<m])"
proof (cases "m > 2")
  case True
  have l: "[1..<m] = 1 # 2 # [3..<m]" using True by (simp add: upt_conv_Cons numeral_eq_Suc)
  have d: "DaysInMonth 1 y = Some 31" "DaysInMonth 2 y = Some (if IsLeapYear y then 29 else 28)" "month_entry 1 = Some 31" "month_entry 2 = Some 28"
    by (simp_all add: DaysInMonth_def month_entry_def kDaysInMonth_def FEBRUARY_def)
  have "u64_add (u64_add a 31) 29 = u64_add (u64_add (u64_add a 31) 28) 1" by (simp add: u64_add_def mod_simps)
  then show ?thesis
    using True sum_months_no_February [of "[3..<m]" _ y] sum_table_add_one [of "u64_add (u64_add a 31) 28" "[3..<m]"]
    unfolding l by (simp add: d del: One_nat_def) (simp add: option.map_id0 [unfolded id_def])
next
  case False
  then have "2 \<notin> set [1..<m]" by simp
  then show ?thesis using False sum_months_no_February by (simp add: option.map_id0 [unfolded id_def])
qed

lemma seconds_since_epoch_eq: "seconds_since_epoch t = SecondsSinceEpoch t"
proof -
  let ?days = "foldl (\<lambda>days year. u64_add days (DaysInYear year)) 0 [kLocalEpochYear..<t_year t]"
  have "(\<lambda>days year. u64_add days (if is_leap_year year then 366 else 365)) = (\<lambda>days year. u64_add days (DaysInYear year))"
    by (intro ext) (simp add: is_leap_year_eq DaysInYear_def)
  then show ?thesis
    unfolding seconds_since_epoch_def SecondsSinceEpoch_def sum_months_table JANUARY_def
    by (cases "sum_table ?days [1..<t_month t]") (simp_all add: Let_def FEBRUARY_def is_leap_year_eq)
qed

lemma seconds_to_rtc_eq: "kLocalEpoch \<le> s \<Longrightarrow> seconds_to_rtc s = SecondsToRtc s"
  by (simp add: seconds_to_rtc_def SecondsToRtc_def Let_def year_loop_c_eq month_loop_c_eq mod_simps split: prod.split)

lemma month_loop_total:
  assumes "e < DaysInYear y"
  shows "\<exists>e' m. month_loop e 1 y = Some (e', m)"
proof -
  obtain m d where "1 \<le> m" "m < 13" "d < days_in_month m y" "e = sum (\<lambda>m. days_in_month m y) {1..<m} + d"
    using part_exists [of 1 13 e "\<lambda>m. days_in_month m y"] assms year_is_its_months [of y] by auto
  then show ?thesis using month_loop_finds [of 1 m d y] by auto
qed

lemma SecondsToRtc_total: "\<exists>t. SecondsToRtc s = Some t"
proof -
  have y: "case year_loop e k of (e', y) \<Rightarrow> e' < DaysInYear y" for e k
  proof (induction e k rule: year_loop.induct)
    case (1 e k)
    then show ?case by (cases "e < DaysInYear k"; subst year_loop.simps) simp_all
  qed
  obtain e k where k: "year_loop (u64_sub s kLocalEpoch div 60 div 60 div 24) kLocalEpochYear = (e, k)" by fastforce
  then obtain e' m where "month_loop e 1 k = Some (e', m)"
    using month_loop_total y [of "u64_sub s kLocalEpoch div 60 div 60 div 24" kLocalEpochYear] unfolding k prod.case by blast
  then show ?thesis unfolding SecondsToRtc_def Let_def k prod.case by (simp del: One_nat_def)
qed

lemma year_2020:
  assumes "valid_time t" "1577836800 \<le> kLocalEpoch + second_number t"
  shows "kDefaultYear \<le> t_year t"
proof (rule ccontr)
  assume "\<not> kDefaultYear \<le> t_year t"
  then have y: "t_year t < 2020" by (simp add: kDefaultYear_def)
  let ?e = "sum (\<lambda>m. days_in_month m (t_year t)) {1..<t_month t} + (t_day t - 1)"
  have v: "valid_date (t_year t) (t_month t) (t_day t)" "t_hours t < 24" "t_minutes t < 60" "t_seconds t < 60"
    using assms(1) by (simp_all add: valid_time_def)
  have e: "?e < DaysInYear (t_year t)" using v(1) by (intro month_days_less) (auto simp: valid_date_def)
  have "sum_list (map DaysInYear [2000..<2020]) = 7305" by code_simp
  then have s: "sum DaysInYear {2000..<2020} = 7305" by (simp only: interv_sum_list_conv_sum_set_nat set_upt)
  have "sum DaysInYear {2000..<t_year t} + DaysInYear (t_year t) = sum DaysInYear {2000..<Suc (t_year t)}"
    using v(1) by (simp add: valid_date_def)
  also have "\<dots> \<le> sum DaysInYear {2000..<2020}" using y by (intro sum_mono2) auto
  finally have "day_number (t_year t) (t_month t) (t_day t) < 7305" using e s by (simp add: day_number_def)
  then have "second_number t < 631152000" using v(2-4) by (simp add: second_number_def)
  then show False using assms(2) by (simp add: kLocalEpoch_def)
qed

section \<open>Times before the local epoch\<close>

text \<open>
  \<open>seconds_to_rtc\<close> subtracts the local epoch in 64 bits without looking. For an earlier time the number of days is
  then close to \<open>2^64\<close> seconds, and the loop over the years, which are 16 bits wide, goes round millions of
  times. The days of all years below a bound in closed form tell where it ends.
\<close>

lemma div_next_multiple: "0 < k \<Longrightarrow> (n + k) div k = (n + (k - 1)) div k + of_bool (k dvd n)" for n k :: nat
  using div_Suc [of "n + (k - 1)" k] by (simp add: dvd_eq_mod_eq_0)

definition days_before :: "nat \<Rightarrow> nat" where
  "days_before y = sum DaysInYear {0..<y}"

lemma leap_days:
  "DaysInYear n + of_bool (100 dvd n) = 365 + of_bool (4 dvd n) + of_bool (400 dvd n)"
proof -
  have "400 dvd n \<Longrightarrow> 100 dvd n" "100 dvd n \<Longrightarrow> 4 dvd n"
    using dvd_trans [of "100 :: nat" 400 n] dvd_trans [of "4 :: nat" 100 n] by simp_all
  then show ?thesis
    unfolding DaysInYear_def IsLeapYear_def mod_eq_0_iff_dvd
    by (cases "400 dvd n"; cases "100 dvd n"; cases "4 dvd n") simp_all
qed

lemma days_before_year:
  "days_before n + (n + 99) div 100 = 365 * n + (n + 3) div 4 + (n + 399) div 400"
proof (induction n)
  case (Suc n)
  have d: "(Suc n + 3) div 4 = (n + 3) div 4 + of_bool (4 dvd n)"
    "(Suc n + 99) div 100 = (n + 99) div 100 + of_bool (100 dvd n)"
    "(Suc n + 399) div 400 = (n + 399) div 400 + of_bool (400 dvd n)"
    using div_next_multiple [of 4 n] div_next_multiple [of 100 n] div_next_multiple [of 400 n] by simp_all
  have "days_before (Suc n) = days_before n + DaysInYear n" unfolding days_before_def by simp
  moreover have "a + y + (c + j) = 365 * Suc n + (b + i) + (f + k)"
    if "a + c = 365 * n + b + f" "y + j = 365 + i + k" for a b c f i j k y :: nat
    using that by simp
  ultimately show ?case unfolding d using Suc.IH leap_days [of n] by metis
qed (simp add: days_before_def)

lemma days_between_years: "k \<le> y \<Longrightarrow> days_before k + sum DaysInYear {k..<y} = days_before y"
  unfolding days_before_def by (rule sum.atLeastLessThan_concat) simp

lemma year_loop_skip:
  "k \<le> y \<Longrightarrow> y < 65536 \<Longrightarrow> year_loop (sum DaysInYear {k..<y} + e) k = year_loop e y"
proof (induction "y - k" arbitrary: k)
  case (Suc d)
  then have k: "k < y" by linarith
  have s: "sum DaysInYear {k..<y} = DaysInYear k + sum DaysInYear {Suc k..<y}"
    using k by (rule sum.atLeast_Suc_lessThan)
  have "year_loop (sum DaysInYear {k..<y} + e) k = year_loop (sum DaysInYear {Suc k..<y} + e) (Suc k)"
    using k Suc.prems(2) by (subst year_loop.simps) (simp add: s)
  also have "\<dots> = year_loop e y" using Suc.hyps(1) [of "Suc k"] Suc.hyps(2) k Suc.prems by simp
  finally show ?case .
qed simp

text \<open>The year after 65535 is 0.\<close>

lemma year_loop_round:
  assumes "k < 65536" "days_before k + d = days_before 65536"
  shows "year_loop (d + e) k = year_loop e 0"
proof -
  have s: "days_before 65536 = days_before 65535 + DaysInYear 65535"
    using days_between_years [of 65535 65536] sum.atLeastLessThan_Suc [of 65535 65535 DaysInYear] by simp
  have "days_before k + sum DaysInYear {k..<65535} = days_before 65535" using assms(1) by (intro days_between_years) simp
  then have d: "d = sum DaysInYear {k..<65535} + DaysInYear 65535" using s assms(2) by linarith
  have "year_loop (sum DaysInYear {k..<65535} + (DaysInYear 65535 + e)) k = year_loop (DaysInYear 65535 + e) 65535"
    using assms(1) by (intro year_loop_skip) simp_all
  also have "\<dots> = year_loop e 0" by (subst year_loop.simps) simp
  finally show ?thesis unfolding d add.assoc .
qed

lemma year_loop_rounds: "year_loop (n * days_before 65536 + e) 0 = year_loop e 0"
proof (induction n)
  case (Suc n)
  have z: "days_before 0 = 0" by (simp add: days_before_def)
  have "year_loop (Suc n * days_before 65536 + e) 0 = year_loop (days_before 65536 + (n * days_before 65536 + e)) 0"
    by (simp add: add.assoc)
  also have "\<dots> = year_loop (n * days_before 65536 + e) 0" by (rule year_loop_round) (simp_all add: z)
  finally show ?case using Suc.IH by simp
qed simp

lemma wrapped_year:
  assumes "213503982323644 \<le> n" "n \<le> 213503982334601"
  shows "\<exists>e y. year_loop n 2000 = (e, y) \<and> e < DaysInYear y \<and> 2099 < y"
proof -
  have d: "days_before 65536 = 23936532" "days_before 2000 = 730485" "days_before 9313 = 3401504" "days_before 9345 = 3413192"
    using days_before_year [of 65536] days_before_year [of 2000] days_before_year [of 9313] days_before_year [of 9345] by simp_all
  define r where "r = n - (23206047 + 8919586 * 23936532)"
  have r: "n = 23206047 + (8919586 * 23936532 + r)" "3401504 \<le> r" "r < 3413192" using assms by (simp_all add: r_def)
  have "year_loop n 2000 = year_loop (8919586 * 23936532 + r) 0" unfolding r(1) by (rule year_loop_round) (simp_all add: d)
  then have l: "year_loop n 2000 = year_loop r 0" using year_loop_rounds [of 8919586 r] unfolding d(1) by simp
  have "r - 3401504 < sum DaysInYear {9313..<9345}" using days_between_years [of 9313 9345] d(3,4) r by linarith
  then obtain y e where y: "9313 \<le> y" "y < 9345" "e < DaysInYear y" "r - 3401504 = sum DaysInYear {9313..<y} + e"
    using part_exists [of 9313 9345 "r - 3401504" DaysInYear] by auto
  have "r = days_before y + e" using days_between_years [OF y(1)] y(4) r(2) d(3) by linarith
  then have "year_loop r 0 = (e, y)" using year_loop_finds [of 0 y e] y(2,3) by (simp add: days_before_def)
  then show ?thesis using l y by auto
qed

lemma seconds_to_rtc_early:
  assumes "s < kLocalEpoch"
  shows "\<exists>t. seconds_to_rtc s = Some t \<and> 2099 < t_year t"
proof -
  let ?n = "u64_sub s kLocalEpoch div 60 div 60 div 24"
  have "u64_sub s kLocalEpoch = W64 - (kLocalEpoch - s)" using assms by (simp add: u64_sub_def W64_def kLocalEpoch_def)
  then have "?n = (W64 - (kLocalEpoch - s)) div 86400" by (simp add: div_mult2_eq [symmetric])
  moreover have "213503982323644 \<le> (W64 - (kLocalEpoch - s)) div 86400"
    "(W64 - (kLocalEpoch - s)) div 86400 \<le> 213503982334601"
    using assms by (simp_all add: W64_def kLocalEpoch_def less_eq_div_iff_mult_less_eq div_le_mono)
  ultimately have "213503982323644 \<le> ?n" "?n \<le> 213503982334601" by simp_all
  then obtain e y where y: "year_loop_c ?n 2000 = (e, y)" "e < DaysInYear y" "2099 < y"
    using wrapped_year year_loop_c_eq by metis
  obtain e' m where "month_loop_c e 1 y = Some (e', m)" using month_loop_total [OF y(2)] month_loop_c_eq by metis
  then show ?thesis using y unfolding seconds_to_rtc_def Let_def kLocalEpochYear_def by (simp del: One_nat_def)
qed

end
