(* ===== verification/Rtc_Drivers.thy ===== *)
theory Rtc_Drivers
  imports Rtc_Library
begin

text \<open>
  The three real-time clock drivers: \<open>pcf8563-rtc.cc\<close> on an I2C bus, \<open>pl031-rtc.cc\<close> on memory-mapped registers and
  \<open>intel-rtc.cc\<close> on I/O ports. The bus, the registers and the ports are not part of the code: the functions that reach them are
  arguments of the drivers, over a state of an arbitrary type.
\<close>

section \<open>The PCF8563 driver\<close>

text \<open>
  \<open>xfer i out n\<close> is \<open>WriteReadSync\<close>: it sends the bytes \<open>out\<close>, receives \<open>n\<close> bytes, and returns a status, the bytes received
  and the new state of the bus. The operations take the caller's buffer, which is left as it is when the transfer fails.
\<close>

type_synonym 'i i2c = "'i \<Rightarrow> nat list \<Rightarrow> nat \<Rightarrow> zx_status \<times> nat list \<times> 'i"

definition pcf8563_rtc_get :: "'i i2c \<Rightarrow> 'i \<Rightarrow> rtc_time \<Rightarrow> zx_status \<times> rtc_time \<times> 'i" where
  "pcf8563_rtc_get xfer ctx rtc =
     (let (err, b, ctx) = xfer ctx [2] 7
      in if err \<noteq> ZX_OK then (err, rtc, ctx)
         else (ZX_OK,
           \<lparr>t_seconds = from_bcd (b ! 0 AND 127), t_minutes = from_bcd (b ! 1 AND 127), t_hours = from_bcd (b ! 2 AND 63),
            t_day = from_bcd (b ! 3 AND 63), t_month = from_bcd (b ! 5 AND 31),
            t_year = (if b ! 5 AND 128 \<noteq> 0 then 2000 else 1900) + from_bcd (b ! 6)\<rparr>, ctx))"

definition pcf8563_rtc_set :: "'i i2c \<Rightarrow> 'i \<Rightarrow> rtc_time \<Rightarrow> (zx_status \<times> 'i) option" where
  "pcf8563_rtc_set xfer ctx rtc =
     (if rtc_is_invalid rtc then Some (ZX_ERR_OUT_OF_RANGE, ctx)
      else
        let century = (if t_year rtc < 2000 then 0 else 128);
            year = (if century \<noteq> 0 then int (t_year rtc) - 2000 else int (t_year rtc) - 1900)
        in if year < 100
           then
             let (err, _, ctx) = xfer ctx
                   [2, to_bcd (t_seconds rtc), to_bcd (t_minutes rtc), to_bcd (t_hours rtc), to_bcd (t_day rtc), 0,
                    century OR to_bcd (t_month rtc), to_bcd (nat (year mod 256))] 0
             in if err \<noteq> ZX_OK then Some (err, ctx) else Some (ZX_OK, ctx)
           else None)"

text \<open>
  The FIDL methods give their reply. \<open>fidl_Get\<close> does not initialise its variable; the argument \<open>garbage\<close> stands for
  arbitrary contents, which the reply holds when the transfer fails. The properties hold for every value of it.
\<close>

definition pcf8563_fidl_Get :: "'i i2c \<Rightarrow> rtc_time \<Rightarrow> 'i \<Rightarrow> rtc_time \<times> 'i" where
  "pcf8563_fidl_Get xfer garbage ctx = (let (_, rtc, ctx) = pcf8563_rtc_get xfer ctx garbage in (rtc, ctx))"

definition pcf8563_fidl_Set :: "'i i2c \<Rightarrow> 'i \<Rightarrow> rtc_time \<Rightarrow> (zx_status \<times> 'i) option" where
  "pcf8563_fidl_Set xfer ctx rtc = pcf8563_rtc_set xfer ctx rtc"

text \<open>
  \<open>pcf8563_bind\<close>: the inputs are whether the context was allocated, whether the I2C channel is valid, and what \<open>device_add\<close>
  returned.
\<close>

definition pcf8563_bind ::
  "'i i2c \<Rightarrow> nat \<Rightarrow> bool \<Rightarrow> bool \<Rightarrow> zx_status \<Rightarrow> rtc_time \<Rightarrow> 'i \<Rightarrow> (zx_status \<times> 'i) option" where
  "pcf8563_bind xfer backstop allocated valid added garbage i =
     (if \<not> allocated then Some (ZX_ERR_NO_MEMORY, i)
      else if \<not> valid then Some (ZX_ERR_NO_RESOURCES, i)
      else if added \<noteq> ZX_OK then Some (added, i)
      else do {
        (_, i) \<leftarrow> sanitize_rtc (pcf8563_rtc_get xfer) (pcf8563_rtc_set xfer) backstop i garbage;
        Some (ZX_OK, i) })"

section \<open>The PL031 driver\<close>

text \<open>\<open>read_dr\<close> reads the data register and \<open>write_lr\<close> writes the load register.\<close>

definition pl031_SetRtc :: "('m \<Rightarrow> nat \<Rightarrow> 'm) \<Rightarrow> 'm \<Rightarrow> rtc_time \<Rightarrow> (zx_status \<times> 'm) option" where
  "pl031_SetRtc write_lr m rtc = do {
     valid \<leftarrow> IsRtcValid rtc;
     if \<not> valid then Some (ZX_ERR_OUT_OF_RANGE, m)
     else do {
       s \<leftarrow> SecondsSinceEpoch rtc;
       Some (ZX_OK, write_lr m (s mod W32)) } }"

definition pl031_Get :: "('m \<Rightarrow> nat) \<Rightarrow> 'm \<Rightarrow> rtc_time option" where
  "pl031_Get read_dr m = SecondsToRtc (read_dr m)"

definition pl031_Set :: "('m \<Rightarrow> nat \<Rightarrow> 'm) \<Rightarrow> 'm \<Rightarrow> rtc_time \<Rightarrow> (zx_status \<times> 'm) option" where
  "pl031_Set write_lr m rtc = pl031_SetRtc write_lr m rtc"

text \<open>
  \<open>Pl031::Bind\<close>: the inputs are whether the platform device is valid, the registers or why they were not mapped, and what
  \<open>DdkAdd\<close> returned. The result is the status and the registers, if they were mapped.
\<close>

definition pl031_Bind ::
  "('m \<Rightarrow> nat) \<Rightarrow> ('m \<Rightarrow> nat \<Rightarrow> 'm) \<Rightarrow> nat \<Rightarrow> bool \<Rightarrow> zx_status + 'm \<Rightarrow> zx_status \<Rightarrow> (zx_status \<times> 'm option) option" where
  "pl031_Bind read_dr write_lr backstop valid mapped added =
     (if \<not> valid then Some (ZX_ERR_NO_RESOURCES, None)
      else case mapped of
        Inl err \<Rightarrow> Some (err, None)
      | Inr m \<Rightarrow>
          if added \<noteq> ZX_OK then Some (added, Some m)
          else do {
            rtc \<leftarrow> SecondsToRtc (read_dr m);
            rtc \<leftarrow> SanitizeRtc backstop rtc;
            (status, m) \<leftarrow> pl031_SetRtc write_lr m rtc;
            Some (status, Some m) })"

section \<open>The Intel driver\<close>

subsection \<open>State\<close>

definition kRtcBankSize :: nat where "kRtcBankSize = 128"

definition kRegSeconds :: nat where "kRegSeconds = 0"
definition kRegMinutes :: nat where "kRegMinutes = 2"
definition kRegHours :: nat where "kRegHours = 4"
definition kRegDayOfMonth :: nat where "kRegDayOfMonth = 7"
definition kRegMonth :: nat where "kRegMonth = 8"
definition kRegYear :: nat where "kRegYear = 9"
definition kRegA :: nat where "kRegA = 10"
definition kRegB :: nat where "kRegB = 11"
definition kRegD :: nat where "kRegD = 13"

definition kHourPmBit :: nat where "kHourPmBit = 128"
definition kRegAUpdateInProgressBit :: nat where "kRegAUpdateInProgressBit = 128"
definition kRegBHourFormatBit :: nat where "kRegBHourFormatBit = 2"
definition kRegBDataFormatBit :: nat where "kRegBDataFormatBit = 4"
definition kRegBUpdateCycleInhibitBit :: nat where "kRegBUpdateCycleInhibitBit = 128"
definition kPortCount :: nat where "kPortCount = 2"
definition kNvramStart :: nat where "kNvramStart = kRegD + 1"

definition RtcIndex :: "nat \<Rightarrow> nat" where "RtcIndex bank = bank * 2 mod 65536"
definition RtcData :: "nat \<Rightarrow> nat" where "RtcData bank = (bank * 2 + 1) mod 65536"

text \<open>
  \<open>outp p port value\<close> and \<open>inp p port\<close> are the port instructions and \<open>sleep p\<close> is the passing of the 2 milliseconds for which
  the driver sleeps, over a state \<open>p\<close> of the hardware.
\<close>

record 'p port_ops =
  outp :: "'p \<Rightarrow> nat \<Rightarrow> nat \<Rightarrow> 'p"
  inp :: "'p \<Rightarrow> nat \<Rightarrow> nat \<times> 'p"
  sleep :: "'p \<Rightarrow> 'p"

record 'p RtcDevice =
  ports :: 'p
  port_base :: nat
  bank_count :: nat
  nvram_size :: nat
  is_24_hour :: bool
  is_bcd :: bool

text \<open>The constructor leaves the two mode flags unset; they are arguments here.\<close>

definition RtcDevice_new :: "'p \<Rightarrow> nat \<Rightarrow> nat \<Rightarrow> bool \<Rightarrow> bool \<Rightarrow> 'p RtcDevice" where
  "RtcDevice_new p base port_count f24 fbcd =
     (let banks = (if port_count > 2 then 2 else 1)
      in \<lparr>ports = p, port_base = base, bank_count = banks, nvram_size = kRtcBankSize * banks - (kRegD + 1),
          is_24_hour = f24, is_bcd = fbcd\<rparr>)"

subsection \<open>Registers\<close>

definition dev_outp :: "'p port_ops \<Rightarrow> 'p RtcDevice \<Rightarrow> nat \<Rightarrow> nat \<Rightarrow> 'p RtcDevice" where
  "dev_outp io d port v = d\<lparr>ports := outp io (ports d) ((port_base d + port) mod 65536) (v mod 256)\<rparr>"

definition dev_inp :: "'p port_ops \<Rightarrow> 'p RtcDevice \<Rightarrow> nat \<Rightarrow> nat \<times> 'p RtcDevice" where
  "dev_inp io d port = (let (v, p) = inp io (ports d) ((port_base d + port) mod 65536) in (v, d\<lparr>ports := p\<rparr>))"

definition ReadNvramReg :: "'p port_ops \<Rightarrow> 'p RtcDevice \<Rightarrow> nat \<Rightarrow> nat \<times> 'p RtcDevice" where
  "ReadNvramReg io d offset =
     (let offset = (offset + kNvramStart) mod 65536;
          bank = offset div kRtcBankSize mod 256;
          reg = offset mod kRtcBankSize;
          d = dev_outp io d (RtcIndex bank) reg
      in dev_inp io d (RtcData bank))"

definition WriteNvramReg :: "'p port_ops \<Rightarrow> 'p RtcDevice \<Rightarrow> nat \<Rightarrow> nat \<Rightarrow> 'p RtcDevice" where
  "WriteNvramReg io d offset v =
     (let offset = (offset + kNvramStart) mod 65536;
          bank = offset div kRtcBankSize mod 256;
          reg = offset mod kRtcBankSize;
          d = dev_outp io d (RtcIndex bank) reg
      in dev_outp io d (RtcData bank) v)"

definition ReadRegRaw :: "'p port_ops \<Rightarrow> 'p RtcDevice \<Rightarrow> nat \<Rightarrow> nat \<times> 'p RtcDevice" where
  "ReadRegRaw io d reg = dev_inp io (dev_outp io d (RtcIndex 0) reg) (RtcData 0)"

definition WriteRegRaw :: "'p port_ops \<Rightarrow> 'p RtcDevice \<Rightarrow> nat \<Rightarrow> nat \<Rightarrow> 'p RtcDevice" where
  "WriteRegRaw io d reg v = dev_outp io (dev_outp io d (RtcIndex 0) reg) (RtcData 0) v"

definition ReadReg :: "'p port_ops \<Rightarrow> 'p RtcDevice \<Rightarrow> nat \<Rightarrow> nat \<times> 'p RtcDevice" where
  "ReadReg io d reg = (let (v, d) = ReadRegRaw io d reg in (if is_bcd d then from_bcd v else v, d))"

definition WriteReg :: "'p port_ops \<Rightarrow> 'p RtcDevice \<Rightarrow> nat \<Rightarrow> nat \<Rightarrow> 'p RtcDevice" where
  "WriteReg io d reg v = WriteRegRaw io d reg (if is_bcd d then to_bcd v else v)"

definition ReadHour :: "'p port_ops \<Rightarrow> 'p RtcDevice \<Rightarrow> nat \<times> 'p RtcDevice" where
  "ReadHour io d =
     (let (v, d) = ReadRegRaw io d kRegHours;
          pm = v AND kHourPmBit \<noteq> 0;
          v = v AND 127;
          hour = (if is_bcd d then from_bcd v else v)
      in if is_24_hour d then (hour, d)
         else
           let hour = (if pm then (hour + 12) mod 256 else hour)
           in (if hour = 24 then 12 else if hour = 12 then 0 else hour, d))"

definition WriteHour :: "'p port_ops \<Rightarrow> 'p RtcDevice \<Rightarrow> nat \<Rightarrow> 'p RtcDevice" where
  "WriteHour io d hour =
     (let pm = hour > 11;
          (v, hour) =
            (if \<not> is_24_hour d
             then
               let (v, hour) = (if pm then (kHourPmBit, hour - 12) else (0, hour))
               in (v, if hour = 0 then 12 else hour)
             else (0, hour))
      in WriteRegRaw io d kRegHours (v OR (if is_bcd d then to_bcd hour else hour)))"

definition CheckRtcMode :: "'p port_ops \<Rightarrow> 'p RtcDevice \<Rightarrow> 'p RtcDevice" where
  "CheckRtcMode io d =
     (let (reg_b, d) = ReadRegRaw io d kRegB
      in d\<lparr>is_24_hour := (reg_b AND kRegBHourFormatBit = kRegBHourFormatBit),
           is_bcd := (reg_b AND kRegBDataFormatBit = 0)\<rparr>)"

subsection \<open>Reading and setting the time\<close>

text \<open>The loop of \<open>ReadTime\<close> that waits for the end of an update; \<^term>\<open>None\<close> if it does not end.\<close>

partial_function (option) wait_update :: "'p port_ops \<Rightarrow> 'p RtcDevice \<Rightarrow> 'p RtcDevice option" where
  "wait_update io d =
     (let (v, d) = ReadRegRaw io d kRegA
      in if v AND kRegAUpdateInProgressBit \<noteq> 0 then wait_update io (d\<lparr>ports := sleep io (ports d)\<rparr>) else Some d)"

definition ReadTime :: "'p port_ops \<Rightarrow> 'p RtcDevice \<Rightarrow> (rtc_time \<times> 'p RtcDevice) option" where
  "ReadTime io d = do {
     d \<leftarrow> wait_update io (CheckRtcMode io d);
     let (s, d) = ReadReg io d kRegSeconds;
     let (mi, d) = ReadReg io d kRegMinutes;
     let (h, d) = ReadHour io d;
     let (day, d) = ReadReg io d kRegDayOfMonth;
     let (mo, d) = ReadReg io d kRegMonth;
     let (y, d) = ReadReg io d kRegYear;
     Some (\<lparr>t_seconds = s, t_minutes = mi, t_hours = h, t_day = day, t_month = mo, t_year = y + 2000\<rparr>, d) }"

definition WriteTime :: "'p port_ops \<Rightarrow> 'p RtcDevice \<Rightarrow> rtc_time \<Rightarrow> 'p RtcDevice" where
  "WriteTime io d time =
     (let d = CheckRtcMode io d;
          (v, d) = ReadRegRaw io d kRegB;
          d = WriteRegRaw io d kRegB (v OR kRegBUpdateCycleInhibitBit);
          d = WriteReg io d kRegSeconds (t_seconds time);
          d = WriteReg io d kRegMinutes (t_minutes time);
          d = WriteHour io d (t_hours time);
          d = WriteReg io d kRegDayOfMonth (t_day time);
          d = WriteReg io d kRegMonth (t_month time);
          d = WriteReg io d kRegYear (nat ((int (t_year time) - 2000) mod 256));
          (v, d) = ReadRegRaw io d kRegB
      in WriteRegRaw io d kRegB (v AND 127))"

definition intel_Get :: "'p port_ops \<Rightarrow> 'p RtcDevice \<Rightarrow> (rtc_time \<times> 'p RtcDevice) option" where
  "intel_Get io d = ReadTime io d"

definition intel_Set :: "'p port_ops \<Rightarrow> 'p RtcDevice \<Rightarrow> rtc_time \<Rightarrow> zx_status \<times> 'p RtcDevice" where
  "intel_Set io d rtc = (ZX_OK, WriteTime io d rtc)"

subsection \<open>The user memory\<close>

definition nvram_GetSize :: "'p RtcDevice \<Rightarrow> nat" where
  "nvram_GetSize d = kRtcBankSize * bank_count d - (kRegD + 1)"

text \<open>
  The sum of an offset and a size that does not fit its type counts as too large, as the sum itself would. \<open>nvram_max\<close> is the
  constant \<open>kNvramMax\<close> of the FIDL library, the size of the buffer; writing beyond the buffer is an abort.
\<close>

fun nvram_read_loop :: "'p port_ops \<Rightarrow> nat \<Rightarrow> 'p RtcDevice \<Rightarrow> nat \<Rightarrow> nat list \<Rightarrow> (nat list \<times> 'p RtcDevice) option" where
  "nvram_read_loop io nvram_max d offset [] = Some ([], d)"
| "nvram_read_loop io nvram_max d offset (i # is) =
     (if i < nvram_max
      then do {
        let (v, d) = ReadNvramReg io d ((i + offset) mod 65536);
        (vs, d) \<leftarrow> nvram_read_loop io nvram_max d offset is;
        Some (v # vs, d) }
      else None)"

definition nvram_Read ::
  "'p port_ops \<Rightarrow> nat \<Rightarrow> 'p RtcDevice \<Rightarrow> nat \<Rightarrow> nat \<Rightarrow> (zx_status + nat list \<times> 'p RtcDevice) option" where
  "nvram_Read io nvram_max d offset sz =
     (if offset + sz > nvram_size d then Some (Inl ZX_ERR_OUT_OF_RANGE)
      else do {
        r \<leftarrow> nvram_read_loop io nvram_max d offset [0..<sz];
        Some (Inr r) })"

fun nvram_write_loop :: "'p port_ops \<Rightarrow> 'p RtcDevice \<Rightarrow> nat \<Rightarrow> nat list \<Rightarrow> 'p RtcDevice" where
  "nvram_write_loop io d offset [] = d"
| "nvram_write_loop io d offset (v # vs) = nvram_write_loop io (WriteNvramReg io d (offset mod 65536) v) (offset + 1) vs"

definition nvram_Write :: "'p port_ops \<Rightarrow> 'p RtcDevice \<Rightarrow> nat \<Rightarrow> nat list \<Rightarrow> zx_status + 'p RtcDevice" where
  "nvram_Write io d offset data =
     (if offset + length data > nvram_size d then Inl ZX_ERR_OUT_OF_RANGE
      else Inr (nvram_write_loop io d offset data))"

subsection \<open>Binding\<close>

text \<open>
  \<open>Bind\<close>: the inputs are what the ACPI client, the request for the ports and \<open>get_info\<close> returned (the base and the size of the
  port range), the status of \<open>zx_ioports_request\<close> and the status of \<open>DdkAdd\<close>. The result holds the device, if it was made.
  The handle of the port resource is not part of the model: the code moves it a second time into the device, which then keeps an
  empty handle that nothing uses.
\<close>

definition intel_Bind ::
  "'p port_ops \<Rightarrow> nat \<Rightarrow> 'p \<Rightarrow> bool \<Rightarrow> bool \<Rightarrow> zx_status option \<Rightarrow> zx_status option \<Rightarrow> zx_status + nat \<times> nat \<Rightarrow> zx_status \<Rightarrow> zx_status \<Rightarrow>
   (zx_status \<times> 'p RtcDevice option) option" where
  "intel_Bind io backstop p f24 fbcd client pio info requested added =
     (case client of
        Some err \<Rightarrow> Some (err, None)
      | None \<Rightarrow>
        case pio of
          Some err \<Rightarrow> Some (err, None)
        | None \<Rightarrow>
          case info of
            Inl err \<Rightarrow> Some (err, None)
          | Inr (base, len) \<Rightarrow>
              if base > 65535 then Some (ZX_ERR_BAD_STATE, None)
              else if len < kPortCount then Some (ZX_ERR_BAD_STATE, None)
              else if requested \<noteq> ZX_OK then Some (requested, None)
              else do {
                let rtc = RtcDevice_new p base (len mod 65536) f24 fbcd;
                (time, rtc) \<leftarrow> ReadTime io rtc;
                new_time \<leftarrow> SanitizeRtc backstop time;
                let rtc = WriteTime io rtc new_time;
                Some (added, Some rtc) })"

end
