(* ===== verification/Rtc_Hardware.thy ===== *)
theory Rtc_Hardware
  imports Rtc_Calendar Rtc_Drivers
begin

text \<open>
  What the drivers do when the clock chips behave as their data sheets say. The contracts of the chips are the predicates
  \<open>pcf8563_chip\<close>, \<open>pl031_chip\<close> and \<open>cmos_ports\<close>.
\<close>

section \<open>Binary-coded decimal\<close>

lemma to_bcd_sum: "v < 100 \<Longrightarrow> to_bcd v = 16 * (v div 10) + v mod 10"
proof -
  assume v: "v < 100"
  have "push_bit 4 (v div 10) AND v mod 10 = (0 :: nat)"
  proof (rule bit_eqI)
    fix n
    have "\<not> bit (v mod 10) n" if "4 \<le> n" for n
    proof -
      have "take_bit 4 (v mod 10) = v mod 10" by (simp add: take_bit_eq_mod)
      then show ?thesis using that bit_take_bit_iff [of 4 "v mod 10" n] by simp
    qed
    then show "bit (push_bit 4 (v div 10) AND v mod 10) n = bit 0 n"
      by (auto simp: bit_and_iff bit_push_bit_iff)
  qed
  then have "push_bit 4 (v div 10) OR v mod 10 = push_bit 4 (v div 10) + v mod 10"
    by (simp add: disjunctive_add_eq_or)
  moreover have "v div 10 < 10" using v by simp
  ultimately show ?thesis by (simp add: to_bcd_def push_bit_eq_mult)
qed

lemma and_mask_mod: "b AND 127 = b mod (128 :: nat)" "b AND 63 = b mod (64 :: nat)" "b AND 15 = b mod (16 :: nat)" "b AND 255 = b mod (256 :: nat)"
  "b AND 31 = b mod (32 :: nat)"
  using take_bit_eq_mask [of 7 b] take_bit_eq_mask [of 6 b] take_bit_eq_mask [of 4 b] take_bit_eq_mask [of 8 b]
    take_bit_eq_mask [of 5 b]
  by (simp_all add: mask_eq_exp_minus_1 take_bit_eq_mod)

lemma from_bcd_sum: "a < 10 \<Longrightarrow> b < 10 \<Longrightarrow> from_bcd (16 * a + b) = 10 * a + b"
  by (simp add: from_bcd_def and_mask_mod drop_bit_eq_div)

lemma from_to_bcd: "v < 100 \<Longrightarrow> from_bcd (to_bcd v) = v" and to_bcd_less: "v < 100 \<Longrightarrow> to_bcd v < 256"
  using from_bcd_sum [of "v div 10" "v mod 10"] by (simp_all add: to_bcd_sum)

lemma from_to_bcd_127: "v < 80 \<Longrightarrow> from_bcd (to_bcd v AND 127) = v"
  and from_to_bcd_63: "v < 40 \<Longrightarrow> from_bcd (to_bcd v AND 63) = v"
proof -
  have d: "v < 80 \<Longrightarrow> v div 10 < 8" "v < 40 \<Longrightarrow> v div 10 < 4" "v mod 10 < 10" by simp_all
  then have "v < 80 \<Longrightarrow> to_bcd v < 128" "v < 40 \<Longrightarrow> to_bcd v < 64" using to_bcd_sum [of v] by linarith+
  then show "v < 80 \<Longrightarrow> from_bcd (to_bcd v AND 127) = v" "v < 40 \<Longrightarrow> from_bcd (to_bcd v AND 63) = v" 
   by (simp_all add: and_mask_mod from_to_bcd)
qed

lemma bcd_months:
  "\<forall>v\<in>set [1, 2, 3, 4, 5, 6, 7, 8, 9, 10, 11, 12]. from_bcd (((128 OR to_bcd v) AND 159) AND 31) = v \<and> ((128 OR to_bcd v) AND 159) AND 128 = 128"
  by code_simp

lemma from_to_bcd_month:
  assumes "1 \<le> v" "v \<le> 12"
  shows "from_bcd (((128 OR to_bcd v) AND 159) AND 31) = v" "((128 OR to_bcd v) AND 159) AND 128 = 128"
proof -
  have "v \<in> set [1, 2, 3, 4, 5, 6, 7, 8, 9, 10, 11, 12]" by (cases rule: month_cases [OF assms]) simp_all
  then show "from_bcd (((128 OR to_bcd v) AND 159) AND 31) = v" "((128 OR to_bcd v) AND 159) AND 128 = 128"
    using bcd_months by blast+
qed

lemma rtc_is_valid_iff: "rtc_is_valid t = valid_time t"
proof (cases "2000 \<le> t_year t \<and> t_year t \<le> 2099 \<and> 1 \<le> t_month t \<and> t_month t \<le> 12")
  case True
  then have m: "1 \<le> t_month t" "t_month t \<le> 12" by simp_all
  show ?thesis using True
    by (cases rule: month_cases [OF m])
       (auto simp: rtc_is_valid_def valid_time_def valid_date_def days_in_month_def is_leap_year_def IsLeapYear_def
         kLocalEpochYear_def kMaxYear_def JANUARY_def DECEMBER_def FEBRUARY_def not_less)
next
  case False
  then show ?thesis
    by (auto simp: rtc_is_valid_def valid_time_def valid_date_def kLocalEpochYear_def kMaxYear_def JANUARY_def DECEMBER_def)
qed

lemma valid_timeE:
  assumes "valid_time t"
  obtains "t_seconds t < 60" "t_minutes t < 60" "t_hours t < 24" "1 \<le> t_day t" "t_day t \<le> 31" "1 \<le> t_month t"
    "t_month t \<le> 12" "2000 \<le> t_year t" "t_year t \<le> 2099"
proof -
  have "days_in_month (t_month t) (t_year t) \<le> 31" by (simp add: days_in_month_def)
  moreover have "t_day t \<le> days_in_month (t_month t) (t_year t)" using assms by (simp add: valid_time_def valid_date_def)
  ultimately have "t_day t \<le> 31" by linarith
  with assms show thesis unfolding valid_time_def valid_date_def by (elim conjE) (rule that)
qed

section \<open>PCF8563\<close>

text \<open>
  The chip acknowledges a write of its seven time registers, which start at address 2, and a read of them. Only the bits of a
  mask are implemented; the others read as anything.
\<close>

definition pcf8563_masks :: "nat list" where
  "pcf8563_masks = [127, 127, 63, 63, 7, 159, 255]"

definition pcf8563_chip :: "'i i2c \<Rightarrow> ('i \<Rightarrow> nat list) \<Rightarrow> bool" where
  "pcf8563_chip xfer regs \<longleftrightarrow>
     (\<forall>i bs. length bs = 7 \<longrightarrow>
        (\<exists>r i'. xfer i (2 # bs) 0 = (ZX_OK, r, i') \<and> map2 (AND) (regs i') pcf8563_masks = map2 (AND) bs pcf8563_masks)) \<and>
     (\<forall>i. \<exists>b i'. xfer i [2] 7 = (ZX_OK, b, i') \<and> length b = 7 \<and> (\<forall>x\<in>set b. x < 256) \<and>
        map2 (AND) b pcf8563_masks = map2 (AND) (regs i) pcf8563_masks \<and> regs i' = regs i)"

lemma seven_bytes: "length b = 7 \<Longrightarrow> b = [b ! 0, b ! 1, b ! 2, b ! 3, b ! 4, b ! 5, b ! (6::nat)]"
  by (rule nth_equalityI) (auto simp: less_Suc_eq numeral_eq_Suc)

lemma and_absorb: "b AND (m :: nat) = c \<Longrightarrow> m AND k = k \<Longrightarrow> b AND k = c AND k"
  by (metis and.assoc)

lemma length_masks: "length pcf8563_masks = 7"
  by (simp add: pcf8563_masks_def)

lemma pcf8563_get_masked:
  assumes "pcf8563_chip xfer regs" "map2 (AND) (regs i) pcf8563_masks = [s, mi, h, d, w, mo, y]"
  shows "\<exists>i'. (\<forall>u. pcf8563_rtc_get xfer i u =
      (ZX_OK, \<lparr>t_seconds = from_bcd s, t_minutes = from_bcd mi, t_hours = from_bcd h, t_day = from_bcd d,
        t_month = from_bcd (mo AND 31), t_year = (if mo AND 128 \<noteq> 0 then 2000 else 1900) + from_bcd y\<rparr>, i'))"
proof -
  obtain b i' where x: "xfer i [2] 7 = (ZX_OK, b, i')" "length b = 7" "\<forall>x\<in>set b. x < 256"
    "map2 (AND) b pcf8563_masks = [s, mi, h, d, w, mo, y]"
    using assms unfolding pcf8563_chip_def by metis
  have "map2 (AND) [b ! 0, b ! 1, b ! 2, b ! 3, b ! 4, b ! 5, b ! 6] pcf8563_masks = [s, mi, h, d, w, mo, y]"
    using x(4) seven_bytes [OF x(2)] by simp
  then have m: "b ! 0 AND 127 = s" "b ! 1 AND 127 = mi" "b ! 2 AND 63 = h" "b ! 3 AND 63 = d" "b ! 5 AND 159 = mo"
    "b ! 6 AND 255 = y" by (simp_all add: pcf8563_masks_def)
  have "b ! 6 = y" using m(6) x(2,3) by (simp add: and_mask_mod)
  moreover have "b ! 5 AND 31 = mo AND 31" "b ! 5 AND 128 = mo AND 128" by (rule and_absorb [OF m(5)], simp)+
  ultimately show ?thesis
    unfolding pcf8563_rtc_get_def x(1) by (simp add: m(1-4) del: One_nat_def)
qed

text \<open>Reading does not change what is read.\<close>

lemma pcf8563_get_twice:
  assumes "pcf8563_chip xfer regs"
  obtains t i1 i2 where "\<And>u. pcf8563_rtc_get xfer i u = (ZX_OK, t, i1)" "\<And>u. pcf8563_rtc_get xfer i1 u = (ZX_OK, t, i2)"
proof -
  obtain b i1 where x: "xfer i [2] 7 = (ZX_OK, b, i1)" "length b = 7"
    "map2 (AND) b pcf8563_masks = map2 (AND) (regs i) pcf8563_masks" "regs i1 = regs i"
    using assms unfolding pcf8563_chip_def by metis
  have "length (map2 (AND) (regs i) pcf8563_masks) = 7" using x(2,3) by (metis length_map length_zip length_masks min.idem)
  then obtain s mi h d w mo y where m: "map2 (AND) (regs i) pcf8563_masks = [s, mi, h, d, w, mo, y]" using seven_bytes by blast
  then have m': "map2 (AND) (regs i1) pcf8563_masks = [s, mi, h, d, w, mo, y]" by (simp only: x(4))
  obtain j1 where g: "\<And>u. pcf8563_rtc_get xfer i u =
      (ZX_OK, \<lparr>t_seconds = from_bcd s, t_minutes = from_bcd mi, t_hours = from_bcd h, t_day = from_bcd d,
        t_month = from_bcd (mo AND 31), t_year = (if mo AND 128 \<noteq> 0 then 2000 else 1900) + from_bcd y\<rparr>, j1)"
    using pcf8563_get_masked [OF assms m] by blast
  have "j1 = i1" using g [of undefined] by (simp add: pcf8563_rtc_get_def x(1))
  obtain i2 where g2: "\<And>u. pcf8563_rtc_get xfer i1 u =
      (ZX_OK, \<lparr>t_seconds = from_bcd s, t_minutes = from_bcd mi, t_hours = from_bcd h, t_day = from_bcd d,
        t_month = from_bcd (mo AND 31), t_year = (if mo AND 128 \<noteq> 0 then 2000 else 1900) + from_bcd y\<rparr>, i2)"
    using pcf8563_get_masked [OF assms m'] by blast
  show thesis by (rule that [OF g [unfolded \<open>j1 = i1\<close>] g2])
qed

lemma pcf8563_set_get:
  assumes "pcf8563_chip xfer regs" "valid_time t"
  shows "\<exists>i' i''. pcf8563_rtc_set xfer i t = Some (ZX_OK, i') \<and> (\<forall>u. pcf8563_rtc_get xfer i' u = (ZX_OK, t, i''))"
proof -
  let ?bs = "[to_bcd (t_seconds t), to_bcd (t_minutes t), to_bcd (t_hours t), to_bcd (t_day t), 0,
    128 OR to_bcd (t_month t), to_bcd (t_year t - 2000)]"
  have v: "t_seconds t < 60" "t_minutes t < 60" "t_hours t < 24" "t_day t \<le> 31" "t_month t \<le> 12" "2000 \<le> t_year t"
    "t_year t \<le> 2099" "1 \<le> t_month t" using assms(2) by (auto elim: valid_timeE)
  have "\<forall>bs. length bs = 7 \<longrightarrow>
      (\<exists>r i'. xfer i (2 # bs) 0 = (ZX_OK, r, i') \<and> map2 (AND) (regs i') pcf8563_masks = map2 (AND) bs pcf8563_masks)"
    using assms(1) by (simp add: pcf8563_chip_def)
  from mp [OF spec [OF this, of ?bs]]
  have "\<exists>r i'. xfer i (2 # ?bs) 0 = (ZX_OK, r, i') \<and> map2 (AND) (regs i') pcf8563_masks = map2 (AND) ?bs pcf8563_masks" by simp
  then obtain r i' where w: "xfer i (2 # ?bs) 0 = (ZX_OK, r, i')" "map2 (AND) (regs i') pcf8563_masks = map2 (AND) ?bs pcf8563_masks"
    by (elim exE conjE)
  have "nat ((int (t_year t) - 2000) mod 256) = t_year t - 2000" using v(6,7) by (simp add: nat_mod_distrib nat_diff_distrib)
  then have set: "pcf8563_rtc_set xfer i t = Some (ZX_OK, i')"
    using v(6,7) assms(2) by (simp add: pcf8563_rtc_set_def rtc_is_invalid_def rtc_is_valid_iff w(1))
  have "map2 (AND) (regs i') pcf8563_masks =
      [to_bcd (t_seconds t) AND 127, to_bcd (t_minutes t) AND 127, to_bcd (t_hours t) AND 63, to_bcd (t_day t) AND 63, 0,
       (128 OR to_bcd (t_month t)) AND 159, to_bcd (t_year t - 2000) AND 255]"
    unfolding w(2) by (simp add: pcf8563_masks_def)
  from pcf8563_get_masked [OF assms(1) this] obtain i'' where get: "\<forall>u. pcf8563_rtc_get xfer i' u = (ZX_OK, t, i'')"
    using v by (auto simp: from_to_bcd_127 from_to_bcd_63 from_to_bcd_month and_mask_mod(4) to_bcd_less from_to_bcd)
  show ?thesis by (intro exI conjI; fact set get)
qed

end
