(* ===== verification/Rtc_Ports.thy ===== *)
theory Rtc_Ports
  imports Rtc_Hardware
begin

text \<open>The operations of the Intel driver on ports that behave as the data sheet says.\<close>

section \<open>The contract\<close>

text \<open>
  Each bank has an index port and a data port. A byte written to the index port selects the register that the data port reads
  and writes; \<open>idx p b\<close> is the register selected in bank \<open>b\<close> and \<open>regs p (b, r)\<close> its contents. Register A of bank 0 is not
  written by this contract, and registers C and D are neither read nor written. The time registers change only while the
  driver sleeps.
\<close>

definition cmos_ports :: "nat \<Rightarrow> nat \<Rightarrow> 'p port_ops \<Rightarrow> ('p \<Rightarrow> nat \<Rightarrow> nat) \<Rightarrow> ('p \<Rightarrow> nat \<times> nat \<Rightarrow> nat) \<Rightarrow> bool" where
  "cmos_ports base banks io idx regs \<longleftrightarrow>
     base + 2 * banks \<le> 65536 \<and> (\<forall>p x. regs p x < 256) \<and>
     (\<forall>p b v. b < banks \<longrightarrow> v < 128 \<longrightarrow>
        idx (outp io p (base + 2 * b) v) = (idx p)(b := v) \<and> regs (outp io p (base + 2 * b) v) = regs p) \<and>
     (\<forall>p b v. b < banks \<longrightarrow> v < 256 \<longrightarrow> (b, idx p b) \<notin> {(0, 10), (0, 12), (0, 13)} \<longrightarrow>
        idx (outp io p (base + 2 * b + 1) v) = idx p \<and>
        regs (outp io p (base + 2 * b + 1) v) = (regs p)((b, idx p b) := v)) \<and>
     (\<forall>p b. b < banks \<longrightarrow> (b, idx p b) \<notin> {(0, 12), (0, 13)} \<longrightarrow>
        (\<exists>p'. inp io p (base + 2 * b + 1) = (regs p (b, idx p b), p') \<and> idx p' = idx p \<and> regs p' = regs p))"

lemma cmos_portsD:
  assumes "cmos_ports base banks io idx regs"
  shows "base + 2 * banks \<le> 65536" "regs p x < 256"
    "b < banks \<Longrightarrow> v < 128 \<Longrightarrow>
     idx (outp io p (base + 2 * b) v) = (idx p)(b := v) \<and> regs (outp io p (base + 2 * b) v) = regs p"
    "b < banks \<Longrightarrow> w < 256 \<Longrightarrow> (b, idx p b) \<notin> {(0, 10), (0, 12), (0, 13)} \<Longrightarrow>
     idx (outp io p (base + 2 * b + 1) w) = idx p \<and> regs (outp io p (base + 2 * b + 1) w) = (regs p)((b, idx p b) := w)"
    "b < banks \<Longrightarrow> (b, idx p b) \<notin> {(0, 12), (0, 13)} \<Longrightarrow>
     \<exists>p'. inp io p (base + 2 * b + 1) = (regs p (b, idx p b), p') \<and> idx p' = idx p \<and> regs p' = regs p"
proof -
  note c = assms [unfolded cmos_ports_def]
  note c1 = conjunct2 [OF c] note c2 = conjunct2 [OF c1] note c3 = conjunct2 [OF c2]
  show "base + 2 * banks \<le> 65536" by (rule conjunct1 [OF c])
  show "regs p x < 256" by (rule spec [OF spec [OF conjunct1 [OF c1]]])
  show "b < banks \<Longrightarrow> v < 128 \<Longrightarrow>
     idx (outp io p (base + 2 * b) v) = (idx p)(b := v) \<and> regs (outp io p (base + 2 * b) v) = regs p"
    by (rule mp [OF mp [OF spec [OF spec [OF spec [OF conjunct1 [OF c2]]]]]])
  show "b < banks \<Longrightarrow> w < 256 \<Longrightarrow> (b, idx p b) \<notin> {(0, 10), (0, 12), (0, 13)} \<Longrightarrow>
     idx (outp io p (base + 2 * b + 1) w) = idx p \<and> regs (outp io p (base + 2 * b + 1) w) = (regs p)((b, idx p b) := w)"
    by (rule mp [OF mp [OF mp [OF spec [OF spec [OF spec [OF conjunct1 [OF c3]]]]]]])
  show "b < banks \<Longrightarrow> (b, idx p b) \<notin> {(0, 12), (0, 13)} \<Longrightarrow>
     \<exists>p'. inp io p (base + 2 * b + 1) = (regs p (b, idx p b), p') \<and> idx p' = idx p \<and> regs p' = regs p"
    by (rule mp [OF mp [OF spec [OF spec [OF conjunct2 [OF c3]]]]])
qed

lemmas cmos_byte = cmos_portsD(2)
  and cmos_select = cmos_portsD(3)
  and cmos_write = cmos_portsD(4)
  and cmos_read = cmos_portsD(5)

lemma cmos_range: "cmos_ports base banks io idx regs \<Longrightarrow> b < banks \<Longrightarrow> base + 2 * b + 1 < 65536"
  using cmos_portsD(1) [of base banks io idx regs] by linarith

section \<open>A register of a bank\<close>

text \<open>Both register files are reached in two port operations.\<close>

definition bank_read :: "'p port_ops \<Rightarrow> 'p RtcDevice \<Rightarrow> nat \<Rightarrow> nat \<Rightarrow> nat \<times> 'p RtcDevice" where
  "bank_read io d b r = dev_inp io (dev_outp io d (RtcIndex b) r) (RtcData b)"

definition bank_write :: "'p port_ops \<Rightarrow> 'p RtcDevice \<Rightarrow> nat \<Rightarrow> nat \<Rightarrow> nat \<Rightarrow> 'p RtcDevice" where
  "bank_write io d b r v = dev_outp io (dev_outp io d (RtcIndex b) r) (RtcData b) v"

lemma bank_read_ok:
  assumes c: "cmos_ports (port_base d) banks io idx regs" and b: "b < banks" and r: "r < 128" "(b, r) \<notin> {(0, 12), (0, 13)}"
  shows "\<exists>p. bank_read io d b r = (regs (ports d) (b, r), d\<lparr>ports := p\<rparr>) \<and> regs p = regs (ports d)"
proof -
  note R = cmos_range [OF c b]
  let ?p = "outp io (ports d) (port_base d + 2 * b) r"
  have s: "idx ?p = (idx (ports d))(b := r)" "regs ?p = regs (ports d)" using cmos_select [OF c b r(1)] by simp_all
  obtain p' where i: "inp io ?p (port_base d + 2 * b + 1) = (regs ?p (b, idx ?p b), p')" "regs p' = regs ?p"
    using cmos_read [OF c b, of ?p] r(2) s(1) by auto
  have "bank_read io d b r = (regs (ports d) (b, r), d\<lparr>ports := p'\<rparr>)"
    using R r(1) i(1) s by (simp add: bank_read_def dev_inp_def dev_outp_def RtcIndex_def RtcData_def mult.commute)
  then show ?thesis using i(2) s(2) by auto
qed

lemma bank_write_ok:
  assumes c: "cmos_ports (port_base d) banks io idx regs" and b: "b < banks" and r: "r < 128" "(b, r) \<notin> {(0, 10), (0, 12), (0, 13)}"
    and v: "v < 256"
  shows "\<exists>p. bank_write io d b r v = d\<lparr>ports := p\<rparr> \<and> regs p = (regs (ports d))((b, r) := v)"
proof -
  note R = cmos_range [OF c b]
  let ?p = "outp io (ports d) (port_base d + 2 * b) r"
  have s: "idx ?p = (idx (ports d))(b := r)" "regs ?p = regs (ports d)" using cmos_select [OF c b r(1)] by simp_all
  have w: "regs (outp io ?p (port_base d + 2 * b + 1) v) = (regs ?p)((b, idx ?p b) := v)"
    using cmos_write [OF c b v, of ?p] r(2) s(1) by auto
  have "bank_write io d b r v = d\<lparr>ports := outp io ?p (port_base d + 2 * b + 1) v\<rparr>"
    using R r(1) v by (simp add: bank_write_def dev_outp_def RtcIndex_def RtcData_def mult.commute)
  then show ?thesis using w s by auto
qed

lemma ReadRegRaw_bank: "ReadRegRaw io d r = bank_read io d 0 r"
  by (simp add: ReadRegRaw_def bank_read_def)

lemma WriteRegRaw_bank: "WriteRegRaw io d r v = bank_write io d 0 r v"
  by (simp add: WriteRegRaw_def bank_write_def)

section \<open>The time registers\<close>

lemma ReadReg_ok:
  assumes "cmos_ports (port_base d) banks io idx regs" "0 < banks" "r < 12"
  shows "\<exists>p. ReadReg io d r = (if is_bcd d then from_bcd (regs (ports d) (0, r)) else regs (ports d) (0, r), d\<lparr>ports := p\<rparr>) \<and>
    regs p = regs (ports d)"
  using bank_read_ok [OF assms(1,2), of r] assms(3) by (auto simp: ReadReg_def ReadRegRaw_bank)

lemma WriteReg_ok:
  assumes "cmos_ports (port_base d) banks io idx regs" "0 < banks" "r < 10" "v < 100"
  shows "\<exists>p. WriteReg io d r v = d\<lparr>ports := p\<rparr> \<and> regs p = (regs (ports d))((0, r) := if is_bcd d then to_bcd v else v)"
  using bank_write_ok [OF assms(1,2), of r "if is_bcd d then to_bcd v else v"] assms(3,4) to_bcd_less [of v]
  by (auto simp: WriteReg_def WriteRegRaw_bank)

text \<open>The hour in the format of the registers, and back.\<close>

definition encode_hour :: "bool \<Rightarrow> bool \<Rightarrow> nat \<Rightarrow> nat" where
  "encode_hour f24 bcd h =
     (if f24 then (if bcd then to_bcd h else h)
      else (if h > 11 then 128 else 0) OR
        (let k = (if h mod 12 = 0 then 12 else h mod 12) in if bcd then to_bcd k else k))"

definition decode_hour :: "bool \<Rightarrow> bool \<Rightarrow> nat \<Rightarrow> nat" where
  "decode_hour f24 bcd v =
     (let h = (if bcd then from_bcd (v AND 127) else v AND 127);
          k = (if v AND 128 \<noteq> 0 then (h + 12) mod 256 else h)
      in if f24 then h else if k = 24 then 12 else if k = 12 then 0 else k)"

lemma pm_bit:
  fixes k :: nat
  assumes "k < 128"
  shows "k AND 128 = 0" "(128 OR k) AND 128 \<noteq> 0" "(128 OR k) AND 127 = k" "128 OR k < 256" "k AND 127 = k"
proof -
  have b: "\<not> bit k 7" using assms by (simp add: bit_iff_odd)
  show z: "k AND 128 = 0" using b and_exp_eq_0_iff_not_bit [of k 7] by simp
  show "(128 OR k) AND 128 \<noteq> 0"
    using and_exp_eq_0_iff_not_bit [of "128 OR k" 7] bit_exp_iff [of 7 7, where ?'a = nat] by (simp add: bit_or_iff)
  have s: "128 OR k = 128 + k" using z by (subst disjunctive_add_eq_or) (simp_all add: and.commute)
  show "(128 OR k) AND 127 = k" "128 OR k < 256" "k AND 127 = k" using assms by (simp_all add: s and_mask_mod)
qed

lemma bcd_or_plain:
  assumes "k < 80"
  shows "(if bcd then to_bcd k else k) < 128"
    "(if bcd then from_bcd (if bcd then to_bcd k else k) else (if bcd then to_bcd k else k)) = k"
proof -
  have "k div 10 < 8" "k mod 10 < 10" using assms by simp_all
  then have "to_bcd k < 128" using to_bcd_sum [of k] assms by linarith
  then show "(if bcd then to_bcd k else k) < 128"
    "(if bcd then from_bcd (if bcd then to_bcd k else k) else (if bcd then to_bcd k else k)) = k"
    using assms by (simp_all add: from_to_bcd)
qed

lemma hour_round_trip:
  assumes "h < 24"
  shows "decode_hour f24 bcd (encode_hour f24 bcd h) = h" "encode_hour f24 bcd h < 256"
proof -
  define k where "k = (if h mod 12 = 0 then 12 else h mod 12)"
  define c where "c = (if bcd then to_bcd k else k)"
  define e where "e = (if bcd then to_bcd h else h)"
  have k: "k < 80" "h < 80" using assms unfolding k_def by auto
  have c: "c < 128" "(if bcd then from_bcd c else c) = k" unfolding c_def by (rule bcd_or_plain [OF k(1)])+
  have e: "e < 128" "(if bcd then from_bcd e else e) = h" unfolding e_def by (rule bcd_or_plain [OF k(2)])+
  have enc: "encode_hour f24 bcd h = (if f24 then e else (if 11 < h then 128 else 0) OR c)"
    by (simp only: encode_hour_def Let_def c_def k_def e_def)
  have m: "h mod 12 = (if 11 < h then h - 12 else h)" using assms by (simp add: le_mod_geq)
  have pm: "(if k + 12 = 24 then 12 else if k + 12 = 12 then 0 else k + 12) = h" if "11 < h"
    using that assms m by (auto simp: k_def)
  have am: "(if k = 24 then 12 else if k = 12 then 0 else k) = h" if "\<not> 11 < h"
    using that m by (auto simp: k_def)
  show "encode_hour f24 bcd h < 256" using c(1) e(1) pm_bit(4) [OF c(1)] by (simp add: enc)
  have "decode_hour True bcd e = h" unfolding decode_hour_def Let_def pm_bit(5) [OF e(1)] if_True by (rule e(2))
  moreover have "decode_hour False bcd (128 OR c) = h" if "11 < h"
  proof -
    have "(k + 12) mod 256 = k + 12" using k(1) by simp
    then show ?thesis
      using pm [OF that] pm_bit(2) [OF c(1)] unfolding decode_hour_def Let_def pm_bit(3) [OF c(1)] c(2) by (simp only: simp_thms if_True if_False)
  qed
  moreover have "decode_hour False bcd c = h" if "\<not> 11 < h"
    using am [OF that] unfolding decode_hour_def Let_def pm_bit(1,5) [OF c(1)] c(2) by (simp only: simp_thms if_False)
  ultimately show "decode_hour f24 bcd (encode_hour f24 bcd h) = h" unfolding enc by (cases f24; cases "11 < h") simp_all
qed

lemma ReadHour_ok:
  assumes "cmos_ports (port_base d) banks io idx regs" "0 < banks"
  shows "\<exists>p. ReadHour io d = (decode_hour (is_24_hour d) (is_bcd d) (regs (ports d) (0, kRegHours)), d\<lparr>ports := p\<rparr>) \<and>
    regs p = regs (ports d)"
proof -
  obtain p where "bank_read io d 0 kRegHours = (regs (ports d) (0, kRegHours), d\<lparr>ports := p\<rparr>)" "regs p = regs (ports d)"
    using bank_read_ok [OF assms, of kRegHours] by (auto simp: kRegHours_def)
  then show ?thesis by (intro exI [of _ p]) (simp add: ReadHour_def ReadRegRaw_bank decode_hour_def kHourPmBit_def Let_def)
qed

lemma WriteHour_ok:
  assumes "cmos_ports (port_base d) banks io idx regs" "0 < banks" "h < 24"
  shows "\<exists>p. WriteHour io d h = d\<lparr>ports := p\<rparr> \<and>
    regs p = (regs (ports d))((0, kRegHours) := encode_hour (is_24_hour d) (is_bcd d) h)"
proof -
  have "h mod 12 = (if 11 < h then h - 12 else h)" using assms(3) by (simp add: le_mod_geq)
  then have "WriteHour io d h = bank_write io d 0 kRegHours (encode_hour (is_24_hour d) (is_bcd d) h)"
    by (cases "11 < h"; cases "is_24_hour d")
       (simp_all add: WriteHour_def WriteRegRaw_bank encode_hour_def kHourPmBit_def Let_def)
  then show ?thesis
    using bank_write_ok [OF assms(1,2), of kRegHours] hour_round_trip(2) [OF assms(3)] by (auto simp: kRegHours_def)
qed

text \<open>The mode bits of register B survive setting and clearing the inhibit bit.\<close>

lemma mode_bits:
  assumes "v < 256"
  shows "(v OR 128) mod 256 = v OR 128" "((v OR 128) AND 127) AND 2 = v AND (2 :: nat)" "((v OR 128) AND 127) AND 4 = v AND (4 :: nat)"
    "(v OR 128) AND 127 < 256"
proof -
  have "take_bit 8 (v OR 128) = v OR 128" using assms by (simp add: take_bit_or) (simp add: take_bit_eq_mod)
  then show "(v OR 128) mod 256 = v OR 128" by (simp add: take_bit_eq_mod)
  have "((v OR 128) AND 127) AND k = v AND k" if "127 AND k = k" "128 AND k = 0" for k :: nat
  proof (rule bit_eqI)
    fix n
    have "\<not> (bit (128 :: nat) n \<and> bit k n)" using that(2) bit_and_iff [of 128 k n] by simp
    then show "bit (((v OR 128) AND 127) AND k) n = bit (v AND k) n"
      unfolding and.assoc that(1) by (auto simp: bit_and_iff bit_or_iff)
  qed
  then show "((v OR 128) AND 127) AND 2 = v AND 2" "((v OR 128) AND 127) AND 4 = v AND 4" by simp_all
  show "(v OR 128) AND 127 < 256" by (simp add: and_mask_mod)
qed

lemma CheckRtcMode_ok:
  assumes "cmos_ports (port_base d) banks io idx regs" "0 < banks"
  shows "\<exists>p. CheckRtcMode io d = d\<lparr>ports := p, is_24_hour := (regs (ports d) (0, kRegB) AND 2 = 2),
    is_bcd := (regs (ports d) (0, kRegB) AND 4 = 0)\<rparr> \<and> regs p = regs (ports d)"
proof -
  obtain p where "bank_read io d 0 kRegB = (regs (ports d) (0, kRegB), d\<lparr>ports := p\<rparr>)" "regs p = regs (ports d)"
    using bank_read_ok [OF assms, of kRegB] by (auto simp: kRegB_def)
  then show ?thesis
    by (intro exI [of _ p]) (simp add: CheckRtcMode_def ReadRegRaw_bank kRegBHourFormatBit_def kRegBDataFormatBit_def)
qed

end
