(* ===== verification/Rtc_Intel.thy ===== *)
theory Rtc_Intel
  imports Rtc_Ports
begin

text \<open>
  Reading and writing the time and the user memory through the ports, in terms of the contents of the registers.
\<close>

section \<open>Modes\<close>

text \<open>The hardware state of a device in a given mode.\<close>

definition in_mode :: "'p RtcDevice \<Rightarrow> bool \<Rightarrow> bool \<Rightarrow> 'p \<Rightarrow> 'p RtcDevice" where
  "in_mode d f24 bcd p = d\<lparr>ports := p, is_24_hour := f24, is_bcd := bcd\<rparr>"

lemma in_mode_simps [simp]:
  "port_base (in_mode d f24 bcd p) = port_base d" "ports (in_mode d f24 bcd p) = p" "is_24_hour (in_mode d f24 bcd p) = f24"
  "is_bcd (in_mode d f24 bcd p) = bcd" "(in_mode d f24 bcd p)\<lparr>ports := q\<rparr> = in_mode d f24 bcd q"
  "in_mode (in_mode d f24' bcd' q) f24 bcd p = in_mode d f24 bcd p"
  by (simp_all add: in_mode_def)

definition mode_24 :: "(nat \<times> nat \<Rightarrow> nat) \<Rightarrow> bool" where "mode_24 R \<longleftrightarrow> R (0, 11) AND 2 = 2"

definition mode_bcd :: "(nat \<times> nat \<Rightarrow> nat) \<Rightarrow> bool" where "mode_bcd R \<longleftrightarrow> R (0, 11) AND 4 = 0"

definition updating :: "(nat \<times> nat \<Rightarrow> nat) \<Rightarrow> bool" where "updating R \<longleftrightarrow> R (0, 10) AND 128 \<noteq> 0"

definition decode_byte :: "bool \<Rightarrow> nat \<Rightarrow> nat" where "decode_byte bcd v = (if bcd then from_bcd v else v)"

definition encode_byte :: "bool \<Rightarrow> nat \<Rightarrow> nat" where "encode_byte bcd v = (if bcd then to_bcd v else v)"

definition decode_time :: "bool \<Rightarrow> bool \<Rightarrow> (nat \<times> nat \<Rightarrow> nat) \<Rightarrow> rtc_time" where
  "decode_time f24 bcd R =
     \<lparr>t_seconds = decode_byte bcd (R (0, 0)), t_minutes = decode_byte bcd (R (0, 2)), t_hours = decode_hour f24 bcd (R (0, 4)),
      t_day = decode_byte bcd (R (0, 7)), t_month = decode_byte bcd (R (0, 8)), t_year = decode_byte bcd (R (0, 9)) + 2000\<rparr>"

definition encode_time :: "bool \<Rightarrow> bool \<Rightarrow> rtc_time \<Rightarrow> (nat \<times> nat \<Rightarrow> nat) \<Rightarrow> nat \<times> nat \<Rightarrow> nat" where
  "encode_time f24 bcd t R =
     R((0, 0) := encode_byte bcd (t_seconds t), (0, 2) := encode_byte bcd (t_minutes t), (0, 4) := encode_hour f24 bcd (t_hours t),
       (0, 7) := encode_byte bcd (t_day t), (0, 8) := encode_byte bcd (t_month t), (0, 9) := encode_byte bcd (t_year t - 2000))"

lemma decode_encode_byte: "v < 100 \<Longrightarrow> decode_byte bcd (encode_byte bcd v) = v"
  by (simp add: decode_byte_def encode_byte_def from_to_bcd)

lemma decode_encode_time:
  assumes "valid_time t"
  shows "decode_time f24 bcd (encode_time f24 bcd t R) = t"
  using assms
  by (elim valid_timeE) (simp add: decode_time_def encode_time_def decode_encode_byte hour_round_trip)

section \<open>The time\<close>

lemmas reg_defs = kRegSeconds_def kRegMinutes_def kRegHours_def kRegDayOfMonth_def kRegMonth_def kRegYear_def kRegA_def kRegB_def

lemma read_in_mode:
  assumes "cmos_ports (port_base d) banks io idx regs" "0 < banks"
  shows "r < 12 \<Longrightarrow> \<exists>p'. ReadReg io (in_mode d f24 bcd p) r = (decode_byte bcd (regs p (0, r)), in_mode d f24 bcd p') \<and> regs p' = regs p"
    "\<exists>p'. ReadHour io (in_mode d f24 bcd p) = (decode_hour f24 bcd (regs p (0, 4)), in_mode d f24 bcd p') \<and> regs p' = regs p"
    "r < 12 \<Longrightarrow> \<exists>p'. ReadRegRaw io (in_mode d f24 bcd p) r = (regs p (0, r), in_mode d f24 bcd p') \<and> regs p' = regs p"
  using ReadReg_ok [of "in_mode d f24 bcd p" banks io idx regs r] ReadHour_ok [of "in_mode d f24 bcd p" banks io idx regs]
    bank_read_ok [of "in_mode d f24 bcd p" banks io idx regs 0 r] assms
  by (cases bcd; simp add: decode_byte_def kRegHours_def ReadRegRaw_bank)+

lemma write_in_mode:
  assumes "cmos_ports (port_base d) banks io idx regs" "0 < banks"
  shows "r < 10 \<Longrightarrow> v < 100 \<Longrightarrow>
      \<exists>p'. WriteReg io (in_mode d f24 bcd p) r v = in_mode d f24 bcd p' \<and> regs p' = (regs p)((0, r) := encode_byte bcd v)"
    "v < 24 \<Longrightarrow>
      \<exists>p'. WriteHour io (in_mode d f24 bcd p) v = in_mode d f24 bcd p' \<and> regs p' = (regs p)((0, 4) := encode_hour f24 bcd v)"
    "v < 256 \<Longrightarrow> \<exists>p'. WriteRegRaw io (in_mode d f24 bcd p) 11 v = in_mode d f24 bcd p' \<and> regs p' = (regs p)((0, 11) := v)"
  using WriteReg_ok [of "in_mode d f24 bcd p" banks io idx regs r v] WriteHour_ok [of "in_mode d f24 bcd p" banks io idx regs v]
    bank_write_ok [of "in_mode d f24 bcd p" banks io idx regs 0 11 v] assms
  by (cases bcd; simp add: encode_byte_def kRegHours_def WriteRegRaw_bank)+

lemma CheckRtcMode_mode:
  assumes "cmos_ports (port_base d) banks io idx regs" "0 < banks"
  obtains p where "CheckRtcMode io d = in_mode d (mode_24 (regs (ports d))) (mode_bcd (regs (ports d))) p" "regs p = regs (ports d)"
  using CheckRtcMode_ok [OF assms] by (auto simp: in_mode_def mode_24_def mode_bcd_def kRegB_def)

lemma ReadTime_after_wait:
  assumes c: "cmos_ports (port_base d) banks io idx regs" "0 < banks"
    and w: "wait_update io (CheckRtcMode io d) = Some (in_mode d f24 bcd p)"
  obtains q where "ReadTime io d = Some (decode_time f24 bcd (regs p), in_mode d f24 bcd q)" "regs q = regs p"
proof -
  let ?D = "in_mode d f24 bcd" and ?B = "\<lambda>r. decode_byte bcd (regs p (0, r))"
  obtain p1 where 1: "ReadReg io (?D p) 0 = (?B 0, ?D p1)" "regs p1 = regs p" using read_in_mode(1) [OF c, of 0 f24 bcd p] by auto
  obtain p2 where 2: "ReadReg io (?D p1) 2 = (?B 2, ?D p2)" "regs p2 = regs p" using read_in_mode(1) [OF c, of 2 f24 bcd p1] 1 by auto
  obtain p3 where 3: "ReadHour io (?D p2) = (decode_hour f24 bcd (regs p (0, 4)), ?D p3)" "regs p3 = regs p"
    using read_in_mode(2) [OF c, of f24 bcd p2] 2 by auto
  obtain p4 where 4: "ReadReg io (?D p3) 7 = (?B 7, ?D p4)" "regs p4 = regs p" using read_in_mode(1) [OF c, of 7 f24 bcd p3] 3 by auto
  obtain p5 where 5: "ReadReg io (?D p4) 8 = (?B 8, ?D p5)" "regs p5 = regs p" using read_in_mode(1) [OF c, of 8 f24 bcd p4] 4 by auto
  obtain p6 where 6: "ReadReg io (?D p5) 9 = (?B 9, ?D p6)" "regs p6 = regs p" using read_in_mode(1) [OF c, of 9 f24 bcd p5] 5 by auto
  have "ReadTime io d = Some (decode_time f24 bcd (regs p), ?D p6)"
    unfolding ReadTime_def w reg_defs by (simp add: 1 2 3 4 5 6 decode_time_def)
  then show thesis using 6(2) by (rule that)
qed

lemma wait_update_idle:
  assumes "cmos_ports (port_base d) banks io idx regs" "0 < banks" "\<not> updating (regs p)"
  shows "\<exists>q. wait_update io (in_mode d f24 bcd p) = Some (in_mode d f24 bcd q) \<and> regs q = regs p"
proof -
  obtain q where "ReadRegRaw io (in_mode d f24 bcd p) 10 = (regs p (0, 10), in_mode d f24 bcd q)" "regs q = regs p"
    using read_in_mode(3) [OF assms(1,2), of 10 f24 bcd p] by auto
  then show ?thesis
    using assms(3) by (intro exI [of _ q], subst wait_update.simps)
      (simp add: kRegA_def kRegAUpdateInProgressBit_def updating_def)
qed

text \<open>If an update is over after the driver has slept, waiting ends; the time is read as it then is.\<close>

lemma wait_update_ends:
  assumes "cmos_ports (port_base d) banks io idx regs" "0 < banks" "\<And>p. \<not> updating (regs (sleep io p))"
  shows "\<exists>q. wait_update io (in_mode d f24 bcd p) = Some (in_mode d f24 bcd q) \<and> \<not> updating (regs q) \<and>
    (\<not> updating (regs p) \<longrightarrow> regs q = regs p)"
proof (cases "updating (regs p)")
  case True
  obtain q where q: "ReadRegRaw io (in_mode d f24 bcd p) 10 = (regs p (0, 10), in_mode d f24 bcd q)"
    using read_in_mode(3) [OF assms(1,2), of 10 f24 bcd p] by auto
  have "wait_update io (in_mode d f24 bcd p) = wait_update io (in_mode d f24 bcd (sleep io q))"
    using True by (subst wait_update.simps) (simp add: kRegA_def kRegAUpdateInProgressBit_def updating_def q)
  then show ?thesis using wait_update_idle [OF assms(1,2) assms(3) [of q]] True assms(3) by metis
next
  case False
  then show ?thesis using wait_update_idle [OF assms(1,2) False] by metis
qed

lemma WriteTime_regs:
  assumes c: "cmos_ports (port_base d) banks io idx regs" "0 < banks" and t: "valid_time t"
  obtains q where "WriteTime io d t = in_mode d (mode_24 (regs (ports d))) (mode_bcd (regs (ports d))) q"
    "regs q = (encode_time (mode_24 (regs (ports d))) (mode_bcd (regs (ports d))) t (regs (ports d)))
       ((0, 11) := (regs (ports d) (0, 11) OR 128) AND 127)"
proof -
  let ?R = "regs (ports d)" and ?f = "mode_24 (regs (ports d))" and ?b = "mode_bcd (regs (ports d))"
  let ?D = "in_mode d ?f ?b"
  have v: "t_seconds t < 100" "t_minutes t < 100" "t_hours t < 24" "t_day t < 100" "t_month t < 100" "t_year t - 2000 < 100"
    and y: "nat ((int (t_year t) - 2000) mod 256) = t_year t - 2000"
    using t by (auto elim!: valid_timeE simp: nat_mod_distrib nat_diff_distrib)
  have B: "?R (0, 11) < 256" by (rule cmos_byte [OF c(1)])
  obtain p0 where 0: "CheckRtcMode io d = ?D p0" "regs p0 = ?R" by (rule CheckRtcMode_mode [OF c])
  obtain p1 where 1: "ReadRegRaw io (?D p0) 11 = (?R (0, 11), ?D p1)" "regs p1 = ?R"
    using read_in_mode(3) [OF c, of 11 ?f ?b p0] 0 by auto
  have B': "?R (0, 11) OR 128 < 256" using mode_bits(1) [OF B] by (metis mod_less_divisor zero_less_numeral)
  obtain p2 where 2: "WriteRegRaw io (?D p1) 11 (?R (0, 11) OR 128) = ?D p2" "regs p2 = ?R((0, 11) := ?R (0, 11) OR 128)"
    using write_in_mode(3) [OF c B', of ?f ?b p1] 1 by auto
  obtain p3 where 3: "WriteReg io (?D p2) 0 (t_seconds t) = ?D p3" "regs p3 = (regs p2)((0, 0) := encode_byte ?b (t_seconds t))"
    using write_in_mode(1) [OF c _ v(1), of 0 ?f ?b p2] by auto
  obtain p4 where 4: "WriteReg io (?D p3) 2 (t_minutes t) = ?D p4" "regs p4 = (regs p3)((0, 2) := encode_byte ?b (t_minutes t))"
    using write_in_mode(1) [OF c _ v(2), of 2 ?f ?b p3] by auto
  obtain p5 where 5: "WriteHour io (?D p4) (t_hours t) = ?D p5" "regs p5 = (regs p4)((0, 4) := encode_hour ?f ?b (t_hours t))"
    using write_in_mode(2) [OF c v(3), of ?f ?b p4] by auto
  obtain p6 where 6: "WriteReg io (?D p5) 7 (t_day t) = ?D p6" "regs p6 = (regs p5)((0, 7) := encode_byte ?b (t_day t))"
    using write_in_mode(1) [OF c _ v(4), of 7 ?f ?b p5] by auto
  obtain p7 where 7: "WriteReg io (?D p6) 8 (t_month t) = ?D p7" "regs p7 = (regs p6)((0, 8) := encode_byte ?b (t_month t))"
    using write_in_mode(1) [OF c _ v(5), of 8 ?f ?b p6] by auto
  obtain p8 where 8: "WriteReg io (?D p7) 9 (t_year t - 2000) = ?D p8" "regs p8 = (regs p7)((0, 9) := encode_byte ?b (t_year t - 2000))"
    using write_in_mode(1) [OF c _ v(6), of 9 ?f ?b p7] by auto
  note R = 2(2) 3(2) 4(2) 5(2) 6(2) 7(2) 8(2)
  have "regs p8 (0, 11) = ?R (0, 11) OR 128" by (simp add: R)
  then obtain p9 where 9: "ReadRegRaw io (?D p8) 11 = (?R (0, 11) OR 128, ?D p9)" "regs p9 = regs p8"
    using read_in_mode(3) [OF c, of 11 ?f ?b p8] by auto
  obtain q where q: "WriteRegRaw io (?D p9) 11 ((?R (0, 11) OR 128) AND 127) = ?D q" "regs q = (regs p9)((0, 11) := (?R (0, 11) OR 128) AND 127)"
    using write_in_mode(3) [OF c mode_bits(4) [OF B], of ?f ?b p9] by auto
  show thesis
  proof (rule that)
    show "WriteTime io d t = ?D q"
      by (simp add: WriteTime_def reg_defs kRegBUpdateCycleInhibitBit_def y 0(1) 1(1) 2(1) 3(1) 4(1) 5(1) 6(1) 7(1) 8(1) 9(1) q(1))
    show "regs q = (encode_time ?f ?b t ?R)((0, 11) := (?R (0, 11) OR 128) AND 127)"
      by (rule ext) (simp add: q(2) 9(2) R encode_time_def)
  qed
qed

lemma written_registers:
  fixes R :: "nat \<times> nat \<Rightarrow> nat"
  assumes t: "valid_time t" and B: "R (0, 11) < 256"
    and W: "W = (encode_time (mode_24 R) (mode_bcd R) t R)((0, 11) := (R (0, 11) OR 128) AND 127)"
  shows "mode_24 W = mode_24 R" "mode_bcd W = mode_bcd R" "updating W = updating R"
    "decode_time (mode_24 W) (mode_bcd W) W = t"
    "x \<notin> {(0, 0), (0, 2), (0, 4), (0, 7), (0, 8), (0, 9), (0, 11)} \<Longrightarrow> W x = R x"
proof -
  show m: "mode_24 W = mode_24 R" "mode_bcd W = mode_bcd R"
    unfolding W mode_24_def mode_bcd_def using mode_bits(2,3) [OF B] by (simp_all add: encode_time_def)
  show "updating W = updating R" by (simp add: W updating_def encode_time_def)
  have "decode_time f b W = decode_time f b (encode_time (mode_24 R) (mode_bcd R) t R)" for f b
    by (simp add: W decode_time_def)
  then show "decode_time (mode_24 W) (mode_bcd W) W = t" unfolding m using decode_encode_time [OF t] by simp
  show "x \<notin> {(0, 0), (0, 2), (0, 4), (0, 7), (0, 8), (0, 9), (0, 11)} \<Longrightarrow> W x = R x"
    by (simp add: W encode_time_def)
qed

lemma WriteTime_ok:
  assumes c: "cmos_ports (port_base d) banks io idx regs" "0 < banks" and t: "valid_time t"
  shows "port_base (WriteTime io d t) = port_base d"
    "mode_24 (regs (ports (WriteTime io d t))) = mode_24 (regs (ports d))"
    "mode_bcd (regs (ports (WriteTime io d t))) = mode_bcd (regs (ports d))"
    "updating (regs (ports (WriteTime io d t))) = updating (regs (ports d))"
    "decode_time (mode_24 (regs (ports d))) (mode_bcd (regs (ports d))) (regs (ports (WriteTime io d t))) = t"
    "x \<notin> {(0, 0), (0, 2), (0, 4), (0, 7), (0, 8), (0, 9), (0, 11)} \<Longrightarrow> regs (ports (WriteTime io d t)) x = regs (ports d) x"
proof -
  obtain q where q: "WriteTime io d t = in_mode d (mode_24 (regs (ports d))) (mode_bcd (regs (ports d))) q"
    "regs q = (encode_time (mode_24 (regs (ports d))) (mode_bcd (regs (ports d))) t (regs (ports d)))
       ((0, 11) := (regs (ports d) (0, 11) OR 128) AND 127)"
    by (rule WriteTime_regs [OF c t])
  note w = written_registers [OF t cmos_byte [OF c(1)] q(2)]
  show "port_base (WriteTime io d t) = port_base d"
    "mode_24 (regs (ports (WriteTime io d t))) = mode_24 (regs (ports d))"
    "mode_bcd (regs (ports (WriteTime io d t))) = mode_bcd (regs (ports d))"
    "updating (regs (ports (WriteTime io d t))) = updating (regs (ports d))"
    "decode_time (mode_24 (regs (ports d))) (mode_bcd (regs (ports d))) (regs (ports (WriteTime io d t))) = t"
    using w(1-4) by (simp_all add: q(1))
  show "x \<notin> {(0, 0), (0, 2), (0, 4), (0, 7), (0, 8), (0, 9), (0, 11)} \<Longrightarrow> regs (ports (WriteTime io d t)) x = regs (ports d) x"
    using w(5) [of x] by (simp add: q(1))
qed

lemma ReadTime_idle:
  assumes c: "cmos_ports (port_base d) banks io idx regs" "0 < banks" and u: "\<not> updating (regs (ports d))"
  obtains q where "ReadTime io d = Some (decode_time (mode_24 (regs (ports d))) (mode_bcd (regs (ports d))) (regs (ports d)), q)"
    "port_base q = port_base d" "regs (ports q) = regs (ports d)"
proof -
  let ?f = "mode_24 (regs (ports d))" and ?b = "mode_bcd (regs (ports d))"
  obtain p where p: "CheckRtcMode io d = in_mode d ?f ?b p" "regs p = regs (ports d)" by (rule CheckRtcMode_mode [OF c])
  with u obtain p' where p': "wait_update io (CheckRtcMode io d) = Some (in_mode d ?f ?b p')" "regs p' = regs (ports d)"
    using wait_update_idle [OF c, of p] by auto
  obtain q where "ReadTime io d = Some (decode_time ?f ?b (regs p'), in_mode d ?f ?b q)" "regs q = regs p'"
    by (rule ReadTime_after_wait [OF c p'(1)])
  then show thesis using that [of "in_mode d ?f ?b q"] p'(2) by simp
qed

lemma ReadTime_returns:
  assumes c: "cmos_ports (port_base d) banks io idx regs" "0 < banks" and s: "\<And>p. \<not> updating (regs (sleep io p))"
  obtains t q where "ReadTime io d = Some (t, q)" "port_base q = port_base d" "\<not> updating (regs (ports q))"
proof -
  let ?f = "mode_24 (regs (ports d))" and ?b = "mode_bcd (regs (ports d))"
  obtain p where p: "CheckRtcMode io d = in_mode d ?f ?b p" "regs p = regs (ports d)" by (rule CheckRtcMode_mode [OF c])
  then obtain p' where p': "wait_update io (CheckRtcMode io d) = Some (in_mode d ?f ?b p')" "\<not> updating (regs p')"
    using wait_update_ends [OF c s, of ?f ?b p] by auto
  obtain q where "ReadTime io d = Some (decode_time ?f ?b (regs p'), in_mode d ?f ?b q)" "regs q = regs p'"
    by (rule ReadTime_after_wait [OF c p'(1)])
  then show thesis using that [of _ "in_mode d ?f ?b q"] p'(2) by simp
qed

section \<open>The user memory\<close>

text \<open>The bank and the register of an offset. The first 14 registers of bank 0 are the clock's.\<close>

definition nvram_cell :: "nat \<Rightarrow> nat \<times> nat" where
  "nvram_cell offset = ((offset + 14) div 128, (offset + 14) mod 128)"

lemma nvram_cell_inj: "nvram_cell i = nvram_cell j \<longleftrightarrow> i = j"
proof
  assume "nvram_cell i = nvram_cell j"
  then have "(i + 14) div 128 * 128 + (i + 14) mod 128 = (j + 14) div 128 * 128 + (j + 14) mod 128" by (simp only: nvram_cell_def prod.inject)
  then show "i = j" by (simp only: div_mult_mod_eq add_right_cancel)
qed simp

lemma nvram_cell_not_clock: "r < 14 \<Longrightarrow> nvram_cell i \<noteq> (0, r)"
  by (auto simp: nvram_cell_def div_eq_0_iff)

lemma nvram_reg:
  assumes c: "cmos_ports (port_base d) banks io idx regs" and o: "offset + 14 < 128 * banks" "banks \<le> 2"
  shows "\<exists>p. ReadNvramReg io d offset = (regs (ports d) (nvram_cell offset), d\<lparr>ports := p\<rparr>) \<and> regs p = regs (ports d)"
    "v < 256 \<Longrightarrow> \<exists>p. WriteNvramReg io d offset v = d\<lparr>ports := p\<rparr> \<and> regs p = (regs (ports d))(nvram_cell offset := v)"
proof -
  let ?b = "(offset + 14) div 128" and ?r = "(offset + 14) mod 128"
  have b: "?b < banks" using o(1) by (simp add: less_mult_imp_div_less mult.commute)
  have w: "(offset + kNvramStart) mod 65536 = offset + 14" "?b mod 256 = ?b" "?r < 128"
    using o b by (simp_all add: kNvramStart_def kRegD_def)
  have n: "(?b, ?r) \<notin> {(0, 10), (0, 12), (0, 13)}" using nvram_cell_not_clock [of _ offset] by (auto simp: nvram_cell_def)
  then have n': "(?b, ?r) \<notin> {(0, 12), (0, 13)}" by simp
  have "ReadNvramReg io d offset = bank_read io d ?b ?r" "WriteNvramReg io d offset v = bank_write io d ?b ?r v" for v
    by (simp_all only: ReadNvramReg_def WriteNvramReg_def bank_read_def bank_write_def w(1,2) kRtcBankSize_def Let_def)
  then show "\<exists>p. ReadNvramReg io d offset = (regs (ports d) (nvram_cell offset), d\<lparr>ports := p\<rparr>) \<and> regs p = regs (ports d)"
    "v < 256 \<Longrightarrow> \<exists>p. WriteNvramReg io d offset v = d\<lparr>ports := p\<rparr> \<and> regs p = (regs (ports d))(nvram_cell offset := v)"
    using bank_read_ok [OF c b w(3) n'] bank_write_ok [OF c b w(3) n, of v] by (simp_all only: nvram_cell_def)
qed

lemma nvram_write_loop_ok:
  assumes "cmos_ports (port_base d) banks io idx regs" "banks \<le> 2" "\<forall>v\<in>set vs. v < 256" "offset + length vs + 14 \<le> 128 * banks"
  shows "\<exists>p. nvram_write_loop io d offset vs = d\<lparr>ports := p\<rparr> \<and>
    (\<forall>i<length vs. regs p (nvram_cell (offset + i)) = vs ! i) \<and>
    (\<forall>x. x \<notin> (\<lambda>i. nvram_cell (offset + i)) ` {..<length vs} \<longrightarrow> regs p x = regs (ports d) x)"
  using assms
proof (induction vs arbitrary: d offset)
  case (Cons v vs)
  have "offset mod 65536 = offset" using Cons.prems(2,4) by simp
  then obtain q where q: "WriteNvramReg io d (offset mod 65536) v = d\<lparr>ports := q\<rparr>" "regs q = (regs (ports d))(nvram_cell offset := v)"
    using nvram_reg(2) [OF Cons.prems(1), of offset v] Cons.prems(2-4) by auto
  obtain p where p: "nvram_write_loop io (d\<lparr>ports := q\<rparr>) (offset + 1) vs = d\<lparr>ports := p\<rparr>"
    "\<forall>i<length vs. regs p (nvram_cell (offset + 1 + i)) = vs ! i"
    "\<forall>x. x \<notin> (\<lambda>i. nvram_cell (offset + 1 + i)) ` {..<length vs} \<longrightarrow> regs p x = regs q x"
    using Cons.IH [of "d\<lparr>ports := q\<rparr>" "offset + 1"] Cons.prems by auto
  have "regs p (nvram_cell (offset + i)) = (v # vs) ! i" if "i < length (v # vs)" for i
  proof (cases i)
    case 0
    have "nvram_cell offset \<notin> (\<lambda>i. nvram_cell (offset + 1 + i)) ` {..<length vs}" by (auto simp: nvram_cell_inj)
    then have "regs p (nvram_cell offset) = regs q (nvram_cell offset)" using p(3) by blast
    then show ?thesis using q(2) 0 by simp
  next
    case (Suc j)
    then show ?thesis using p(2) that by simp
  qed
  moreover have "regs p x = regs (ports d) x" if x: "x \<notin> (\<lambda>i. nvram_cell (offset + i)) ` {..<length (v # vs)}" for x
  proof -
    have "x \<notin> (\<lambda>i. nvram_cell (offset + 1 + i)) ` {..<length vs}"
    proof
      assume "x \<in> (\<lambda>i. nvram_cell (offset + 1 + i)) ` {..<length vs}"
      then obtain i where "i < length vs" "x = nvram_cell (offset + Suc i)" by auto
      then show False using x imageI [of "Suc i" "{..<length (v # vs)}" "\<lambda>i. nvram_cell (offset + i)"] by simp
    qed
    then have "regs p x = regs q x" using p(3) by blast
    moreover have "x \<noteq> nvram_cell offset" using x by (force simp: image_iff)
    ultimately show ?thesis using q(2) by simp
  qed
  ultimately show ?case using p(1) q(1) by (intro exI [of _ p]) simp
next
  case Nil
  show ?case by (intro exI [of _ "ports d"]) simp
qed

lemma nvram_read_loop_ok:
  assumes "cmos_ports (port_base d) banks io idx regs" "banks \<le> 2" "\<forall>i\<in>set is. i < nvram_max \<and> i + offset + 14 < 128 * banks"
  shows "\<exists>p. nvram_read_loop io nvram_max d offset is = Some (map (\<lambda>i. regs (ports d) (nvram_cell (i + offset))) is, d\<lparr>ports := p\<rparr>) \<and>
    regs p = regs (ports d)"
  using assms
proof (induction "is" arbitrary: d)
  case (Cons i "is")
  have i: "i < nvram_max" "i + offset + 14 < 128 * banks" "(i + offset) mod 65536 = i + offset" using Cons.prems(2,3) by auto
  obtain q where q: "ReadNvramReg io d (i + offset) = (regs (ports d) (nvram_cell (i + offset)), d\<lparr>ports := q\<rparr>)" "regs q = regs (ports d)"
    using nvram_reg(1) [OF Cons.prems(1) i(2) Cons.prems(2)] by blast
  obtain p where "nvram_read_loop io nvram_max (d\<lparr>ports := q\<rparr>) offset is =
      Some (map (\<lambda>i. regs (ports d) (nvram_cell (i + offset))) is, d\<lparr>ports := p\<rparr>)" "regs p = regs (ports d)"
    using Cons.IH [of "d\<lparr>ports := q\<rparr>"] Cons.prems q(2) by auto
  then show ?case using i q(1) by (intro exI [of _ p]) simp
next
  case Nil
  show ?case by (intro exI [of _ "ports d"]) simp
qed

end
