(* ===== verification/Rtc_Correct.thy ===== *)
theory Rtc_Correct
  imports Rtc_Intel
begin

text \<open>
  The properties of the real-time clocks: conversion between times and seconds, sanitizing, agreement of the two libraries, and
  what a client of each driver reads after a time was set or the driver was bound.
\<close>

section \<open>Concrete hardware\<close>

text \<open>Two examples of hardware that meet the contracts: a PCF8563 and a CMOS clock with one or two banks at port 112.\<close>

definition ex_i2c_regs :: "nat list \<Rightarrow> nat list" where
  "ex_i2c_regs i = map (\<lambda>x. x mod 256) (take 7 (i @ replicate 7 0))"

definition ex_i2c :: "nat list i2c" where
  "ex_i2c i bytes n = (if n = 7 then (ZX_OK, ex_i2c_regs i, i) else (ZX_OK, [], tl bytes))"

lemma ex_i2c_chip: "pcf8563_chip ex_i2c ex_i2c_regs"
proof -
  have "map2 (AND) (ex_i2c_regs bs) pcf8563_masks = map2 (AND) bs pcf8563_masks" if "length bs = 7" for bs
  proof -
    have "(b mod 256) AND m = b AND m" if "255 AND m = m" for b m :: nat
      using that and.assoc [of b 255 m] by (simp add: and_mask_mod(4))
    then show ?thesis unfolding ex_i2c_regs_def
      by (subst (1 2) seven_bytes [OF that]) (simp add: pcf8563_masks_def)
  qed
  then show ?thesis unfolding pcf8563_chip_def by (auto simp: ex_i2c_def ex_i2c_regs_def)
qed

type_synonym ex_state = "(nat \<Rightarrow> nat) \<times> (nat \<times> nat \<Rightarrow> nat)"

definition ex_ports :: "ex_state port_ops" where
  "ex_ports =
     \<lparr>outp = (\<lambda>p port v. let b = (port - 112) div 2 in
        if port mod 2 = 0 then ((fst p)(b := v), snd p) else (fst p, (snd p)((b, fst p b) := v))),
      inp = (\<lambda>p port. let b = (port - 112) div 2 in (snd p (b, fst p b) mod 256, p)),
      sleep = (\<lambda>p. (fst p, (snd p)((0, 10) := 0)))\<rparr>"

definition ex_idx :: "ex_state \<Rightarrow> nat \<Rightarrow> nat" where "ex_idx p = fst p"

definition ex_regs :: "ex_state \<Rightarrow> nat \<times> nat \<Rightarrow> nat" where "ex_regs p x = snd p x mod 256"

lemma ex_ports_cmos: "banks \<le> 2 \<Longrightarrow> cmos_ports 112 banks ex_ports ex_idx ex_regs"
  unfolding cmos_ports_def by (auto simp: ex_ports_def ex_idx_def ex_regs_def Let_def fun_eq_iff)

lemma ex_sleep: "\<not> updating (ex_regs (sleep ex_ports p))"
  by (simp add: updating_def ex_regs_def ex_ports_def)

definition ex_rtc :: "nat \<Rightarrow> ex_state RtcDevice" where
  "ex_rtc banks = RtcDevice_new (\<lambda>_. 0, \<lambda>_. 0) 112 (2 * banks) False False"

definition ex_time :: rtc_time where
  "ex_time = \<lparr>t_seconds = 59, t_minutes = 59, t_hours = 23, t_day = 29, t_month = 2, t_year = 2024\<rparr>"

lemma ex_time_valid: "IsRtcValid ex_time = Some True"
  by code_simp

section \<open>The library\<close>

text \<open>
  C32: Between the years 2000 and 2099 the conversions of the library are inverse to each other. The seconds of a valid time
  lie from 946684800 (the start of 2000) up to 4102444800 (the start of 2100), and converting them back gives the time; every
  number of seconds in this range converts to a valid time whose seconds it is.
\<close>

theorem rtc_seconds_roundtrip:
  "(IsRtcValid t = Some True \<longrightarrow>
      (\<exists>s. SecondsSinceEpoch t = Some s \<and> 946684800 \<le> s \<and> s < 4102444800 \<and> SecondsToRtc s = Some t)) \<and>
   (946684800 \<le> s \<and> s < 4102444800 \<longrightarrow>
      (\<exists>t. SecondsToRtc s = Some t \<and> IsRtcValid t = Some True \<and> SecondsSinceEpoch t = Some s))"
proof (intro conjI impI)
  assume "IsRtcValid t = Some True"
  then have "valid_time t" by (simp add: IsRtcValid_iff)
  then show "\<exists>s. SecondsSinceEpoch t = Some s \<and> 946684800 \<le> s \<and> s < 4102444800 \<and> SecondsToRtc s = Some t"
    using SecondsSinceEpoch_valid SecondsToRtc_second_number second_number_less
    by (intro exI [of _ "kLocalEpoch + second_number t"]) (simp add: kLocalEpoch_def)
next
  assume "946684800 \<le> s \<and> s < 4102444800"
  then show "\<exists>t. SecondsToRtc s = Some t \<and> IsRtcValid t = Some True \<and> SecondsSinceEpoch t = Some s"
    using SecondsToRtc_valid [of s] SecondsSinceEpoch_valid by (metis IsRtcValid_iff kLocalEpoch_def)
qed

theorem rtc_seconds_roundtrip_witness:
  "(\<exists>s. SecondsSinceEpoch ex_time = Some s \<and> 946684800 \<le> s \<and> s < 4102444800 \<and> SecondsToRtc s = Some ex_time) \<and>
   (\<exists>t. SecondsToRtc 1709251199 = Some t \<and> IsRtcValid t = Some True \<and> SecondsSinceEpoch t = Some 1709251199)"
  using rtc_seconds_roundtrip [of ex_time 1709251199] ex_time_valid by simp

text \<open>
  C33: Sanitizing always returns a well-formed time, not before the backstop, if the backstop lies before the year 2100. A time
  that is valid, in 2020 or later and not before the backstop is returned as it is.
\<close>

theorem SanitizeRtc_well_formed:
  assumes "backstop < 4102444800"
  shows "\<exists>t' s. SanitizeRtc backstop t = Some t' \<and> IsRtcValid t' = Some True \<and> SecondsSinceEpoch t' = Some s \<and> backstop \<le> s \<and>
    (IsRtcValid t = Some True \<and> 2020 \<le> t_year t \<and> (\<exists>s. SecondsSinceEpoch t = Some s \<and> backstop \<le> s) \<longrightarrow> t' = t)"
proof -
  obtain t' where t': "SanitizeRtc backstop t = Some t'" "valid_time t'" "backstop \<le> kLocalEpoch + second_number t'"
    "valid_time t \<and> kDefaultYear \<le> t_year t \<and> backstop \<le> kLocalEpoch + second_number t \<longrightarrow> t' = t"
    by (rule SanitizeRtc_valid [OF assms])
  show ?thesis
    using t' by (intro exI [of _ t'] exI [of _ "kLocalEpoch + second_number t'"])
      (auto simp: IsRtcValid_iff SecondsSinceEpoch_valid kDefaultYear_def)
qed

theorem SanitizeRtc_well_formed_witness:
  "\<exists>t' s. SanitizeRtc 1600000000 kDefaultRtc = Some t' \<and> IsRtcValid t' = Some True \<and> SecondsSinceEpoch t' = Some s \<and> 1600000000 \<le> s"
  using SanitizeRtc_well_formed [of 1600000000 kDefaultRtc] by auto

text \<open>
  C34: The C library and the C++ library agree: they accept the same times as valid, compute the same seconds for every time,
  well-formed or not, and the same time for every number of seconds from the year 2000 on.
\<close>

theorem rtc_libraries_agree:
  "IsRtcValid t = Some (rtc_is_valid t) \<and> SecondsSinceEpoch t = seconds_since_epoch t \<and>
   (946684800 \<le> s \<longrightarrow> SecondsToRtc s = seconds_to_rtc s)"
  using seconds_to_rtc_eq [of s] by (simp add: IsRtcValid_iff rtc_is_valid_iff seconds_since_epoch_eq kLocalEpoch_def)

theorem rtc_libraries_agree_witness:
  "IsRtcValid ex_time = Some (rtc_is_valid ex_time) \<and> SecondsSinceEpoch ex_time = seconds_since_epoch ex_time \<and>
   SecondsToRtc 1709251199 = seconds_to_rtc 1709251199"
  using rtc_libraries_agree [of ex_time 1709251199] by simp

section \<open>The Intel driver\<close>

text \<open>
  C35: A client of the Intel driver that sets a valid time and then reads the clock gets this time back, in each of the four
  modes of the hardware (12 or 24 hours, binary or BCD). Setting the time keeps the mode and every register other than the
  time registers and register B. The clock must not be in the middle of an update.
\<close>

theorem intel_Set_Get:
  assumes "cmos_ports (port_base d) banks io idx regs" "0 < banks" "IsRtcValid t = Some True"
    and "regs (ports d) (0, kRegA) AND kRegAUpdateInProgressBit = 0"
  shows "\<exists>d' d''. intel_Set io d t = (ZX_OK, d') \<and> intel_Get io d' = Some (t, d'') \<and>
    (\<forall>x. x \<notin> {(0, kRegSeconds), (0, kRegMinutes), (0, kRegHours), (0, kRegDayOfMonth), (0, kRegMonth), (0, kRegYear), (0, kRegB)} \<longrightarrow>
       regs (ports d') x = regs (ports d) x)"
proof -
  have t: "valid_time t" using assms(3) by (simp add: IsRtcValid_iff)
  have u: "\<not> updating (regs (ports d))" using assms(4) by (simp add: updating_def kRegA_def kRegAUpdateInProgressBit_def)
  note w = WriteTime_ok [OF assms(1,2) t]
  obtain q where "ReadTime io (WriteTime io d t) = Some (t, q)"
    using ReadTime_idle [of "WriteTime io d t" banks io idx regs] assms(1,2) u unfolding w(1-5) by metis
  then show ?thesis
    unfolding intel_Set_def intel_Get_def reg_defs using w(6) by (intro exI conjI allI impI) (rule refl | assumption)+
qed

theorem intel_Set_Get_witness:
  "\<exists>d' d''. intel_Set ex_ports (ex_rtc 1) ex_time = (ZX_OK, d') \<and> intel_Get ex_ports d' = Some (ex_time, d'')"
proof -
  have "cmos_ports (port_base (ex_rtc 1)) 1 ex_ports ex_idx ex_regs"
    using ex_ports_cmos by (simp add: ex_rtc_def RtcDevice_new_def Let_def)
  moreover have "ex_regs (ports (ex_rtc 1)) (0, kRegA) AND kRegAUpdateInProgressBit = 0"
    by (simp add: ex_rtc_def RtcDevice_new_def ex_regs_def Let_def)
  ultimately show ?thesis using intel_Set_Get [of "ex_rtc 1" 1 ex_ports ex_idx ex_regs ex_time] ex_time_valid by auto
qed

text \<open>
  C36: Binding the Intel driver returns and leaves the clock at a valid time that is not before the backstop, whatever the
  registers held before, if the backstop lies before the year 2100 and an update is over after the 2 milliseconds for which
  the driver sleeps. In particular the wait for the end of an update ends.
\<close>

theorem intel_Bind_sets_valid_time:
  assumes "cmos_ports base 1 io idx regs" "\<forall>p. regs (sleep io p) (0, kRegA) AND kRegAUpdateInProgressBit = 0"
    and "backstop < 4102444800" "2 \<le> len"
  shows "\<exists>d t s d'. intel_Bind io backstop p f24 fbcd None None (Inr (base, len)) ZX_OK added = Some (added, Some d) \<and>
    intel_Get io d = Some (t, d') \<and> IsRtcValid t = Some True \<and> SecondsSinceEpoch t = Some s \<and> backstop \<le> s"
proof -
  let ?d0 = "RtcDevice_new p base (len mod 65536) f24 fbcd"
  have pb: "port_base ?d0 = base" by (simp add: RtcDevice_new_def Let_def)
  have u: "\<not> updating (regs (sleep io p))" for p
    using assms(2) by (simp add: updating_def kRegA_def kRegAUpdateInProgressBit_def)
  have b: "base \<le> 65535" using cmos_portsD(1) [OF assms(1)] by simp
  obtain t d1 where 1: "ReadTime io ?d0 = Some (t, d1)" "port_base d1 = base" "\<not> updating (regs (ports d1))"
    using ReadTime_returns [of ?d0 1 io idx regs] assms(1) u unfolding pb by auto
  obtain t' where t': "SanitizeRtc backstop t = Some t'" "valid_time t'" "backstop \<le> kLocalEpoch + second_number t'"
    using SanitizeRtc_valid [OF assms(3)] by blast
  have c: "cmos_ports (port_base d1) 1 io idx regs" using assms(1) 1(2) by simp
  note w = WriteTime_ok [OF c zero_less_one t'(2)]
  obtain q where q: "ReadTime io (WriteTime io d1 t') = Some (t', q)"
    using ReadTime_idle [of "WriteTime io d1 t'" 1 io idx regs] c 1(3) unfolding w(1-5) by (metis zero_less_one)
  show ?thesis
    using 1(1) b assms(4) t'
    by (intro exI [of _ "WriteTime io d1 t'"] exI [of _ t'] exI [of _ "kLocalEpoch + second_number t'"] exI [of _ q])
      (simp add: intel_Bind_def intel_Get_def kPortCount_def q IsRtcValid_iff SecondsSinceEpoch_valid)
qed

theorem intel_Bind_sets_valid_time_witness:
  "\<exists>d t s d'. intel_Bind ex_ports 1600000000 (\<lambda>_. 0, \<lambda>_. 255) False False None None (Inr (112, 2)) ZX_OK ZX_OK = Some (ZX_OK, Some d) \<and>
    intel_Get ex_ports d = Some (t, d') \<and> IsRtcValid t = Some True \<and> SecondsSinceEpoch t = Some s \<and> 1600000000 \<le> s"
proof -
  have "\<forall>p. ex_regs (sleep ex_ports p) (0, kRegA) AND kRegAUpdateInProgressBit = 0"
    using ex_sleep by (simp add: updating_def kRegA_def kRegAUpdateInProgressBit_def)
  then show ?thesis
    using intel_Bind_sets_valid_time [of 112 ex_ports ex_idx ex_regs 1600000000 2 "(\<lambda>_. 0, \<lambda>_. 255)" False False ZX_OK] ex_ports_cmos [of 1]
    by simp
qed

text \<open>
  C37: What a client writes into the user memory of the Intel clock it reads back, in one or two banks. Writing changes only
  the cells of the request, so no register of the clock, which come first in the numbering over all banks. A request that reaches beyond the memory is refused in both
  directions, with no access to the hardware.
\<close>

theorem nvram_Write_Read:
  assumes "cmos_ports (port_base d) (bank_count d) io idx regs" "bank_count d \<in> {1, 2}"
    and "nvram_size d = nvram_GetSize d" "nvram_size d \<le> nvram_max" "\<forall>v\<in>set data. v < 256"
  shows "if offset + length data > nvram_size d
    then nvram_Write io d offset data = Inl ZX_ERR_OUT_OF_RANGE \<and>
      nvram_Read io nvram_max d offset (length data) = Some (Inl ZX_ERR_OUT_OF_RANGE)
    else \<exists>d' d''. nvram_Write io d offset data = Inr d' \<and>
      nvram_Read io nvram_max d' offset (length data) = Some (Inr (data, d'')) \<and>
      (\<forall>b r. b * kRtcBankSize + r < kNvramStart + offset \<or> kNvramStart + offset + length data \<le> b * kRtcBankSize + r \<longrightarrow>
         regs (ports d') (b, r) = regs (ports d) (b, r))"
proof (cases "offset + length data > nvram_size d")
  case True
  then show ?thesis by (simp add: nvram_Write_def nvram_Read_def)
next
  case False
  have n: "nvram_size d + 14 = 128 * bank_count d" "nvram_size d \<le> nvram_max" "bank_count d \<le> 2"
    using assms(2-4) by (auto simp: nvram_GetSize_def kRtcBankSize_def kRegD_def)
  obtain p where p: "nvram_write_loop io d offset data = d\<lparr>ports := p\<rparr>"
    "\<forall>i<length data. regs p (nvram_cell (offset + i)) = data ! i"
    "\<forall>x. x \<notin> (\<lambda>i. nvram_cell (offset + i)) ` {..<length data} \<longrightarrow> regs p x = regs (ports d) x"
    using nvram_write_loop_ok [OF assms(1) n(3) assms(5), of offset] False n(1) by auto
  obtain q where q: "nvram_read_loop io nvram_max (d\<lparr>ports := p\<rparr>) offset [0..<length data] =
      Some (map (\<lambda>i. regs p (nvram_cell (i + offset))) [0..<length data], q)"
    using nvram_read_loop_ok [of "d\<lparr>ports := p\<rparr>" "bank_count d" io idx regs "[0..<length data]" nvram_max offset] assms(1) n False
    by auto
  have d: "map (\<lambda>i. regs p (nvram_cell (i + offset))) [0..<length data] = data"
    using p(2) by (intro nth_equalityI) (simp_all add: add.commute)
  have "regs p (b, r) = regs (ports d) (b, r)"
    if o: "b * kRtcBankSize + r < kNvramStart + offset \<or> kNvramStart + offset + length data \<le> b * kRtcBankSize + r" for b r
  proof -
    have "(b, r) \<noteq> nvram_cell (offset + i)" if i: "i < length data" for i
    proof
      assume "(b, r) = nvram_cell (offset + i)"
      then have "b = (offset + i + 14) div 128" "r = (offset + i + 14) mod 128" by (simp_all add: nvram_cell_def)
      then have "b * 128 + r = offset + i + 14" by simp
      then show False using i o by (auto simp: kRtcBankSize_def kNvramStart_def kRegD_def)
    qed
    then show ?thesis using p(3) by blast
  qed
  then show ?thesis
    using False p(1) q unfolding d
    by (simp add: nvram_Write_def nvram_Read_def)
qed

theorem nvram_Write_Read_witness:
  "\<exists>d' d''. nvram_Write ex_ports (ex_rtc 2) 112 [7, 8] = Inr d' \<and>
    nvram_Read ex_ports 242 d' 112 2 = Some (Inr ([7, 8], d''))"
proof -
  have d: "port_base (ex_rtc 2) = 112" "bank_count (ex_rtc 2) = 2" "nvram_size (ex_rtc 2) = 242"
    by (simp_all add: ex_rtc_def RtcDevice_new_def kRtcBankSize_def kRegD_def Let_def)
  then show ?thesis
    using nvram_Write_Read [of "ex_rtc 2" ex_ports ex_idx ex_regs 242 "[7, 8]" 112] ex_ports_cmos [of 2]
    by (auto simp: nvram_GetSize_def kRtcBankSize_def kRegD_def numeral_2_eq_2)
qed

section \<open>The PL031 and PCF8563 drivers\<close>

text \<open>
  C38: Binding the PL031 driver succeeds for every value of the clock register and leaves the clock at a valid time that is not
  before the backstop, if the backstop lies before the year 2100. The seconds fit the 32 bits of the register, so the
  narrowing in \<open>SetRtc\<close> loses nothing and a client reads exactly this time. A clock that already was at a time
  of the years 2020 to 2099, not before the backstop, keeps it.
\<close>

theorem pl031_Bind_sets_clock:
  assumes "\<forall>m v. v < W32 \<longrightarrow> read_dr (write_lr m v) = v" "backstop < 4102444800"
  shows "\<exists>m' t s. pl031_Bind read_dr write_lr backstop True (Inr m) ZX_OK = Some (ZX_OK, Some m') \<and>
    pl031_Get read_dr m' = Some t \<and> IsRtcValid t = Some True \<and> SecondsSinceEpoch t = Some s \<and> s < W32 \<and> backstop \<le> s \<and> read_dr m' = s \<and>
    (1577836800 \<le> read_dr m \<and> read_dr m < 4102444800 \<and> backstop \<le> read_dr m \<longrightarrow> s = read_dr m)"
proof -
  obtain t0 where t0: "SecondsToRtc (read_dr m) = Some t0" using SecondsToRtc_total by blast
  obtain t where t: "SanitizeRtc backstop t0 = Some t" "valid_time t" "backstop \<le> kLocalEpoch + second_number t"
    "valid_time t0 \<and> kDefaultYear \<le> t_year t0 \<and> backstop \<le> kLocalEpoch + second_number t0 \<longrightarrow> t = t0"
    by (rule SanitizeRtc_valid [OF assms(2)])
  let ?s = "kLocalEpoch + second_number t"
  have s: "?s < W32" using second_number_less [OF t(2)] by (simp add: kLocalEpoch_def W32_def)
  then have r: "read_dr (write_lr m ?s) = ?s" "?s mod W32 = ?s" using assms(1) by simp_all
  have "?s = read_dr m" if g: "1577836800 \<le> read_dr m" "read_dr m < 4102444800" "backstop \<le> read_dr m"
  proof -
    have "kLocalEpoch \<le> read_dr m" using g(1) by (simp add: kLocalEpoch_def)
    then have e: "valid_time t0" "kLocalEpoch + second_number t0 = read_dr m" using SecondsToRtc_valid g(2) t0 by (metis option.inject)+
    then show ?thesis using t(4) g year_2020 [OF e(1)] by simp
  qed
  then show ?thesis
    using s t(2,3) SecondsToRtc_second_number [OF t(2)]
    by (intro exI [of _ "write_lr m ?s"] exI [of _ t] exI [of _ ?s])
      (auto simp: pl031_Bind_def pl031_SetRtc_def pl031_Get_def t0 t(1) IsRtcValid_iff SecondsSinceEpoch_valid r)
qed

theorem pl031_Bind_sets_clock_witness:
  "\<exists>m' t s. pl031_Bind (\<lambda>m. m) (\<lambda>m v. v) 1600000000 True (Inr (5 :: nat)) ZX_OK = Some (ZX_OK, Some m') \<and>
    pl031_Get (\<lambda>m. m) m' = Some t \<and> IsRtcValid t = Some True \<and> SecondsSinceEpoch t = Some s \<and> s < W32 \<and> 1600000000 \<le> s \<and> m' = s"
  using pl031_Bind_sets_clock [of "\<lambda>m. m" "\<lambda>m v. v" 1600000000 5] by auto

text \<open>
  C39: If there is no backstop or it lies in the years 2000 to 2099, binding the PCF8563 driver leaves the chip at a
  valid time, whatever its registers held before, and a client then reads a valid time that is not before the backstop.
\<close>

theorem pcf8563_bind_sets_valid_time:
  assumes "pcf8563_chip xfer regs" "backstop = 0 \<or> 946684800 \<le> backstop \<and> backstop < 4102444800"
  shows "\<exists>i' t i'' s. pcf8563_bind xfer backstop True True ZX_OK garbage i = Some (ZX_OK, i') \<and>
    pcf8563_fidl_Get xfer garbage' i' = (t, i'') \<and> rtc_is_valid t \<and> seconds_since_epoch t = Some s \<and> backstop \<le> s"
proof -
  obtain t0 i1 i2 where g: "\<And>u. pcf8563_rtc_get xfer i u = (ZX_OK, t0, i1)" "\<And>u. pcf8563_rtc_get xfer i1 u = (ZX_OK, t0, i2)"
    using pcf8563_get_twice [OF assms(1), of i] by metis
  let ?default = "\<lparr>t_seconds = 0, t_minutes = 0, t_hours = 0, t_day = 1, t_month = JANUARY, t_year = default_year\<rparr>"
  show ?thesis
  proof (cases "valid_time t0 \<and> default_year \<le> t_year t0 \<and> backstop \<le> kLocalEpoch + second_number t0")
    case True
    then have "pcf8563_bind xfer backstop True True ZX_OK garbage i = Some (ZX_OK, i1)"
      by (simp add: pcf8563_bind_def sanitize_rtc_def g(1) rtc_is_invalid_def rtc_is_valid_iff seconds_since_epoch_eq SecondsSinceEpoch_valid)
    then show ?thesis
      using True by (auto simp: pcf8563_fidl_Get_def g(2) rtc_is_valid_iff seconds_since_epoch_eq SecondsSinceEpoch_valid)
  next
    case False
    have "\<exists>b. (if backstop > 0 then seconds_to_rtc backstop else Some ?default) = Some b \<and> valid_time b \<and> backstop \<le> kLocalEpoch + second_number b"
    proof (cases "backstop = 0")
      case True
      then show ?thesis by (simp add: valid_time_def valid_date_def JANUARY_def default_year_def days_in_month_def)
    next
      case nz: False
      then have "kLocalEpoch \<le> backstop" "backstop < 4102444800" using assms(2) by (simp_all add: kLocalEpoch_def)
      then show ?thesis using nz SecondsToRtc_valid [of backstop] seconds_to_rtc_eq [of backstop] by (metis neq0_conv order_refl)
    qed
    then obtain b where b: "(if backstop > 0 then seconds_to_rtc backstop else Some ?default) = Some b" "valid_time b"
      "backstop \<le> kLocalEpoch + second_number b" by blast
    obtain i' i'' where s: "pcf8563_rtc_set xfer i1 b = Some (ZX_OK, i')" "\<And>u. pcf8563_rtc_get xfer i' u = (ZX_OK, b, i'')"
      using pcf8563_set_get [OF assms(1) b(2), of i1] by blast
    have bad: "(if rtc_is_invalid t0 \<or> t_year t0 < default_year then Some True
        else seconds_since_epoch t0 \<bind> (\<lambda>s. Some (s < backstop))) = Some True"
      using False by (cases "valid_time t0")
        (auto simp: rtc_is_invalid_def rtc_is_valid_iff seconds_since_epoch_eq SecondsSinceEpoch_valid)
    have "sanitize_rtc (pcf8563_rtc_get xfer) (pcf8563_rtc_set xfer) backstop i garbage = Some (b, i')"
      unfolding sanitize_rtc_def Let_def g(1) prod.case bad b(1) bind.bind_lunit using s(1) by simp
    then have "pcf8563_bind xfer backstop True True ZX_OK garbage i = Some (ZX_OK, i')" by (simp add: pcf8563_bind_def)
    then show ?thesis
      using b(2,3) by (auto simp: pcf8563_fidl_Get_def s(2) rtc_is_valid_iff seconds_since_epoch_eq SecondsSinceEpoch_valid)
  qed
qed

theorem pcf8563_bind_sets_valid_time_witness:
  "\<exists>i' t i'' s. pcf8563_bind ex_i2c 1600000000 True True ZX_OK ex_time [255, 255] = Some (ZX_OK, i') \<and>
    pcf8563_fidl_Get ex_i2c kDefaultRtc i' = (t, i'') \<and> rtc_is_valid t \<and> seconds_since_epoch t = Some s \<and> 1600000000 \<le> s"
  using pcf8563_bind_sets_valid_time [OF ex_i2c_chip, of 1600000000 ex_time "[255, 255]" kDefaultRtc] by simp

text \<open>
  An invalid time is refused by the PL031 and the PCF8563 driver, which leave the hardware as it is. The Intel driver
  does not check: it reports success for every time.
\<close>

theorem invalid_time_refused:
  assumes "IsRtcValid t = Some False"
  shows "pl031_Set write_lr m t = Some (ZX_ERR_OUT_OF_RANGE, m) \<and> pcf8563_fidl_Set xfer i t = Some (ZX_ERR_OUT_OF_RANGE, i) \<and>
    fst (intel_Set io d t) = ZX_OK"
  using assms
  by (simp add: pl031_Set_def pl031_SetRtc_def pcf8563_fidl_Set_def pcf8563_rtc_set_def intel_Set_def IsRtcValid_iff
      rtc_is_invalid_def rtc_is_valid_iff)

theorem invalid_time_refused_witness:
  "pl031_Set (\<lambda>m v. v) (0 :: nat) (ex_time\<lparr>t_year := 2023\<rparr>) = Some (ZX_ERR_OUT_OF_RANGE, 0) \<and>
   pcf8563_fidl_Set ex_i2c [] (ex_time\<lparr>t_year := 2023\<rparr>) = Some (ZX_ERR_OUT_OF_RANGE, []) \<and>
   fst (intel_Set ex_ports (ex_rtc 1) (ex_time\<lparr>t_year := 2023\<rparr>)) = ZX_OK"
proof -
  have "IsRtcValid (ex_time\<lparr>t_year := 2023\<rparr>) = Some False" by code_simp
  then show ?thesis by (rule invalid_time_refused)
qed

text \<open>
  C40: A backstop before the year 2000 does nothing on the PCF8563. \<open>seconds_to_rtc\<close> subtracts the local epoch with
  wrap-around and gives a time after 2099, which the driver refuses to set; the library drops the refusal. Binding
  reports success, makes no write to the chip, and a client reads the time that the chip held
  before, valid or not.
\<close>

theorem pcf8563_early_backstop_ignored:
  assumes "pcf8563_chip xfer regs" "0 < backstop" "backstop < 946684800"
  shows "\<exists>b t i' i''. seconds_to_rtc backstop = Some b \<and> \<not> rtc_is_valid b \<and>
    pcf8563_rtc_get xfer i garbage = (ZX_OK, t, i') \<and>
    pcf8563_bind xfer backstop True True ZX_OK garbage i = Some (ZX_OK, i') \<and>
    pcf8563_fidl_Get xfer garbage' i' = (t, i'')"
proof -
  obtain t i1 i2 where g: "\<And>u. pcf8563_rtc_get xfer i u = (ZX_OK, t, i1)" "\<And>u. pcf8563_rtc_get xfer i1 u = (ZX_OK, t, i2)"
    using pcf8563_get_twice [OF assms(1), of i] by metis
  obtain b where b: "seconds_to_rtc backstop = Some b" "2099 < t_year b"
    using seconds_to_rtc_early [of backstop] assms(3) by (auto simp: kLocalEpoch_def)
  then have bad: "\<not> rtc_is_valid b" by (simp add: rtc_is_valid_iff valid_time_def valid_date_def)
  have "seconds_since_epoch t \<bind> (\<lambda>s. Some (s < backstop)) \<noteq> None" if "rtc_is_valid t"
    using that by (simp add: rtc_is_valid_iff seconds_since_epoch_eq SecondsSinceEpoch_valid)
  then have "(if rtc_is_invalid t \<or> t_year t < default_year then Some True
      else seconds_since_epoch t \<bind> (\<lambda>s. Some (s < backstop))) \<noteq> None" unfolding rtc_is_invalid_def by (metis option.distinct(1))
  then obtain x where x: "(if rtc_is_invalid t \<or> t_year t < default_year then Some True
      else seconds_since_epoch t \<bind> (\<lambda>s. Some (s < backstop))) = Some x" by blast
  have "pcf8563_rtc_set xfer i1 b = Some (ZX_ERR_OUT_OF_RANGE, i1)"
    using bad by (simp add: pcf8563_rtc_set_def rtc_is_invalid_def)
  then have "sanitize_rtc (pcf8563_rtc_get xfer) (pcf8563_rtc_set xfer) backstop i garbage = Some (t, i1)"
    using assms(2) unfolding sanitize_rtc_def Let_def g(1) prod.case x bind.bind_lunit by (simp add: b(1))
  then have "pcf8563_bind xfer backstop True True ZX_OK garbage i = Some (ZX_OK, i1)" by (simp add: pcf8563_bind_def)
  then show ?thesis using b(1) bad g by (auto simp: pcf8563_fidl_Get_def)
qed

theorem pcf8563_early_backstop_ignored_witness:
  "\<exists>t i' i''. pcf8563_bind ex_i2c 900000000 True True ZX_OK ex_time [255, 255] = Some (ZX_OK, i') \<and>
    pcf8563_fidl_Get ex_i2c kDefaultRtc i' = (t, i'') \<and> \<not> rtc_is_valid t"
proof -
  have "\<not> rtc_is_valid (fst (snd (pcf8563_rtc_get ex_i2c [255, 255] ex_time)))" by code_simp
  then show ?thesis
    using pcf8563_early_backstop_ignored [OF ex_i2c_chip, of 900000000 "[255, 255]" ex_time kDefaultRtc] by auto
qed

end
