(* ===== verification/Spec2Isabelle.thy ===== *)
theory Spec2Isabelle
  imports Sysmem_Ranges_Correct Sysmem_Settings_Correct Sysmem_Collection_Correct Rtc_Correct
begin

text \<open>
  \<^bold>\<open>Verification of the fuchsia-devices sources.\<close>

  The repository holds device drivers. This development models the parts whose correctness is a matter of algorithms and state
  rather than of registers: the driver of the system memory service \<open>sysmem\<close>
  (\<open>src/src/devices/sysmem/drivers/sysmem\<close>) and the real-time clocks (\<open>src/src/devices/rtc\<close>). In \<open>sysmem\<close> participants share buffers through \<open>LogicalBufferCollection\<close>: each says
  what it needs, the constraints are combined, settings are computed, buffers are allocated and handles are sent. \<open>ProtectedRanges\<close>
  keeps the memory of secure buffers under the protection of a fixed number of hardware ranges.

  \<^bold>\<open>Conventions.\<close> Unsigned integers are natural numbers with the wrap-around written out (\<open>u64_add\<close> and the like in
  \<open>Dev_Prelude\<close>); bit fields are words. An assertion that fails, a panic, following a pointer to a deleted object and a loop that does
  not end are \<^term>\<open>None\<close>; errors that the code returns are values. What the language leaves undefined is not given a meaning: a read outside an
  array is \<^term>\<open>None\<close> too, no property rests on it, and the contents of a variable that is not initialised are an argument. Code that is not in the repository (FIDL, the image
  format library, the kernel, memory) is a record of functions that the definitions take as an argument, and what is needed of it is a
  hypothesis such as \<open>lib_ok\<close>. Logging, tracing, inspect data and metrics are left out.

  \<^bold>\<open>Protected ranges\<close> (\<open>protected_ranges.cc\<close>, \<open>protected_ranges.h\<close>).
  \<^item> \<open>Sysmem_Range\<close>, \<open>Sysmem_Range_Sets\<close>, \<open>Sysmem_Range_Search\<close>: \<open>Range\<close>, its two orders, the sets
    kept in them and the searches over them.
  \<^item> \<open>Sysmem_Range_Goal\<close>, \<open>Sysmem_Range_Optimal\<close>: the goal ranges and that they are the best possible.
  \<^item> \<open>Sysmem_Range_Hw\<close>, \<open>Sysmem_Protected_Ranges\<close>: the operations on the hardware ranges and the class itself.
  \<^item> \<open>Sysmem_Ranges_Step\<close>, \<open>Sysmem_Ranges_Ops\<close>, \<open>Sysmem_Ranges_Class\<close>: lemmas on one step towards the goal, on the
    operations, and the interface of a client; \<open>Sysmem_Ranges_Examples\<close> and \<open>Sysmem_Ranges_Correct\<close>: examples and properties.
    A history is any sequence of calls a client may make. What holds after a history, and that the calls on the hardware never
    leave a request in force unprotected, is proved for the \<open>settled\<close> ones: after a \<open>DeleteRange\<close> the client steps until it is told that the goal is reached before it
    adds again. Two theorems show what the code does otherwise.

  \<^bold>\<open>Constraints and settings\<close> (\<open>logical_buffer_collection.cc\<close>, \<open>utils.cc\<close>, \<open>usage_pixel_format_cost.cc\<close>).
  \<^item> \<open>Sysmem_Constraints\<close>: the tables, the checks and defaults, the accumulation and \<open>CombineConstraints\<close>.
  \<^item> \<open>Sysmem_Meet\<close>, \<open>Sysmem_Image_Meet\<close>, \<open>Sysmem_Combine\<close>, \<open>Sysmem_Sanitize\<close>: that accumulating is a meet of what
    the constraints admit, and what the checks give.
  \<^item> \<open>Sysmem_Format_Cost\<close>, \<open>Sysmem_Allocation\<close>: the costs of pixel formats and the computation of the settings;
    \<open>Sysmem_Settings_Examples\<close> and \<open>Sysmem_Settings_Correct\<close>: examples and properties, among them that the settings suit
    every participant and that the number of buffers is exactly what they ask for together while it fits 32 bits.

  \<^bold>\<open>Buffer collections\<close> (\<open>node_properties.cc\<close>, \<open>buffer_collection_token.cc\<close>, \<open>buffer_collection.cc\<close>,
  \<open>orphaned_node.cc\<close> and the rest of \<open>logical_buffer_collection.cc\<close>).
  \<^item> \<open>Sysmem_Nodes\<close>: the tree of nodes as a store of objects linked by addresses, the counts, the breadth-first order, where a failure
    stops and what it deletes. \<open>Sysmem_Tree\<close> and \<open>Sysmem_Tree_Invariant\<close> have the lemmas and an interface for invariants of
    links between a node and its parent.
  \<^item> \<open>Sysmem_Collection\<close>, \<open>Sysmem_Logical_Allocation\<close>, \<open>Sysmem_Messages\<close>: the state of a collection, the
    first and the later allocations, every message and every end of a channel, and the states these lead to (\<open>reachable\<close>).
  \<^item> \<open>Sysmem_Collection_Invariant\<close>, \<open>Sysmem_Collection_Safe\<close>, \<open>Sysmem_Collection_Reachable\<close>: that every handler
    keeps the invariant; \<open>Sysmem_Collection_Examples\<close> and \<open>Sysmem_Collection_Correct\<close>: examples and properties.

  \<^bold>\<open>Real-time clocks\<close> (\<open>rtc/lib/rtc\<close>, \<open>pcf8563-rtc.cc\<close>, \<open>pl031-rtc.cc\<close>, \<open>intel-rtc.cc\<close>). The drivers read and set
  a clock chip; a library converts times and replaces a time that makes no sense when a driver is bound.
  \<^item> \<open>Rtc_Library\<close>: both forms of the library. \<open>Rtc_Calendar\<close>: days and seconds before a date, and that the loops of the library
    compute them, also when the years wrap round.
  \<^item> \<open>Rtc_Drivers\<close>: the three drivers over the bus, registers or ports, which are arguments.
  \<^item> \<open>Rtc_Hardware\<close>, \<open>Rtc_Ports\<close>, \<open>Rtc_Intel\<close>: the contracts of the chips and what the drivers do under them;
    \<open>Rtc_Correct\<close>: examples of hardware that meets the contracts, and the properties.

  \<^bold>\<open>Bounds and loops.\<close> Loops over lists are structural recursion. The loops over the node tree and the loop of
  \<open>MaybeAllocate\<close> are \<open>partial_function (option)\<close>; that they end on a well-formed tree is proved. The loops of
  \<open>ProtectedRanges\<close> carry fuel with lemmas that the fuel given is enough. The loops of the calendar have termination proofs;
  the wait of the Intel clock driver is a \<open>partial_function\<close> that ends if an update is over after the sleep.

  \<^bold>\<open>Not modelled.\<close> The rest of the driver (\<open>device.cc\<close>, the allocators over physical memory, \<open>allocator.cc\<close>) and
  the other drivers of the repository are calls into the kernel, device registers, interrupts and DMA, which need a model of hardware
  that the sources do not give. Timeouts, debug output and the tables' memory management are left out of the modelled files.
\<close>

section \<open>From the participants' tables to the buffers\<close>

text \<open>The settings of the buffers as a point of the space that memory constraints describe.\<close>

definition buffer_setting_of :: "memory_settings \<Rightarrow> buffer_setting" where
  "buffer_setting_of s = \<lparr>s_size = size_bytes s, s_contiguous = is_physically_contiguous s, s_secure = is_secure s,
     s_domain = coherency_domain s, s_heap = heap s\<rparr>"

lemma generated_memory:
  assumes "GenerateUnpopulatedBufferCollectionInfo lib k al dev c = Some (Inr info)"
    and "min_size_bytes (buffer_memory_constraints c) \<le> max_size_bytes (buffer_memory_constraints c)"
  shows "memory_sat (buffer_memory_constraints c) (buffer_setting_of (r_buffer_settings info))"
proof -
  let ?m = "buffer_memory_constraints c"
  obtain n h props d where g: "GetHeap dev ?m = Some (Inr h)" "GetCoherencyDomain c props = Some (Some d)"
    "generate_sizes lib k al dev c n
      \<lparr>size_bytes = 0, is_physically_contiguous = physically_contiguous_required ?m,
       is_secure = secure_required ?m, coherency_domain = d, heap = h\<rparr> = Some (Inr info)"
    using generate_Some [OF assms(1)] by blast
  obtain sz where s: "buffer_size lib al ?m (r_image_format_constraints info) = Some (Some sz)" "1 \<le> sz"
    "r_buffer_settings info = \<lparr>size_bytes = sz, is_physically_contiguous = physically_contiguous_required ?m,
       is_secure = secure_required ?m, coherency_domain = d, heap = h\<rparr>"
    using generate_sizes_Some [OF g(3)] by auto
  have "domain_supported ?m d" using GetCoherencyDomain_Some [OF g(2)] by (cases d) simp_all
  then show ?thesis
    using s(2) buffer_size_Some [OF s(1) assms(2)] GetHeap_permitted(1) [OF g(1)]
    by (simp add: memory_sat_def buffer_setting_of_def s(3))
qed

lemma generated_count:
  assumes "GenerateUnpopulatedBufferCollectionInfo lib k al dev c = Some (Inr info)"
  shows "min_buffer_count c \<le> length (vmo_usable_starts info) \<and> length (vmo_usable_starts info) \<le> max_buffer_count c"
  using generate_Some [OF assms] generate_sizes_Some by fastforce

lemma generated_image:
  assumes "GenerateUnpopulatedBufferCollectionInfo lib k al dev c = Some (Inr info)"
  shows "case r_image_format_constraints info of
      None \<Rightarrow> image_format_constraints c = []
    | Some i \<Rightarrow> i \<in> set (image_format_constraints c)"
proof -
  obtain s where "pick_image lib k dev c s = Some (Inr (r_image_format_constraints info))"
    using generate_Some [OF assms] generate_sizes_Some by blast
  from pick_image_Inr [OF this] show ?thesis
    using best_format_least [of lib k dev c s] by (auto split: option.splits)
qed

text \<open>
  C15: From the tables of the participants to the settings of the buffers: when \<open>CombineConstraints\<close> accepts the tables and
  \<open>GenerateUnpopulatedBufferCollectionInfo\<close> turns the result into settings, every participant can
  use the buffers. Its table passed the checks, the memory settings satisfy its memory constraints, the number of buffers is
  within its bounds, it gave no image formats if no image format was chosen, and every image that the chosen format admits is
  admitted by one of its formats, if it gave any.
\<close>

theorem settings_suit_every_participant:
  assumes "lib_ok lib" "CombineConstraints lib n ws = Some (Some c)" "w \<in> set ws"
    and "GenerateUnpopulatedBufferCollectionInfo lib k al dev c = Some (Inr info)"
  shows "\<exists>p. CheckSanitizeBufferCollectionConstraints lib kNotAggregated w = Some (Some p) \<and>
    memory_sat (buffer_memory_constraints p) (buffer_setting_of (r_buffer_settings info)) \<and>
    min_buffer_count p \<le> length (vmo_usable_starts info) \<and> length (vmo_usable_starts info) \<le> max_buffer_count p \<and>
    (case r_image_format_constraints info of
       None \<Rightarrow> image_format_constraints p = []
     | Some i \<Rightarrow> \<forall>x. image_admits lib i x \<longrightarrow>
         image_format_constraints p = [] \<or> images_admit lib (image_format_constraints p) x)"
proof -
  obtain p where p: "sanitized lib w p" "collection_within lib c p"
    using CombineConstraints_within [OF assms(1-3)] by blast
  have "\<forall>x. image_admits lib i x \<longrightarrow> images_admit lib (image_format_constraints c) x"
    if "r_image_format_constraints info = Some i" for i
    using generated_image [OF assms(4)] that by (auto simp: images_admit_def)
  moreover have "image_format_constraints c = []" if "r_image_format_constraints info = None"
    using generated_image [OF assms(4)] that by simp
  ultimately show ?thesis
    using p generated_memory [OF assms(4) CombineConstraints_sizes(1) [OF assms(1,2)]] generated_count [OF assms(4)]
    unfolding collection_within_def sanitized_def
    by (intro exI [of _ p]) (auto split: option.splits)
qed

theorem settings_suit_every_participant_witness:
  "\<exists>p. CheckSanitizeBufferCollectionConstraints ex_lib kNotAggregated ex_display = Some (Some p) \<and>
    memory_sat (buffer_memory_constraints p)
      \<lparr>s_size = 460800, s_contiguous = False, s_secure = False, s_domain = kRam, s_heap = kSystemRam\<rparr> \<and>
    min_buffer_count p \<le> 5 \<and> 5 \<le> max_buffer_count p"
  using settings_suit_every_participant [OF ex_lib_ok ex_combine _ ex_generate, of ex_display]
  by (auto simp: ex_info_def buffer_setting_of_def)

end
